(* ===== verification/Prelude.thy ===== *)
theory Prelude
  imports Main "HOL-Library.Multiset"
begin

text \<open>
  What the components of the notebook model share: the result type of operations that can
  throw or run into undefined behaviour, the collections of definitions and facts that the
  component proofs unfold and use, the standard-library searches the code is written with
  (\<open>std::find_if\<close>, \<open>std::unordered_map\<close>), and facts about lists of records that are looked
  up by a key.
\<close>

named_theorems store_defs
named_theorems bank_defs
named_theorems fs_defs
named_theorems wire_defs
named_theorems keyed

subsection \<open>Results\<close>

text \<open>
  A C++ call returns a value, throws, or has undefined behaviour (a null pointer is
  dereferenced, an invalidated iterator is used, a container is indexed out of range).
\<close>

datatype ('e, 'a) outcome = Ret 'a | Throw 'e | Undef

fun is_ret :: "('e, 'a) outcome \<Rightarrow> bool" where
  "is_ret (Ret _) = True"
| "is_ret _ = False"

lemma is_ret_iff: "is_ret r \<longleftrightarrow> (\<exists>x. r = Ret x)"
  by (cases r) auto

text \<open>A container operation that is called out of its precondition has undefined behaviour.\<close>

definition need :: "'a option \<Rightarrow> ('a \<Rightarrow> ('e, 'b) outcome) \<Rightarrow> ('e, 'b) outcome" where
  "need x f = (case x of None \<Rightarrow> Undef | Some a \<Rightarrow> f a)"

lemma need_simps [simp]: "need None f = Undef" "need (Some a) f = f a"
  by (simp_all add: need_def)

text \<open>
  A statement that changes a state: its outcome and the state it leaves, which an exception
  leaves as well. \<open>andthen\<close> is sequencing.
\<close>

definition andthen ::
  "('e, 'a) outcome \<times> 's \<Rightarrow> ('a \<Rightarrow> 's \<Rightarrow> ('e, 'b) outcome \<times> 't) \<Rightarrow> ('s \<Rightarrow> 't) \<Rightarrow> ('e, 'b) outcome \<times> 't" where
  "andthen r f lift =
     (case r of (Ret a, s) \<Rightarrow> f a s | (Throw e, s) \<Rightarrow> (Throw e, lift s) | (Undef, s) \<Rightarrow> (Undef, lift s))"

lemma andthen_simps [simp]:
  "andthen (Ret a, s) f lift = f a s" "andthen (Throw e, s) f lift = (Throw e, lift s)"
  "andthen (Undef, s) f lift = (Undef, lift s)"
  by (simp_all add: andthen_def)

lemma andthen_Ret_iff:
  "andthen r f lift = (Ret b, t) \<longleftrightarrow> (\<exists>a s. r = (Ret a, s) \<and> f a s = (Ret b, t))"
  by (auto simp: andthen_def split: prod.splits outcome.splits)

subsection \<open>Strings\<close>

text \<open>
  \<open>std::string\<close> is a list of bytes and may hold zero bytes; \<open>c_str()\<close> read as a C string
  stops at the first one.
\<close>

definition NUL :: char where
  "NUL = CHR 0x00"

definition c_str :: "string \<Rightarrow> string" where
  "c_str s = takeWhile (\<lambda>c. c \<noteq> NUL) s"

lemma c_str_idem [simp]: "c_str (c_str s) = c_str s"
  by (simp add: c_str_def takeWhile_idem)

lemma c_str_id: "NUL \<notin> set s \<Longrightarrow> c_str s = s"
  by (auto simp: c_str_def takeWhile_eq_all_conv)

lemma c_str_append_NUL: "NUL \<notin> set s \<Longrightarrow> c_str (s @ NUL # t) = s"
  by (auto simp: c_str_def takeWhile_append2 takeWhile_tail)

subsection \<open>\<open>std::find_if\<close> and the position it returns\<close>

fun find_index :: "('a \<Rightarrow> bool) \<Rightarrow> 'a list \<Rightarrow> nat" where
  "find_index P [] = 0"
| "find_index P (x # xs) = (if P x then 0 else Suc (find_index P xs))"

lemma find_index_le: "find_index P xs \<le> length xs"
  by (induction xs) auto

lemma find_index_less_iff: "find_index P xs < length xs \<longleftrightarrow> (\<exists>x \<in> set xs. P x)"
  by (induction xs) auto

lemma find_index_end_iff: "find_index P xs = length xs \<longleftrightarrow> (\<forall>x \<in> set xs. \<not> P x)"
  using find_index_le [of P xs] find_index_less_iff [of P xs] by (auto simp: less_le)

lemma find_index_nth: "find_index P xs < length xs \<Longrightarrow> P (xs ! find_index P xs)"
  by (induction xs) auto

lemma find_index_before: "i < find_index P xs \<Longrightarrow> \<not> P (xs ! i)"
  by (induction xs arbitrary: i) (auto simp: nth_Cons split: if_splits nat.splits)

lemma find_find_index:
  "find P xs = (if find_index P xs < length xs then Some (xs ! find_index P xs) else None)"
  by (induction xs) auto

subsection \<open>Removal by swapping with the last element\<close>

definition swap_remove :: "nat \<Rightarrow> 'a list \<Rightarrow> 'a list" where
  "swap_remove i xs = butlast (xs[i := last xs])"

lemma swap_remove_snoc:
  "swap_remove i (xs @ [x]) = (if i < length xs then xs[i := x] else xs)"
  by (auto simp: swap_remove_def list_update_append butlast_append split: nat.splits)

lemma length_swap_remove [simp]: "length (swap_remove i xs) = length xs - 1"
  by (simp add: swap_remove_def)

lemma mset_swap_remove:
  assumes "i < length xs"
  shows "mset (swap_remove i xs) = mset xs - {#xs ! i#}"
proof (cases xs rule: rev_cases)
  case Nil
  with assms show ?thesis by simp
next
  case (snoc ys y)
  then show ?thesis
    using assms by (auto simp: swap_remove_snoc mset_update nth_append not_less less_Suc_eq)
qed

lemma swap_remove_map: "i < length xs \<Longrightarrow> map f (swap_remove i xs) = swap_remove i (map f xs)"
  by (cases xs rule: rev_cases) (auto simp: swap_remove_snoc map_update)

lemma set_swap_remove_subset: "i < length xs \<Longrightarrow> set (swap_remove i xs) \<subseteq> set xs"
  using mset_swap_remove [of i xs] by (metis diff_subset_eq_self set_mset_mono set_mset_mset)

lemma distinct_swap_remove:
  assumes "distinct xs" "i < length xs"
  shows "distinct (swap_remove i xs)"
proof (cases xs rule: rev_cases)
  case Nil
  with assms show ?thesis by simp
next
  case (snoc ys y)
  then show ?thesis using assms by (auto simp: swap_remove_snoc distinct_list_update)
qed

lemma set_swap_remove:
  assumes "distinct xs" "i < length xs"
  shows "set (swap_remove i xs) = set xs - {xs ! i}"
proof -
  have "set_mset (mset xs - {#xs ! i#}) = set_mset (mset xs) - {xs ! i}"
    using assms(1) by (simp add: at_most_one_mset_mset_diff distinct_count_atmost_1 in_diff_count set_eq_iff)
  then show ?thesis using mset_swap_remove [OF assms(2)] by (metis set_mset_mset)
qed

subsection \<open>Lists of records looked up by a key\<close>

text \<open>
  \<open>first_with key k xs\<close> is the record a \<open>std::find_if\<close> over the key finds. With distinct
  keys it behaves as a finite map.
\<close>

definition first_with :: "('a \<Rightarrow> 'k) \<Rightarrow> 'k \<Rightarrow> 'a list \<Rightarrow> 'a option" where
  "first_with key k xs = find (\<lambda>x. key x = k) xs"

lemma first_with_simps [simp]:
  "first_with key k [] = None"
  "first_with key k (x # xs) = (if key x = k then Some x else first_with key k xs)"
  by (simp_all add: first_with_def)

lemma first_with_append [simp]:
  "first_with key k (xs @ ys) =
     (case first_with key k xs of None \<Rightarrow> first_with key k ys | Some x \<Rightarrow> Some x)"
  by (induction xs) auto

lemma first_with_None_iff: "first_with key k xs = None \<longleftrightarrow> k \<notin> key ` set xs"
  by (induction xs) auto

lemma first_with_SomeD: "first_with key k xs = Some x \<Longrightarrow> x \<in> set xs \<and> key x = k"
  by (induction xs) (auto split: if_splits)

lemma first_with_Some_iff:
  "distinct (map key xs) \<Longrightarrow> first_with key k xs = Some x \<longleftrightarrow> x \<in> set xs \<and> key x = k"
  by (induction xs) auto

lemma first_with_index:
  "first_with key k xs =
     (let i = find_index (\<lambda>x. key x = k) xs in if i < length xs then Some (xs ! i) else None)"
  by (simp add: first_with_def find_find_index Let_def)

lemma first_with_set_eq:
  assumes "distinct (map key xs)" "distinct (map key ys)" "set xs = set ys"
  shows "first_with key k xs = first_with key k ys"
proof (cases "first_with key k ys")
  case None
  then have "first_with key k xs = None" by (simp add: first_with_None_iff assms(3))
  with None show ?thesis by simp
next
  case (Some y)
  then have "first_with key k xs = Some y" using assms by (simp add: first_with_Some_iff)
  with Some show ?thesis by simp
qed

lemma find_index_key_end [keyed]:
  "find_index (\<lambda>x. key x = k) xs = length xs \<longleftrightarrow> first_with key k xs = None"
  by (auto simp: find_index_end_iff first_with_None_iff)

lemma find_index_key_less [keyed]:
  "find_index (\<lambda>x. key x = k) xs < length xs \<longleftrightarrow> first_with key k xs \<noteq> None"
  by (auto simp: find_index_less_iff first_with_None_iff)

lemma nth_find_index_key [keyed]:
  "first_with key k xs = Some x \<Longrightarrow> xs ! find_index (\<lambda>x. key x = k) xs = x"
  by (auto simp: first_with_index Let_def split: if_splits)

lemma first_with_swap_remove:
  assumes "distinct (map key xs)" "find_index (\<lambda>x. key x = k) xs = i" "i < length xs"
  shows "first_with key k' (swap_remove i xs) = (if k' = k then None else first_with key k' xs)"
proof -
  have d: "distinct xs" using assms(1) by (simp add: distinct_map)
  have i: "key (xs ! i) = k" using find_index_nth assms(2,3) by blast
  have s: "set (swap_remove i xs) = set xs - {xs ! i}" using d assms(3) by (rule set_swap_remove)
  have dk: "distinct (map key (swap_remove i xs))"
    using assms by (simp add: swap_remove_map distinct_swap_remove)
  show ?thesis
  proof (cases "k' = k")
    case True
    have "\<forall>x \<in> set xs - {xs ! i}. key x \<noteq> k"
      using assms(1,3) i by (auto simp: distinct_map inj_on_def)
    then show ?thesis using s True by (auto simp: first_with_None_iff)
  next
    case False
    have "first_with key k' (swap_remove i xs) = Some x \<longleftrightarrow> first_with key k' xs = Some x" for x
      using False i by (simp add: first_with_Some_iff assms(1) dk s) auto
    then show ?thesis using False by (metis not_None_eq)
  qed
qed

lemma first_with_update:
  assumes "distinct (map key xs)" "find_index (\<lambda>x. key x = k) xs = i" "i < length xs" "key y = k"
  shows "first_with key k' (xs[i := y]) = (if k' = k then Some y else first_with key k' xs)"
  using assms
proof (induction xs arbitrary: i)
  case Nil
  then show ?case by simp
next
  case (Cons x xs)
  show ?case
  proof (cases "key x = k")
    case True
    with Cons.prems have "i = 0" by simp
    with True Cons.prems show ?thesis by auto
  next
    case False
    with Cons.prems obtain j where "i = Suc j" "find_index (\<lambda>x. key x = k) xs = j" "j < length xs" by auto
    with Cons.IH [of j] Cons.prems False show ?thesis by auto
  qed
qed

lemma map_key_update:
  assumes "find_index (\<lambda>x. key x = k) xs < length xs" "key y = k"
  shows "map key (xs[find_index (\<lambda>x. key x = k) xs := y]) = map key xs"
  using assms find_index_nth [OF assms(1)] by (metis list_update_id map_update)

subsection \<open>\<open>std::unordered_map\<close>\<close>

text \<open>
  The map from ids to names is an association list with distinct keys. The order of the list
  is the iteration order of the container, which the standard leaves open; what depends on
  it is stated where it is used.
\<close>

definition emplace :: "'k \<Rightarrow> 'v \<Rightarrow> ('k \<times> 'v) list \<Rightarrow> ('k \<times> 'v) list" where
  "emplace k v m = (if k \<in> fst ` set m then m else m @ [(k, v)])"

definition map_erase :: "'k \<Rightarrow> ('k \<times> 'v) list \<Rightarrow> ('k \<times> 'v) list" where
  "map_erase k m = filter (\<lambda>kv. fst kv \<noteq> k) m"

definition has_key :: "'k \<Rightarrow> ('k \<times> 'v) list \<Rightarrow> bool" where
  "has_key k m \<longleftrightarrow> k \<in> fst ` set m"

lemma has_key_map_of: "has_key k m \<longleftrightarrow> map_of m k \<noteq> None"
  by (simp add: has_key_def map_of_eq_None_iff)

lemma emplace_fresh [simp]: "\<not> has_key k m \<Longrightarrow> emplace k v m = m @ [(k, v)]"
  by (simp add: emplace_def has_key_def)

lemma map_of_emplace:
  "map_of (emplace k v m) = (if has_key k m then map_of m else (map_of m)(k \<mapsto> v))"
proof (cases "has_key k m")
  case True
  then show ?thesis by (simp add: emplace_def has_key_def)
next
  case False
  then have "map_of m k = None" by (simp add: has_key_map_of)
  then show ?thesis using False by (auto simp: map_add_def fun_eq_iff split: option.splits)
qed

lemma distinct_emplace: "distinct (map fst m) \<Longrightarrow> distinct (map fst (emplace k v m))"
  by (auto simp: emplace_def)

lemma distinct_erase: "distinct (map fst m) \<Longrightarrow> distinct (map fst (map_erase k m))"
  by (induction m) (auto simp: map_erase_def)

lemma map_of_erase: "map_of (map_erase k m) = (map_of m)(k := None)"
  by (induction m) (auto simp: map_erase_def fun_eq_iff)

lemma snd_erase_subset: "snd ` set (map_erase k m) \<subseteq> snd ` set m"
  by (auto simp: map_erase_def)

end
