(* ===== verification/FileSystem.thy ===== *)
theory FileSystem
  imports Prelude "HOL-Library.AList" "HOL-Library.Sublist"
begin

text \<open>
  The part of \<open>std::filesystem\<close>, \<open>std::ifstream\<close> and \<open>std::ofstream\<close> that
  \<open>notebook_impl.cpp\<close> and \<open>question_answer_impl.cpp\<close> call, on a Windows path syntax (the
  program joins with a backslash; the standard library reads both separators). A file system
  is a list of named nodes; a path string denotes the list of its components. Entries in
  \<open>fs_locked\<close> refuse changes (an open handle, missing rights), so that the error branches of
  the callers can be reached. Not modelled: links, case folding, \<open>.\<close> and \<open>..\<close>, a bank that
  is the root directory of a drive, and status queries that fail.
\<close>

subsection \<open>Paths\<close>

type_synonym path = "string list"

definition is_sep :: "char \<Rightarrow> bool" where
  "is_sep c \<longleftrightarrow> c = CHR ''/'' \<or> c = CHR 0x5C"

definition sep :: string where
  "sep = [CHR 0x5C]"

lemma is_sep_simps [simp]: "is_sep (CHR 0x5C)" "is_sep (CHR ''/'')"
  by (simp_all add: is_sep_def)

lemma length_dropWhile_less_Suc [termination_simp]: "length (dropWhile P xs) < Suc (length xs)"
  by (simp add: length_dropWhile_le le_imp_less_Suc)

fun components :: "string \<Rightarrow> path" where
  "components [] = []"
| "components (c # cs) =
     (if is_sep c then components cs
      else takeWhile (\<lambda>c. \<not> is_sep c) (c # cs) # components (dropWhile (\<lambda>c. \<not> is_sep c) (c # cs)))"

text \<open>A file name: not empty and without separators.\<close>

definition valid_name :: "string \<Rightarrow> bool" where
  "valid_name n \<longleftrightarrow> n \<noteq> [] \<and> (\<forall>c \<in> set n. \<not> is_sep c)"

lemma no_sep_simps [simp]:
  "\<forall>c \<in> set n. \<not> is_sep c \<Longrightarrow> takeWhile (\<lambda>c. \<not> is_sep c) n = n"
  "\<forall>c \<in> set n. \<not> is_sep c \<Longrightarrow> dropWhile (\<lambda>c. \<not> is_sep c) n = []"
  by (simp_all add: takeWhile_eq_all_conv dropWhile_eq_Nil_conv)

lemma components_append_sep: "is_sep c \<Longrightarrow> components (p @ c # n) = components p @ components n"
  by (induction p rule: components.induct)
     (auto simp: takeWhile_append takeWhile_tail dropWhile_append)

lemma components_name: "valid_name n \<Longrightarrow> components n = [n]"
  by (cases n) (auto simp: valid_name_def)

text \<open>\<open>dir + "\\" + name\<close>, as the program builds paths.\<close>

definition join_path :: "string \<Rightarrow> string \<Rightarrow> string" where
  "join_path p n = p @ sep @ n"

lemma components_join: "valid_name n \<Longrightarrow> components (join_path p n) = components p @ [n]"
  by (simp add: join_path_def sep_def components_append_sep components_name)

text \<open>\<open>operator/\<close>, \<open>filename()\<close> and \<open>parent_path()\<close> of \<open>std::filesystem::path\<close>.\<close>

definition path_append :: "string \<Rightarrow> string \<Rightarrow> string" where
  "path_append p n = (if p = [] \<or> is_sep (last p) then p @ n else join_path p n)"

definition path_filename :: "string \<Rightarrow> string" where
  "path_filename p = rev (takeWhile (\<lambda>c. \<not> is_sep c) (rev p))"

definition path_parent :: "string \<Rightarrow> string" where
  "path_parent p = rev (dropWhile is_sep (dropWhile (\<lambda>c. \<not> is_sep c) (rev p)))"

lemma filename_join: "valid_name n \<Longrightarrow> path_filename (join_path p n) = n"
  by (auto simp: path_filename_def join_path_def sep_def valid_name_def takeWhile_append takeWhile_tail)

lemma filename_append: "valid_name n \<Longrightarrow> path_filename (path_append p n) = n"
proof (cases "p = [] \<or> is_sep (last p)")
  case True
  assume n: "valid_name n"
  show ?thesis
  proof (cases p rule: rev_cases)
    case Nil
    then show ?thesis using n
      by (simp add: path_filename_def path_append_def valid_name_def)
  next
    case (snoc q c)
    then show ?thesis using n True
      by (auto simp: path_filename_def path_append_def valid_name_def takeWhile_append takeWhile_tail)
  qed
qed (simp add: path_append_def filename_join)

lemma parent_join:
  "valid_name n \<Longrightarrow> p \<noteq> [] \<Longrightarrow> \<not> is_sep (last p) \<Longrightarrow> path_parent (join_path p n) = p"
  by (cases p rule: rev_cases)
     (auto simp: path_parent_def join_path_def sep_def valid_name_def dropWhile_append)

subsection \<open>Nodes\<close>

datatype node = Dir | File string

record fs =
  fs_nodes :: "(path \<times> node) list"
  fs_locked :: "path list"

datatype fs_error = FsError string string

type_synonym 'a fs_result = "(fs_error, 'a) outcome \<times> fs"

definition node_at :: "fs \<Rightarrow> path \<Rightarrow> node option" where
  "node_at F p = (if p = [] then None else map_of (fs_nodes F) p)"

definition put_node :: "path \<Rightarrow> node \<Rightarrow> fs \<Rightarrow> fs" where
  "put_node p n F = F\<lparr>fs_nodes := AList.update p n (fs_nodes F)\<rparr>"

definition drop_nodes :: "(path \<Rightarrow> bool) \<Rightarrow> fs \<Rightarrow> fs" where
  "drop_nodes P F = F\<lparr>fs_nodes := filter (\<lambda>kn. \<not> P (fst kn)) (fs_nodes F)\<rparr>"

definition locked_below :: "fs \<Rightarrow> path \<Rightarrow> bool" where
  "locked_below F p \<longleftrightarrow> (\<exists>q \<in> set (fs_locked F). prefix p q)"

definition has_children :: "fs \<Rightarrow> path \<Rightarrow> bool" where
  "has_children F p \<longleftrightarrow> (\<exists>q \<in> set (map fst (fs_nodes F)). strict_prefix p q)"

text \<open>A new node can be made at \<open>p\<close>: its directory exists and nothing refuses the change.\<close>

definition can_create :: "fs \<Rightarrow> path \<Rightarrow> bool" where
  "can_create F p \<longleftrightarrow> p \<noteq> [] \<and> node_at F (butlast p) = Some Dir \<and> p \<notin> set (fs_locked F)"

lemma node_at_put [fs_defs]: "node_at (put_node p n F) q = (if q = p \<and> p \<noteq> [] then Some n else node_at F q)"
  by (auto simp: node_at_def put_node_def update_conv)

lemma map_of_filter_keys:
  "map_of (filter (\<lambda>kn. \<not> P (fst kn)) xs) k = (if P k then None else map_of xs k)"
  by (induction xs) auto

lemma node_at_drop [fs_defs]: "node_at (drop_nodes P F) q = (if P q then None else node_at F q)"
  by (simp add: node_at_def drop_nodes_def map_of_filter_keys)

lemma locked_put [fs_defs]: "fs_locked (put_node p n F) = fs_locked F"
  by (simp add: put_node_def)

lemma locked_drop [fs_defs]: "fs_locked (drop_nodes P F) = fs_locked F"
  by (simp add: drop_nodes_def)

subsection \<open>Operations\<close>

definition fs_exists :: "fs \<Rightarrow> string \<Rightarrow> bool" where
  "fs_exists F s \<longleftrightarrow> node_at F (components s) \<noteq> None"

definition fs_is_directory :: "fs \<Rightarrow> string \<Rightarrow> bool" where
  "fs_is_directory F s \<longleftrightarrow> node_at F (components s) = Some Dir"

definition fs_create_directory :: "string \<Rightarrow> fs \<Rightarrow> bool fs_result" where
  "fs_create_directory s F =
     (let p = components s in
      if node_at F p = Some Dir then (Ret False, F)
      else if node_at F p = None \<and> can_create F p then (Ret True, put_node p Dir F)
      else (Throw (FsError ''create_directory'' s), F))"

definition fs_read :: "fs \<Rightarrow> string \<Rightarrow> string option" where
  "fs_read F s = (case node_at F (components s) of Some (File bs) \<Rightarrow> Some bs | _ \<Rightarrow> None)"

text \<open>
  \<open>ofstream(path)\<close>, writes and \<open>close()\<close>: a stream that cannot be opened drops what is
  written to it and reports nothing.
\<close>

definition fs_write :: "string \<Rightarrow> string \<Rightarrow> fs \<Rightarrow> fs" where
  "fs_write s bs F =
     (let p = components s in
      case node_at F p of
        Some Dir \<Rightarrow> F
      | Some (File _) \<Rightarrow> if p \<in> set (fs_locked F) then F else put_node p (File bs) F
      | None \<Rightarrow> if can_create F p then put_node p (File bs) F else F)"

definition fs_remove :: "string \<Rightarrow> fs \<Rightarrow> bool fs_result" where
  "fs_remove s F =
     (let p = components s in
      if node_at F p = None then (Ret False, F)
      else if p \<in> set (fs_locked F) \<or> (node_at F p = Some Dir \<and> has_children F p)
      then (Throw (FsError ''remove'' s), F)
      else (Ret True, drop_nodes (\<lambda>q. q = p) F))"

text \<open>
  \<open>remove_all\<close> that meets a locked entry throws; what it has removed by then is open, so it
  is the argument \<open>partial\<close>.
\<close>

definition fs_remove_all :: "(fs \<Rightarrow> path \<Rightarrow> fs) \<Rightarrow> string \<Rightarrow> fs \<Rightarrow> unit fs_result" where
  "fs_remove_all partial s F =
     (let p = components s in
      if node_at F p = None then (Ret (), F)
      else if locked_below F p then (Throw (FsError ''remove_all'' s), partial F p)
      else (Ret (), drop_nodes (prefix p) F))"

definition move_path :: "path \<Rightarrow> path \<Rightarrow> path \<Rightarrow> path" where
  "move_path p q r = (if prefix p r then q @ drop (length p) r else r)"

definition move_nodes :: "path \<Rightarrow> path \<Rightarrow> fs \<Rightarrow> fs" where
  "move_nodes p q F = F\<lparr>fs_nodes := map (\<lambda>(r, n). (move_path p q r, n)) (fs_nodes F)\<rparr>"

text \<open>
  \<open>rename\<close> (\<open>MoveFileEx\<close>): the source must exist, the target's directory must exist, a file
  replaces a file, nothing replaces a directory, and a directory does not move into itself.
\<close>

definition fs_rename :: "string \<Rightarrow> string \<Rightarrow> fs \<Rightarrow> unit fs_result" where
  "fs_rename s d F =
     (let p = components s; q = components d in
      if node_at F p = None then (Throw (FsError ''rename'' s), F)
      else if p = q then (Ret (), F)
      else if locked_below F p \<or> strict_prefix p q then (Throw (FsError ''rename'' s), F)
      else (case node_at F q of
              None \<Rightarrow> if can_create F q then (Ret (), move_nodes p q F)
                     else (Throw (FsError ''rename'' s), F)
            | Some (File _) \<Rightarrow>
                if node_at F p = Some Dir \<or> q \<in> set (fs_locked F) then (Throw (FsError ''rename'' s), F)
                else (Ret (), move_nodes p q (drop_nodes (\<lambda>r. r = q) F))
            | Some Dir \<Rightarrow> (Throw (FsError ''rename'' s), F)))"

text \<open>What lies below a directory, in the order of the node list.\<close>

definition fs_below :: "fs \<Rightarrow> path \<Rightarrow> path list" where
  "fs_below F p = filter (strict_prefix p) (map fst (fs_nodes F))"

subsection \<open>What the operations guarantee\<close>

text \<open>A well-formed file system: one node per path, and every node but a drive has its directory.\<close>

definition wf_fs :: "fs \<Rightarrow> bool" where
  "wf_fs F \<longleftrightarrow> distinct (map fst (fs_nodes F)) \<and>
     (\<forall>p. node_at F p \<noteq> None \<longrightarrow> length p > 1 \<longrightarrow> node_at F (butlast p) = Some Dir)"

lemma wf_fsD:
  "wf_fs F \<Longrightarrow> node_at F p = Some n \<Longrightarrow> length p > 1 \<Longrightarrow> node_at F (butlast p) = Some Dir"
  by (auto simp: wf_fs_def)

lemma node_at_Nil [simp]: "node_at F [] = None"
  by (simp add: node_at_def)

lemma node_at_in_keys: "node_at F p = Some n \<Longrightarrow> p \<in> set (map fst (fs_nodes F))"
  by (auto simp: node_at_def dest!: map_of_SomeD split: if_splits) (metis fst_conv image_eqI)

lemma wf_fs_prefix_Dir:
  assumes "wf_fs F" "node_at F (p @ q) = Some n" "p \<noteq> []" "q \<noteq> []"
  shows "node_at F p = Some Dir"
  using assms(2,4)
proof (induction q arbitrary: n rule: rev_induct)
  case Nil
  then show ?case by simp
next
  case (snoc x xs)
  then have d: "node_at F (p @ xs) = Some Dir"
    using wf_fsD [OF assms(1) snoc.prems(1)] assms(3) by (auto simp: butlast_append)
  show ?case
  proof (cases "xs = []")
    case True
    with d show ?thesis by simp
  next
    case False
    with snoc.IH d show ?thesis by blast
  qed
qed

lemma wf_fs_None_below:
  "wf_fs F \<Longrightarrow> node_at F p = None \<Longrightarrow> p \<noteq> [] \<Longrightarrow> node_at F (p @ q) = None"
  using wf_fs_prefix_Dir [of F p q] by (cases "q = []"; cases "node_at F (p @ q)") auto

lemma wf_fs_put:
  assumes "wf_fs F" "node_at F (butlast p) = Some Dir" "p \<noteq> []" "node_at F p \<noteq> Some Dir"
  shows "wf_fs (put_node p n F)"
proof -
  have ne: "butlast p \<noteq> p" using assms(3) by (metis append_butlast_last_id not_Cons_self2 append_self_conv)
  have "distinct (map fst (fs_nodes (put_node p n F)))"
    using assms(1) by (simp add: wf_fs_def put_node_def distinct_update)
  moreover have "node_at (put_node p n F) (butlast r) = Some Dir"
    if "node_at (put_node p n F) r \<noteq> None" "length r > 1" for r
  proof (cases "r = p")
    case True
    then show ?thesis using assms(2) ne by (simp add: node_at_put)
  next
    case False
    then have "node_at F (butlast r) = Some Dir"
      using that assms(1) by (auto simp: wf_fs_def node_at_put)
    then show ?thesis using assms(4) by (auto simp: node_at_put)
  qed
  ultimately show ?thesis by (simp add: wf_fs_def)
qed

lemma wf_fs_drop:
  assumes "wf_fs F" "\<And>p. P (butlast p) \<Longrightarrow> node_at F p \<noteq> None \<Longrightarrow> length p > 1 \<Longrightarrow> P p"
  shows "wf_fs (drop_nodes P F)"
proof -
  have "distinct (map fst (fs_nodes (drop_nodes P F)))"
    using assms(1) by (auto simp: wf_fs_def drop_nodes_def distinct_map_filter)
  then show ?thesis using assms by (auto simp: wf_fs_def node_at_drop)
qed

lemma fs_create_directory_Ret:
  "fs_create_directory s F = (Ret b, F') \<Longrightarrow>
     fs_is_directory F' s \<and> (\<forall>q. q \<noteq> components s \<longrightarrow> node_at F' q = node_at F q) \<and> fs_locked F' = fs_locked F"
  by (auto simp: fs_create_directory_def fs_is_directory_def Let_def node_at_put locked_put can_create_def
      split: if_splits)

lemma fs_create_directory_fresh:
  "\<not> fs_exists F s \<Longrightarrow> fst (fs_create_directory s F) \<noteq> Ret False"
  by (simp add: fs_create_directory_def fs_exists_def Let_def)

lemma fs_create_directory_Throw: "fs_create_directory s F = (Throw e, F') \<Longrightarrow> F' = F"
  by (auto simp: fs_create_directory_def Let_def split: if_splits)

lemma fs_create_directory_defined: "fst (fs_create_directory s F) \<noteq> Undef"
  by (simp add: fs_create_directory_def Let_def)

text \<open>A file can be written where it exists unlocked, or where it can be made.\<close>

definition can_write :: "fs \<Rightarrow> string \<Rightarrow> bool" where
  "can_write F s \<longleftrightarrow>
     (case node_at F (components s) of
        Some Dir \<Rightarrow> False
      | Some (File _) \<Rightarrow> components s \<notin> set (fs_locked F)
      | None \<Rightarrow> can_create F (components s))"

lemma fs_write_blocked: "\<not> can_write F s \<Longrightarrow> fs_write s bs F = F"
  by (auto simp: can_write_def fs_write_def Let_def split: option.splits node.splits)

lemma fs_write_put: "can_write F s \<Longrightarrow> fs_write s bs F = put_node (components s) (File bs) F"
  by (auto simp: can_write_def fs_write_def Let_def split: option.splits node.splits)

lemma can_write_nonempty: "can_write F s \<Longrightarrow> components s \<noteq> []"
  by (auto simp: can_write_def can_create_def split: option.splits)

lemma fs_read_write: "can_write F s \<Longrightarrow> fs_read (fs_write s bs F) s = Some bs"
  using can_write_nonempty [of F s] by (simp add: fs_write_put fs_read_def node_at_put)

lemma fs_exists_write: "can_write F s \<Longrightarrow> fs_exists (fs_write s bs F) s"
  using can_write_nonempty [of F s] by (simp add: fs_write_put fs_exists_def node_at_put)

lemma node_at_write_other: "q \<noteq> components s \<Longrightarrow> node_at (fs_write s bs F) q = node_at F q"
  by (cases "can_write F s") (simp_all add: fs_write_put fs_write_blocked node_at_put)

lemma fs_remove_Ret:
  "fs_remove s F = (Ret b, F') \<Longrightarrow>
     \<not> fs_exists F' s \<and> (\<forall>q. q \<noteq> components s \<longrightarrow> node_at F' q = node_at F q)"
  by (auto simp: fs_remove_def fs_exists_def Let_def node_at_drop split: if_splits)

lemma fs_remove_all_Ret:
  "fs_remove_all part s F = (Ret u, F') \<Longrightarrow> wf_fs F \<Longrightarrow>
     node_at F' q = (if prefix (components s) q \<and> components s \<noteq> [] then None else node_at F q)"
  using wf_fs_None_below [of F "components s"]
  by (auto simp: fs_remove_all_def Let_def node_at_drop prefix_def split: if_splits)

subsection \<open>Renaming a directory\<close>

lemma map_of_map_key:
  "inj_on f (insert r (fst ` set xs)) \<Longrightarrow> map_of (map (\<lambda>(r, n). (f r, n)) xs) (f r) = map_of xs r"
  by (induction xs) (auto simp: inj_on_def)

lemma map_of_map_key_None:
  "k \<notin> f ` fst ` set xs \<Longrightarrow> map_of (map (\<lambda>(r, n). (f r, n)) xs) k = None"
  by (induction xs) auto

lemma inj_move_path:
  assumes "\<And>r. r \<in> R \<Longrightarrow> \<not> prefix p r \<Longrightarrow> \<not> prefix q r"
  shows "inj_on (move_path p q) R"
proof (rule inj_onI)
  fix x y
  assume xy: "x \<in> R" "y \<in> R" "move_path p q x = move_path p q y"
  then show "x = y"
    using assms [of x] assms [of y]
    by (cases "prefix p x"; cases "prefix p y") (auto simp: move_path_def prefix_def)
qed

lemma keys_not_below:
  assumes "wf_fs F" "node_at F q = None" "q \<noteq> []" "r \<in> fst ` set (fs_nodes F)"
  shows "\<not> prefix q r"
proof
  assume "prefix q r"
  then obtain s where s: "r = q @ s" by (auto simp: prefix_def)
  then have "node_at F r = None" using wf_fs_None_below [OF assms(1-3)] by simp
  then show False using assms(3,4) s by (simp add: node_at_def map_of_eq_None_iff)
qed

text \<open>
  A successful rename onto a free name carries everything below the source to the target
  and changes nothing else.
\<close>

lemma node_at_move:
  assumes wf: "wf_fs F" and q: "node_at F q = None" "q \<noteq> []"
    and p: "node_at F p \<noteq> None" and np: "\<not> prefix p q"
  shows "node_at (move_nodes p q F) (q @ r) = node_at F (p @ r)"
    and "node_at (move_nodes p q F) (p @ r) = None"
    and "\<not> prefix p t \<Longrightarrow> \<not> prefix q t \<Longrightarrow> node_at (move_nodes p q F) t = node_at F t"
proof -
  have pne: "p \<noteq> []" using p by auto
  have nq: "\<not> prefix q p"
    using keys_not_below [OF wf q] p node_at_in_keys by fastforce
  have keys: "\<not> prefix q x" if "x \<in> fst ` set (fs_nodes F)" for x
    using keys_not_below [OF wf q that] .
  have "inj_on (move_path p q) (insert (p @ r) (fst ` set (fs_nodes F)))"
    using keys by (intro inj_move_path) auto
  from map_of_map_key [OF this] show "node_at (move_nodes p q F) (q @ r) = node_at F (p @ r)"
    using q(2) pne by (simp add: node_at_def move_nodes_def move_path_def)
  have "p @ r \<noteq> move_path p q x" if "x \<in> fst ` set (fs_nodes F)" for x
    using np nq prefix_same_cases [of p "p @ r" q] by (auto simp: move_path_def)
  then have "p @ r \<notin> move_path p q ` fst ` set (fs_nodes F)" by blast
  from map_of_map_key_None [OF this] show "node_at (move_nodes p q F) (p @ r) = None"
    by (simp add: node_at_def move_nodes_def)
  assume t: "\<not> prefix p t" "\<not> prefix q t"
  then have "inj_on (move_path p q) (insert t (fst ` set (fs_nodes F)))"
    using keys by (intro inj_move_path) auto
  from map_of_map_key [OF this] show "node_at (move_nodes p q F) t = node_at F t"
    using t by (auto simp: node_at_def move_nodes_def move_path_def)
qed

lemma fs_rename_onto_free:
  assumes "fs_rename s d F = (Ret u, F')" "node_at F (components d) = None"
  shows "F' = move_nodes (components s) (components d) F" "node_at F (components s) \<noteq> None"
    "can_create F (components d)" "\<not> prefix (components s) (components d)"
  using assms by (auto simp: fs_rename_def Let_def strict_prefix_def split: if_splits)

subsection \<open>Every operation keeps the file system well-formed\<close>

lemma wf_fs_create_directory: "wf_fs F \<Longrightarrow> wf_fs (snd (fs_create_directory s F))"
  by (auto simp: fs_create_directory_def Let_def can_create_def intro!: wf_fs_put)

lemma wf_fs_write:
  assumes "wf_fs F"
  shows "wf_fs (fs_write s bs F)"
proof (cases "can_write F s \<and> length (components s) > 1")
  case True
  let ?p = "components s"
  have "node_at F (butlast ?p) = Some Dir"
    using True assms wf_fsD [OF assms, of ?p]
    by (auto simp: can_write_def can_create_def split: option.splits)
  moreover have "node_at F ?p \<noteq> Some Dir" using True by (auto simp: can_write_def)
  ultimately show ?thesis
    using True assms by (auto simp: fs_write_put intro!: wf_fs_put)
next
  case False
  show ?thesis
  proof (cases "can_write F s")
    case True
    let ?p = "components s"
    obtain x where x: "?p = [x]"
      using True False can_write_nonempty [of F s] by (cases ?p) auto
    have nD: "node_at F [x] \<noteq> Some Dir" using True by (auto simp: can_write_def x)
    have "distinct (map fst (fs_nodes (put_node [x] (File bs) F)))"
      using assms by (simp add: wf_fs_def put_node_def distinct_update)
    moreover have "node_at (put_node [x] (File bs) F) (butlast r) = Some Dir"
      if "node_at (put_node [x] (File bs) F) r \<noteq> None" "length r > 1" for r
      using that assms nD by (auto simp: wf_fs_def node_at_put split: if_splits)
    ultimately have "wf_fs (put_node [x] (File bs) F)" by (simp add: wf_fs_def)
    then show ?thesis using True by (simp add: fs_write_put x)
  qed (simp add: fs_write_blocked assms)
qed

lemma wf_fs_remove:
  assumes "wf_fs F"
  shows "wf_fs (snd (fs_remove s F))"
proof -
  have "wf_fs (drop_nodes (\<lambda>q. q = components s) F)"
    if "\<not> (node_at F (components s) = Some Dir \<and> has_children F (components s))"
  proof (rule wf_fs_drop [OF assms])
    fix p assume p: "butlast p = components s" "node_at F p \<noteq> None" "length p > 1"
    then have "node_at F (components s) = Some Dir" using wf_fsD [OF assms, of p] by auto
    moreover have "has_children F (components s)"
    proof -
      have "strict_prefix (components s) p"
        using p(1,3) by (metis append_butlast_last_id list.size(3) not_one_less_zero prefixI
            strict_prefix_def append_self_conv list.distinct(1))
      then show ?thesis using p(2) node_at_in_keys [of F p] by (fastforce simp: has_children_def)
    qed
    ultimately show "p = components s" using that by blast
  qed
  then show ?thesis using assms by (auto simp: fs_remove_def Let_def)
qed

lemma wf_fs_remove_all:
  assumes "wf_fs F" "\<not> locked_below F (components s)"
  shows "wf_fs (snd (fs_remove_all part s F))"
proof -
  have "wf_fs (drop_nodes (prefix (components s)) F)"
    by (rule wf_fs_drop [OF assms(1)])
       (metis prefix_order.trans prefixeq_butlast)
  then show ?thesis using assms by (auto simp: fs_remove_all_def Let_def)
qed

lemma wf_fs_rename_onto_free:
  assumes wf: "wf_fs F" and r: "fs_rename s d F = (Ret u, F')" "node_at F (components d) = None"
  shows "wf_fs F'"
proof -
  let ?p = "components s" and ?q = "components d"
  note R = fs_rename_onto_free [OF r]
  have q: "?q \<noteq> []" "node_at F (butlast ?q) = Some Dir" using R(3) by (auto simp: can_create_def)
  note M = node_at_move [OF wf r(2) q(1) R(2,4)]
  have "inj_on (move_path ?p ?q) (fst ` set (fs_nodes F))"
    using keys_not_below [OF wf r(2) q(1)] by (intro inj_move_path) auto
  then have d: "distinct (map fst (fs_nodes F'))"
    using wf unfolding R(1)
    by (auto simp: wf_fs_def move_nodes_def distinct_map comp_def case_prod_beta inj_on_def)
  have "node_at F' (butlast t) = Some Dir" if t: "node_at F' t \<noteq> None" "length t > 1" for t
  proof -
    consider r where "t = ?q @ r" | "\<not> prefix ?q t" "\<not> prefix ?p t"
      using t(1) M(2) unfolding R(1) by (metis prefixE)
    then show ?thesis
    proof cases
      case (1 x)
      show ?thesis
      proof (cases "x = []")
        case True
        have "butlast ?q \<noteq> ?q @ y" for y by (metis append_butlast_last_id append_eq_append_conv2 q(1) append_self_conv2 append_is_Nil_conv list.distinct(1) append.assoc same_append_eq)
        moreover have "\<not> prefix ?p (butlast ?q)" using R(4) by (metis prefix_order.trans prefixeq_butlast)
        ultimately show ?thesis using M(3) [of "butlast ?q"] q(2) 1 True R(1)
          by (auto simp: prefix_def)
      next
        case False
        have "node_at F (?p @ x) \<noteq> None" using t(1) 1 M(1) R(1) by simp
        then have "node_at F (butlast (?p @ x)) = Some Dir"
          using wf_fsD [OF wf, of "?p @ x"] False R(2) by (cases ?p; cases x) auto
        then show ?thesis using M(1) [of "butlast x"] 1 False R(1) by (simp add: butlast_append)
      qed
    next
      case 2
      then have "node_at F t \<noteq> None" using t(1) M(3) R(1) by simp
      then have dt: "node_at F (butlast t) = Some Dir" using wf_fsD [OF wf, of t] t(2) by auto
      have "\<not> prefix ?q (butlast t)" "\<not> prefix ?p (butlast t)"
        using 2 by (metis prefix_order.trans prefixeq_butlast)+
      then show ?thesis using M(3) dt R(1) by simp
    qed
  qed
  with d show ?thesis by (simp add: wf_fs_def)
qed

lemma wf_fs_rename_directory:
  assumes "wf_fs F" "node_at F (components s) = Some Dir"
  shows "wf_fs (snd (fs_rename s d F))"
proof (cases "node_at F (components d)")
  case None
  show ?thesis
  proof (cases "fs_rename s d F")
    case (Pair r F')
    show ?thesis
    proof (cases r)
      case (Ret u)
      then show ?thesis using wf_fs_rename_onto_free [OF assms(1) _ None] Pair by simp
    qed (use Pair assms None in \<open>auto simp: fs_rename_def Let_def split: if_splits\<close>)
  qed
next
  case (Some n)
  then show ?thesis using assms by (cases n) (auto simp: fs_rename_def Let_def)
qed

end
