(* ===== verification/FormatString.thy ===== *)
theory FormatString
  imports Prelude
begin

text \<open>
  \<open>src/src/notebook_utils.cpp\<close>: \<open>notebook_format_string\<close>, the printf-style helper that every
  error message of the program goes through. The C library's \<open>vsnprintf\<close> is modelled for the
  formats the program uses (plain text and \<open>%s\<close>); its output is cut to the buffer and always
  ends in a zero byte. Whether the \<open>new(std::nothrow)\<close> succeeds is an argument.
\<close>

subsection \<open>\<open>vsnprintf\<close> with \<open>%s\<close>\<close>

fun format_s :: "string \<Rightarrow> string list \<Rightarrow> string" where
  "format_s [] args = []"
| "format_s (c # cs) args =
     (if c = CHR ''%'' \<and> cs \<noteq> [] \<and> hd cs = CHR ''s'' \<and> args \<noteq> []
      then c_str (hd args) @ format_s (tl cs) (tl args)
      else c # format_s cs args)"

text \<open>
  \<open>vsnprintf(buf, n, ...)\<close> into a buffer of \<open>n\<close> zero bytes: the first \<open>n - 1\<close> characters of the
  output, then zeros. The result is the length the whole output would have.
\<close>

definition vsn_buffer :: "nat \<Rightarrow> nat \<Rightarrow> string \<Rightarrow> string" where
  "vsn_buffer cap n out =
     (let w = take (n - 1) out in w @ replicate (cap - length w) NUL)"

definition XPLAYER_BUFF_MAX_LEN :: nat where
  "XPLAYER_BUFF_MAX_LEN = 256"

text \<open>
  The function on the formatted text \<open>out\<close>: the stack buffer when it fits, else a heap buffer
  of \<open>bytes + 1\<close> zero bytes that is handed to the second \<open>vsnprintf\<close> with size \<open>bytes\<close>.
\<close>

definition notebook_format_out :: "bool \<Rightarrow> string \<Rightarrow> string" where
  "notebook_format_out alloc_ok out =
     (let bytes = length out;
          buff = vsn_buffer XPLAYER_BUFF_MAX_LEN XPLAYER_BUFF_MAX_LEN out
      in if bytes < XPLAYER_BUFF_MAX_LEN then take bytes buff
         else if \<not> alloc_ok then take XPLAYER_BUFF_MAX_LEN buff
         else (let cache = vsn_buffer (bytes + 1) bytes out in take bytes cache))"

definition notebook_format_string :: "bool \<Rightarrow> string \<Rightarrow> string list \<Rightarrow> string" where
  "notebook_format_string alloc_ok fmt args = notebook_format_out alloc_ok (format_s fmt args)"

text \<open>The piece \<open>'%s'\<close> of most messages.\<close>

definition quoted_s :: string where
  "quoted_s = [CHR 0x27, CHR ''%'', CHR ''s'', CHR 0x27]"

subsection \<open>Lemmas\<close>

lemma length_vsn_buffer: "n \<le> cap \<Longrightarrow> length (vsn_buffer cap n out) = cap"
  by (simp add: vsn_buffer_def Let_def)

lemma take_vsn_buffer_fits:
  "length out < n \<Longrightarrow> n \<le> cap \<Longrightarrow> take (length out) (vsn_buffer cap n out) = out"
  by (simp add: vsn_buffer_def Let_def)

lemma take_vsn_buffer_cut:
  assumes "n \<le> length out" "0 < n" "n \<le> cap"
  shows "take n (vsn_buffer cap n out) = take (n - 1) out @ [NUL]"
proof -
  obtain m where m: "n = Suc m" using assms(2) by (cases n) auto
  have "cap - m = Suc (cap - Suc m)" using assms(3) m by simp
  then show ?thesis using assms by (simp add: vsn_buffer_def Let_def m min_def)
qed

lemma format_out_short: "length out < 256 \<Longrightarrow> notebook_format_out a out = out"
  by (simp add: notebook_format_out_def Let_def XPLAYER_BUFF_MAX_LEN_def take_vsn_buffer_fits)

lemma format_out_long:
  assumes "256 \<le> length out"
  shows "notebook_format_out True out = butlast out @ [NUL]"
proof -
  have "take (length out) (vsn_buffer (length out + 1) (length out) out) = take (length out - 1) out @ [NUL]"
    using assms by (intro take_vsn_buffer_cut) auto
  then show ?thesis
    using assms
    by (simp add: notebook_format_out_def Let_def XPLAYER_BUFF_MAX_LEN_def butlast_conv_take)
qed

lemma format_out_no_memory:
  "256 \<le> length out \<Longrightarrow> notebook_format_out False out = take 255 out @ [NUL]"
  using take_vsn_buffer_cut [of 256 out 256]
  by (simp add: notebook_format_out_def Let_def XPLAYER_BUFF_MAX_LEN_def)

lemma format_s_no_percent: "CHR ''%'' \<notin> set fmt \<Longrightarrow> format_s fmt args = fmt"
  by (induction fmt) auto

lemma format_s_nul_free: "NUL \<notin> set fmt \<Longrightarrow> NUL \<notin> set (format_s fmt args)"
proof (induction fmt args rule: format_s.induct)
  case (1 args)
  then show ?case by simp
next
  case (2 c cs args)
  have "NUL \<notin> set (c_str s)" for s
    by (auto simp: c_str_def dest: set_takeWhileD)
  moreover have "NUL \<notin> set (tl cs)" using 2 by (cases cs) auto
  ultimately show ?case using 2 by auto
qed

end
