(* ===== verification/WireFormat.thy ===== *)
theory WireFormat
  imports Prelude "HOL-Library.Word"
begin

text \<open>
  The inline routines of the protobuf runtime that the generated serialisers call:
  \<open>io/coded_stream.h\<close> (varints, tags, length-delimited strings), \<open>wire_format_lite.h\<close> (sizes)
  and the leading-zero count of \<open>absl/numeric\<close> behind them, over byte strings. A stream is
  the list of the bytes written so far, so every writer is the bytes it appends. Lengths are
  naturals (\<open>size_t\<close> far from its limit) and are cut to 32 bits where the code casts them.
\<close>

unbundle bit_operations_syntax

subsection \<open>Varints\<close>

text \<open>
  \<open>EpsCopyOutputStream::UnsafeVarint\<close> on \<open>uint32_t\<close>: seven bits at a time, lowest first, with
  the high bit set on all bytes but the last.
\<close>

function UnsafeVarint :: "32 word \<Rightarrow> string" where
  "UnsafeVarint value =
     (if value \<ge> 0x80
      then char_of (unat (value OR 0x80)) # UnsafeVarint (drop_bit 7 value)
      else [char_of (unat value)])"
  by pat_completeness auto

lemma unat_drop_bit_div: "unat (drop_bit k v) = unat v div 2 ^ k" for v :: "'w::len word"
  by (subst unat_drop_bit_eq) (simp add: drop_bit_eq_div)

termination UnsafeVarint
proof (relation "measure unat")
  fix v :: "32 word"
  assume "v \<ge> 0x80"
  then have "128 \<le> unat v" by (simp add: word_le_nat_alt)
  then show "(drop_bit 7 v, v) \<in> measure unat" by (simp only: in_measure unat_drop_bit_div) simp
qed simp

declare UnsafeVarint.simps [simp del]

text \<open>The same on naturals: the reference for the proofs.\<close>

fun varint :: "nat \<Rightarrow> string" where
  "varint n = (if 128 \<le> n then char_of (128 + n mod 128) # varint (n div 128) else [char_of n])"

declare varint.simps [simp del]

lemma or_128_mod_256: "(n OR 128) mod 256 = (128 + n mod 128 :: nat)"
proof -
  have b: "bit n 7 \<longleftrightarrow> odd (n div 128)" by (simp add: bit_iff_odd)
  have m: "n mod 256 = n mod 128 + 128 * (n div 128 mod 2)"
    using mod_mult2_eq [of n 128 2] by simp
  have "n OR 128 = set_bit 7 n" by (simp add: set_bit_eq_or)
  then have e: "n OR 128 = n + (if odd (n div 128) then 0 else 128)"
    unfolding set_bit_eq b by simp
  show ?thesis
  proof (cases "odd (n div 128)")
    case True
    then show ?thesis unfolding e using m by (simp add: odd_iff_mod_2_eq_one)
  next
    case False
    have "(n + 128) mod 256 = (n mod 256 + 128) mod 256" by (simp add: mod_add_left_eq)
    moreover have "n mod 256 = n mod 128" using m False by (simp add: even_iff_mod_2_eq_zero)
    moreover have "n mod 128 < 128" by simp
    ultimately show ?thesis unfolding e using False by simp
  qed
qed

lemma char_of_mod_256: "char_of (n :: nat) = char_of (n mod 256)"
  by simp

lemma UnsafeVarint_varint: "UnsafeVarint v = varint (unat v)"
proof (induction v rule: UnsafeVarint.induct)
  case (1 v)
  show ?case
  proof (cases "v \<ge> 0x80")
    case True
    have "char_of (unat (v OR 0x80)) = (char_of (128 + unat v mod 128) :: char)"
      using or_128_mod_256 [of "unat v"] char_of_mod_256 [of "unat v OR 128"]
      by (simp add: unsigned_or_eq)
    moreover have "UnsafeVarint (drop_bit 7 v) = varint (unat v div 128)"
      using 1 True unat_drop_bit_div [of 7 v] by simp
    moreover have "128 \<le> unat v" using True by (simp add: word_le_nat_alt)
    ultimately show ?thesis using True UnsafeVarint.simps [of v] varint.simps [of "unat v"] by simp
  next
    case False
    then have "\<not> 128 \<le> unat v" by (simp add: word_le_nat_alt)
    then show ?thesis using False UnsafeVarint.simps [of v] varint.simps [of "unat v"] by simp
  qed
qed

lemma length_varint:
  assumes "n < 2 ^ 32"
  shows "length (varint n) =
    (if n < 2 ^ 7 then 1 else if n < 2 ^ 14 then 2 else if n < 2 ^ 21 then 3
     else if n < 2 ^ 28 then 4 else 5)"
proof -
  have d: "n div 128 div 128 = n div 2 ^ 14" "n div 2 ^ 14 div 128 = n div 2 ^ 21"
    "n div 2 ^ 21 div 128 = n div 2 ^ 28" for n :: nat
    by (simp_all add: div_mult2_eq [symmetric])
  show ?thesis
    using assms
    by (simp add: varint.simps [of n] varint.simps [of "n div 128"] varint.simps [of "n div 128 div 128"]
        varint.simps [of "n div 128 div 128 div 128"] varint.simps [of "n div 128 div 128 div 128 div 128"])
       (simp add: div_mult2_eq [symmetric] less_eq_div_iff_mult_less_eq)
qed

lemma unat_32: "unat (v :: 32 word) < 2 ^ 32"
  using unsigned_less [of v] by simp

subsection \<open>Sizes\<close>

text \<open>
  \<open>CountLeadingZeroes32\<close>, the portable branch: three halvings of the counted width, each of
  which keeps the upper half where it is not zero, and a table for the last four bits.
\<close>

definition clz_table :: "nat list" where
  "clz_table = [4, 3, 2, 2, 1, 1, 1, 1, 0, 0, 0, 0, 0, 0, 0, 0]"

definition clz_halve :: "nat \<Rightarrow> nat \<times> 'w::len word \<Rightarrow> nat \<times> 'w word" where
  "clz_halve h s =
     (case s of (zeroes, x) \<Rightarrow> if drop_bit h x \<noteq> 0 then (zeroes - h, drop_bit h x) else (zeroes, x))"

definition countl_zero :: "32 word \<Rightarrow> nat" where
  "countl_zero x =
     (case clz_halve 4 (clz_halve 8 (clz_halve 16 (28, x))) of (zeroes, y) \<Rightarrow>
        clz_table ! unat y + zeroes)"

text \<open>\<open>CodedOutputStream::VarintSize32\<close>, in its two compilations.\<close>

definition VarintSize32 :: "32 word \<Rightarrow> nat" where
  "VarintSize32 value =
     (let log2value = (32 - 1) - countl_zero (value OR 0x1) in (log2value * 9 + (64 + 9)) div 64)"

definition VarintSize32_lzcnt :: "32 word \<Rightarrow> nat" where
  "VarintSize32_lzcnt value = (let clz = countl_zero value in ((32 * 9 + 64) - clz * 9) div 64)"

text \<open>\<open>z\<close> is the number of leading zeros of \<open>x\<close> in \<open>w\<close> bits.\<close>

definition leading_zeros :: "nat \<Rightarrow> nat \<Rightarrow> nat \<Rightarrow> bool" where
  "leading_zeros w x z \<longleftrightarrow> z \<le> w \<and> (x = 0 \<longrightarrow> z = w) \<and> x < 2 ^ (w - z) \<and> (x \<noteq> 0 \<longrightarrow> z < w \<and> 2 ^ (w - Suc z) \<le> x)"

lemma leading_zeros_table: "x < 16 \<Longrightarrow> leading_zeros 4 x (clz_table ! x)"
proof -
  have "\<forall>x \<in> set [0..<16]. leading_zeros 4 x (clz_table ! x)"
    by (simp add: upt_rec clz_table_def leading_zeros_def numeral_eq_Suc)
  then show "x < 16 \<Longrightarrow> leading_zeros 4 x (clz_table ! x)" by simp
qed

lemma leading_zeros_high:
  assumes "leading_zeros h (x div 2 ^ h) z" "x div 2 ^ h \<noteq> 0"
  shows "leading_zeros (h + h) x z"
proof -
  have z: "z < h" "x div 2 ^ h < 2 ^ (h - z)" "2 ^ (h - Suc z) \<le> x div 2 ^ h"
    using assms by (auto simp: leading_zeros_def)
  have "x < 2 ^ h * 2 ^ (h - z)"
    using z(2) by (simp add: div_less_iff_less_mult mult.commute)
  then have "x < 2 ^ (h + (h - z))" by (simp add: power_add)
  moreover have "2 ^ h * 2 ^ (h - Suc z) \<le> x"
    using z(3) by (simp add: less_eq_div_iff_mult_less_eq mult.commute)
  then have "2 ^ (h + (h - Suc z)) \<le> x" by (simp add: power_add)
  moreover have "h + (h - z) = h + h - z" "h + (h - Suc z) = h + h - Suc z" using z(1) by auto
  moreover have "x \<noteq> 0" using assms(2) by (cases "x = 0") simp_all
  ultimately show ?thesis using z(1) by (simp add: leading_zeros_def)
qed

lemma leading_zeros_low:
  assumes "leading_zeros h x z"
  shows "leading_zeros (h + h) x (h + z)"
  using assms by (auto simp: leading_zeros_def)

text \<open>What the halvings keep: the zeros counted so far and those still in the window add up.\<close>

definition clz_inv :: "nat \<Rightarrow> nat \<Rightarrow> nat \<Rightarrow> nat \<times> 'w::len word \<Rightarrow> bool" where
  "clz_inv m n w s \<longleftrightarrow>
     (case s of (zeroes, x) \<Rightarrow> w - 4 \<le> zeroes \<and> unat x < 2 ^ w \<and>
        (\<forall>z. leading_zeros w (unat x) z \<longrightarrow> leading_zeros m n (zeroes - (w - 4) + z)))"

lemma clz_inv_halve:
  assumes "clz_inv m n (h + h) s" "4 \<le> h"
  shows "clz_inv m n h (clz_halve h s)"
proof -
  obtain zs x where s: "s = (zs, x)" by (cases s)
  have I: "h + h - 4 \<le> zs" "unat x < 2 ^ (h + h)"
    "\<And>z. leading_zeros (h + h) (unat x) z \<Longrightarrow> leading_zeros m n (zs - (h + h - 4) + z)"
    using assms(1) by (auto simp: clz_inv_def s)
  have u: "unat (drop_bit h x) = unat x div 2 ^ h" by (rule unat_drop_bit_div)
  have z: "drop_bit h x = 0 \<longleftrightarrow> unat x div 2 ^ h = 0" using u by (metis unat_eq_zero)
  show ?thesis
  proof (cases "unat x div 2 ^ h = 0")
    case True
    have "zs - (h + h - 4) + (h + z) = zs - (h - 4) + z" for z using I(1) assms(2) by simp
    moreover have "unat x < 2 ^ h" using True by (simp add: div_eq_0_iff)
    ultimately show ?thesis
      using True z I(1) I(3) leading_zeros_low [of h "unat x"] by (fastforce simp: clz_inv_def clz_halve_def s)
  next
    case False
    have "unat x div 2 ^ h < 2 ^ h" using I(2) by (simp add: div_less_iff_less_mult power_add)
    moreover have "zs - h - (h - 4) = zs - (h + h - 4)" using assms(2) by simp
    moreover have "h - 4 \<le> zs - h" using I(1) assms(2) by simp
    ultimately show ?thesis
      using False z u I(3) leading_zeros_high [of h "unat x"] by (auto simp: clz_inv_def clz_halve_def s)
  qed
qed

lemma countl_zero_correct: "leading_zeros 32 (unat x) (countl_zero x)"
proof -
  have "clz_inv 32 (unat x) (16 + 16) (28, x)"
    using unat_32 [of x] by (simp add: clz_inv_def)
  then have "clz_inv 32 (unat x) (8 + 8) (clz_halve 16 (28, x))"
    using clz_inv_halve by fastforce
  then have "clz_inv 32 (unat x) (4 + 4) (clz_halve 8 (clz_halve 16 (28, x)))"
    using clz_inv_halve by fastforce
  then have I: "clz_inv 32 (unat x) 4 (clz_halve 4 (clz_halve 8 (clz_halve 16 (28, x))))"
    using clz_inv_halve by fastforce
  then show ?thesis
    using leading_zeros_table
    by (auto simp: clz_inv_def countl_zero_def add.commute split: prod.splits)
qed

lemma leading_zeros_less:
  assumes "leading_zeros w n z" "k \<le> w"
  shows "n < 2 ^ k \<longleftrightarrow> w - k \<le> z"
proof
  assume n: "n < 2 ^ k"
  show "w - k \<le> z"
  proof (cases "n = 0")
    case False
    then have z: "z < w" "2 ^ (w - Suc z) \<le> n" using assms(1) by (simp_all add: leading_zeros_def)
    then have "2 ^ (w - Suc z) < (2 :: nat) ^ k" using n by (rule_tac le_less_trans)
    then have "w - Suc z < k" by (rule power_less_imp_less_exp [rotated]) simp
    then show ?thesis using z by simp
  qed (use assms in \<open>simp add: leading_zeros_def\<close>)
next
  assume "w - k \<le> z"
  then have "(2 :: nat) ^ (w - z) \<le> 2 ^ k" by (intro power_increasing) auto
  then show "n < 2 ^ k" using assms(1) by (auto simp: leading_zeros_def intro: less_le_trans)
qed

lemma varint_size_thresholds:
  assumes "leading_zeros 32 n z" "n < 2 ^ 32"
  shows "length (varint n) =
    (if 25 \<le> z then 1 else if 18 \<le> z then 2 else if 11 \<le> z then 3 else if 4 \<le> z then 4 else 5)"
  using leading_zeros_less [OF assms(1), of 7] leading_zeros_less [OF assms(1), of 14]
    leading_zeros_less [OF assms(1), of 21] leading_zeros_less [OF assms(1), of 28]
  by (simp add: length_varint [OF assms(2)])

lemma size_formula:
  assumes "z \<le> (32 :: nat)"
  shows "(32 * 9 + 64 - z * 9) div 64 =
    (if 25 \<le> z then 1 else if 18 \<le> z then 2 else if 11 \<le> z then 3 else if 4 \<le> z then 4 else 5)"
proof -
  have "\<forall>z \<in> set [0..<33]. (32 * 9 + 64 - z * 9) div 64 =
    (if 25 \<le> z then 1 else if 18 \<le> z then 2 else if 11 \<le> z then 3 else if 4 \<le> z then 4 else (5 :: nat))"
    by code_simp
  then show ?thesis using assms by simp
qed

lemma VarintSize32_lzcnt_length: "VarintSize32_lzcnt v = length (UnsafeVarint v)"
proof -
  have n: "unat v < 2 ^ 32" using unat_32 [of v] by simp
  have "countl_zero v \<le> 32" using countl_zero_correct [of v] by (simp add: leading_zeros_def)
  then show ?thesis
    using varint_size_thresholds [OF countl_zero_correct n] size_formula [of "countl_zero v"]
    by (simp add: VarintSize32_lzcnt_def Let_def UnsafeVarint_varint)
qed

lemma or_1_less: "0 < k \<Longrightarrow> (n OR 1 :: nat) < 2 ^ k \<longleftrightarrow> n < 2 ^ k"
  unfolding or_one_eq by (cases k) (auto elim!: evenE)

lemma VarintSize32_length: "VarintSize32 v = length (UnsafeVarint v)"
proof -
  define m where "m = (unat v OR 1)"
  have e: "m < 2 ^ k \<longleftrightarrow> unat v < 2 ^ k" if "0 < k" for k
    using or_1_less [OF that] by (simp only: m_def)
  have n: "unat v < 2 ^ 32" by (rule unat_32)
  then have mlt: "m < 2 ^ 32" using e [of 32] by simp
  have nz: "m \<noteq> 0"
    unfolding m_def or_one_eq by (cases "even (unat v)") (auto elim: oddE)
  have L: "leading_zeros 32 m (countl_zero (v OR 1))"
    using countl_zero_correct [of "v OR 1"] by (simp add: m_def unsigned_or_eq)
  then have z: "countl_zero (v OR 1) < 32" using nz unfolding leading_zeros_def by blast
  have "length (varint m) = length (varint (unat v))"
    using e [of 7] e [of 14] e [of 21] e [of 28] by (simp add: length_varint [OF n] length_varint [OF mlt])
  moreover have "(31 - z) * 9 + 73 = 32 * 9 + 64 - z * 9" if "z < 32" for z :: nat
    using that by simp
  ultimately show ?thesis
    using varint_size_thresholds [OF L mlt] z size_formula [of "countl_zero (v OR 1)"]
    by (simp add: VarintSize32_def Let_def UnsafeVarint_varint)
qed

subsection \<open>Length-delimited fields\<close>

definition LengthDelimitedSize :: "nat \<Rightarrow> nat" where
  "LengthDelimitedSize len = len + VarintSize32 (of_nat len)"

definition StringSize :: "string \<Rightarrow> nat" where
  "StringSize s = LengthDelimitedSize (length s)"

definition TagSize :: "32 word \<Rightarrow> nat" where
  "TagSize tag = (if tag < 2 ^ 7 then 1 else if tag < 2 ^ 14 then 2 else if tag < 2 ^ 21 then 3
                  else if tag < 2 ^ 28 then 4 else 5)"

text \<open>\<open>WIRETYPE_LENGTH_DELIMITED\<close> is the only wire type of the program's messages.\<close>

definition WIRETYPE_LENGTH_DELIMITED :: "32 word" where
  "WIRETYPE_LENGTH_DELIMITED = 2"

definition WriteTag :: "32 word \<Rightarrow> 32 word \<Rightarrow> string" where
  "WriteTag num wt = UnsafeVarint (push_bit 3 num OR wt)"

definition WriteLengthDelim :: "32 word \<Rightarrow> 32 word \<Rightarrow> string" where
  "WriteLengthDelim num sz = WriteTag num WIRETYPE_LENGTH_DELIMITED @ UnsafeVarint sz"

text \<open>
  \<open>WriteStringMaybeAliased\<close>: \<open>room\<close> is \<open>end_ - ptr\<close>, the space left in the buffer. A short
  string that fits is copied in place behind a one-byte length; everything else goes through
  \<open>WriteStringMaybeAliasedOutline\<close>, the tag and length and then the raw bytes.
\<close>

definition WriteStringMaybeAliased :: "int \<Rightarrow> 32 word \<Rightarrow> string \<Rightarrow> string" where
  "WriteStringMaybeAliased room num s =
     (if int (length s) \<ge> 128 \<or> room + 16 - int (TagSize (push_bit 3 num)) - 1 < int (length s)
      then WriteLengthDelim num (of_nat (length s)) @ s
      else UnsafeVarint (push_bit 3 num OR 2) @ [char_of (length s)] @ s)"

text \<open>\<open>InternalWriteMessage\<close>, as its inline twin \<open>InternalWriteMessageNoVirtualToArray\<close> has it: tag, cached size, message.\<close>

definition InternalWriteMessage :: "32 word \<Rightarrow> string \<Rightarrow> 32 word \<Rightarrow> string" where
  "InternalWriteMessage num payload cached_size =
     WriteTag num WIRETYPE_LENGTH_DELIMITED @ UnsafeVarint cached_size @ payload"

text \<open>What both string paths write, and the room left does not matter.\<close>

lemma WriteStringMaybeAliased_eq:
  "WriteStringMaybeAliased room num s = WriteLengthDelim num (of_nat (length s)) @ s"
proof (cases "int (length s) \<ge> 128 \<or> room + 16 - int (TagSize (push_bit 3 num)) - 1 < int (length s)")
  case False
  then have l: "length s < 128" by simp
  then have "unat (of_nat (length s) :: 32 word) = length s" by (simp add: unat_of_nat)
  then have "UnsafeVarint (of_nat (length s)) = [char_of (length s)]"
    using l by (simp add: UnsafeVarint_varint varint.simps [of "length s"])
  then show ?thesis
    using False by (simp add: WriteStringMaybeAliased_def WriteLengthDelim_def WriteTag_def WIRETYPE_LENGTH_DELIMITED_def)
qed (simp add: WriteStringMaybeAliased_def)

definition WriteString :: "32 word \<Rightarrow> string \<Rightarrow> string" where
  "WriteString num s = WriteLengthDelim num (of_nat (length s)) @ s"

lemma WriteStringMaybeAliased_WriteString: "WriteStringMaybeAliased room num s = WriteString num s"
  by (simp add: WriteStringMaybeAliased_eq WriteString_def)

text \<open>A length-delimited record as the wire format describes it: tag, length, payload.\<close>

definition wire_record :: "nat \<Rightarrow> string \<Rightarrow> string" where
  "wire_record tag s = varint tag @ varint (length s) @ s"

lemma unat_of_nat_32: "n < 2 ^ 32 \<Longrightarrow> unat (of_nat n :: 32 word) = n"
  by (simp add: unat_of_nat take_bit_eq_mod)

lemma WriteString_record:
  "length s < 2 ^ 32 \<Longrightarrow> WriteString num s = wire_record (unat (push_bit 3 num OR 2)) s"
  by (simp add: WriteString_def WriteLengthDelim_def WriteTag_def WIRETYPE_LENGTH_DELIMITED_def
      wire_record_def UnsafeVarint_varint unat_of_nat_32)

lemma InternalWriteMessage_record:
  "length p < 2 ^ 32 \<Longrightarrow>
     InternalWriteMessage num p (of_nat (length p)) = wire_record (unat (push_bit 3 num OR 2)) p"
  by (simp add: InternalWriteMessage_def WriteTag_def WIRETYPE_LENGTH_DELIMITED_def
      wire_record_def UnsafeVarint_varint unat_of_nat_32)

lemma LengthDelimitedSize_length:
  "LengthDelimitedSize n = n + length (UnsafeVarint (of_nat n))"
  by (simp add: LengthDelimitedSize_def VarintSize32_length)

lemma tags [simp]:
  "unat (push_bit 3 1 OR 2 :: 32 word) = 10" "unat (push_bit 3 2 OR 2 :: 32 word) = 18"
  "unat (push_bit 3 3 OR 2 :: 32 word) = 26" "unat (push_bit 3 4 OR 2 :: 32 word) = 34"
  by (simp_all add: push_bit_eq_mult)

end
