(* ===== verification/RepeatedField.thy ===== *)
theory RepeatedField
  imports Prelude
begin

text \<open>
  \<open>google::protobuf::RepeatedPtrField\<close> (\<open>repeated_ptr_field.h\<close>) as the program uses it: the
  list of the elements in use. The header checks its index arguments in debug builds only, so
  a call out of range is \<open>None\<close>, undefined. Elements that were removed stay allocated and are
  handed out again by \<open>Add\<close>; they are cleared first, so \<open>Add\<close> appends a default element.
\<close>

definition Add :: "'a \<Rightarrow> 'a list \<Rightarrow> 'a list" where
  "Add dflt xs = xs @ [dflt]"

definition SwapElements :: "nat \<Rightarrow> nat \<Rightarrow> 'a list \<Rightarrow> 'a list option" where
  "SwapElements i j xs =
     (if i < length xs \<and> j < length xs then Some (xs[i := xs ! j, j := xs ! i]) else None)"

definition RemoveLast :: "'a list \<Rightarrow> 'a list option" where
  "RemoveLast xs = (if xs = [] then None else Some (butlast xs))"

definition Mutable :: "nat \<Rightarrow> ('a \<Rightarrow> 'a) \<Rightarrow> 'a list \<Rightarrow> 'a list option" where
  "Mutable i f xs = (if i < length xs then Some (xs[i := f (xs ! i)]) else None)"

text \<open>\<open>MergeFrom\<close> appends copies, \<open>InternalSwap\<close> exchanges, \<open>Clear\<close> empties.\<close>

definition Repeated_MergeFrom :: "'a list \<Rightarrow> 'a list \<Rightarrow> 'a list" where
  "Repeated_MergeFrom xs from = xs @ from"

text \<open>
  The program deletes element \<open>i\<close> by swapping it with the last one and dropping the last:
  defined for every index in range, and it removes that element and no other.
\<close>

lemma swap_then_remove:
  assumes "i < length xs"
  shows "Option.bind (SwapElements i (length xs - 1) xs) RemoveLast = Some (swap_remove i xs)"
proof (cases xs rule: rev_cases)
  case Nil
  with assms show ?thesis by simp
next
  case (snoc ys y)
  show ?thesis
    using assms
    by (cases "i = length ys")
       (auto simp: SwapElements_def RemoveLast_def snoc swap_remove_snoc nth_append list_update_append)
qed

lemma Mutable_in_range: "i < length xs \<Longrightarrow> Mutable i f xs = Some (xs[i := f (xs ! i)])"
  by (simp add: Mutable_def)

end
