(* ===== verification/XnMessages.thy ===== *)
theory XnMessages
  imports WireFormat RepeatedField
begin

text \<open>
  The four messages of \<open>proto/xn.proto\<close> as the generated \<open>xn.pb.h\<close> and \<open>xn.pb.cc\<close> define
  them: fields, setters, \<open>Clear\<close>, \<open>MergeFrom\<close>, \<open>CopyFrom\<close>, \<open>InternalSwap\<close>, \<open>ByteSizeLong\<close> and
  \<open>_InternalSerialize\<close>. A message keeps its unknown fields (here as the bytes they are
  written back as) and the size that the last \<open>ByteSizeLong\<close> cached. Arenas, descriptors and
  reflection carry no data of the program and are left out.
\<close>

record QuestionAnswer =
  qa_question :: string
  qa_answer :: string
  qa_group :: string
  qa_id :: string
  qa_unknown :: string
  qa_cached :: "32 word"

record QuestionAnswerGroup =
  qag_group :: string
  qag_path :: string
  qag_id :: string
  qag_unknown :: string
  qag_cached :: "32 word"

record QuestionAnswerList =
  qal_items :: "QuestionAnswer list"
  qal_unknown :: string
  qal_cached :: "32 word"

record QuestionAnswerGroupList =
  gl_items :: "QuestionAnswerGroup list"
  gl_unknown :: string
  gl_cached :: "32 word"

text \<open>\<open>MaybeComputeUnknownFieldsSize\<close>: the total with the unknown fields, and the size to cache.\<close>

definition with_unknown :: "nat \<Rightarrow> string \<Rightarrow> nat" where
  "with_unknown sz u = sz + length u"

definition ToCachedSize :: "nat \<Rightarrow> 32 word" where
  "ToCachedSize sz = of_nat sz"

subsection \<open>\<open>QuestionAnswer\<close>\<close>

definition QuestionAnswer_default :: QuestionAnswer where
  "QuestionAnswer_default =
     \<lparr>qa_question = [], qa_answer = [], qa_group = [], qa_id = [], qa_unknown = [], qa_cached = 0\<rparr>"

definition set_question :: "string \<Rightarrow> QuestionAnswer \<Rightarrow> QuestionAnswer" where
  "set_question s m = m\<lparr>qa_question := s\<rparr>"

definition set_answer :: "string \<Rightarrow> QuestionAnswer \<Rightarrow> QuestionAnswer" where
  "set_answer s m = m\<lparr>qa_answer := s\<rparr>"

definition set_group :: "string \<Rightarrow> QuestionAnswer \<Rightarrow> QuestionAnswer" where
  "set_group s m = m\<lparr>qa_group := s\<rparr>"

definition set_id :: "string \<Rightarrow> QuestionAnswer \<Rightarrow> QuestionAnswer" where
  "set_id s m = m\<lparr>qa_id := s\<rparr>"

definition QuestionAnswer_Clear :: "QuestionAnswer \<Rightarrow> QuestionAnswer" where
  "QuestionAnswer_Clear m =
     m\<lparr>qa_question := [], qa_answer := [], qa_group := [], qa_id := [], qa_unknown := []\<rparr>"

text \<open>Each string field is written when it is not empty, in field order, then the unknown fields.\<close>

definition string_field :: "32 word \<Rightarrow> string \<Rightarrow> string" where
  "string_field num s = (if s \<noteq> [] then WriteString num s else [])"

definition QuestionAnswer_InternalSerialize :: "QuestionAnswer \<Rightarrow> string" where
  "QuestionAnswer_InternalSerialize m =
     string_field 1 (qa_question m) @ string_field 2 (qa_answer m) @
     string_field 3 (qa_group m) @ string_field 4 (qa_id m) @ qa_unknown m"

definition string_field_size :: "string \<Rightarrow> nat" where
  "string_field_size s = (if s \<noteq> [] then 1 + StringSize s else 0)"

definition QuestionAnswer_ByteSizeLong :: "QuestionAnswer \<Rightarrow> nat \<times> QuestionAnswer" where
  "QuestionAnswer_ByteSizeLong m =
     (let known_size = string_field_size (qa_question m) + string_field_size (qa_answer m)
                + string_field_size (qa_group m) + string_field_size (qa_id m);
          total_size = with_unknown known_size (qa_unknown m)
      in (total_size, m\<lparr>qa_cached := ToCachedSize total_size\<rparr>))"

definition QuestionAnswer_MergeFrom :: "QuestionAnswer \<Rightarrow> QuestionAnswer \<Rightarrow> QuestionAnswer" where
  "QuestionAnswer_MergeFrom this from =
     (let m1 = (if qa_question from \<noteq> [] then set_question (qa_question from) this else this);
          m2 = (if qa_answer from \<noteq> [] then set_answer (qa_answer from) m1 else m1);
          m3 = (if qa_group from \<noteq> [] then set_group (qa_group from) m2 else m2);
          m4 = (if qa_id from \<noteq> [] then set_id (qa_id from) m3 else m3)
      in m4\<lparr>qa_unknown := qa_unknown m4 @ qa_unknown from\<rparr>)"

text \<open>\<open>same\<close>: the two references are one object.\<close>

definition QuestionAnswer_CopyFrom :: "bool \<Rightarrow> QuestionAnswer \<Rightarrow> QuestionAnswer \<Rightarrow> QuestionAnswer" where
  "QuestionAnswer_CopyFrom same this from =
     (if same then this else QuestionAnswer_MergeFrom (QuestionAnswer_Clear this) from)"

definition QuestionAnswer_InternalSwap ::
  "QuestionAnswer \<Rightarrow> QuestionAnswer \<Rightarrow> QuestionAnswer \<times> QuestionAnswer" where
  "QuestionAnswer_InternalSwap this other =
     (this\<lparr>qa_unknown := qa_unknown other, qa_question := qa_question other,
           qa_answer := qa_answer other, qa_group := qa_group other, qa_id := qa_id other\<rparr>,
      other\<lparr>qa_unknown := qa_unknown this, qa_question := qa_question this,
            qa_answer := qa_answer this, qa_group := qa_group this, qa_id := qa_id this\<rparr>)"

text \<open>The fast parse table: the tag of a field and what a record with that tag sets.\<close>

definition QuestionAnswer_table :: "(nat \<times> (string \<Rightarrow> QuestionAnswer \<Rightarrow> QuestionAnswer)) list" where
  "QuestionAnswer_table = [(34, set_id), (10, set_question), (18, set_answer), (26, set_group)]"

subsection \<open>\<open>QuestionAnswerGroup\<close>\<close>

definition QuestionAnswerGroup_default :: QuestionAnswerGroup where
  "QuestionAnswerGroup_default =
     \<lparr>qag_group = [], qag_path = [], qag_id = [], qag_unknown = [], qag_cached = 0\<rparr>"

definition qag_set_group :: "string \<Rightarrow> QuestionAnswerGroup \<Rightarrow> QuestionAnswerGroup" where
  "qag_set_group s m = m\<lparr>qag_group := s\<rparr>"

definition qag_set_path :: "string \<Rightarrow> QuestionAnswerGroup \<Rightarrow> QuestionAnswerGroup" where
  "qag_set_path s m = m\<lparr>qag_path := s\<rparr>"

definition qag_set_id :: "string \<Rightarrow> QuestionAnswerGroup \<Rightarrow> QuestionAnswerGroup" where
  "qag_set_id s m = m\<lparr>qag_id := s\<rparr>"

definition QuestionAnswerGroup_Clear :: "QuestionAnswerGroup \<Rightarrow> QuestionAnswerGroup" where
  "QuestionAnswerGroup_Clear m = m\<lparr>qag_group := [], qag_path := [], qag_id := [], qag_unknown := []\<rparr>"

definition QuestionAnswerGroup_InternalSerialize :: "QuestionAnswerGroup \<Rightarrow> string" where
  "QuestionAnswerGroup_InternalSerialize m =
     string_field 1 (qag_group m) @ string_field 2 (qag_path m) @ string_field 3 (qag_id m) @
     qag_unknown m"

definition QuestionAnswerGroup_ByteSizeLong :: "QuestionAnswerGroup \<Rightarrow> nat \<times> QuestionAnswerGroup" where
  "QuestionAnswerGroup_ByteSizeLong m =
     (let known_size = string_field_size (qag_group m) + string_field_size (qag_path m)
                + string_field_size (qag_id m);
          total_size = with_unknown known_size (qag_unknown m)
      in (total_size, m\<lparr>qag_cached := ToCachedSize total_size\<rparr>))"

definition QuestionAnswerGroup_MergeFrom ::
  "QuestionAnswerGroup \<Rightarrow> QuestionAnswerGroup \<Rightarrow> QuestionAnswerGroup" where
  "QuestionAnswerGroup_MergeFrom this from =
     (let m1 = (if qag_group from \<noteq> [] then qag_set_group (qag_group from) this else this);
          m2 = (if qag_path from \<noteq> [] then qag_set_path (qag_path from) m1 else m1);
          m3 = (if qag_id from \<noteq> [] then qag_set_id (qag_id from) m2 else m2)
      in m3\<lparr>qag_unknown := qag_unknown m3 @ qag_unknown from\<rparr>)"

definition QuestionAnswerGroup_CopyFrom ::
  "bool \<Rightarrow> QuestionAnswerGroup \<Rightarrow> QuestionAnswerGroup \<Rightarrow> QuestionAnswerGroup" where
  "QuestionAnswerGroup_CopyFrom same this from =
     (if same then this else QuestionAnswerGroup_MergeFrom (QuestionAnswerGroup_Clear this) from)"

definition QuestionAnswerGroup_InternalSwap ::
  "QuestionAnswerGroup \<Rightarrow> QuestionAnswerGroup \<Rightarrow> QuestionAnswerGroup \<times> QuestionAnswerGroup" where
  "QuestionAnswerGroup_InternalSwap this other =
     (this\<lparr>qag_unknown := qag_unknown other, qag_group := qag_group other,
           qag_path := qag_path other, qag_id := qag_id other\<rparr>,
      other\<lparr>qag_unknown := qag_unknown this, qag_group := qag_group this,
            qag_path := qag_path this, qag_id := qag_id this\<rparr>)"

definition QuestionAnswerGroup_table ::
  "(nat \<times> (string \<Rightarrow> QuestionAnswerGroup \<Rightarrow> QuestionAnswerGroup)) list" where
  "QuestionAnswerGroup_table = [(10, qag_set_group), (18, qag_set_path), (26, qag_set_id)]"

subsection \<open>\<open>QuestionAnswerList\<close> and \<open>QuestionAnswerGroupList\<close>\<close>

definition QuestionAnswerList_default :: QuestionAnswerList where
  "QuestionAnswerList_default = \<lparr>qal_items = [], qal_unknown = [], qal_cached = 0\<rparr>"

definition QuestionAnswerList_Clear :: "QuestionAnswerList \<Rightarrow> QuestionAnswerList" where
  "QuestionAnswerList_Clear m = m\<lparr>qal_items := [], qal_unknown := []\<rparr>"

definition QuestionAnswerList_InternalSerialize :: "QuestionAnswerList \<Rightarrow> string" where
  "QuestionAnswerList_InternalSerialize m =
     concat (map (\<lambda>i. InternalWriteMessage 1 (QuestionAnswer_InternalSerialize i) (qa_cached i))
       (qal_items m)) @ qal_unknown m"

definition QuestionAnswerList_ByteSizeLong :: "QuestionAnswerList \<Rightarrow> nat \<times> QuestionAnswerList" where
  "QuestionAnswerList_ByteSizeLong m =
     (let sized = map QuestionAnswer_ByteSizeLong (qal_items m);
          known_size = 1 * length (qal_items m) + sum_list (map (\<lambda>r. LengthDelimitedSize (fst r)) sized);
          total_size = with_unknown known_size (qal_unknown m)
      in (total_size, m\<lparr>qal_items := map snd sized, qal_cached := ToCachedSize total_size\<rparr>))"

definition QuestionAnswerList_MergeFrom ::
  "QuestionAnswerList \<Rightarrow> QuestionAnswerList \<Rightarrow> QuestionAnswerList" where
  "QuestionAnswerList_MergeFrom this from =
     this\<lparr>qal_items := Repeated_MergeFrom (qal_items this) (qal_items from),
          qal_unknown := qal_unknown this @ qal_unknown from\<rparr>"

definition QuestionAnswerList_CopyFrom ::
  "bool \<Rightarrow> QuestionAnswerList \<Rightarrow> QuestionAnswerList \<Rightarrow> QuestionAnswerList" where
  "QuestionAnswerList_CopyFrom same this from =
     (if same then this else QuestionAnswerList_MergeFrom (QuestionAnswerList_Clear this) from)"

definition QuestionAnswerList_InternalSwap ::
  "QuestionAnswerList \<Rightarrow> QuestionAnswerList \<Rightarrow> QuestionAnswerList \<times> QuestionAnswerList" where
  "QuestionAnswerList_InternalSwap this other =
     (this\<lparr>qal_unknown := qal_unknown other, qal_items := qal_items other\<rparr>,
      other\<lparr>qal_unknown := qal_unknown this, qal_items := qal_items this\<rparr>)"

definition QuestionAnswerGroupList_default :: QuestionAnswerGroupList where
  "QuestionAnswerGroupList_default = \<lparr>gl_items = [], gl_unknown = [], gl_cached = 0\<rparr>"

definition QuestionAnswerGroupList_Clear :: "QuestionAnswerGroupList \<Rightarrow> QuestionAnswerGroupList" where
  "QuestionAnswerGroupList_Clear m = m\<lparr>gl_items := [], gl_unknown := []\<rparr>"

definition QuestionAnswerGroupList_InternalSerialize :: "QuestionAnswerGroupList \<Rightarrow> string" where
  "QuestionAnswerGroupList_InternalSerialize m =
     concat (map (\<lambda>i. InternalWriteMessage 1 (QuestionAnswerGroup_InternalSerialize i) (qag_cached i))
       (gl_items m)) @ gl_unknown m"

definition QuestionAnswerGroupList_ByteSizeLong ::
  "QuestionAnswerGroupList \<Rightarrow> nat \<times> QuestionAnswerGroupList" where
  "QuestionAnswerGroupList_ByteSizeLong m =
     (let sized = map QuestionAnswerGroup_ByteSizeLong (gl_items m);
          known_size = 1 * length (gl_items m) + sum_list (map (\<lambda>r. LengthDelimitedSize (fst r)) sized);
          total_size = with_unknown known_size (gl_unknown m)
      in (total_size, m\<lparr>gl_items := map snd sized, gl_cached := ToCachedSize total_size\<rparr>))"

definition QuestionAnswerGroupList_MergeFrom ::
  "QuestionAnswerGroupList \<Rightarrow> QuestionAnswerGroupList \<Rightarrow> QuestionAnswerGroupList" where
  "QuestionAnswerGroupList_MergeFrom this from =
     this\<lparr>gl_items := Repeated_MergeFrom (gl_items this) (gl_items from),
          gl_unknown := gl_unknown this @ gl_unknown from\<rparr>"

definition QuestionAnswerGroupList_CopyFrom ::
  "bool \<Rightarrow> QuestionAnswerGroupList \<Rightarrow> QuestionAnswerGroupList \<Rightarrow> QuestionAnswerGroupList" where
  "QuestionAnswerGroupList_CopyFrom same this from =
     (if same then this else QuestionAnswerGroupList_MergeFrom (QuestionAnswerGroupList_Clear this) from)"

definition QuestionAnswerGroupList_InternalSwap ::
  "QuestionAnswerGroupList \<Rightarrow> QuestionAnswerGroupList \<Rightarrow> QuestionAnswerGroupList \<times> QuestionAnswerGroupList" where
  "QuestionAnswerGroupList_InternalSwap this other =
     (this\<lparr>gl_unknown := gl_unknown other, gl_items := gl_items other\<rparr>,
      other\<lparr>gl_unknown := gl_unknown this, gl_items := gl_items this\<rparr>)"

text \<open>
  \<open>MessageLite::SerializeToOstream\<close>: the sizes are computed, which caches them in every
  message, and then the message is written.
\<close>

definition QuestionAnswerList_SerializeToOstream :: "QuestionAnswerList \<Rightarrow> string \<times> QuestionAnswerList" where
  "QuestionAnswerList_SerializeToOstream m =
     (let m' = snd (QuestionAnswerList_ByteSizeLong m) in (QuestionAnswerList_InternalSerialize m', m'))"

definition QuestionAnswerGroupList_SerializeToOstream ::
  "QuestionAnswerGroupList \<Rightarrow> string \<times> QuestionAnswerGroupList" where
  "QuestionAnswerGroupList_SerializeToOstream m =
     (let m' = snd (QuestionAnswerGroupList_ByteSizeLong m) in (QuestionAnswerGroupList_InternalSerialize m', m'))"

subsection \<open>Sizes agree with what is written\<close>

lemma length_tag_byte:
  "n < 16 \<Longrightarrow> length (WriteTag n WIRETYPE_LENGTH_DELIMITED) = 1"
proof -
  assume "n < 16"
  then have n: "unat n < 16" by (simp add: word_less_nat_alt)
  have "unat (push_bit 3 n) = 8 * unat n"
    using n by (simp add: push_bit_eq_mult unat_word_ariths)
  moreover have "unat (push_bit 3 n OR 2) \<le> unat (push_bit 3 n) + 2"
    using set_bit_eq_or [of 1 "unat (push_bit 3 n)"] set_bit_eq [of 1 "unat (push_bit 3 n)"]
    by (simp add: unsigned_or_eq)
  ultimately have "unat (push_bit 3 n OR 2) < 128" using n by linarith
  then show ?thesis
    by (simp add: WriteTag_def WIRETYPE_LENGTH_DELIMITED_def UnsafeVarint_varint varint.simps)
qed

lemma length_string_field [simp]: "n < 16 \<Longrightarrow> length (string_field n s) = string_field_size s"
  by (simp add: string_field_size_def string_field_def StringSize_def LengthDelimitedSize_length
      WriteString_def WriteLengthDelim_def length_tag_byte)

lemma QuestionAnswer_size_length [wire_defs]:
  "fst (QuestionAnswer_ByteSizeLong m) = length (QuestionAnswer_InternalSerialize m)"
  by (simp add: QuestionAnswer_ByteSizeLong_def QuestionAnswer_InternalSerialize_def Let_def with_unknown_def)

lemma QuestionAnswerGroup_size_length [wire_defs]:
  "fst (QuestionAnswerGroup_ByteSizeLong m) = length (QuestionAnswerGroup_InternalSerialize m)"
  by (simp add: QuestionAnswerGroup_ByteSizeLong_def QuestionAnswerGroup_InternalSerialize_def Let_def with_unknown_def)

lemma serialize_ignores_cache [simp]:
  "QuestionAnswer_InternalSerialize (q\<lparr>qa_cached := c\<rparr>) = QuestionAnswer_InternalSerialize q"
  "QuestionAnswerGroup_InternalSerialize (g\<lparr>qag_cached := c\<rparr>) = QuestionAnswerGroup_InternalSerialize g"
  by (simp_all add: QuestionAnswer_InternalSerialize_def QuestionAnswerGroup_InternalSerialize_def)

lemma snd_ByteSizeLong:
  "snd (QuestionAnswer_ByteSizeLong q) = q\<lparr>qa_cached := of_nat (length (QuestionAnswer_InternalSerialize q))\<rparr>"
  "snd (QuestionAnswerGroup_ByteSizeLong g) =
     g\<lparr>qag_cached := of_nat (length (QuestionAnswerGroup_InternalSerialize g))\<rparr>"
  by (simp_all add: QuestionAnswer_size_length [symmetric] QuestionAnswerGroup_size_length [symmetric]
      QuestionAnswer_ByteSizeLong_def QuestionAnswerGroup_ByteSizeLong_def ToCachedSize_def Let_def)

text \<open>The bytes of a list after its sizes are cached: one framed item after the other.\<close>

definition framed :: "string \<Rightarrow> string" where
  "framed p = InternalWriteMessage 1 p (of_nat (length p))"

lemma length_framed: "length (framed p) = 1 + LengthDelimitedSize (length p)"
  by (simp add: framed_def InternalWriteMessage_def length_tag_byte LengthDelimitedSize_length)

lemma qal_SerializeToOstream_bytes:
  "fst (QuestionAnswerList_SerializeToOstream m) =
     concat (map (\<lambda>q. framed (QuestionAnswer_InternalSerialize q)) (qal_items m)) @ qal_unknown m"
  by (simp add: QuestionAnswerList_SerializeToOstream_def QuestionAnswerList_InternalSerialize_def
      QuestionAnswerList_ByteSizeLong_def Let_def snd_ByteSizeLong framed_def comp_def)

lemma gl_SerializeToOstream_bytes:
  "fst (QuestionAnswerGroupList_SerializeToOstream m) =
     concat (map (\<lambda>g. framed (QuestionAnswerGroup_InternalSerialize g)) (gl_items m)) @ gl_unknown m"
  by (simp add: QuestionAnswerGroupList_SerializeToOstream_def QuestionAnswerGroupList_InternalSerialize_def
      QuestionAnswerGroupList_ByteSizeLong_def Let_def snd_ByteSizeLong framed_def comp_def)

lemma sum_list_Suc: "sum_list (map (\<lambda>x. Suc (f x)) xs) = length xs + sum_list (map f xs)"
  by (induction xs) auto

lemma qal_size_length:
  "fst (QuestionAnswerList_ByteSizeLong m) = length (fst (QuestionAnswerList_SerializeToOstream m))"
  by (simp add: qal_SerializeToOstream_bytes QuestionAnswerList_ByteSizeLong_def Let_def with_unknown_def
      length_concat comp_def length_framed QuestionAnswer_size_length sum_list_Suc)

lemma gl_size_length:
  "fst (QuestionAnswerGroupList_ByteSizeLong m) = length (fst (QuestionAnswerGroupList_SerializeToOstream m))"
  by (simp add: gl_SerializeToOstream_bytes QuestionAnswerGroupList_ByteSizeLong_def Let_def with_unknown_def
      length_concat comp_def length_framed QuestionAnswerGroup_size_length sum_list_Suc)

subsection \<open>The serialisers write records\<close>

text \<open>
  \<open>records\<close> is what a serialised message is made of, and \<open>apply_record\<close> what one record does to
  a message by the parse table: the last value of a field wins.
\<close>

type_synonym wrecord = "nat \<times> string"

definition record_bytes :: "wrecord list \<Rightarrow> string" where
  "record_bytes rs = concat (map (\<lambda>(t, s). wire_record t s) rs)"

definition apply_record :: "(nat \<times> (string \<Rightarrow> 'm \<Rightarrow> 'm)) list \<Rightarrow> wrecord \<Rightarrow> 'm \<Rightarrow> 'm" where
  "apply_record table r m = (case map_of table (fst r) of None \<Rightarrow> m | Some f \<Rightarrow> f (snd r) m)"

definition qa_records :: "QuestionAnswer \<Rightarrow> wrecord list" where
  "qa_records m = filter (\<lambda>r. snd r \<noteq> [])
     [(10, qa_question m), (18, qa_answer m), (26, qa_group m), (34, qa_id m)]"

definition qag_records :: "QuestionAnswerGroup \<Rightarrow> wrecord list" where
  "qag_records m = filter (\<lambda>r. snd r \<noteq> []) [(10, qag_group m), (18, qag_path m), (26, qag_id m)]"

lemma record_bytes_simps [simp]:
  "record_bytes [] = []"
  "record_bytes ((t, s) # rs) = wire_record t s @ record_bytes rs"
  by (simp_all add: record_bytes_def)

lemma string_field_record:
  "length s < 2 ^ 32 \<Longrightarrow> string_field n s =
     record_bytes (filter (\<lambda>r. snd r \<noteq> []) [(unat (push_bit 3 n OR 2), s)])"
  by (simp add: string_field_def WriteString_record)

lemma record_bytes_append: "record_bytes (xs @ ys) = record_bytes xs @ record_bytes ys"
  by (simp add: record_bytes_def)

lemma length_le_string_field: "length s \<le> length (string_field n s)"
  by (simp add: string_field_def WriteString_def)

lemma QuestionAnswer_InternalSerialize_records:
  assumes "length (QuestionAnswer_InternalSerialize m) < 2 ^ 32" "qa_unknown m = []"
  shows "QuestionAnswer_InternalSerialize m = record_bytes (qa_records m)"
proof -
  have "length (qa_question m) < 2 ^ 32" "length (qa_answer m) < 2 ^ 32" "length (qa_group m) < 2 ^ 32"
    "length (qa_id m) < 2 ^ 32"
    using assms(1) length_le_string_field [of "qa_question m" 1] length_le_string_field [of "qa_answer m" 2]
      length_le_string_field [of "qa_group m" 3] length_le_string_field [of "qa_id m" 4]
    by (simp_all add: QuestionAnswer_InternalSerialize_def del: length_string_field)
  then show ?thesis
    by (simp add: QuestionAnswer_InternalSerialize_def assms(2) string_field_record qa_records_def)
qed

lemma QuestionAnswerGroup_InternalSerialize_records:
  assumes "length (QuestionAnswerGroup_InternalSerialize m) < 2 ^ 32" "qag_unknown m = []"
  shows "QuestionAnswerGroup_InternalSerialize m = record_bytes (qag_records m)"
proof -
  have "length (qag_group m) < 2 ^ 32" "length (qag_path m) < 2 ^ 32" "length (qag_id m) < 2 ^ 32"
    using assms(1) length_le_string_field [of "qag_group m" 1] length_le_string_field [of "qag_path m" 2]
      length_le_string_field [of "qag_id m" 3]
    by (simp_all add: QuestionAnswerGroup_InternalSerialize_def del: length_string_field)
  then show ?thesis
    by (simp add: QuestionAnswerGroup_InternalSerialize_def assms(2) string_field_record qag_records_def)
qed

lemma fold_qa_records:
  "qa_unknown m = [] \<Longrightarrow>
     fold (apply_record QuestionAnswer_table) (qa_records m) QuestionAnswer_default = m\<lparr>qa_cached := 0\<rparr>"
  by (simp add: qa_records_def apply_record_def QuestionAnswer_table_def QuestionAnswer_default_def
      set_question_def set_answer_def set_group_def set_id_def)

lemma fold_qag_records:
  "qag_unknown m = [] \<Longrightarrow>
     fold (apply_record QuestionAnswerGroup_table) (qag_records m) QuestionAnswerGroup_default = m\<lparr>qag_cached := 0\<rparr>"
  by (simp add: qag_records_def apply_record_def QuestionAnswerGroup_table_def QuestionAnswerGroup_default_def
      qag_set_group_def qag_set_path_def qag_set_id_def)

lemma qa_records_tags: "fst ` set (qa_records m) \<subseteq> fst ` set QuestionAnswer_table"
  by (auto simp: qa_records_def QuestionAnswer_table_def)

lemma qag_records_tags: "fst ` set (qag_records m) \<subseteq> fst ` set QuestionAnswerGroup_table"
  by (auto simp: qag_records_def QuestionAnswerGroup_table_def)

end
