(* ===== verification/MessageParser.thy ===== *)
theory MessageParser
  imports XnMessages
begin

text \<open>
  \<open>ParseFromIstream\<close> is compiled into the protobuf library, whose sources are not in the
  repository: the program's parsers are the parameters of the locale below, with what the
  program relies on, the documented meaning of a stream of length-delimited records of known
  string fields. The second half instantiates it: a decoder built from the parse loop and the
  field dispatch of \<open>parse_context.h\<close> over the parse tables of \<open>xn.pb.cc\<close> meets the contract.
\<close>

subsection \<open>The contract\<close>

text \<open>\<open>INT_MAX\<close> less the slop of the input stream, the largest size \<open>take_size\<close> lets through.\<close>

definition max_size :: nat where
  "max_size = 2147483631"

definition questions_bytes :: "wrecord list list \<Rightarrow> string" where
  "questions_bytes rss = concat (map (\<lambda>rs. wire_record 10 (record_bytes rs)) rss)"

text \<open>An input of \<open>None\<close> is a stream that could not be opened.\<close>

locale protobuf_parser =
  fixes parse_questions :: "string option \<Rightarrow> bool \<times> QuestionAnswerList"
    and parse_groups :: "string option \<Rightarrow> bool \<times> QuestionAnswerGroupList"
    and utf8_ok :: "string \<Rightarrow> bool"
  assumes no_stream: "\<not> fst (parse_questions None)" "\<not> fst (parse_groups None)"
    and question_records:
      "(\<And>rs r. rs \<in> set rss \<Longrightarrow> r \<in> set rs \<Longrightarrow> fst r \<in> fst ` set QuestionAnswer_table \<and> utf8_ok (snd r)) \<Longrightarrow>
       length (questions_bytes rss) \<le> max_size \<Longrightarrow>
       parse_questions (Some (questions_bytes rss)) =
         (True, QuestionAnswerList_default\<lparr>qal_items :=
            map (\<lambda>rs. fold (apply_record QuestionAnswer_table) rs QuestionAnswer_default) rss\<rparr>)"
    and group_records:
      "(\<And>rs r. rs \<in> set rss \<Longrightarrow> r \<in> set rs \<Longrightarrow> fst r \<in> fst ` set QuestionAnswerGroup_table \<and> utf8_ok (snd r)) \<Longrightarrow>
       length (questions_bytes rss) \<le> max_size \<Longrightarrow>
       parse_groups (Some (questions_bytes rss)) =
         (True, QuestionAnswerGroupList_default\<lparr>gl_items :=
            map (\<lambda>rs. fold (apply_record QuestionAnswerGroup_table) rs QuestionAnswerGroup_default) rss\<rparr>)"

text \<open>Messages the program can write and read back: no unknown fields, valid UTF-8.\<close>

definition qa_writable :: "(string \<Rightarrow> bool) \<Rightarrow> QuestionAnswer \<Rightarrow> bool" where
  "qa_writable u q \<longleftrightarrow> qa_unknown q = [] \<and> u (qa_question q) \<and> u (qa_answer q) \<and> u (qa_group q) \<and> u (qa_id q)"

definition qag_writable :: "(string \<Rightarrow> bool) \<Rightarrow> QuestionAnswerGroup \<Rightarrow> bool" where
  "qag_writable u g \<longleftrightarrow> qag_unknown g = [] \<and> u (qag_group g) \<and> u (qag_path g) \<and> u (qag_id g)"

lemma qa_records_ok: "r \<in> set (qa_records q) \<Longrightarrow> qa_writable u q \<Longrightarrow> u (snd r)"
  unfolding qa_records_def set_filter by (auto simp: qa_writable_def)

lemma qag_records_ok: "r \<in> set (qag_records g) \<Longrightarrow> qag_writable u g \<Longrightarrow> u (snd r)"
  unfolding qag_records_def set_filter by (auto simp: qag_writable_def)

lemma framed_record: "length p < 2 ^ 32 \<Longrightarrow> framed p = wire_record 10 p"
  by (simp add: framed_def InternalWriteMessage_record)

lemma length_le_framed: "length p \<le> length (framed p)"
  by (simp add: length_framed LengthDelimitedSize_def)

lemma concat_framed:
  "length (concat (map (\<lambda>x. framed (f x)) xs)) \<le> max_size \<Longrightarrow>
   (\<And>x. x \<in> set xs \<Longrightarrow> length (f x) < 2 ^ 32 \<Longrightarrow> f x = record_bytes (g x)) \<Longrightarrow>
   concat (map (\<lambda>x. framed (f x)) xs) = questions_bytes (map g xs)"
proof (induction xs)
  case Nil
  then show ?case by (simp add: questions_bytes_def)
next
  case (Cons x xs)
  have l: "length (f x) < 2 ^ 32"
    using Cons.prems(1) length_le_framed [of "f x"] by (simp add: max_size_def)
  then have "framed (f x) = wire_record 10 (record_bytes (g x))"
    using Cons.prems(2) [of x] by (simp add: framed_record)
  moreover have "length (concat (map (\<lambda>x. framed (f x)) xs)) \<le> max_size"
    using Cons.prems(1) by simp
  ultimately show ?case using Cons.IH Cons.prems(2) by (simp add: questions_bytes_def)
qed

text \<open>What is written is a sequence of records the tables know.\<close>

lemma questions_as_records:
  assumes "\<forall>q \<in> set (qal_items m). qa_writable u q" "qal_unknown m = []"
    and "length (fst (QuestionAnswerList_SerializeToOstream m)) \<le> max_size"
  shows "fst (QuestionAnswerList_SerializeToOstream m) = questions_bytes (map qa_records (qal_items m))"
    "\<forall>rs \<in> set (map qa_records (qal_items m)). \<forall>r \<in> set rs. fst r \<in> fst ` set QuestionAnswer_table \<and> u (snd r)"
    "map (\<lambda>rs. fold (apply_record QuestionAnswer_table) rs QuestionAnswer_default) (map qa_records (qal_items m)) =
       map (\<lambda>q. q\<lparr>qa_cached := 0\<rparr>) (qal_items m)"
proof -
  have n: "qa_unknown q = []" if "q \<in> set (qal_items m)" for q
    using bspec [OF assms(1) that] by (simp add: qa_writable_def)
  show "fst (QuestionAnswerList_SerializeToOstream m) = questions_bytes (map qa_records (qal_items m))"
    unfolding qal_SerializeToOstream_bytes assms(2) append_Nil2
    by (rule concat_framed)
       (use assms(2,3) n in \<open>auto simp: qal_SerializeToOstream_bytes QuestionAnswer_InternalSerialize_records\<close>)
  have "fst r \<in> fst ` set QuestionAnswer_table \<and> u (snd r)" if "q \<in> set (qal_items m)" "r \<in> set (qa_records q)" for q r
    using qa_records_tags [of q] that(2) qa_records_ok [OF that(2) bspec [OF assms(1) that(1)]] by blast
  then show "\<forall>rs \<in> set (map qa_records (qal_items m)). \<forall>r \<in> set rs. fst r \<in> fst ` set QuestionAnswer_table \<and> u (snd r)"
    by simp
  show "map (\<lambda>rs. fold (apply_record QuestionAnswer_table) rs QuestionAnswer_default) (map qa_records (qal_items m))
      = map (\<lambda>q. q\<lparr>qa_cached := 0\<rparr>) (qal_items m)"
    using n fold_qa_records by simp
qed

lemma groups_as_records:
  assumes "\<forall>g \<in> set (gl_items m). qag_writable u g" "gl_unknown m = []"
    and "length (fst (QuestionAnswerGroupList_SerializeToOstream m)) \<le> max_size"
  shows "fst (QuestionAnswerGroupList_SerializeToOstream m) = questions_bytes (map qag_records (gl_items m))"
    "\<forall>rs \<in> set (map qag_records (gl_items m)). \<forall>r \<in> set rs. fst r \<in> fst ` set QuestionAnswerGroup_table \<and> u (snd r)"
    "map (\<lambda>rs. fold (apply_record QuestionAnswerGroup_table) rs QuestionAnswerGroup_default) (map qag_records (gl_items m)) =
       map (\<lambda>g. g\<lparr>qag_cached := 0\<rparr>) (gl_items m)"
proof -
  have n: "qag_unknown g = []" if "g \<in> set (gl_items m)" for g
    using bspec [OF assms(1) that] by (simp add: qag_writable_def)
  show "fst (QuestionAnswerGroupList_SerializeToOstream m) = questions_bytes (map qag_records (gl_items m))"
    unfolding gl_SerializeToOstream_bytes assms(2) append_Nil2
    by (rule concat_framed)
       (use assms(2,3) n in \<open>auto simp: gl_SerializeToOstream_bytes QuestionAnswerGroup_InternalSerialize_records\<close>)
  have "fst r \<in> fst ` set QuestionAnswerGroup_table \<and> u (snd r)" if "g \<in> set (gl_items m)" "r \<in> set (qag_records g)" for g r
    using qag_records_tags [of g] that(2) qag_records_ok [OF that(2) bspec [OF assms(1) that(1)]] by blast
  then show "\<forall>rs \<in> set (map qag_records (gl_items m)). \<forall>r \<in> set rs. fst r \<in> fst ` set QuestionAnswerGroup_table \<and> u (snd r)"
    by simp
  show "map (\<lambda>rs. fold (apply_record QuestionAnswerGroup_table) rs QuestionAnswerGroup_default) (map qag_records (gl_items m))
      = map (\<lambda>g. g\<lparr>qag_cached := 0\<rparr>) (gl_items m)"
    using n fold_qag_records by simp
qed

context protobuf_parser
begin

lemma parse_serialized_questions:
  assumes "\<And>q. q \<in> set (qal_items m) \<Longrightarrow> qa_writable utf8_ok q" "qal_unknown m = []"
    and "length (fst (QuestionAnswerList_SerializeToOstream m)) \<le> max_size"
  shows "parse_questions (Some (fst (QuestionAnswerList_SerializeToOstream m))) =
    (True, QuestionAnswerList_default\<lparr>qal_items := map (\<lambda>q. q\<lparr>qa_cached := 0\<rparr>) (qal_items m)\<rparr>)"
proof -
  have "\<forall>q \<in> set (qal_items m). qa_writable utf8_ok q" using assms(1) by blast
  note r = questions_as_records [OF this assms(2,3)]
  have "length (questions_bytes (map qa_records (qal_items m))) \<le> max_size" using r(1) assms(3) by simp
  from question_records [OF _ this] r(2) show ?thesis unfolding r(1) r(3) [symmetric] by blast
qed

lemma parse_serialized_groups:
  assumes "\<And>g. g \<in> set (gl_items m) \<Longrightarrow> qag_writable utf8_ok g" "gl_unknown m = []"
    and "length (fst (QuestionAnswerGroupList_SerializeToOstream m)) \<le> max_size"
  shows "parse_groups (Some (fst (QuestionAnswerGroupList_SerializeToOstream m))) =
    (True, QuestionAnswerGroupList_default\<lparr>gl_items := map (\<lambda>g. g\<lparr>qag_cached := 0\<rparr>) (gl_items m)\<rparr>)"
proof -
  have "\<forall>g \<in> set (gl_items m). qag_writable utf8_ok g" using assms(1) by blast
  note r = groups_as_records [OF this assms(2,3)]
  have "length (questions_bytes (map qag_records (gl_items m))) \<le> max_size" using r(1) assms(3) by simp
  from group_records [OF _ this] r(2) show ?thesis unfolding r(1) r(3) [symmetric] by blast
qed

end

subsection \<open>A decoder over the parse tables\<close>

text \<open>Varints of at most \<open>k\<close> bytes; a tag has at most five, a value at most ten.\<close>

fun take_varint :: "nat \<Rightarrow> string \<Rightarrow> (nat \<times> string) option" where
  "take_varint 0 s = None"
| "take_varint (Suc k) [] = None"
| "take_varint (Suc k) (c # cs) =
     (let b = of_char c in
      if b < 128 then Some (b, cs)
      else map_option (\<lambda>(v, r). (b - 128 + 128 * v, r)) (take_varint k cs))"

definition take_tag :: "string \<Rightarrow> (nat \<times> string) option" where
  "take_tag s = map_option (\<lambda>(v, r). (v mod 2 ^ 32, r)) (take_varint 5 s)"

definition take_size :: "string \<Rightarrow> (nat \<times> string) option" where
  "take_size s = (case take_varint 5 s of
                   None \<Rightarrow> None | Some (n, r) \<Rightarrow> if n \<le> max_size then Some (n, r) else None)"

text \<open>\<open>FieldParser\<close> on a field nothing is known of: what follows its value, by wire type.\<close>

fun skip_value :: "nat \<Rightarrow> nat \<Rightarrow> string \<Rightarrow> string option"
and skip_group :: "nat \<Rightarrow> nat \<Rightarrow> string \<Rightarrow> string option" where
  "skip_value fuel tag s =
     (if tag div 8 = 0 then None
      else if tag mod 8 = 0 then map_option snd (take_varint 10 s)
      else if tag mod 8 = 1 then if length s < 8 then None else Some (drop 8 s)
      else if tag mod 8 = 2 then
        (case take_size s of None \<Rightarrow> None | Some (n, r) \<Rightarrow> if length r < n then None else Some (drop n r))
      else if tag mod 8 = 3 then
        (case fuel of 0 \<Rightarrow> None | Suc f \<Rightarrow> skip_group f (tag div 8) s)
      else if tag mod 8 = 5 then if length s < 4 then None else Some (drop 4 s)
      else None)"
| "skip_group 0 num s = None"
| "skip_group (Suc f) num s =
     (case take_tag s of
        None \<Rightarrow> None
      | Some (tag, r) \<Rightarrow>
          if tag mod 8 = 4 then if tag div 8 = num then Some r else None
          else (case skip_value f tag r of None \<Rightarrow> None | Some r' \<Rightarrow> skip_group f num r'))"

text \<open>
  The parse loop (\<open>WireFormatParser\<close>) over a table: a record whose tag is in the table is read
  and handed to its setter, any other field is kept as unknown, a zero tag or an end-group tag
  ends a message that is not a group with an error. Every round reads at least one byte, so
  the length of the input is fuel enough.
\<close>

fun parse_fields ::
  "(nat \<times> (string \<Rightarrow> 'm \<Rightarrow> bool \<times> 'm)) list \<Rightarrow> (string \<Rightarrow> 'm \<Rightarrow> 'm) \<Rightarrow> nat \<Rightarrow> string \<Rightarrow> 'm \<Rightarrow> bool \<times> 'm" where
  "parse_fields table unk 0 s m = (s = [], m)"
| "parse_fields table unk (Suc n) s m =
     (if s = [] then (True, m)
      else case take_tag s of
        None \<Rightarrow> (False, m)
      | Some (tag, r) \<Rightarrow>
          if tag = 0 \<or> tag mod 8 = 4 then (False, m)
          else (case map_of table tag of
            Some set_field \<Rightarrow>
              (case take_size r of
                 None \<Rightarrow> (False, m)
               | Some (k, r') \<Rightarrow>
                   if length r' < k then (False, m)
                   else (case set_field (take k r') m of
                           (ok, m') \<Rightarrow> if ok then parse_fields table unk n (drop k r') m' else (False, m')))
          | None \<Rightarrow>
              (case skip_value n tag r of
                 None \<Rightarrow> (False, m)
               | Some r' \<Rightarrow> parse_fields table unk n r' (unk (take (length s - length r') s) m))))"

definition string_table ::
  "(string \<Rightarrow> bool) \<Rightarrow> (nat \<times> (string \<Rightarrow> 'm \<Rightarrow> 'm)) list \<Rightarrow> (nat \<times> (string \<Rightarrow> 'm \<Rightarrow> bool \<times> 'm)) list" where
  "string_table u table = map (\<lambda>(t, f). (t, \<lambda>s m. (u s, f s m))) table"

text \<open>The repeated field \<open>items\<close>, tag 10: the element is added and then parsed in place.\<close>

definition decode_questions :: "(string \<Rightarrow> bool) \<Rightarrow> string option \<Rightarrow> bool \<times> QuestionAnswerList" where
  "decode_questions u input =
     (case input of
        None \<Rightarrow> (False, QuestionAnswerList_default)
      | Some bs \<Rightarrow>
          parse_fields
            [(10, \<lambda>p m. case parse_fields (string_table u QuestionAnswer_table)
                           (\<lambda>b q. q\<lparr>qa_unknown := qa_unknown q @ b\<rparr>) (length p) p QuestionAnswer_default of
                    (ok, q) \<Rightarrow> (ok, m\<lparr>qal_items := qal_items m @ [q]\<rparr>))]
            (\<lambda>b m. m\<lparr>qal_unknown := qal_unknown m @ b\<rparr>) (length bs) bs QuestionAnswerList_default)"

definition decode_groups :: "(string \<Rightarrow> bool) \<Rightarrow> string option \<Rightarrow> bool \<times> QuestionAnswerGroupList" where
  "decode_groups u input =
     (case input of
        None \<Rightarrow> (False, QuestionAnswerGroupList_default)
      | Some bs \<Rightarrow>
          parse_fields
            [(10, \<lambda>p m. case parse_fields (string_table u QuestionAnswerGroup_table)
                           (\<lambda>b q. q\<lparr>qag_unknown := qag_unknown q @ b\<rparr>) (length p) p QuestionAnswerGroup_default of
                    (ok, q) \<Rightarrow> (ok, m\<lparr>gl_items := gl_items m @ [q]\<rparr>))]
            (\<lambda>b m. m\<lparr>gl_unknown := gl_unknown m @ b\<rparr>) (length bs) bs QuestionAnswerGroupList_default)"

text \<open>Well-formed UTF-8, as \<open>IsStructurallyValid\<close> is documented.\<close>

definition cont :: "char \<Rightarrow> bool" where
  "cont c \<longleftrightarrow> (let b = (of_char c :: nat) in 0x80 \<le> b \<and> b \<le> 0xBF)"

fun utf8_valid :: "string \<Rightarrow> bool" where
  "utf8_valid [] = True"
| "utf8_valid (c # cs) =
     (let b = (of_char c :: nat); second = (if cs = [] then 0 else (of_char (hd cs) :: nat)) in
      if b < 0x80 then utf8_valid cs
      else if 0xC2 \<le> b \<and> b \<le> 0xDF then
        (case cs of c1 # r \<Rightarrow> cont c1 \<and> utf8_valid r | _ \<Rightarrow> False)
      else if 0xE0 \<le> b \<and> b \<le> 0xEF then
        (case cs of c1 # c2 # r \<Rightarrow> cont c1 \<and> cont c2 \<and> (b = 0xE0 \<longrightarrow> 0xA0 \<le> second) \<and>
                                  (b = 0xED \<longrightarrow> second \<le> 0x9F) \<and> utf8_valid r | _ \<Rightarrow> False)
      else if 0xF0 \<le> b \<and> b \<le> 0xF4 then
        (case cs of c1 # c2 # c3 # r \<Rightarrow> cont c1 \<and> cont c2 \<and> cont c3 \<and> (b = 0xF0 \<longrightarrow> 0x90 \<le> second) \<and>
                                  (b = 0xF4 \<longrightarrow> second \<le> 0x8F) \<and> utf8_valid r | _ \<Rightarrow> False)
      else False)"

subsection \<open>The decoder meets the contract\<close>

lemma take_varint_varint:
  "length (varint n) \<le> k \<Longrightarrow> take_varint k (varint n @ rest) = Some (n, rest)"
proof (induction n arbitrary: k rule: varint.induct)
  case (1 n)
  from "1.prems" obtain j where j: "k = Suc j" by (cases k) (auto simp: varint.simps [of n] split: if_splits)
  show ?case
  proof (cases "128 \<le> n")
    case True
    have m: "of_char (char_of (128 + n mod 128) :: char) = 128 + n mod 128"
      by (simp add: take_bit_eq_mod)
    have "take_varint j (varint (n div 128) @ rest) = Some (n div 128, rest)"
      using "1.IH" True "1.prems" j by (simp add: varint.simps [of n])
    then show ?thesis using True m by (simp add: j varint.simps [of n] del: of_char_of)
  next
    case False
    then show ?thesis by (simp add: j varint.simps [of n] Let_def take_bit_eq_mod)
  qed
qed

lemma length_varint_32: "n < 2 ^ 32 \<Longrightarrow> length (varint n) \<le> 5"
  by (simp add: length_varint)

lemma take_tag_varint: "n < 2 ^ 32 \<Longrightarrow> take_tag (varint n @ rest) = Some (n, rest)"
  by (simp add: take_tag_def take_varint_varint [OF length_varint_32])

lemma take_size_varint: "n \<le> max_size \<Longrightarrow> take_size (varint n @ rest) = Some (n, rest)"
  by (simp add: take_size_def take_varint_varint [OF length_varint_32] max_size_def)

lemma wire_record_nonempty: "wire_record t s \<noteq> []"
  by (simp add: wire_record_def varint.simps [of t])

text \<open>One round of the loop on a record the table knows.\<close>

lemma parse_fields_record:
  assumes "map_of table t = Some f" "0 < t" "t < 2 ^ 32" "t mod 8 \<noteq> 4" "length p \<le> max_size"
    and "f p m = (True, m')"
  shows "parse_fields table unk (Suc n) (wire_record t p @ rest) m = parse_fields table unk n rest m'"
proof -
  have "take_tag (wire_record t p @ rest) = Some (t, varint (length p) @ p @ rest)"
    using take_tag_varint [OF assms(3)] by (simp add: wire_record_def)
  then show ?thesis
    using assms wire_record_nonempty [of t p] by (simp add: take_size_varint)
qed

lemma parse_fields_records:
  assumes "length rs \<le> n" "length (record_bytes rs) \<le> max_size"
    and "\<And>r m. r \<in> set rs \<Longrightarrow> 0 < fst r \<and> fst r < 2 ^ 32 \<and> fst r mod 8 \<noteq> 4 \<and>
           (\<exists>f. map_of table (fst r) = Some f \<and> f (snd r) m = (True, g r m))"
  shows "parse_fields table unk n (record_bytes rs) m = (True, fold g rs m)"
  using assms
proof (induction rs arbitrary: n m)
  case Nil
  then show ?case by (cases n) auto
next
  case (Cons r rs)
  obtain t s where r: "r = (t, s)" by (cases r)
  obtain k where n: "n = Suc k" using Cons.prems(1) by (cases n) auto
  obtain f where f: "map_of table t = Some f" "f s m = (True, g r m)"
    using Cons.prems(3) [of r m] r by auto
  have "length s \<le> max_size" using Cons.prems(2) by (simp add: r wire_record_def)
  then have "parse_fields table unk n (record_bytes (r # rs)) m = parse_fields table unk k (record_bytes rs) (g r m)"
    using f Cons.prems(3) [of r m] by (simp add: r n parse_fields_record del: parse_fields.simps)
  also have "\<dots> = (True, fold g rs (g r m))"
    using Cons.prems n by (intro Cons.IH) (auto simp: r)
  finally show ?case by simp
qed

lemma length_records_le: "length rs \<le> length (record_bytes rs)"
proof (induction rs)
  case (Cons r rs)
  obtain t s where r: "r = (t, s)" by (cases r)
  show ?case using Cons wire_record_nonempty [of t s] by (cases "wire_record t s") (simp_all add: r)
qed simp

text \<open>A message of string fields: the records are applied one after the other.\<close>

definition string_tags_ok :: "(nat \<times> (string \<Rightarrow> 'm \<Rightarrow> 'm)) list \<Rightarrow> bool" where
  "string_tags_ok table \<longleftrightarrow> (\<forall>t \<in> fst ` set table. 0 < t \<and> t < 2 ^ 32 \<and> t mod 8 \<noteq> 4)"

lemma map_of_string_table:
  "map_of (string_table u table) t = map_option (\<lambda>f s m. (u s, f s m)) (map_of table t)"
  by (induction table) (auto simp: string_table_def)

lemma parse_string_message:
  assumes "string_tags_ok table" "length (record_bytes rs) \<le> max_size"
    and "\<And>r. r \<in> set rs \<Longrightarrow> fst r \<in> fst ` set table \<and> u (snd r)"
  shows "parse_fields (string_table u table) unk (length (record_bytes rs)) (record_bytes rs) m =
    (True, fold (apply_record table) rs m)"
proof (rule parse_fields_records [OF length_records_le assms(2)])
  fix r m
  assume "r \<in> set rs"
  then have r: "fst r \<in> fst ` set table" "u (snd r)" using assms(3) by auto
  then obtain f where "map_of table (fst r) = Some f" by (metis map_of_eq_None_iff not_None_eq)
  then show "0 < fst r \<and> fst r < 2 ^ 32 \<and> fst r mod 8 \<noteq> 4 \<and>
      (\<exists>f. map_of (string_table u table) (fst r) = Some f \<and> f (snd r) m = (True, apply_record table r m))"
    using r assms(1) by (auto simp: string_tags_ok_def map_of_string_table apply_record_def)
qed

definition framed_records :: "wrecord list list \<Rightarrow> wrecord list" where
  "framed_records rss = map (\<lambda>rs. (10, record_bytes rs)) rss"

lemma questions_bytes_framed: "questions_bytes rss = record_bytes (framed_records rss)"
  by (simp add: questions_bytes_def record_bytes_def framed_records_def comp_def)

lemma length_member_questions_bytes:
  "rs \<in> set rss \<Longrightarrow> length (record_bytes rs) \<le> length (questions_bytes rss)"
  by (induction rss) (auto simp: questions_bytes_def wire_record_def)

text \<open>A list message: every framed item is decoded and appended.\<close>

lemma parse_list_message:
  fixes item :: "string \<Rightarrow> 'm \<Rightarrow> bool \<times> 'm"
  assumes "length (questions_bytes rss) \<le> max_size"
    and "\<And>rs m. rs \<in> set rss \<Longrightarrow> item (record_bytes rs) m = (True, app (dec rs) m)"
  shows "parse_fields [(10, item)] unk (length (questions_bytes rss)) (questions_bytes rss) m =
    (True, fold (\<lambda>rs. app (dec rs)) rss m)"
proof -
  let ?g = "\<lambda>r m. snd (item (snd r) m)"
  have "parse_fields [(10, item)] unk (length (questions_bytes rss)) (questions_bytes rss) m =
      (True, fold ?g (framed_records rss) m)"
    unfolding questions_bytes_framed
  proof (rule parse_fields_records [OF length_records_le])
    show "length (record_bytes (framed_records rss)) \<le> max_size"
      using assms(1) by (simp add: questions_bytes_framed)
  next
    fix r m
    assume "r \<in> set (framed_records rss)"
    then obtain rs where "rs \<in> set rss" "r = (10, record_bytes rs)" by (auto simp: framed_records_def)
    then show "0 < fst r \<and> fst r < 2 ^ 32 \<and> fst r mod 8 \<noteq> 4 \<and>
        (\<exists>f. map_of [(10, item)] (fst r) = Some f \<and> f (snd r) m = (True, ?g r m))"
      using assms(2) by simp
  qed
  also have "fold ?g (framed_records rss) m = fold (\<lambda>rs. app (dec rs)) rss m"
    using assms(2) by (induction rss arbitrary: m) (auto simp: framed_records_def)
  finally show ?thesis .
qed

lemma fold_append_questions:
  "fold (\<lambda>rs m. m\<lparr>qal_items := qal_items m @ [f rs]\<rparr>) rss m = m\<lparr>qal_items := qal_items m @ map f rss\<rparr>"
  by (induction rss arbitrary: m) simp_all

lemma fold_append_groups:
  "fold (\<lambda>rs m. m\<lparr>gl_items := gl_items m @ [f rs]\<rparr>) rss m = m\<lparr>gl_items := gl_items m @ map f rss\<rparr>"
  by (induction rss arbitrary: m) simp_all

lemma tables_ok: "string_tags_ok QuestionAnswer_table" "string_tags_ok QuestionAnswerGroup_table"
  by (simp_all add: string_tags_ok_def QuestionAnswer_table_def QuestionAnswerGroup_table_def)

lemma decode_questions_records:
  assumes "\<And>rs r. rs \<in> set rss \<Longrightarrow> r \<in> set rs \<Longrightarrow> fst r \<in> fst ` set QuestionAnswer_table \<and> u (snd r)"
    and "length (questions_bytes rss) \<le> max_size"
  shows "decode_questions u (Some (questions_bytes rss)) =
    (True, QuestionAnswerList_default\<lparr>qal_items :=
       map (\<lambda>rs. fold (apply_record QuestionAnswer_table) rs QuestionAnswer_default) rss\<rparr>)"
proof -
  let ?dec = "\<lambda>rs. fold (apply_record QuestionAnswer_table) rs QuestionAnswer_default"
  have "parse_fields (string_table u QuestionAnswer_table) unk (length (record_bytes rs)) (record_bytes rs) QuestionAnswer_default
      = (True, ?dec rs)" if "rs \<in> set rss" for rs unk
    using assms that length_member_questions_bytes [OF that]
    by (intro parse_string_message tables_ok) (auto intro: le_trans)
  note P = this
  show ?thesis
    unfolding decode_questions_def option.case
    by (subst parse_list_message [OF assms(2), where app = "\<lambda>q m. m\<lparr>qal_items := qal_items m @ [q]\<rparr>" and dec = ?dec])
       (simp_all add: P fold_append_questions QuestionAnswerList_default_def)
qed

lemma decode_groups_records:
  assumes "\<And>rs r. rs \<in> set rss \<Longrightarrow> r \<in> set rs \<Longrightarrow> fst r \<in> fst ` set QuestionAnswerGroup_table \<and> u (snd r)"
    and "length (questions_bytes rss) \<le> max_size"
  shows "decode_groups u (Some (questions_bytes rss)) =
    (True, QuestionAnswerGroupList_default\<lparr>gl_items :=
       map (\<lambda>rs. fold (apply_record QuestionAnswerGroup_table) rs QuestionAnswerGroup_default) rss\<rparr>)"
proof -
  let ?dec = "\<lambda>rs. fold (apply_record QuestionAnswerGroup_table) rs QuestionAnswerGroup_default"
  have "parse_fields (string_table u QuestionAnswerGroup_table) unk (length (record_bytes rs)) (record_bytes rs) QuestionAnswerGroup_default
      = (True, ?dec rs)" if "rs \<in> set rss" for rs unk
    using assms that length_member_questions_bytes [OF that]
    by (intro parse_string_message tables_ok) (auto intro: le_trans)
  note P = this
  show ?thesis
    unfolding decode_groups_def option.case
    by (subst parse_list_message [OF assms(2), where app = "\<lambda>q m. m\<lparr>gl_items := gl_items m @ [q]\<rparr>" and dec = ?dec])
       (simp_all add: P fold_append_groups QuestionAnswerGroupList_default_def)
qed

interpretation table_decoder: protobuf_parser "decode_questions u" "decode_groups u" u for u
proof
  show "\<not> fst (decode_questions u None)" by (simp add: decode_questions_def)
  show "\<not> fst (decode_groups u None)" by (simp add: decode_groups_def)
qed (fact decode_questions_records decode_groups_records)+

end
