(* ===== verification/Environment.thy ===== *)
theory Environment
  imports FileSystem FormatString MessageParser
begin

text \<open>
  What the program gets from outside the repository, as the argument of every operation that
  uses it: the two parsers of the protobuf library, whether \<open>new(std::nothrow)\<close> succeeds, the
  text of \<open>filesystem_error::what()\<close>, what a failing \<open>remove_all\<close> leaves behind, and the
  entries \<open>recursive_directory_iterator\<close> visits, in its order, with the error it may end in.
\<close>

record env =
  parse_questions :: "string option \<Rightarrow> bool \<times> QuestionAnswerList"
  parse_groups :: "string option \<Rightarrow> bool \<times> QuestionAnswerGroupList"
  alloc_ok :: bool
  what :: "fs_error \<Rightarrow> string"
  partial_removal :: "fs \<Rightarrow> path \<Rightarrow> fs"
  entries :: "fs \<Rightarrow> path \<Rightarrow> path list \<times> fs_error option"

definition env_fmt :: "env \<Rightarrow> string \<Rightarrow> string list \<Rightarrow> string" where
  "env_fmt E fmt args = notebook_format_string (alloc_ok E) fmt args"

text \<open>The parsers of an environment meet the contract of \<open>protobuf_parser\<close>.\<close>

definition env_parses :: "env \<Rightarrow> (string \<Rightarrow> bool) \<Rightarrow> bool" where
  "env_parses E u \<longleftrightarrow> protobuf_parser (parse_questions E) (parse_groups E) u"

text \<open>
  An environment in which everything is concrete, for examples: the table decoder, a working
  allocator, entries in the order in which they were made.
\<close>

definition plain_env :: env where
  "plain_env = \<lparr>parse_questions = decode_questions utf8_valid, parse_groups = decode_groups utf8_valid,
     alloc_ok = True, what = (\<lambda>e. case e of FsError op p \<Rightarrow> op @ '': '' @ p),
     partial_removal = (\<lambda>F p. F), entries = (\<lambda>F p. (fs_below F p, None))\<rparr>"

lemma plain_env_parses: "env_parses plain_env utf8_valid"
  by (simp add: env_parses_def plain_env_def table_decoder.protobuf_parser_axioms)

end
