(* ===== verification/IdStore.thy ===== *)
theory IdStore
  imports Prelude
begin

text \<open>
  The contract of a store of records under unique ids, which \<open>CQuestionAnswerImpl\<close> offers
  twice (questions and groups): insertion refuses a taken id, deletion and update refuse an
  unknown one, and every operation reports whether it was carried out. The specification is a
  finite map; the locale lifts the laws of the single operations to any sequence of them.
\<close>

datatype ('k, 'v) store_op = Ins 'k 'v | Del 'k | Upd 'k 'v

fun spec_op :: "('k, 'v) store_op \<Rightarrow> ('k \<Rightarrow> 'v option) \<Rightarrow> bool \<times> ('k \<Rightarrow> 'v option)" where
  "spec_op (Ins k v) m = (if m k = None then (True, m(k \<mapsto> v)) else (False, m))"
| "spec_op (Del k) m = (m k \<noteq> None, m(k := None))"
| "spec_op (Upd k v) m = (if m k = None then (False, m) else (True, m(k \<mapsto> v)))"

fun spec_run :: "('k, 'v) store_op list \<Rightarrow> ('k \<Rightarrow> 'v option) \<Rightarrow> bool list \<times> ('k \<Rightarrow> 'v option)" where
  "spec_run [] m = ([], m)"
| "spec_run (x # xs) m =
     (case spec_op x m of (b, m') \<Rightarrow> case spec_run xs m' of (bs, m'') \<Rightarrow> (b # bs, m''))"

type_synonym ('k, 'v, 's, 'e) store_step = "('k, 'v) store_op \<Rightarrow> 's \<Rightarrow> ('e, bool \<times> 's) outcome"

fun run_store :: "('k, 'v, 's, 'e) store_step \<Rightarrow> ('k, 'v) store_op list \<Rightarrow> 's \<Rightarrow> ('e, bool list \<times> 's) outcome" where
  "run_store step [] s = Ret ([], s)"
| "run_store step (x # xs) s =
     (case step x s of
        Ret (b, s') \<Rightarrow>
          (case run_store step xs s' of
             Ret (bs, s'') \<Rightarrow> Ret (b # bs, s'') | Throw e \<Rightarrow> Throw e | Undef \<Rightarrow> Undef)
      | Throw e \<Rightarrow> Throw e
      | Undef \<Rightarrow> Undef)"

locale id_store =
  fixes step :: "('k, 'v, 's, 'e) store_step"
    and view :: "'s \<Rightarrow> 'k \<Rightarrow> 'v option"
    and ok :: "'s \<Rightarrow> bool"
  assumes step_spec:
    "ok s \<Longrightarrow> \<exists>s'. step x s = Ret (fst (spec_op x (view s)), s') \<and> ok s' \<and> view s' = snd (spec_op x (view s))"

context id_store
begin

lemma run_refines:
  "ok s \<Longrightarrow> \<exists>s'. run_store step xs s = Ret (fst (spec_run xs (view s)), s') \<and> ok s' \<and>
     view s' = snd (spec_run xs (view s))"
proof (induction xs arbitrary: s)
  case Nil
  then show ?case by simp
next
  case (Cons x xs)
  obtain s1 where 1: "step x s = Ret (fst (spec_op x (view s)), s1)" "ok s1" "view s1 = snd (spec_op x (view s))"
    using step_spec [OF Cons.prems] by blast
  then show ?case using Cons.IH [OF 1(2)] by (auto split: prod.splits)
qed

lemma never_undefined: "ok s \<Longrightarrow> is_ret (run_store step xs s)"
  using run_refines [of s xs] by auto

lemma keeps_ok: "ok s \<Longrightarrow> run_store step xs s = Ret (bs, s') \<Longrightarrow> ok s'"
  using run_refines [of s xs] by auto

lemma ins_then_view:
  "ok s \<Longrightarrow> step (Ins k v) s = Ret (True, s') \<Longrightarrow> view s' k = Some v"
  using step_spec [of s "Ins k v"] by (auto split: if_splits)

lemma del_then_view:
  "ok s \<Longrightarrow> step (Del k) s = Ret (b, s') \<Longrightarrow> view s' k = None"
  using step_spec [of s "Del k"] by auto

lemma ins_del_restores:
  assumes "ok s" "view s k = None"
  shows "\<exists>s'. run_store step [Ins k v, Del k] s = Ret ([True, True], s') \<and> view s' = view s"
proof -
  have "(view s)(k := None) = view s" using assms(2) by auto
  then show ?thesis using run_refines [OF assms(1), of "[Ins k v, Del k]"] assms(2) by auto
qed

end

end
