(* ===== verification/QuestionAnswerImpl.thy ===== *)
theory QuestionAnswerImpl
  imports Environment RepeatedField IdStore
begin

text \<open>
  \<open>CQuestionAnswerImpl\<close> (\<open>src/src/question_answer_impl.cpp\<close>): one file of questions, or the
  file of group ids, held as protobuf lists between \<open>open\<close> and \<open>close\<close>. Member functions take
  the object and return it; output parameters are arguments and results. The components they
  call are the file system, the protobuf lists and \<open>notebook_format_string\<close>.
\<close>

record CQuestionAnswerParam =
  prm_id :: string
  prm_question :: string
  prm_answer :: string
  prm_group :: string

record CQuestionAnswerImpl =
  qai_group :: string
  qai_path :: string
  qai_groups :: QuestionAnswerGroupList
  qai_questions :: QuestionAnswerList
  qai_error :: string

definition new_impl :: CQuestionAnswerImpl where
  "new_impl = \<lparr>qai_group = [], qai_path = [], qai_groups = QuestionAnswerGroupList_default,
     qai_questions = QuestionAnswerList_default, qai_error = []\<rparr>"

subsection \<open>Opening and closing\<close>

definition qai_open :: "env \<Rightarrow> fs \<Rightarrow> string \<Rightarrow> bool \<Rightarrow> CQuestionAnswerImpl \<Rightarrow> bool \<times> CQuestionAnswerImpl" where
  "qai_open E F path flag s =
     (if path = [] then (False, s\<lparr>qai_error := env_fmt E ''Input path is empty'' []\<rparr>)
      else if \<not> fs_exists F path then (True, s\<lparr>qai_path := path\<rparr>)
      else let ifs = fs_read F path in
        if \<not> flag then
          (case parse_groups E ifs of
             (ok, m) \<Rightarrow> let s' = s\<lparr>qai_groups := m\<rparr> in
               if \<not> ok then (False, s'\<lparr>qai_error := env_fmt E ''Parse %s failed'' [path]\<rparr>)
               else (True, s'\<lparr>qai_path := path\<rparr>))
        else
          (case parse_questions E ifs of
             (ok, m) \<Rightarrow> let s' = s\<lparr>qai_questions := m\<rparr> in
               if \<not> ok then (False, s'\<lparr>qai_error := env_fmt E ''Parse %s failed'' [path]\<rparr>)
               else (True, s'\<lparr>qai_path := path\<rparr>)))"

definition qai_close :: "CQuestionAnswerImpl \<Rightarrow> fs \<Rightarrow> (fs_error, unit) outcome \<times> CQuestionAnswerImpl \<times> fs" where
  "qai_close s F =
     (if gl_items (qai_groups s) = [] \<and> qal_items (qai_questions s) = [] then
        (case fs_remove (qai_path s) F of
           (Ret _, F') \<Rightarrow> (Ret (), s, F') | (Throw e, F') \<Rightarrow> (Throw e, s, F') | (Undef, F') \<Rightarrow> (Undef, s, F'))
      else
        (let (gbytes, gs) = (if length (gl_items (qai_groups s)) > 0
                             then QuestionAnswerGroupList_SerializeToOstream (qai_groups s)
                             else ([], qai_groups s));
             (qbytes, qs) = (if length (qal_items (qai_questions s)) > 0
                             then QuestionAnswerList_SerializeToOstream (qai_questions s)
                             else ([], qai_questions s))
         in (Ret (), s\<lparr>qai_groups := gs, qai_questions := qs\<rparr>, fs_write (qai_path s) (gbytes @ qbytes) F)))"

subsection \<open>Reading\<close>

definition groupName :: "CQuestionAnswerImpl \<Rightarrow> string" where
  "groupName s = qai_group s"

definition getGroups ::
  "CQuestionAnswerImpl \<Rightarrow> (string \<times> string) list \<Rightarrow> bool \<times> (string \<times> string) list \<times> CQuestionAnswerImpl" where
  "getGroups s groups =
     (if qai_path s = [] then (False, groups, s\<lparr>qai_error := ''Not opened yet''\<rparr>)
      else (True, fold (\<lambda>item gs. emplace (qag_id item) (qag_group item) gs) (gl_items (qai_groups s)) groups, s))"

definition param_of :: "QuestionAnswer \<Rightarrow> CQuestionAnswerParam" where
  "param_of item = \<lparr>prm_id = qa_id item, prm_question = qa_question item, prm_answer = qa_answer item,
     prm_group = qa_group item\<rparr>"

definition getQuestions ::
  "CQuestionAnswerImpl \<Rightarrow> CQuestionAnswerParam list \<Rightarrow> bool \<times> CQuestionAnswerParam list \<times> CQuestionAnswerImpl" where
  "getQuestions s questions =
     (if qai_path s = [] then (False, questions, s\<lparr>qai_error := ''Not opened yet''\<rparr>)
      else (True, questions @ map param_of (qal_items (qai_questions s)), s))"

subsection \<open>Groups\<close>

definition find_group :: "string \<Rightarrow> QuestionAnswerGroup list \<Rightarrow> nat" where
  "find_group gid items = find_index (\<lambda>qag. qag_id qag = gid) items"

definition qai_addGroup :: "env \<Rightarrow> string \<Rightarrow> string \<Rightarrow> CQuestionAnswerImpl \<Rightarrow> bool \<times> CQuestionAnswerImpl" where
  "qai_addGroup E gid name s =
     (if qai_path s = [] then (False, s\<lparr>qai_error := ''Not opened yet''\<rparr>)
      else let items = gl_items (qai_groups s) in
        if find_group gid items \<noteq> length items
        then (False, s\<lparr>qai_error := env_fmt E (''Repeated group id '' @ quoted_s) [gid]\<rparr>)
        else (True, s\<lparr>qai_groups := (qai_groups s)\<lparr>gl_items :=
               Add (qag_set_group name (qag_set_id gid QuestionAnswerGroup_default)) items\<rparr>\<rparr>))"

definition qai_deleteGroup ::
  "env \<Rightarrow> string \<Rightarrow> CQuestionAnswerImpl \<Rightarrow> (fs_error, bool \<times> CQuestionAnswerImpl) outcome" where
  "qai_deleteGroup E gid s =
     (if qai_path s = [] then Ret (False, s\<lparr>qai_error := ''Not opened yet''\<rparr>)
      else let items = gl_items (qai_groups s); index = find_group gid items in
        if index = length items
        then Ret (False, s\<lparr>qai_error := env_fmt E (''Found group id '' @ quoted_s @ '' failed'') [gid]\<rparr>)
        else need (SwapElements index (length items - 1) items) (\<lambda>items'.
             need (RemoveLast items') (\<lambda>items''.
               Ret (True, s\<lparr>qai_groups := (qai_groups s)\<lparr>gl_items := items''\<rparr>\<rparr>))))"

definition qai_updateGroup ::
  "env \<Rightarrow> string \<Rightarrow> string \<Rightarrow> CQuestionAnswerImpl \<Rightarrow> (fs_error, bool \<times> CQuestionAnswerImpl) outcome" where
  "qai_updateGroup E gid name s =
     (if qai_path s = [] then Ret (False, s\<lparr>qai_error := ''Not opened yet''\<rparr>)
      else let items = gl_items (qai_groups s); index = find_group gid items in
        if index = length items
        then Ret (False, s\<lparr>qai_error := env_fmt E (''Found group id '' @ quoted_s @ '' failed'') [gid]\<rparr>)
        else need (Mutable index (qag_set_group name) items) (\<lambda>items'.
               Ret (True, s\<lparr>qai_groups := (qai_groups s)\<lparr>gl_items := items'\<rparr>\<rparr>)))"

subsection \<open>Questions\<close>

definition find_question :: "string \<Rightarrow> QuestionAnswer list \<Rightarrow> nat" where
  "find_question qid items = find_index (\<lambda>qa. qa_id qa = qid) items"

definition qai_addQuestion ::
  "env \<Rightarrow> CQuestionAnswerParam \<Rightarrow> CQuestionAnswerImpl \<Rightarrow> bool \<times> CQuestionAnswerImpl" where
  "qai_addQuestion E qap s =
     (if qai_path s = [] then (False, s\<lparr>qai_error := ''Not opened yet''\<rparr>)
      else let qid = prm_id qap; items = qal_items (qai_questions s) in
        if find_question qid items \<noteq> length items
        then (False, s\<lparr>qai_error := env_fmt E (''Repeated question id '' @ quoted_s) [qid]\<rparr>)
        else (True, s\<lparr>qai_questions := (qai_questions s)\<lparr>qal_items :=
               Add (set_answer (prm_answer qap) (set_question (prm_question qap)
                     (set_group (prm_group qap) (set_id (prm_id qap) QuestionAnswer_default)))) items\<rparr>\<rparr>))"

definition qai_deleteQuestion ::
  "env \<Rightarrow> string \<Rightarrow> CQuestionAnswerImpl \<Rightarrow> (fs_error, bool \<times> CQuestionAnswerImpl) outcome" where
  "qai_deleteQuestion E qid s =
     (if qai_path s = [] then Ret (False, s\<lparr>qai_error := ''Not opened yet''\<rparr>)
      else let items = qal_items (qai_questions s); index = find_question qid items in
        if index = length items
        then Ret (False, s\<lparr>qai_error := env_fmt E (''Get question by id '' @ quoted_s @ '' failed'') [qid]\<rparr>)
        else need (SwapElements index (length items - 1) items) (\<lambda>items'.
             need (RemoveLast items') (\<lambda>items''.
               Ret (True, s\<lparr>qai_questions := (qai_questions s)\<lparr>qal_items := items''\<rparr>\<rparr>))))"

definition qai_queryQuestion ::
  "env \<Rightarrow> string \<Rightarrow> string \<Rightarrow> CQuestionAnswerImpl \<Rightarrow> bool \<times> string \<times> CQuestionAnswerImpl" where
  "qai_queryQuestion E qid answer s =
     (if qai_path s = [] then (False, answer, s\<lparr>qai_error := ''Not opened yet''\<rparr>)
      else let items = qal_items (qai_questions s); found = find_question qid items in
        if found = length items
        then (False, answer, s\<lparr>qai_error := env_fmt E (''Get question by id '' @ quoted_s @ '' failed'') [qid]\<rparr>)
        else (True, qa_answer (items ! found), s))"

definition qai_updateQuestion ::
  "env \<Rightarrow> string \<Rightarrow> CQuestionAnswerParam \<Rightarrow> CQuestionAnswerImpl \<Rightarrow> (fs_error, bool \<times> CQuestionAnswerImpl) outcome" where
  "qai_updateQuestion E qid dst s =
     (if qai_path s = [] then Ret (False, s\<lparr>qai_error := ''Not opened yet''\<rparr>)
      else if qid \<noteq> prm_id dst
      then Ret (False, s\<lparr>qai_error := env_fmt E (''Src id '' @ quoted_s @ '' and dst id '' @ quoted_s @ '' is mismatch'') [qid, prm_id dst]\<rparr>)
      else let items = qal_items (qai_questions s); index = find_question qid items in
        if index = length items
        then Ret (False, s\<lparr>qai_error := env_fmt E (''Get question by id '' @ quoted_s @ '' failed'') [qid]\<rparr>)
        else need (Mutable index (\<lambda>qap. set_answer (prm_answer dst) (set_question (prm_question dst)
                     (set_group (prm_group dst) qap))) items) (\<lambda>items'.
               Ret (True, s\<lparr>qai_questions := (qai_questions s)\<lparr>qal_items := items'\<rparr>\<rparr>)))"

definition qai_err :: "CQuestionAnswerImpl \<Rightarrow> string" where
  "qai_err s = c_str (qai_error s)"

subsection \<open>Every operation on every branch\<close>

text \<open>
  The members look an id up with \<open>first_with\<close>; deletion in a \<open>RepeatedPtrField\<close> is
  \<open>swap_remove\<close>, and neither it nor the update leaves the range of the list.
\<close>

lemmas find_defs = find_question_def find_group_def

lemma not_open:
  assumes "qai_path s = []"
  shows "qai_addGroup E gid name s = (False, s\<lparr>qai_error := ''Not opened yet''\<rparr>)"
    and "qai_deleteGroup E gid s = Ret (False, s\<lparr>qai_error := ''Not opened yet''\<rparr>)"
    and "qai_updateGroup E gid name s = Ret (False, s\<lparr>qai_error := ''Not opened yet''\<rparr>)"
    and "qai_addQuestion E qap s = (False, s\<lparr>qai_error := ''Not opened yet''\<rparr>)"
    and "qai_deleteQuestion E qid s = Ret (False, s\<lparr>qai_error := ''Not opened yet''\<rparr>)"
    and "qai_queryQuestion E qid answer s = (False, answer, s\<lparr>qai_error := ''Not opened yet''\<rparr>)"
    and "qai_updateQuestion E qid qap s = Ret (False, s\<lparr>qai_error := ''Not opened yet''\<rparr>)"
  using assms
  by (simp_all add: qai_addGroup_def qai_deleteGroup_def qai_updateGroup_def qai_addQuestion_def
      qai_deleteQuestion_def qai_queryQuestion_def qai_updateQuestion_def)

lemma remove_at:
  assumes "i < length xs"
  shows "need (SwapElements i (length xs - 1) xs) (\<lambda>ys. need (RemoveLast ys) f) = f (swap_remove i xs)"
proof -
  obtain ys where "SwapElements i (length xs - 1) xs = Some ys" "RemoveLast ys = Some (swap_remove i xs)"
    using swap_then_remove [OF assms] by (cases "SwapElements i (length xs - 1) xs") auto
  then show ?thesis by simp
qed

lemmas remove_found [simp] = remove_at [simplified]

text \<open>Shorthands for the two lists and for writing them back.\<close>

definition questions_of :: "CQuestionAnswerImpl \<Rightarrow> QuestionAnswer list" where
  "questions_of s = qal_items (qai_questions s)"

definition groups_of :: "CQuestionAnswerImpl \<Rightarrow> QuestionAnswerGroup list" where
  "groups_of s = gl_items (qai_groups s)"

definition with_questions :: "QuestionAnswer list \<Rightarrow> CQuestionAnswerImpl \<Rightarrow> CQuestionAnswerImpl" where
  "with_questions xs s = s\<lparr>qai_questions := (qai_questions s)\<lparr>qal_items := xs\<rparr>\<rparr>"

definition with_groups :: "QuestionAnswerGroup list \<Rightarrow> CQuestionAnswerImpl \<Rightarrow> CQuestionAnswerImpl" where
  "with_groups xs s = s\<lparr>qai_groups := (qai_groups s)\<lparr>gl_items := xs\<rparr>\<rparr>"

lemma with_simps [simp]:
  "questions_of (with_questions xs s) = xs" "groups_of (with_questions xs s) = groups_of s"
  "qai_path (with_questions xs s) = qai_path s" "qai_error (with_questions xs s) = qai_error s"
  "questions_of (with_groups ys s) = questions_of s" "groups_of (with_groups ys s) = ys"
  "qai_path (with_groups ys s) = qai_path s" "qai_error (with_groups ys s) = qai_error s"
  "questions_of (s\<lparr>qai_error := e\<rparr>) = questions_of s" "groups_of (s\<lparr>qai_error := e\<rparr>) = groups_of s"
  by (simp_all add: questions_of_def groups_of_def with_questions_def with_groups_def)

definition new_question :: "CQuestionAnswerParam \<Rightarrow> QuestionAnswer" where
  "new_question p = QuestionAnswer_default\<lparr>qa_id := prm_id p, qa_group := prm_group p,
     qa_question := prm_question p, qa_answer := prm_answer p\<rparr>"

definition new_group :: "string \<Rightarrow> string \<Rightarrow> QuestionAnswerGroup" where
  "new_group gid name = QuestionAnswerGroup_default\<lparr>qag_id := gid, qag_group := name\<rparr>"

lemma addQuestion_eq:
  "qai_path s \<noteq> [] \<Longrightarrow> qai_addQuestion E p s =
     (case first_with qa_id (prm_id p) (questions_of s) of
        Some _ \<Rightarrow> (False, s\<lparr>qai_error := env_fmt E (''Repeated question id '' @ quoted_s) [prm_id p]\<rparr>)
      | None \<Rightarrow> (True, with_questions (questions_of s @ [new_question p]) s))"
  by (auto simp: qai_addQuestion_def find_defs keyed Let_def Add_def new_question_def with_questions_def
      questions_of_def set_id_def set_group_def set_question_def set_answer_def split: option.splits)

lemma deleteQuestion_eq:
  "qai_path s \<noteq> [] \<Longrightarrow> qai_deleteQuestion E qid s =
     (case first_with qa_id qid (questions_of s) of
        None \<Rightarrow> Ret (False, s\<lparr>qai_error := env_fmt E (''Get question by id '' @ quoted_s @ '' failed'') [qid]\<rparr>)
      | Some _ \<Rightarrow> Ret (True, with_questions (swap_remove (find_question qid (questions_of s)) (questions_of s)) s))"
  by (auto simp: qai_deleteQuestion_def find_defs keyed Let_def with_questions_def questions_of_def remove_at
      split: option.splits)

lemma queryQuestion_eq:
  "qai_path s \<noteq> [] \<Longrightarrow> qai_queryQuestion E qid answer s =
     (case first_with qa_id qid (questions_of s) of
        None \<Rightarrow> (False, answer, s\<lparr>qai_error := env_fmt E (''Get question by id '' @ quoted_s @ '' failed'') [qid]\<rparr>)
      | Some q \<Rightarrow> (True, qa_answer q, s))"
  by (auto simp: qai_queryQuestion_def find_defs keyed Let_def questions_of_def split: option.splits)

lemma updateQuestion_eq:
  "qai_path s \<noteq> [] \<Longrightarrow> prm_id p = qid \<Longrightarrow> qai_updateQuestion E qid p s =
     (case first_with qa_id qid (questions_of s) of
        None \<Rightarrow> Ret (False, s\<lparr>qai_error := env_fmt E (''Get question by id '' @ quoted_s @ '' failed'') [qid]\<rparr>)
      | Some q \<Rightarrow> Ret (True, with_questions ((questions_of s)[find_question qid (questions_of s) :=
            q\<lparr>qa_group := prm_group p, qa_question := prm_question p, qa_answer := prm_answer p\<rparr>]) s))"
  by (auto simp: qai_updateQuestion_def find_defs keyed Let_def with_questions_def questions_of_def
      Mutable_in_range set_group_def set_question_def set_answer_def split: option.splits)

lemma updateQuestion_mismatch:
  "qai_path s \<noteq> [] \<Longrightarrow> prm_id p \<noteq> qid \<Longrightarrow> qai_updateQuestion E qid p s =
     Ret (False, s\<lparr>qai_error := env_fmt E (''Src id '' @ quoted_s @ '' and dst id '' @ quoted_s @ '' is mismatch'')
       [qid, prm_id p]\<rparr>)"
  by (simp add: qai_updateQuestion_def)

lemma addGroup_eq:
  "qai_path s \<noteq> [] \<Longrightarrow> qai_addGroup E gid name s =
     (case first_with qag_id gid (groups_of s) of
        Some _ \<Rightarrow> (False, s\<lparr>qai_error := env_fmt E (''Repeated group id '' @ quoted_s) [gid]\<rparr>)
      | None \<Rightarrow> (True, with_groups (groups_of s @ [new_group gid name]) s))"
  by (auto simp: qai_addGroup_def find_defs keyed Let_def Add_def new_group_def with_groups_def
      groups_of_def qag_set_id_def qag_set_group_def split: option.splits)

lemma deleteGroup_eq:
  "qai_path s \<noteq> [] \<Longrightarrow> qai_deleteGroup E gid s =
     (case first_with qag_id gid (groups_of s) of
        None \<Rightarrow> Ret (False, s\<lparr>qai_error := env_fmt E (''Found group id '' @ quoted_s @ '' failed'') [gid]\<rparr>)
      | Some _ \<Rightarrow> Ret (True, with_groups (swap_remove (find_group gid (groups_of s)) (groups_of s)) s))"
  by (auto simp: qai_deleteGroup_def find_defs keyed Let_def with_groups_def groups_of_def remove_at
      split: option.splits)

lemma updateGroup_eq:
  "qai_path s \<noteq> [] \<Longrightarrow> qai_updateGroup E gid name s =
     (case first_with qag_id gid (groups_of s) of
        None \<Rightarrow> Ret (False, s\<lparr>qai_error := env_fmt E (''Found group id '' @ quoted_s @ '' failed'') [gid]\<rparr>)
      | Some g \<Rightarrow> Ret (True, with_groups ((groups_of s)[find_group gid (groups_of s) := g\<lparr>qag_group := name\<rparr>]) s))"
  by (auto simp: qai_updateGroup_def find_defs keyed Let_def with_groups_def groups_of_def
      Mutable_in_range qag_set_group_def split: option.splits)

lemmas impl_eqs = addQuestion_eq deleteQuestion_eq queryQuestion_eq updateQuestion_eq addGroup_eq
  deleteGroup_eq updateGroup_eq

subsection \<open>An open object is two stores under unique ids\<close>

definition impl_ok :: "CQuestionAnswerImpl \<Rightarrow> bool" where
  "impl_ok s \<longleftrightarrow> qai_path s \<noteq> [] \<and> distinct (map qa_id (questions_of s)) \<and> distinct (map qag_id (groups_of s))"

type_synonym question_content = "string \<times> string \<times> string"

definition question_view :: "CQuestionAnswerImpl \<Rightarrow> string \<Rightarrow> question_content option" where
  "question_view s qid =
     map_option (\<lambda>q. (qa_group q, qa_question q, qa_answer q)) (first_with qa_id qid (questions_of s))"

definition group_view :: "CQuestionAnswerImpl \<Rightarrow> string \<Rightarrow> string option" where
  "group_view s gid = map_option qag_group (first_with qag_id gid (groups_of s))"

definition mk_param :: "string \<Rightarrow> question_content \<Rightarrow> CQuestionAnswerParam" where
  "mk_param qid c = (case c of (g, q, a) \<Rightarrow> \<lparr>prm_id = qid, prm_question = q, prm_answer = a, prm_group = g\<rparr>)"

fun question_step :: "env \<Rightarrow> (string, question_content, CQuestionAnswerImpl, fs_error) store_step" where
  "question_step E (Ins qid c) s = Ret (qai_addQuestion E (mk_param qid c) s)"
| "question_step E (Del qid) s = qai_deleteQuestion E qid s"
| "question_step E (Upd qid c) s = qai_updateQuestion E qid (mk_param qid c) s"

fun group_step :: "env \<Rightarrow> (string, string, CQuestionAnswerImpl, fs_error) store_step" where
  "group_step E (Ins gid name) s = Ret (qai_addGroup E gid name s)"
| "group_step E (Del gid) s = qai_deleteGroup E gid s"
| "group_step E (Upd gid name) s = qai_updateGroup E gid name s"

lemma mk_param_simps [simp]:
  "prm_id (mk_param qid c) = qid" "prm_group (mk_param qid (g, q, a)) = g"
  "prm_question (mk_param qid (g, q, a)) = q" "prm_answer (mk_param qid (g, q, a)) = a"
  by (auto simp: mk_param_def split: prod.splits)

lemma new_simps [simp]:
  "qa_id (new_question p) = prm_id p" "qa_group (new_question p) = prm_group p"
  "qa_question (new_question p) = prm_question p" "qa_answer (new_question p) = prm_answer p"
  "qag_id (new_group gid name) = gid" "qag_group (new_group gid name) = name"
  by (simp_all add: new_question_def new_group_def)

lemma view_with [simp]:
  "question_view (s\<lparr>qai_error := e\<rparr>) = question_view s" "group_view (s\<lparr>qai_error := e\<rparr>) = group_view s"
  "question_view (with_groups ys s) = question_view s" "group_view (with_questions xs s) = group_view s"
  "impl_ok (s\<lparr>qai_error := e\<rparr>) = impl_ok s"
  by (simp_all add: fun_eq_iff question_view_def group_view_def impl_ok_def)

lemma distinct_map_key_update:
  "distinct (map key xs) \<Longrightarrow> find_index (\<lambda>x. key x = k) xs < length xs \<Longrightarrow> key y = k \<Longrightarrow>
     distinct (map key (xs[find_index (\<lambda>x. key x = k) xs := y]))"
  by (simp only: map_key_update)

lemma index_in_range:
  "first_with key k xs = Some x \<Longrightarrow> find_index (\<lambda>x. key x = k) xs < length xs"
  by (simp add: keyed)

lemma question_step_spec:
  assumes "impl_ok s"
  shows "\<exists>s'. question_step E x s = Ret (fst (spec_op x (question_view s)), s') \<and> impl_ok s' \<and>
    question_view s' = snd (spec_op x (question_view s))"
proof -
  have p: "qai_path s \<noteq> []" and d: "distinct (map qa_id (questions_of s))" and dg: "distinct (map qag_id (groups_of s))"
    using assms by (auto simp: impl_ok_def)
  note L = question_view_def fun_eq_iff impl_ok_def
  show ?thesis
  proof (cases x)
    case (Ins k c)
    obtain g q a where c: "c = (g, q, a)" by (cases c)
    show ?thesis
    proof (cases "first_with qa_id k (questions_of s)")
      case None
      then have "k \<notin> qa_id ` set (questions_of s)" by (simp add: first_with_None_iff)
      then show ?thesis using p d dg None c by (auto simp: Ins addQuestion_eq L split: option.splits)
    next
      case (Some y)
      then show ?thesis using p d dg by (auto simp: Ins addQuestion_eq L)
    qed
  next
    case (Del k)
    show ?thesis
    proof (cases "first_with qa_id k (questions_of s)")
      case None
      then show ?thesis using p d dg by (auto simp: Del deleteQuestion_eq L)
    next
      case (Some y)
      note i = index_in_range [OF Some]
      show ?thesis
        using p d dg Some i first_with_swap_remove [OF d refl i]
        by (auto simp: Del deleteQuestion_eq L find_question_def swap_remove_map distinct_swap_remove)
    qed
  next
    case (Upd k c)
    obtain g q a where c: "c = (g, q, a)" by (cases c)
    show ?thesis
    proof (cases "first_with qa_id k (questions_of s)")
      case None
      then show ?thesis using p d dg c by (auto simp: Upd updateQuestion_eq L)
    next
      case (Some y)
      note i = index_in_range [OF Some]
      have k: "qa_id (y\<lparr>qa_group := g, qa_question := q, qa_answer := a\<rparr>) = k"
        using first_with_SomeD [OF Some] by simp
      show ?thesis
        using p d dg Some c first_with_update [OF d refl i k] distinct_map_key_update [OF d i k]
        by (auto simp: Upd updateQuestion_eq L find_question_def)
    qed
  qed
qed

lemma group_step_spec:
  assumes "impl_ok s"
  shows "\<exists>s'. group_step E x s = Ret (fst (spec_op x (group_view s)), s') \<and> impl_ok s' \<and>
    group_view s' = snd (spec_op x (group_view s))"
proof -
  have p: "qai_path s \<noteq> []" and d: "distinct (map qag_id (groups_of s))" and dq: "distinct (map qa_id (questions_of s))"
    using assms by (auto simp: impl_ok_def)
  note L = group_view_def fun_eq_iff impl_ok_def
  show ?thesis
  proof (cases x)
    case (Ins k c)
    show ?thesis
    proof (cases "first_with qag_id k (groups_of s)")
      case None
      then have "k \<notin> qag_id ` set (groups_of s)" by (simp add: first_with_None_iff)
      then show ?thesis using p d dq None by (auto simp: Ins addGroup_eq L split: option.splits)
    next
      case (Some y)
      then show ?thesis using p d dq by (auto simp: Ins addGroup_eq L)
    qed
  next
    case (Del k)
    show ?thesis
    proof (cases "first_with qag_id k (groups_of s)")
      case None
      then show ?thesis using p d dq by (auto simp: Del deleteGroup_eq L)
    next
      case (Some y)
      note i = index_in_range [OF Some]
      show ?thesis
        using p d dq Some i first_with_swap_remove [OF d refl i]
        by (auto simp: Del deleteGroup_eq L find_group_def swap_remove_map distinct_swap_remove)
    qed
  next
    case (Upd k c)
    show ?thesis
    proof (cases "first_with qag_id k (groups_of s)")
      case None
      then show ?thesis using p d dq by (auto simp: Upd updateGroup_eq L)
    next
      case (Some y)
      note i = index_in_range [OF Some]
      have k: "qag_id (y\<lparr>qag_group := c\<rparr>) = k" using first_with_SomeD [OF Some] by simp
      show ?thesis
        using p d dq Some first_with_update [OF d refl i k] distinct_map_key_update [OF d i k]
        by (auto simp: Upd updateGroup_eq L find_group_def)
    qed
  qed
qed

interpretation question_store: id_store "question_step E" question_view impl_ok for E
  by unfold_locales (rule question_step_spec)

interpretation group_store: id_store "group_step E" group_view impl_ok for E
  by unfold_locales (rule group_step_spec)

subsection \<open>Saving and loading\<close>

lemma getQuestions_eq:
  "qai_path s \<noteq> [] \<Longrightarrow> getQuestions s qs = (True, qs @ map param_of (questions_of s), s)"
  by (simp add: getQuestions_def questions_of_def)

lemma fold_emplace_distinct:
  "distinct (map fst gs @ map f xs) \<Longrightarrow>
     fold (\<lambda>x m. emplace (f x) (g x) m) xs gs = gs @ map (\<lambda>x. (f x, g x)) xs"
proof (induction xs arbitrary: gs)
  case (Cons x xs)
  then have "emplace (f x) (g x) gs = gs @ [(f x, g x)]" by (auto simp: emplace_def)
  with Cons show ?case by simp
qed simp

lemma getGroups_eq:
  "qai_path s \<noteq> [] \<Longrightarrow> distinct (map qag_id (groups_of s)) \<Longrightarrow>
     getGroups s [] = (True, map (\<lambda>g. (qag_id g, qag_group g)) (groups_of s), s)"
  by (simp add: getGroups_def groups_of_def fold_emplace_distinct)

lemma qai_close_empty:
  "groups_of s = [] \<Longrightarrow> questions_of s = [] \<Longrightarrow> qai_close s F = (Ret (), s', F') \<Longrightarrow>
     s' = s \<and> \<not> fs_exists F' (qai_path s) \<and> (\<forall>p. p \<noteq> components (qai_path s) \<longrightarrow> node_at F' p = node_at F p)"
  using fs_remove_Ret
  by (fastforce simp: qai_close_def groups_of_def questions_of_def split: prod.splits outcome.splits)

lemma qai_close_questions:
  "groups_of s = [] \<Longrightarrow> questions_of s \<noteq> [] \<Longrightarrow>
     fst (qai_close s F) = Ret () \<and>
     snd (snd (qai_close s F)) =
       fs_write (qai_path s) (fst (QuestionAnswerList_SerializeToOstream (qai_questions s))) F"
  by (auto simp: qai_close_def groups_of_def questions_of_def split: prod.splits)

lemma qai_close_groups:
  "groups_of s \<noteq> [] \<Longrightarrow> questions_of s = [] \<Longrightarrow>
     fst (qai_close s F) = Ret () \<and>
     snd (snd (qai_close s F)) =
       fs_write (qai_path s) (fst (QuestionAnswerGroupList_SerializeToOstream (qai_groups s))) F"
  by (auto simp: qai_close_def groups_of_def questions_of_def split: prod.splits)

lemma param_of_cache [simp]: "param_of (q\<lparr>qa_cached := c\<rparr>) = param_of q"
  by (simp add: param_of_def)

text \<open>
  A question file that is closed where it can be written, and opened again, holds the same
  questions in the same order; closing the empty one removes the file, and opening that again
  gives the empty list.
\<close>

lemma reopen_questions:
  assumes parser: "env_parses E u"
    and path: "qai_path s \<noteq> []" "can_write F (qai_path s) \<or> questions_of s = []"
    and items: "groups_of s = []" "\<And>q. q \<in> set (questions_of s) \<Longrightarrow> qa_writable u q"
      "qal_unknown (qai_questions s) = []"
      "length (fst (QuestionAnswerList_SerializeToOstream (qai_questions s))) \<le> max_size"
    and closed: "qai_close s F = (Ret (), s', F')"
  shows "\<exists>t. qai_open E F' (qai_path s) True new_impl = (True, t) \<and>
    getQuestions t [] = (True, map param_of (questions_of s), t)"
proof (cases "questions_of s = []")
  case True
  with closed items(1) have "\<not> fs_exists F' (qai_path s)" using qai_close_empty by blast
  then show ?thesis
    using path(1) True by (auto simp: qai_open_def getQuestions_def new_impl_def QuestionAnswerList_default_def)
next
  case False
  let ?bytes = "fst (QuestionAnswerList_SerializeToOstream (qai_questions s))"
  have F': "F' = fs_write (qai_path s) ?bytes F"
    using qai_close_questions [OF items(1) False, of F] closed by simp
  have w: "can_write F (qai_path s)" using path(2) False by blast
  have "parse_questions E (Some ?bytes) = (True, QuestionAnswerList_default\<lparr>qal_items :=
      map (\<lambda>q. q\<lparr>qa_cached := 0\<rparr>) (questions_of s)\<rparr>)"
    using protobuf_parser.parse_serialized_questions [OF parser [unfolded env_parses_def]] items by (simp add: questions_of_def)
  then show ?thesis
    using path(1) w by (auto simp: qai_open_def F' fs_read_write fs_exists_write getQuestions_def comp_def)
qed

lemma reopen_groups:
  assumes parser: "env_parses E u"
    and path: "qai_path s \<noteq> []" "can_write F (qai_path s) \<or> groups_of s = []"
    and items: "questions_of s = []" "\<And>g. g \<in> set (groups_of s) \<Longrightarrow> qag_writable u g"
      "gl_unknown (qai_groups s) = []" "distinct (map qag_id (groups_of s))"
      "length (fst (QuestionAnswerGroupList_SerializeToOstream (qai_groups s))) \<le> max_size"
    and closed: "qai_close s F = (Ret (), s', F')"
  shows "\<exists>t. qai_open E F' (qai_path s) False new_impl = (True, t) \<and>
    getGroups t [] = (True, map (\<lambda>g. (qag_id g, qag_group g)) (groups_of s), t)"
proof (cases "groups_of s = []")
  case True
  with closed items(1) have "\<not> fs_exists F' (qai_path s)" using qai_close_empty by blast
  then show ?thesis
    using path(1) True by (auto simp: qai_open_def getGroups_def new_impl_def QuestionAnswerGroupList_default_def)
next
  case False
  let ?bytes = "fst (QuestionAnswerGroupList_SerializeToOstream (qai_groups s))"
  have F': "F' = fs_write (qai_path s) ?bytes F"
    using qai_close_groups [OF False items(1), of F] closed by simp
  have w: "can_write F (qai_path s)" using path(2) False by blast
  let ?gs = "map (\<lambda>g. g\<lparr>qag_cached := 0\<rparr>) (groups_of s)"
  have "parse_groups E (Some ?bytes) = (True, QuestionAnswerGroupList_default\<lparr>gl_items := ?gs\<rparr>)"
    using protobuf_parser.parse_serialized_groups [OF parser [unfolded env_parses_def]] items
    by (simp add: groups_of_def)
  moreover have "distinct (map qag_id ?gs)" using items(4) by (simp add: comp_def)
  ultimately show ?thesis
    using path(1) w getGroups_eq [of "new_impl\<lparr>qai_groups := QuestionAnswerGroupList_default\<lparr>gl_items := ?gs\<rparr>,
      qai_path := qai_path s\<rparr>"]
    by (auto simp: qai_open_def F' fs_read_write fs_exists_write groups_of_def comp_def Let_def)
qed

text \<open>
  A stream that cannot be opened swallows the list: \<open>close\<close> reports success and nothing is
  written.
\<close>

lemma qai_close_swallowed:
  assumes "\<not> can_write F (qai_path s)" "groups_of s \<noteq> [] \<or> questions_of s \<noteq> []"
  shows "fst (qai_close s F) = Ret ()" "snd (snd (qai_close s F)) = F"
  using assms
  by (auto simp: qai_close_def groups_of_def questions_of_def fs_write_blocked split: prod.splits)

end
