(* ===== verification/QuestionBank.thy ===== *)
theory QuestionBank
  imports QuestionAnswerImpl
begin

text \<open>
  \<open>CQuestionBankImpl\<close> (\<open>src/src/notebook_impl.cpp\<close>): the tree of groups over a directory
  tree, the table of group ids in \<open>ids.dat\<close>, and the operations on groups and questions.
  Member functions take the bank and the file system and return the outcome with both; a
  private member that takes a group by reference returns that group too. A \<open>shared_ptr\<close> is
  its object, or \<open>None\<close> after \<open>reset()\<close>; following a null pointer is \<open>Undef\<close>.
\<close>

subsection \<open>State\<close>

datatype CQuestionGroupParam =
  Group (grp_name: string) (grp_id: string) (grp_path: string)
    (grp_questions: "CQuestionAnswerImpl option list") (grp_groups: "CQuestionGroupParam list")

record CQuestionBankImpl =
  bnk_error :: string
  bnk_root :: CQuestionGroupParam
  bnk_idPath :: string
  bnk_ptrIds :: "CQuestionAnswerImpl option"
  bnk_mapIds :: "(string \<times> string) list"

definition empty_group :: CQuestionGroupParam where
  "empty_group = Group [] [] [] [] []"

definition new_bank :: CQuestionBankImpl where
  "new_bank = \<lparr>bnk_error = [], bnk_root = empty_group, bnk_idPath = [], bnk_ptrIds = None, bnk_mapIds = []\<rparr>"

type_synonym 'a bank_result = "(fs_error, 'a) outcome \<times> CQuestionBankImpl \<times> fs"
type_synonym 'a group_result = "(fs_error, 'a) outcome \<times> CQuestionGroupParam \<times> CQuestionBankImpl \<times> fs"

definition set_questions :: "CQuestionAnswerImpl option list \<Rightarrow> CQuestionGroupParam \<Rightarrow> CQuestionGroupParam" where
  "set_questions qs g = Group (grp_name g) (grp_id g) (grp_path g) qs (grp_groups g)"

definition set_groups :: "CQuestionGroupParam list \<Rightarrow> CQuestionGroupParam \<Rightarrow> CQuestionGroupParam" where
  "set_groups gs g = Group (grp_name g) (grp_id g) (grp_path g) (grp_questions g) gs"

definition set_name :: "string \<Rightarrow> CQuestionGroupParam \<Rightarrow> CQuestionGroupParam" where
  "set_name n g = Group n (grp_id g) (grp_path g) (grp_questions g) (grp_groups g)"

definition put_child :: "nat \<Rightarrow> CQuestionGroupParam \<Rightarrow> CQuestionGroupParam \<Rightarrow> CQuestionGroupParam" where
  "put_child i c g = set_groups ((grp_groups g)[i := c]) g"

lemma group_simps [simp]:
  "grp_name (set_questions qs g) = grp_name g" "grp_id (set_questions qs g) = grp_id g"
  "grp_path (set_questions qs g) = grp_path g" "grp_groups (set_questions qs g) = grp_groups g"
  "grp_questions (set_questions qs g) = qs"
  "grp_name (set_groups gs g) = grp_name g" "grp_id (set_groups gs g) = grp_id g"
  "grp_path (set_groups gs g) = grp_path g" "grp_groups (set_groups gs g) = gs"
  "grp_questions (set_groups gs g) = grp_questions g"
  "grp_name (set_name n g) = n" "grp_id (set_name n g) = grp_id g"
  "grp_path (set_name n g) = grp_path g" "grp_groups (set_name n g) = grp_groups g"
  "grp_questions (set_name n g) = grp_questions g"
  "grp_name (put_child i c g) = grp_name g" "grp_id (put_child i c g) = grp_id g"
  "grp_path (put_child i c g) = grp_path g" "grp_groups (put_child i c g) = (grp_groups g)[i := c]"
  "grp_questions (put_child i c g) = grp_questions g"
  by (simp_all add: set_questions_def set_groups_def set_name_def put_child_def)

definition bank_message :: "env \<Rightarrow> string \<Rightarrow> string list \<Rightarrow> CQuestionBankImpl \<Rightarrow> CQuestionBankImpl" where
  "bank_message E fmt args b = b\<lparr>bnk_error := env_fmt E fmt args\<rparr>"

definition bank_err :: "CQuestionBankImpl \<Rightarrow> string" where
  "bank_err b = c_str (bnk_error b)"

definition getQuestionsBank :: "CQuestionBankImpl \<Rightarrow> bool \<times> CQuestionGroupParam" where
  "getQuestionsBank b = (True, bnk_root b)"

subsection \<open>Reading a directory tree\<close>

text \<open>The id a name has in \<open>m_mapIds\<close>: that of the first entry in iteration order, or none.\<close>

definition id_of_name :: "string \<Rightarrow> (string \<times> string) list \<Rightarrow> string" where
  "id_of_name name m = (case find (\<lambda>kv. snd kv = name) m of Some kv \<Rightarrow> fst kv | None \<Rightarrow> [])"

text \<open>
  The group is found by the NAME of the entry's directory. \<open>std::find_if\<close> runs the recursive
  call on one child after the other and keeps what each of them changed.
\<close>

fun initQuestionBank ::
  "env \<Rightarrow> fs \<Rightarrow> (string \<times> string) list \<Rightarrow> string \<Rightarrow> string \<Rightarrow> string \<Rightarrow> bool \<Rightarrow>
   CQuestionGroupParam \<Rightarrow> bool \<times> CQuestionGroupParam"
and initQuestionBank_any ::
  "env \<Rightarrow> fs \<Rightarrow> (string \<times> string) list \<Rightarrow> string \<Rightarrow> string \<Rightarrow> string \<Rightarrow> bool \<Rightarrow>
   CQuestionGroupParam list \<Rightarrow> bool \<times> CQuestionGroupParam list" where
  "initQuestionBank E F ids parent_name path name is_file (Group n i p qs gs) =
     (if n = parent_name then
        if is_file then
          (case qai_open E F path True new_impl of
             (False, _) \<Rightarrow> (False, Group n i p qs gs)
           | (True, impl) \<Rightarrow> (True, Group n i p (qs @ [Some impl]) gs))
        else (True, Group n i p qs (gs @ [Group name (id_of_name name ids) path [] []]))
      else (case initQuestionBank_any E F ids parent_name path name is_file gs of
              (found, gs') \<Rightarrow> (found, Group n i p qs gs')))"
| "initQuestionBank_any E F ids parent_name path name is_file [] = (False, [])"
| "initQuestionBank_any E F ids parent_name path name is_file (g # gs) =
     (case initQuestionBank E F ids parent_name path name is_file g of
        (True, g') \<Rightarrow> (True, g' # gs)
      | (False, g') \<Rightarrow> (case initQuestionBank_any E F ids parent_name path name is_file gs of
                         (found, gs') \<Rightarrow> (found, g' # gs')))"

text \<open>The path string of an entry of the iterator that was started at \<open>root\<close>.\<close>

definition entry_path :: "string \<Rightarrow> path \<Rightarrow> string" where
  "entry_path root p = foldl path_append root (drop (length (components root)) p)"

text \<open>One turn of the loop over the entries; \<open>False\<close> is the early return.\<close>

definition init_entry :: "env \<Rightarrow> fs \<Rightarrow> string \<Rightarrow> string \<Rightarrow> CQuestionBankImpl \<Rightarrow> bool \<times> CQuestionBankImpl" where
  "init_entry E F root_name path b =
     (let parent_name = path_filename (path_parent path);
          cur_name = path_filename path
      in case node_at F (components path) of
           Some (File _) \<Rightarrow>
             if ''ids.dat'' = cur_name then (True, b)
             else (case initQuestionBank E F (bnk_mapIds b) parent_name path cur_name True (bnk_root b) of
                     (ok, g) \<Rightarrow> (ok, b\<lparr>bnk_root := g\<rparr>))
         | Some Dir \<Rightarrow>
             if parent_name = root_name
             then (True, b\<lparr>bnk_root := set_groups (grp_groups (bnk_root b) @
                     [Group cur_name (id_of_name cur_name (bnk_mapIds b)) path [] []]) (bnk_root b)\<rparr>)
             else (case initQuestionBank E F (bnk_mapIds b) parent_name path cur_name False (bnk_root b) of
                     (ok, g) \<Rightarrow> (ok, b\<lparr>bnk_root := g\<rparr>))
         | None \<Rightarrow> (True, b))"

fun init_entries :: "env \<Rightarrow> fs \<Rightarrow> string \<Rightarrow> string list \<Rightarrow> CQuestionBankImpl \<Rightarrow> bool \<times> CQuestionBankImpl" where
  "init_entries E F root_name [] b = (True, b)"
| "init_entries E F root_name (path # paths) b =
     (case init_entry E F root_name path b of
        (False, b') \<Rightarrow> (False, b')
      | (True, b') \<Rightarrow> init_entries E F root_name paths b')"

text \<open>\<open>m_ptrIds->close(); m_ptrIds.reset(); m_ptrIds = nullptr; return r\<close>\<close>

definition close_ids :: "'a \<Rightarrow> CQuestionBankImpl \<Rightarrow> fs \<Rightarrow> 'a bank_result" where
  "close_ids r b F =
     (case bnk_ptrIds b of
        None \<Rightarrow> (Undef, b, F)
      | Some s \<Rightarrow>
          (case qai_close s F of
             (Ret _, _, F') \<Rightarrow> (Ret r, b\<lparr>bnk_ptrIds := None\<rparr>, F')
           | (Throw e, s', F') \<Rightarrow> (Throw e, b\<lparr>bnk_ptrIds := Some s'\<rparr>, F')
           | (Undef, s', F') \<Rightarrow> (Undef, b\<lparr>bnk_ptrIds := Some s'\<rparr>, F')))"

text \<open>The loop over the directory with its \<open>catch\<close>.\<close>

definition init_tree :: "env \<Rightarrow> string \<Rightarrow> CQuestionBankImpl \<Rightarrow> fs \<Rightarrow> bool bank_result" where
  "init_tree E path b F =
     (let root_name = path_filename path;
          b = b\<lparr>bnk_root := Group root_name (grp_id (bnk_root b)) path (grp_questions (bnk_root b)) (grp_groups (bnk_root b))\<rparr>
      in case entries E F (components path) of
           (ps, failure) \<Rightarrow>
             (case init_entries E F root_name (map (entry_path path) ps) b of
                (False, b) \<Rightarrow> (Ret False, b, F)
              | (True, b) \<Rightarrow>
                  (case failure of
                     None \<Rightarrow> (Ret True, b, F)
                   | Some e \<Rightarrow> close_ids False (bank_message E ''%s'' [what E e] b) F)))"

text \<open>From the opening of \<open>ids.dat\<close> on.\<close>

definition init_ids :: "env \<Rightarrow> string \<Rightarrow> CQuestionBankImpl \<Rightarrow> fs \<Rightarrow> bool bank_result" where
  "init_ids E path b F =
     (let b = b\<lparr>bnk_idPath := path_append path ''ids.dat''\<rparr>
      in case qai_open E F (bnk_idPath b) False new_impl of
           (False, s) \<Rightarrow> (Ret False, (bank_message E ''%s'' [qai_err s] b)\<lparr>bnk_ptrIds := None\<rparr>, F)
         | (True, s) \<Rightarrow>
             (case getGroups s (bnk_mapIds b) of
                (ok, m, s) \<Rightarrow>
                  let b = b\<lparr>bnk_ptrIds := Some s, bnk_mapIds := m\<rparr> in
                  if \<not> ok then close_ids False (bank_message E ''%s'' [qai_err s] b) F
                  else init_tree E path b F))"

definition init :: "env \<Rightarrow> string \<Rightarrow> CQuestionBankImpl \<Rightarrow> fs \<Rightarrow> bool bank_result" where
  "init E path b F =
     (if fs_exists F path then init_ids E path b F
      else andthen (fs_create_directory path F)
             (\<lambda>made F. if made then init_ids E path b F
                       else (Ret False, bank_message E (''Create directory '' @ quoted_s @ '' failed'') [path] b, F))
             (\<lambda>F. (b, F)))"

subsection \<open>Closing\<close>

text \<open>
  \<open>ctx->close(); ctx.reset()\<close> for every context. When \<open>close\<close> throws, the contexts before it
  are null and the vector is not cleared.
\<close>

fun close_contexts ::
  "CQuestionAnswerImpl option list \<Rightarrow> fs \<Rightarrow> (fs_error, unit) outcome \<times> CQuestionAnswerImpl option list \<times> fs" where
  "close_contexts [] F = (Ret (), [], F)"
| "close_contexts (None # qs) F = (Undef, None # qs, F)"
| "close_contexts (Some s # qs) F =
     (case qai_close s F of
        (Ret _, _, F1) \<Rightarrow> (case close_contexts qs F1 of (r, qs', F2) \<Rightarrow> (r, None # qs', F2))
      | (Throw e, s', F1) \<Rightarrow> (Throw e, Some s' # qs, F1)
      | (Undef, s', F1) \<Rightarrow> (Undef, Some s' # qs, F1))"

fun uninitQuestionBank ::
  "CQuestionGroupParam \<Rightarrow> fs \<Rightarrow> (fs_error, unit) outcome \<times> CQuestionGroupParam \<times> fs"
and uninit_groups ::
  "CQuestionGroupParam list \<Rightarrow> fs \<Rightarrow> (fs_error, unit) outcome \<times> CQuestionGroupParam list \<times> fs" where
  "uninitQuestionBank (Group n i p qs gs) F =
     (case close_contexts qs F of
        (Ret _, _, F1) \<Rightarrow> (case uninit_groups gs F1 of (r, gs', F2) \<Rightarrow> (r, Group n i p [] gs', F2))
      | (Throw e, qs', F1) \<Rightarrow> (Throw e, Group n i p qs' gs, F1)
      | (Undef, qs', F1) \<Rightarrow> (Undef, Group n i p qs' gs, F1))"
| "uninit_groups [] F = (Ret (), [], F)"
| "uninit_groups (g # gs) F =
     (case uninitQuestionBank g F of
        (Ret _, g', F1) \<Rightarrow> (case uninit_groups gs F1 of (r, gs', F2) \<Rightarrow> (r, g' # gs', F2))
      | (Throw e, g', F1) \<Rightarrow> (Throw e, g' # gs, F1)
      | (Undef, g', F1) \<Rightarrow> (Undef, g' # gs, F1))"

definition uninit :: "CQuestionBankImpl \<Rightarrow> fs \<Rightarrow> unit bank_result" where
  "uninit b F =
     andthen (if bnk_ptrIds b = None then (Ret (), b, F) else close_ids () b F)
       (\<lambda>_ (b, F). case uninitQuestionBank (bnk_root b) F of
                     (r, g, F') \<Rightarrow> (r, b\<lparr>bnk_root := g\<rparr>, F'))
       (\<lambda>st. st)"

subsection \<open>Operations on questions\<close>

text \<open>
  \<open>findQustionAnswerContext\<close> returns a pointer into the tree: the positions that lead to the
  group whose first context it is. A group without contexts opens its file on the way.
\<close>

fun findQustionAnswerContext ::
  "env \<Rightarrow> fs \<Rightarrow> string \<Rightarrow> CQuestionGroupParam \<Rightarrow> nat list option \<times> CQuestionGroupParam"
and find_context_any ::
  "env \<Rightarrow> fs \<Rightarrow> string \<Rightarrow> CQuestionGroupParam list \<Rightarrow> (nat \<times> nat list) option \<times> CQuestionGroupParam list" where
  "findQustionAnswerContext E F gid (Group n i p qs gs) =
     (if i = gid then
        (if qs = [] then
           (case qai_open E F (p @ sep @ i @ ''.dat'') True new_impl of
              (False, _) \<Rightarrow> (None, Group n i p qs gs)
            | (True, impl) \<Rightarrow> (Some [], Group n i p [Some impl] gs))
         else (case qs ! 0 of None \<Rightarrow> (None, Group n i p qs gs) | Some _ \<Rightarrow> (Some [], Group n i p qs gs)))
      else
        (case find_context_any E F gid gs of
           (None, gs') \<Rightarrow> (None, Group n i p qs gs')
         | (Some (k, l), gs') \<Rightarrow> (Some (k # l), Group n i p qs gs')))"
| "find_context_any E F gid [] = (None, [])"
| "find_context_any E F gid (g # gs) =
     (case findQustionAnswerContext E F gid g of
        (Some l, g') \<Rightarrow> (Some (0, l), g' # gs)
      | (None, g') \<Rightarrow>
          (case find_context_any E F gid gs of
             (None, gs') \<Rightarrow> (None, g' # gs')
           | (Some (k, l), gs') \<Rightarrow> (Some (Suc k, l), g' # gs')))"

text \<open>Reading and writing through the pointer.\<close>

fun group_at :: "nat list \<Rightarrow> CQuestionGroupParam \<Rightarrow> CQuestionGroupParam option" where
  "group_at [] g = Some g"
| "group_at (k # l) g = (if k < length (grp_groups g) then group_at l (grp_groups g ! k) else None)"

definition context_at :: "nat list \<Rightarrow> CQuestionGroupParam \<Rightarrow> CQuestionAnswerImpl option" where
  "context_at l g =
     (case group_at l g of None \<Rightarrow> None | Some c \<Rightarrow> (case grp_questions c of [] \<Rightarrow> None | q # _ \<Rightarrow> q))"

fun put_context :: "nat list \<Rightarrow> CQuestionAnswerImpl \<Rightarrow> CQuestionGroupParam \<Rightarrow> CQuestionGroupParam" where
  "put_context [] s g = set_questions ((grp_questions g)[0 := Some s]) g"
| "put_context (k # l) s g = put_child k (put_context l s (grp_groups g ! k)) g"

text \<open>
  What the four operations on questions have in common: the two checks, then the member
  \<open>f\<close> of the context. \<open>d\<close> is what an output parameter keeps when a check fails.
\<close>

definition with_context ::
  "env \<Rightarrow> string \<Rightarrow> 'r \<Rightarrow> (CQuestionAnswerImpl \<Rightarrow> (fs_error, (bool \<times> 'r) \<times> CQuestionAnswerImpl) outcome) \<Rightarrow>
   CQuestionBankImpl \<Rightarrow> fs \<Rightarrow> (bool \<times> 'r) bank_result" where
  "with_context E gid d f b F =
     (if \<not> has_key gid (bnk_mapIds b)
      then (Ret (False, d), bank_message E (''Found group id '' @ quoted_s @ '' failed'') [gid] b, F)
      else
        (case findQustionAnswerContext E F gid (bnk_root b) of
           (None, g) \<Rightarrow>
             (Ret (False, d), bank_message E (''Found context by group id '' @ quoted_s @ '' failed'') [gid]
                (b\<lparr>bnk_root := g\<rparr>), F)
         | (Some l, g) \<Rightarrow>
             (case context_at l g of
                None \<Rightarrow> (Undef, b\<lparr>bnk_root := g\<rparr>, F)
              | Some s \<Rightarrow>
                  (case f s of
                     Ret (r, s') \<Rightarrow> (Ret r, b\<lparr>bnk_root := put_context l s' g\<rparr>, F)
                   | Throw e \<Rightarrow> (Throw e, b\<lparr>bnk_root := g\<rparr>, F)
                   | Undef \<Rightarrow> (Undef, b\<lparr>bnk_root := g\<rparr>, F)))))"

fun no_out :: "(fs_error, bool \<times> 's) outcome \<Rightarrow> (fs_error, (bool \<times> unit) \<times> 's) outcome" where
  "no_out (Ret (r, s)) = Ret ((r, ()), s)"
| "no_out (Throw e) = Throw e"
| "no_out Undef = Undef"

definition addQuestion ::
  "env \<Rightarrow> string \<Rightarrow> string \<Rightarrow> string \<Rightarrow> string \<Rightarrow> CQuestionBankImpl \<Rightarrow> fs \<Rightarrow> (bool \<times> unit) bank_result" where
  "addQuestion E gid qid question answer b F =
     with_context E gid ()
       (\<lambda>ctx. no_out (Ret (qai_addQuestion E \<lparr>prm_id = qid, prm_question = question, prm_answer = answer,
                             prm_group = gid\<rparr> ctx))) b F"

definition deleteQuestion ::
  "env \<Rightarrow> string \<Rightarrow> string \<Rightarrow> CQuestionBankImpl \<Rightarrow> fs \<Rightarrow> (bool \<times> unit) bank_result" where
  "deleteQuestion E gid qid b F = with_context E gid () (\<lambda>ctx. no_out (qai_deleteQuestion E qid ctx)) b F"

definition queryQuestion ::
  "env \<Rightarrow> string \<Rightarrow> string \<Rightarrow> string \<Rightarrow> CQuestionBankImpl \<Rightarrow> fs \<Rightarrow> (bool \<times> string) bank_result" where
  "queryQuestion E gid qid answer b F =
     with_context E gid answer
       (\<lambda>ctx. case qai_queryQuestion E qid answer ctx of (r, a, ctx') \<Rightarrow> Ret ((r, a), ctx')) b F"

definition updateQuestion ::
  "env \<Rightarrow> string \<Rightarrow> string \<Rightarrow> string \<Rightarrow> string \<Rightarrow> CQuestionBankImpl \<Rightarrow> fs \<Rightarrow> (bool \<times> unit) bank_result" where
  "updateQuestion E gid qid question answer b F =
     with_context E gid ()
       (\<lambda>ctx. no_out (qai_updateQuestion E qid \<lparr>prm_id = qid, prm_question = question, prm_answer = answer,
                        prm_group = gid\<rparr> ctx)) b F"

subsection \<open>Operations on groups\<close>

datatype GROUP_CTRL_TYPE = GROUP_CTRL_NONE | GROUP_CTRL_ADD | GROUP_CTRL_DELETE | GROUP_CTRL_UPDATE | GROUP_CTRL_MAX

text \<open>\<open>m_ptrIds-><member>\<close>, whose result is ignored.\<close>

definition on_ids ::
  "(CQuestionAnswerImpl \<Rightarrow> (fs_error, bool \<times> CQuestionAnswerImpl) outcome) \<Rightarrow>
   CQuestionBankImpl \<Rightarrow> (fs_error, CQuestionBankImpl) outcome" where
  "on_ids f b =
     need (bnk_ptrIds b) (\<lambda>s. case f s of
        Ret (_, s') \<Rightarrow> Ret (b\<lparr>bnk_ptrIds := Some s'\<rparr>) | Throw e \<Rightarrow> Throw e | Undef \<Rightarrow> Undef)"

definition addGroup_in ::
  "env \<Rightarrow> string \<Rightarrow> string \<Rightarrow> CQuestionGroupParam \<Rightarrow> CQuestionBankImpl \<Rightarrow> fs \<Rightarrow> bool group_result" where
  "addGroup_in E gid name qgp b F =
     (let b = b\<lparr>bnk_mapIds := emplace gid name (bnk_mapIds b)\<rparr>
      in case on_ids (\<lambda>s. Ret (qai_addGroup E gid name s)) b of
           Throw e \<Rightarrow> (Throw e, qgp, b, F)
         | Undef \<Rightarrow> (Undef, qgp, b, F)
         | Ret b \<Rightarrow>
             (let path = grp_path qgp @ sep @ name;
                  qgp = set_groups (grp_groups qgp @ [Group name gid path [] []]) qgp
              in if fs_exists F path then (Ret True, qgp, b, F)
                 else andthen (fs_create_directory path F)
                        (\<lambda>made F. if made then (Ret True, qgp, b, F)
                           else (Ret False, qgp, bank_message E (''Create directory '' @ quoted_s @ '' failed'')
                                   [grp_path qgp] b, F))
                        (\<lambda>F. (qgp, b, F))))"

definition updateGroup_in ::
  "env \<Rightarrow> string \<Rightarrow> string \<Rightarrow> CQuestionGroupParam \<Rightarrow> CQuestionBankImpl \<Rightarrow> fs \<Rightarrow> bool group_result" where
  "updateGroup_in E gid name qgp b F =
     (let i = find_index (\<lambda>grp. grp_id grp = gid) (grp_groups qgp) in
      if i = length (grp_groups qgp)
      then (Ret False, qgp, bank_message E (''Found group by id '' @ quoted_s @ '' failed'') [gid] b, F)
      else (case on_ids (qai_updateGroup E gid name) b of
              Throw e \<Rightarrow> (Throw e, qgp, b, F)
            | Undef \<Rightarrow> (Undef, qgp, b, F)
            | Ret b \<Rightarrow>
                (let found = set_name name (grp_groups qgp ! i);
                     qgp = put_child i found qgp;
                     path = grp_path qgp @ sep @ name
                 in case fs_rename (grp_path found) path F of
                      (Ret _, F) \<Rightarrow> (Ret True, qgp, b, F)
                    | (Throw e, F) \<Rightarrow> (Ret False, qgp, bank_message E ''%s'' [what E e] b, F)
                    | (Undef, F) \<Rightarrow> (Undef, qgp, b, F))))"

text \<open>
  \<open>deleteGroup\<close> deletes the children first, in a range-based loop over the vector the inner
  calls erase from: after an inner call that erased an element the iterators of the loop are
  invalid, and its next step is undefined. The first argument bounds the depth; the height of
  the group is enough (\<open>deleteGroup_fuel\<close> below).
\<close>

definition erase_at :: "nat \<Rightarrow> 'a list \<Rightarrow> 'a list" where
  "erase_at i xs = take i xs @ drop (Suc i) xs"

definition remove_tree ::
  "env \<Rightarrow> nat \<Rightarrow> CQuestionGroupParam \<Rightarrow> CQuestionGroupParam \<Rightarrow> CQuestionBankImpl \<Rightarrow> fs \<Rightarrow> bool group_result" where
  "remove_tree E i found qgp b F =
     (if fs_exists F (grp_path found) \<and> fs_is_directory F (grp_path found)
      then (case fs_remove_all (partial_removal E) (grp_path found) F of
              (Ret _, F) \<Rightarrow> (Ret True, set_groups (erase_at i (grp_groups qgp)) qgp, b, F)
            | (Throw e, F) \<Rightarrow> (Ret False, put_child i found qgp, bank_message E ''%s'' [what E e] b, F)
            | (Undef, F) \<Rightarrow> (Undef, put_child i found qgp, b, F))
      else (Ret True, set_groups (erase_at i (grp_groups qgp)) qgp, b, F))"

fun deleteGroup_in ::
  "env \<Rightarrow> nat \<Rightarrow> string \<Rightarrow> CQuestionGroupParam \<Rightarrow> CQuestionBankImpl \<Rightarrow> fs \<Rightarrow> bool group_result"
and delete_children ::
  "env \<Rightarrow> nat \<Rightarrow> nat list \<Rightarrow> CQuestionGroupParam \<Rightarrow> CQuestionBankImpl \<Rightarrow> fs \<Rightarrow> unit group_result" where
  "deleteGroup_in E 0 gid qgp b F = (Undef, qgp, b, F)"
| "deleteGroup_in E (Suc n) gid qgp b F =
     (let b = b\<lparr>bnk_mapIds := map_erase gid (bnk_mapIds b)\<rparr>
      in case on_ids (qai_deleteGroup E gid) b of
           Throw e \<Rightarrow> (Throw e, qgp, b, F)
         | Undef \<Rightarrow> (Undef, qgp, b, F)
         | Ret b \<Rightarrow>
             (let i = find_index (\<lambda>grp. grp_id grp = gid) (grp_groups qgp); found = grp_groups qgp ! i in
              if i = length (grp_groups qgp)
              then (Ret False, qgp, bank_message E (''Found group by id '' @ quoted_s @ '' failed'') [gid] b, F)
              else (case close_contexts (grp_questions found) F of
                      (Throw e, qs, F) \<Rightarrow> (Throw e, put_child i (set_questions qs found) qgp, b, F)
                    | (Undef, qs, F) \<Rightarrow> (Undef, put_child i (set_questions qs found) qgp, b, F)
                    | (Ret _, _, F) \<Rightarrow>
                        andthen (delete_children E n [0..<length (grp_groups found)] (set_questions [] found) b F)
                          (\<lambda>_ (found, b, F). remove_tree E i found qgp b F)
                          (\<lambda>(found, b, F). (put_child i found qgp, b, F)))))"
| "delete_children E n [] found b F = (Ret (), found, b, F)"
| "delete_children E n (j # js) found b F =
     andthen (deleteGroup_in E n (grp_id (grp_groups found ! j)) found b F)
       (\<lambda>erased (found, b, F). if erased then (Undef, found, b, F) else delete_children E n js found b F)
       (\<lambda>st. st)"

fun height :: "CQuestionGroupParam \<Rightarrow> nat" where
  "height (Group n i p qs gs) = Suc (foldr max (map height gs) 0)"

text \<open>\<open>ctrlGroup\<close> and the \<open>std::find_if\<close> over the children of a group.\<close>

fun ctrlGroup ::
  "env \<Rightarrow> string \<Rightarrow> string \<Rightarrow> string \<Rightarrow> GROUP_CTRL_TYPE \<Rightarrow> CQuestionGroupParam \<Rightarrow> CQuestionBankImpl \<Rightarrow> fs \<Rightarrow>
   bool group_result"
and ctrlGroup_any ::
  "env \<Rightarrow> string \<Rightarrow> string \<Rightarrow> string \<Rightarrow> GROUP_CTRL_TYPE \<Rightarrow> CQuestionGroupParam list \<Rightarrow> CQuestionBankImpl \<Rightarrow> fs \<Rightarrow>
   (fs_error, bool) outcome \<times> CQuestionGroupParam list \<times> CQuestionBankImpl \<times> fs" where
  "ctrlGroup E pid gid name type (Group n i p qs gs) b F =
     (if pid = [] \<or> pid = i then
        (case type of
           GROUP_CTRL_ADD \<Rightarrow> addGroup_in E gid name (Group n i p qs gs) b F
         | GROUP_CTRL_DELETE \<Rightarrow> deleteGroup_in E (height (Group n i p qs gs)) gid (Group n i p qs gs) b F
         | GROUP_CTRL_UPDATE \<Rightarrow> updateGroup_in E gid name (Group n i p qs gs) b F
         | _ \<Rightarrow> (Ret False, Group n i p qs gs, b, F))
      else (case ctrlGroup_any E pid gid name type gs b F of
              (r, gs', b', F') \<Rightarrow> (r, Group n i p qs gs', b', F')))"
| "ctrlGroup_any E pid gid name type [] b F = (Ret False, [], b, F)"
| "ctrlGroup_any E pid gid name type (g # gs) b F =
     (case ctrlGroup E pid gid name type g b F of
        (Ret False, g', b', F') \<Rightarrow>
          (case ctrlGroup_any E pid gid name type gs b' F' of (r, gs', b'', F'') \<Rightarrow> (r, g' # gs', b'', F''))
      | (r, g', b', F') \<Rightarrow> (r, g' # gs, b', F'))"

definition ctrl_root ::
  "env \<Rightarrow> string \<Rightarrow> string \<Rightarrow> string \<Rightarrow> GROUP_CTRL_TYPE \<Rightarrow> CQuestionBankImpl \<Rightarrow> fs \<Rightarrow> bool bank_result" where
  "ctrl_root E pid gid name type b F =
     (case ctrlGroup E pid gid name type (bnk_root b) b F of (r, g, b', F') \<Rightarrow> (r, b'\<lparr>bnk_root := g\<rparr>, F'))"

definition addGroup :: "env \<Rightarrow> string \<Rightarrow> string \<Rightarrow> string \<Rightarrow> CQuestionBankImpl \<Rightarrow> fs \<Rightarrow> bool bank_result" where
  "addGroup E pid name gid b F =
     (if has_key gid (bnk_mapIds b)
      then (Ret False, bank_message E (''Repeated group id '' @ quoted_s) [gid] b, F)
      else if \<exists>kv \<in> set (bnk_mapIds b). snd kv = name
      then (Ret False, bank_message E (''Repeated group name '' @ quoted_s) [name] b, F)
      else ctrl_root E pid gid name GROUP_CTRL_ADD b F)"

definition deleteGroup :: "env \<Rightarrow> string \<Rightarrow> string \<Rightarrow> CQuestionBankImpl \<Rightarrow> fs \<Rightarrow> bool bank_result" where
  "deleteGroup E pid gid b F = ctrl_root E pid gid [] GROUP_CTRL_DELETE b F"

definition updateGroup ::
  "env \<Rightarrow> string \<Rightarrow> string \<Rightarrow> string \<Rightarrow> CQuestionBankImpl \<Rightarrow> fs \<Rightarrow> bool bank_result" where
  "updateGroup E pid gid name b F = ctrl_root E pid gid name GROUP_CTRL_UPDATE b F"

end
