(* ===== verification/GroupTree.thy ===== *)
theory GroupTree
  imports QuestionBank
begin

text \<open>
  Facts about the tree of groups and the recursive members of \<open>CQuestionBankImpl\<close> that walk
  it: where a group id is found, what \<open>ctrlGroup\<close> does there, how deep \<open>deleteGroup\<close> goes.
\<close>

subsection \<open>Ids and positions\<close>

fun group_ids :: "CQuestionGroupParam \<Rightarrow> string list" where
  "group_ids (Group n i p qs gs) = i # concat (map group_ids gs)"

text \<open>A directory that has no id yet has the empty one; ids that name a group are not empty.\<close>

definition named_ids :: "CQuestionGroupParam \<Rightarrow> string list" where
  "named_ids g = filter (\<lambda>i. i \<noteq> []) (group_ids g)"

definition named_ids_of :: "CQuestionGroupParam list \<Rightarrow> string list" where
  "named_ids_of gs = concat (map named_ids gs)"

lemma named_ids_Group: "named_ids (Group n i p qs gs) = (if i \<noteq> [] then [i] else []) @ named_ids_of gs"
  by (simp add: named_ids_def [abs_def] named_ids_of_def filter_concat comp_def)

lemma named_ids_unfold: "named_ids g = (if grp_id g \<noteq> [] then [grp_id g] else []) @ named_ids_of (grp_groups g)"
  by (cases g) (simp add: named_ids_Group)

lemma named_ids_of_simps [simp]:
  "named_ids_of [] = []" "named_ids_of (g # gs) = named_ids g @ named_ids_of gs"
  "named_ids_of (gs @ hs) = named_ids_of gs @ named_ids_of hs"
  by (simp_all add: named_ids_of_def)

lemma named_ids_nonempty: "[] \<notin> set (named_ids g)"
  by (simp add: named_ids_def)

lemma named_ids_of_update:
  "k < length gs \<Longrightarrow> mset (named_ids_of (gs[k := c])) + mset (named_ids (gs ! k)) = mset (named_ids_of gs) + mset (named_ids c)"
  by (induction gs arbitrary: k) (auto simp: nth_Cons split: nat.splits)

lemma named_ids_of_nth: "k < length gs \<Longrightarrow> set (named_ids (gs ! k)) \<subseteq> set (named_ids_of gs)"
  using nth_mem by (fastforce simp: named_ids_of_def)

lemma named_ids_of_erase:
  "k < length gs \<Longrightarrow> mset (named_ids_of (erase_at k gs)) + mset (named_ids (gs ! k)) = mset (named_ids_of gs)"
  by (induction gs arbitrary: k) (auto simp: nth_Cons erase_at_def ac_simps split: nat.splits)

lemma distinct_named_ids_nth: "distinct (named_ids_of gs) \<Longrightarrow> k < length gs \<Longrightarrow> distinct (named_ids (gs ! k))"
  by (induction gs arbitrary: k) (auto simp: nth_Cons split: nat.splits)

fun put_group :: "nat list \<Rightarrow> CQuestionGroupParam \<Rightarrow> CQuestionGroupParam \<Rightarrow> CQuestionGroupParam" where
  "put_group [] c g = c"
| "put_group (k # l) c g = put_child k (put_group l c (grp_groups g ! k)) g"

lemma named_ids_put_child:
  assumes "k < length (grp_groups g)"
  shows "mset (named_ids (put_child k c g)) + mset (named_ids (grp_groups g ! k)) = mset (named_ids g) + mset (named_ids c)"
  using named_ids_of_update [OF assms, of c] by (simp add: named_ids_unfold [of g] named_ids_unfold [of "put_child k c g"])

lemma named_ids_put_group:
  "group_at l g = Some c \<Longrightarrow> mset (named_ids (put_group l d g)) + mset (named_ids c) = mset (named_ids g) + mset (named_ids d)"
proof (induction l arbitrary: g)
  case (Cons k l)
  then have k: "k < length (grp_groups g)" and c: "group_at l (grp_groups g ! k) = Some c" by (auto split: if_splits)
  note a = named_ids_put_child [OF k, of "put_group l d (grp_groups g ! k)"] and b = Cons.IH [OF c]
  show ?case
  proof (rule multiset_eqI)
    fix x
    show "count (mset (named_ids (put_group (k # l) d g)) + mset (named_ids c)) x =
      count (mset (named_ids g) + mset (named_ids d)) x"
      using arg_cong [OF a, of "\<lambda>M. count M x"] arg_cong [OF b, of "\<lambda>M. count M x"] by simp
  qed
qed simp

lemma group_at_ids: "group_at l g = Some c \<Longrightarrow> set (named_ids c) \<subseteq> set (named_ids g)"
proof (induction l arbitrary: g)
  case (Cons k l)
  then have k: "k < length (grp_groups g)" and c: "group_at l (grp_groups g ! k) = Some c" by (auto split: if_splits)
  from Cons.IH [OF c] named_ids_of_nth [OF k] show ?case by (auto simp: named_ids_unfold [of g])
qed simp

lemma group_at_id: "group_at l g = Some c \<Longrightarrow> grp_id c \<noteq> [] \<Longrightarrow> grp_id c \<in> set (named_ids g)"
  using group_at_ids [of l g c] by (auto simp: named_ids_unfold [of c])

lemma ids_at: "pid \<in> set (group_ids g) \<Longrightarrow> \<exists>l c. group_at l g = Some c \<and> grp_id c = pid"
proof (induction g rule: group_ids.induct)
  case (1 n i p qs gs)
  show ?case
  proof (cases "pid = i")
    case True
    then show ?thesis by (intro exI [of _ "[]"]) simp
  next
    case False
    with 1(2) obtain h where h: "h \<in> set gs" "pid \<in> set (group_ids h)" by auto
    then obtain k where k: "k < length gs" "pid \<in> set (group_ids (gs ! k))" by (metis in_set_conv_nth)
    then obtain l c where "group_at l (gs ! k) = Some c" "grp_id c = pid" using 1 by (metis nth_mem)
    then show ?thesis using k by (intro exI [of _ "k # l"]) auto
  qed
qed

lemma group_at_put_same: "group_at l g = Some c \<Longrightarrow> group_at l (put_group l d g) = Some d"
  by (induction l arbitrary: g) (auto split: if_splits)

lemma group_at_append: "group_at (l @ m) g = (case group_at l g of None \<Rightarrow> None | Some c \<Rightarrow> group_at m c)"
  by (induction l arbitrary: g) auto

lemma put_group_put: "group_at l g = Some c \<Longrightarrow> put_group l d (put_group l e g) = put_group l d g"
  by (induction l arbitrary: g) (auto simp: put_child_def set_groups_def split: if_splits)

lemma put_group_id: "group_at l g = Some c \<Longrightarrow> grp_id c = grp_id d \<Longrightarrow> grp_id (put_group l d g) = grp_id g"
  by (cases l) auto

lemma put_group_same: "group_at l g = Some c \<Longrightarrow> put_group l c g = g"
proof (induction l arbitrary: g)
  case (Cons k l)
  then show ?case by (cases g) (auto simp: put_child_def set_groups_def split: if_splits)
qed simp

subsection \<open>\<open>ctrlGroup\<close>\<close>

definition ctrl_op ::
  "env \<Rightarrow> string \<Rightarrow> string \<Rightarrow> GROUP_CTRL_TYPE \<Rightarrow> CQuestionGroupParam \<Rightarrow> CQuestionBankImpl \<Rightarrow> fs \<Rightarrow> bool group_result" where
  "ctrl_op E gid name type g b F =
     (case type of
        GROUP_CTRL_ADD \<Rightarrow> addGroup_in E gid name g b F
      | GROUP_CTRL_DELETE \<Rightarrow> deleteGroup_in E (height g) gid g b F
      | GROUP_CTRL_UPDATE \<Rightarrow> updateGroup_in E gid name g b F
      | _ \<Rightarrow> (Ret False, g, b, F))"

lemma ctrlGroup_here: "pid = [] \<or> pid = grp_id g \<Longrightarrow> ctrlGroup E pid gid name type g b F = ctrl_op E gid name type g b F"
  by (cases g) (simp add: ctrl_op_def split: GROUP_CTRL_TYPE.split)

lemma ctrlGroup_absent:
  "pid \<noteq> [] \<Longrightarrow> pid \<notin> set (named_ids g) \<Longrightarrow> ctrlGroup E pid gid name type g b F = (Ret False, g, b, F)"
  "pid \<noteq> [] \<Longrightarrow> pid \<notin> set (named_ids_of gs) \<Longrightarrow> ctrlGroup_any E pid gid name type gs b F = (Ret False, gs, b, F)"
  by (induction E pid gid name type g b F and E pid gid name type gs b F rule: ctrlGroup_ctrlGroup_any.induct)
     (auto simp: named_ids_Group split: if_splits)

lemma ctrlGroup_any_at:
  assumes "k < length gs" "pid \<noteq> []" "distinct (named_ids_of gs)" "pid \<in> set (named_ids (gs ! k))"
  shows "ctrlGroup_any E pid gid name type gs b F =
    (case ctrlGroup E pid gid name type (gs ! k) b F of (r, g', b', F') \<Rightarrow> (r, gs[k := g'], b', F'))"
  using assms
proof (induction gs arbitrary: k)
  case (Cons g gs)
  show ?case
  proof (cases k)
    case 0
    with Cons.prems have "pid \<notin> set (named_ids_of gs)" by auto
    from ctrlGroup_absent(2) [OF Cons.prems(2) this] show ?thesis
      using 0 by (auto split: prod.splits outcome.splits bool.splits)
  next
    case (Suc j)
    with Cons.prems have "pid \<in> set (named_ids_of gs)" using named_ids_of_nth [of j gs] by auto
    with Cons.prems have "pid \<notin> set (named_ids g)" by auto
    from ctrlGroup_absent(1) [OF Cons.prems(2) this] show ?thesis
      using Suc Cons.IH [of j] Cons.prems by (auto split: prod.splits)
  qed
qed simp

text \<open>Ids being unique, the operation is carried out at the group with the parent id and nowhere else.\<close>

lemma ctrlGroup_at:
  assumes "distinct (named_ids g)" "group_at l g = Some c" "grp_id c = pid" "pid \<noteq> []"
  shows "ctrlGroup E pid gid name type g b F =
    (case ctrl_op E gid name type c b F of (r, c', b', F') \<Rightarrow> (r, put_group l c' g, b', F'))"
  using assms
proof (induction l arbitrary: g)
  case Nil
  then show ?case by (simp add: ctrlGroup_here split: prod.splits)
next
  case (Cons k l)
  obtain n i p qs gs where g: "g = Group n i p qs gs" by (cases g)
  with Cons.prems have k: "k < length gs" and c: "group_at l (gs ! k) = Some c" by (auto split: if_splits)
  have d: "distinct (named_ids_of gs)" using Cons.prems(1) g by (auto simp: named_ids_Group split: if_splits)
  then have dk: "distinct (named_ids (gs ! k))" by (rule distinct_named_ids_nth) (rule k)
  have pk: "pid \<in> set (named_ids (gs ! k))" using group_at_id [OF c] Cons.prems by simp
  then have "pid \<noteq> i" using Cons.prems(1,4) named_ids_of_nth [OF k] g by (auto simp: named_ids_Group)
  then show ?case
    using Cons.IH [OF dk c] ctrlGroup_any_at [OF k _ d pk] Cons.prems(3,4) g
    by (auto simp: put_child_def set_groups_def split: prod.splits)
qed

subsection \<open>The depth of \<open>deleteGroup\<close>\<close>

lemma height_unfold: "height g = Suc (foldr max (map height (grp_groups g)) 0)"
  by (cases g) simp

lemma height_set_questions [simp]: "height (set_questions qs g) = height g"
  by (simp add: height_unfold)

lemma foldr_max_ge: "k < length xs \<Longrightarrow> xs ! k \<le> foldr max xs (0 :: nat)"
  by (induction xs arbitrary: k) (auto simp: nth_Cons le_max_iff_disj split: nat.splits)

lemma foldr_max_le: "foldr max xs (0 :: nat) \<le> m \<longleftrightarrow> (\<forall>x \<in> set xs. x \<le> m)"
  by (induction xs) auto

lemma height_child: "k < length (grp_groups g) \<Longrightarrow> height (grp_groups g ! k) < height g"
  using foldr_max_ge [of k "map height (grp_groups g)"] by (simp add: height_unfold [of g] less_Suc_eq_le)

lemma height_le_iff: "height g \<le> Suc m \<longleftrightarrow> (\<forall>c \<in> set (grp_groups g). height c \<le> m)"
  by (simp add: height_unfold [of g] foldr_max_le)

lemma height_subset: "set (grp_groups g') \<subseteq> set (grp_groups g) \<Longrightarrow> height g' \<le> height g"
  using height_le_iff [of g' "foldr max (map height (grp_groups g)) 0"] height_le_iff [of g "foldr max (map height (grp_groups g)) 0"]
    height_unfold [of g] by auto

lemma height_put_child: "height c \<le> height (grp_groups g ! k) \<Longrightarrow> height (put_child k c g) \<le> height g"
proof (cases "k < length (grp_groups g)")
  case True
  assume c: "height c \<le> height (grp_groups g ! k)"
  let ?m = "foldr max (map height (grp_groups g)) 0"
  have "\<forall>x \<in> set (grp_groups g). height x \<le> ?m" using height_le_iff [of g ?m] height_unfold [of g] by simp
  moreover from this True c have "height c \<le> ?m" by (meson le_trans nth_mem)
  ultimately have "height (put_child k c g) \<le> Suc ?m"
    using set_update_subset_insert [of "grp_groups g" k c] by (auto simp: height_le_iff)
  then show ?thesis using height_unfold [of g] by simp
qed (simp add: height_unfold list_update_beyond)

lemma set_erase_at: "set (erase_at i xs) \<subseteq> set xs"
  by (auto simp: erase_at_def dest: in_set_takeD in_set_dropD)

lemma height_remove_tree:
  assumes "remove_tree E i found qgp b F = (r, g', b', F')" "height found \<le> height (grp_groups qgp ! i)"
  shows "height g' \<le> height qgp"
  using assms height_put_child [OF assms(2)] height_subset [of "set_groups (erase_at i (grp_groups qgp)) qgp" qgp]
    set_erase_at [of i "grp_groups qgp"]
  by (auto simp: remove_tree_def split: if_splits prod.splits outcome.splits)

lemma deleteGroup_height:
  "deleteGroup_in E n gid g b F = (r, g', b', F') \<Longrightarrow> height g' \<le> height g"
  "delete_children E n js f b F = (q, f', b', F') \<Longrightarrow> height f' \<le> height f"
proof (induction E n gid g b F and E n js f b F arbitrary: r g' b' F' and q f' b' F'
    rule: deleteGroup_in_delete_children.induct)
  case (2 E n gid qgp b F)
  let ?i = "find_index (\<lambda>grp. grp_id grp = gid) (grp_groups qgp)"
  let ?b = "b\<lparr>bnk_mapIds := map_erase gid (bnk_mapIds b)\<rparr>"
  let ?found = "grp_groups qgp ! ?i"
  show ?case
  proof (cases "on_ids (qai_deleteGroup E gid) ?b")
    case (Ret b1)
    obtain rc qs F1 where cc: "close_contexts (grp_questions ?found) F = (rc, qs, F1)" by (metis prod_cases3)
    obtain rd f2 b2 F2 where dc: "delete_children E n [0..<length (grp_groups ?found)] (set_questions [] ?found) b1 F1 = (rd, f2, b2, F2)"
      by (metis prod_cases4)
    show ?thesis
    proof (cases "?i = length (grp_groups qgp)")
      case True
      then show ?thesis using 2(2) Ret by (auto simp: Let_def)
    next
      case False
      show ?thesis
      proof (cases rc)
        case (Ret u)
        have h: "height f2 \<le> height ?found"
          using 2(1) [OF refl \<open>on_ids _ ?b = _\<close> refl refl False cc [symmetric] Ret refl dc] by simp
        show ?thesis
          using 2(2) \<open>on_ids _ ?b = _\<close> False cc Ret dc h
          by (cases rd) (auto simp: Let_def intro: height_put_child height_remove_tree)
      qed (use 2(2) \<open>on_ids _ ?b = _\<close> False cc in \<open>auto simp: Let_def intro: height_put_child\<close>)
    qed
  qed (use 2(2) in \<open>auto simp: Let_def\<close>)
next
  case (4 E n j js f b F)
  obtain r1 g1 b1 F1 where d: "deleteGroup_in E n (grp_id (grp_groups f ! j)) f b F = (r1, g1, b1, F1)"
    by (metis prod_cases4)
  show ?case
  proof (cases "r1 = Ret False")
    case True
    then have "delete_children E n js g1 b1 F1 = (q, f', b', F')" using 4(3) d by simp
    then show ?thesis using 4(1) [OF d] 4(2) [of False, simplified] by (meson le_trans)
  next
    case False
    then show ?thesis using 4(1) [OF d] 4(3) d by (cases r1) auto
  qed
qed auto

lemma delete_more_fuel:
  "height g \<le> n \<Longrightarrow> deleteGroup_in E (Suc n) gid g b F = deleteGroup_in E n gid g b F"
  "height f \<le> n \<Longrightarrow> delete_children E (Suc n) js f b F = delete_children E n js f b F"
proof (induction E n gid g b F and E n js f b F rule: deleteGroup_in_delete_children.induct)
  case (1 E gid qgp b F)
  then show ?case by (simp add: height_unfold)
next
  case (2 E n gid qgp b F)
  let ?i = "find_index (\<lambda>grp. grp_id grp = gid) (grp_groups qgp)"
  let ?b = "b\<lparr>bnk_mapIds := map_erase gid (bnk_mapIds b)\<rparr>"
  let ?found = "grp_groups qgp ! ?i"
  show ?case
  proof (cases "on_ids (qai_deleteGroup E gid) ?b")
    case (Ret b1)
    obtain rc qs F1 where cc: "close_contexts (grp_questions ?found) F = (rc, qs, F1)" by (metis prod_cases3)
    show ?thesis
    proof (cases "?i = length (grp_groups qgp) \<or> \<not> is_ret rc")
      case True
      then show ?thesis using Ret cc
        by (cases rc) (auto simp del: deleteGroup_in.simps simp add: deleteGroup_in.simps(2) Let_def)
    next
      case False
      then obtain u where u: "rc = Ret u" and i: "?i \<noteq> length (grp_groups qgp)" by (cases rc) auto
      have "?i < length (grp_groups qgp)"
        using i find_index_le [of "\<lambda>grp. grp_id grp = gid" "grp_groups qgp"] by simp
      from height_child [OF this] have h: "height (set_questions [] ?found) \<le> n" using 2(2) by simp
      have "delete_children E (Suc n) [0..<length (grp_groups ?found)] (set_questions [] ?found) b1 F1
          = delete_children E n [0..<length (grp_groups ?found)] (set_questions [] ?found) b1 F1"
        using 2(1) [OF refl Ret refl refl i cc [symmetric] u refl h] .
      then show ?thesis using Ret cc i u
        by (simp del: deleteGroup_in.simps add: deleteGroup_in.simps(2) Let_def)
    qed
  qed (simp_all del: deleteGroup_in.simps add: deleteGroup_in.simps(2) Let_def)
next
  case (4 E n j js f b F)
  obtain r1 g1 b1 F1 where d: "deleteGroup_in E n (grp_id (grp_groups f ! j)) f b F = (r1, g1, b1, F1)"
    by (metis prod_cases4)
  have "height g1 \<le> n" using deleteGroup_height(1) [OF d] 4(3) by simp
  then show ?case using 4(1) [OF 4(3)] 4(2) [of False, simplified] d
    by (cases r1) (auto simp del: deleteGroup_in.simps)
qed simp

lemma deleteGroup_fuel_enough: "height g \<le> n \<Longrightarrow> deleteGroup_in E n gid g b F = deleteGroup_in E (height g) gid g b F"
proof (induction n rule: dec_induct)
  case (step n)
  then show ?case using delete_more_fuel(1) by simp
qed simp

end
