(* ===== verification/GroupControl.thy ===== *)
theory GroupControl
  imports GroupTree
begin

text \<open>
  What the operations on groups do to a consistent bank: the tree, the table \<open>m_mapIds\<close> in
  memory, the list of groups in \<open>ids.dat\<close> and the directories.
\<close>

subsection \<open>A consistent bank\<close>

text \<open>
  Ids name one group each, every group is in the table, and the table and the list behind
  \<open>m_ptrIds\<close> know the same ids. That they know the same names is \<open>names_agree\<close>, which
  \<open>updateGroup\<close> does not keep.
\<close>

definition tables_ok :: "CQuestionBankImpl \<Rightarrow> bool" where
  "tables_ok b \<longleftrightarrow> distinct (map fst (bnk_mapIds b)) \<and>
     (case bnk_ptrIds b of
        None \<Rightarrow> False
      | Some s \<Rightarrow> impl_ok s \<and> dom (group_view s) = fst ` set (bnk_mapIds b))"

definition bank_ok :: "CQuestionBankImpl \<Rightarrow> bool" where
  "bank_ok b \<longleftrightarrow> tables_ok b \<and> grp_id (bnk_root b) = [] \<and> distinct (named_ids (bnk_root b)) \<and>
     set (named_ids (bnk_root b)) \<subseteq> fst ` set (bnk_mapIds b)"

definition names_agree :: "CQuestionBankImpl \<Rightarrow> bool" where
  "names_agree b \<longleftrightarrow> (\<forall>s. bnk_ptrIds b = Some s \<longrightarrow> map_of (bnk_mapIds b) = group_view s)"

lemma tables_okE:
  assumes "tables_ok b"
  obtains s where "bnk_ptrIds b = Some s" "impl_ok s" "dom (group_view s) = fst ` set (bnk_mapIds b)"
    "distinct (map fst (bnk_mapIds b))"
  using assms by (auto simp: tables_ok_def split: option.splits)

lemma tables_ok_message [simp]: "tables_ok (bank_message E fmt args b) = tables_ok b"
  by (simp add: tables_ok_def bank_message_def split: option.split)

lemma tables_ok_root [simp]:
  "tables_ok (b\<lparr>bnk_root := g\<rparr>) = tables_ok b" "names_agree (b\<lparr>bnk_root := g\<rparr>) = names_agree b"
  by (simp_all add: tables_ok_def names_agree_def split: option.split)

lemma bank_message_simps [simp]:
  "bnk_root (bank_message E fmt args b) = bnk_root b" "bnk_mapIds (bank_message E fmt args b) = bnk_mapIds b"
  "bnk_ptrIds (bank_message E fmt args b) = bnk_ptrIds b" "bnk_idPath (bank_message E fmt args b) = bnk_idPath b"
  "bnk_error (bank_message E fmt args b) = env_fmt E fmt args"
  by (simp_all add: bank_message_def)

lemma bank_ok_message [simp]: "bank_ok (bank_message E fmt args b) = bank_ok b"
  by (simp add: bank_ok_def)

lemma not_has_key_group_view:
  "dom (group_view s) = fst ` set m \<Longrightarrow> \<not> has_key k m \<longleftrightarrow> group_view s k = None"
  by (auto simp: has_key_def)

subsection \<open>The calls through \<open>m_ptrIds\<close>\<close>

lemma ids_add:
  assumes "bnk_ptrIds b = Some s" "impl_ok s" "group_view s gid = None"
  shows "\<exists>s'. on_ids (\<lambda>s. Ret (qai_addGroup E gid name s)) b = Ret (b\<lparr>bnk_ptrIds := Some s'\<rparr>) \<and> impl_ok s' \<and>
    group_view s' = (group_view s)(gid \<mapsto> name)"
  using group_store.step_spec [OF assms(2), of E "Ins gid name"] assms by (auto simp: on_ids_def)

lemma ids_delete:
  assumes "bnk_ptrIds b = Some s" "impl_ok s"
  shows "\<exists>s'. on_ids (qai_deleteGroup E gid) b = Ret (b\<lparr>bnk_ptrIds := Some s'\<rparr>) \<and> impl_ok s' \<and>
    group_view s' = (group_view s)(gid := None)"
  using group_store.step_spec [OF assms(2), of E "Del gid"] assms by (auto simp: on_ids_def)

lemma ids_update:
  assumes "bnk_ptrIds b = Some s" "impl_ok s"
  shows "\<exists>s'. on_ids (qai_updateGroup E gid name) b = Ret (b\<lparr>bnk_ptrIds := Some s'\<rparr>) \<and> impl_ok s' \<and>
    group_view s' = (if group_view s gid = None then group_view s else (group_view s)(gid \<mapsto> name))"
  using group_store.step_spec [OF assms(2), of E "Upd gid name"] assms by (auto simp: on_ids_def)

subsection \<open>The parent of an operation\<close>

text \<open>\<open>parent_at b pid l c\<close>: an operation with parent id \<open>pid\<close> is carried out at \<open>c\<close>, at position \<open>l\<close>.\<close>

definition parent_at :: "CQuestionBankImpl \<Rightarrow> string \<Rightarrow> nat list \<Rightarrow> CQuestionGroupParam \<Rightarrow> bool" where
  "parent_at b pid l c \<longleftrightarrow> group_at l (bnk_root b) = Some c \<and> (if pid = [] then l = [] else grp_id c = pid)"

lemma ctrl_root_at:
  assumes "bank_ok b" "parent_at b pid l c"
  shows "ctrl_root E pid gid name type b F =
    (case ctrl_op E gid name type c b F of (r, c', b', F') \<Rightarrow> (r, b'\<lparr>bnk_root := put_group l c' (bnk_root b)\<rparr>, F'))"
proof (cases "pid = []")
  case True
  then show ?thesis using assms by (auto simp: ctrl_root_def parent_at_def ctrlGroup_here split: prod.splits)
next
  case False
  then show ?thesis using assms ctrlGroup_at [of "bnk_root b" l c pid E gid name type b F]
    by (auto simp: ctrl_root_def parent_at_def bank_ok_def split: prod.splits)
qed

lemma ctrl_root_absent:
  assumes "bank_ok b" "pid \<noteq> []" "pid \<notin> set (named_ids (bnk_root b))"
  shows "ctrl_root E pid gid name type b F = (Ret False, b, F)"
  using ctrlGroup_absent(1) [OF assms(2,3)] by (simp add: ctrl_root_def)

lemma parent_exists: "pid \<in> set (named_ids (bnk_root b)) \<Longrightarrow> \<exists>l c. parent_at b pid l c"
  using ids_at [of pid "bnk_root b"] by (auto simp: parent_at_def named_ids_def)

text \<open>Replacing the parent: the ids of the tree change as those of the parent do.\<close>

lemma named_ids_put_add:
  assumes "group_at l g = Some c" "mset (named_ids c') = mset (xs @ named_ids c)"
  shows "mset (named_ids (put_group l c' g)) = mset (xs @ named_ids g)"
proof -
  have "mset (named_ids (put_group l c' g)) + mset (named_ids c) = mset (xs @ named_ids g) + mset (named_ids c)"
    using named_ids_put_group [OF assms(1), of c'] assms(2) by (simp add: ac_simps)
  then show ?thesis by (rule add_right_imp_eq)
qed

lemma named_ids_put_remove:
  assumes "group_at l g = Some c" "mset (named_ids c' @ ds) = mset (named_ids c)"
  shows "mset (named_ids (put_group l c' g) @ ds) = mset (named_ids g)"
proof -
  have "mset (named_ids (put_group l c' g) @ ds) + mset (named_ids c') = mset (named_ids g) + mset (named_ids c')"
    using named_ids_put_group [OF assms(1), of c'] assms(2) [symmetric] by (simp add: ac_simps)
  then show ?thesis by (rule add_right_imp_eq)
qed

lemma bank_ok_put_add:
  assumes "bank_ok b" "group_at l (bnk_root b) = Some c" "grp_id c' = grp_id c" "tables_ok b'"
    and "bnk_root b' = put_group l c' (bnk_root b)" "mset (named_ids c') = mset (xs @ named_ids c)"
    and "distinct xs" "set xs \<inter> fst ` set (bnk_mapIds b) = {}" "set xs \<union> fst ` set (bnk_mapIds b) \<subseteq> fst ` set (bnk_mapIds b')"
  shows "bank_ok b'"
proof -
  have m: "mset (named_ids (bnk_root b')) = mset (xs @ named_ids (bnk_root b))"
    using named_ids_put_add [OF assms(2,6)] assms(5) by simp
  have "distinct (named_ids (bnk_root b'))"
    using mset_eq_imp_distinct_iff [OF m] assms(1,7,8) by (auto simp: bank_ok_def)
  then show ?thesis
    using mset_eq_setD [OF m] put_group_id [OF assms(2), of c'] assms by (auto simp: bank_ok_def)
qed

lemma bank_ok_put_remove:
  assumes "bank_ok b" "group_at l (bnk_root b) = Some c" "grp_id c' = grp_id c" "tables_ok b'"
    and "bnk_root b' = put_group l c' (bnk_root b)" "mset (named_ids c' @ ds) = mset (named_ids c)"
    and "fst ` set (bnk_mapIds b) - set ds \<subseteq> fst ` set (bnk_mapIds b')"
  shows "bank_ok b'" "set (named_ids (bnk_root b')) = set (named_ids (bnk_root b)) - set ds"
proof -
  have m: "mset (named_ids (bnk_root b') @ ds) = mset (named_ids (bnk_root b))"
    using named_ids_put_remove [OF assms(2,6)] assms(5) by simp
  have d: "distinct (named_ids (bnk_root b') @ ds)"
    using mset_eq_imp_distinct_iff [OF m] assms(1) by (auto simp: bank_ok_def)
  show s: "set (named_ids (bnk_root b')) = set (named_ids (bnk_root b)) - set ds"
    using mset_eq_setD [OF m] d by auto
  show "bank_ok b'"
    using s d put_group_id [OF assms(2), of c'] assms by (auto simp: bank_ok_def)
qed

subsection \<open>Adding a group\<close>

definition child_path :: "CQuestionGroupParam \<Rightarrow> string \<Rightarrow> string" where
  "child_path c name = grp_path c @ sep @ name"

definition add_child :: "string \<Rightarrow> string \<Rightarrow> CQuestionGroupParam \<Rightarrow> CQuestionGroupParam" where
  "add_child gid name c = set_groups (grp_groups c @ [Group name gid (child_path c name) [] []]) c"

lemma add_child_id [simp]: "grp_id (add_child gid name c) = grp_id c"
  by (simp add: add_child_def)

lemma named_ids_add_child: "gid \<noteq> [] \<Longrightarrow> mset (named_ids (add_child gid name c)) = mset ([gid] @ named_ids c)"
  by (simp add: add_child_def named_ids_unfold [of c] named_ids_unfold [of "set_groups _ c"] named_ids_Group)

text \<open>Both tables get the group before the directory is made, and keep it when that throws.\<close>

lemma addGroup_in_tables:
  assumes "tables_ok b" "\<not> has_key gid (bnk_mapIds b)"
  shows "\<exists>b' r F'. addGroup_in E gid name c b F = (r, add_child gid name c, b', F') \<and>
    (r, F') = (if fs_exists F (child_path c name) then (Ret True, F) else fs_create_directory (child_path c name) F) \<and>
    tables_ok b' \<and> bnk_mapIds b' = bnk_mapIds b @ [(gid, name)] \<and> (names_agree b \<longrightarrow> names_agree b') \<and>
    (\<exists>s'. bnk_ptrIds b' = Some s' \<and> group_view s' gid = Some name) \<and>
    bnk_error b' = bnk_error b \<and> bnk_root b' = bnk_root b"
proof -
  from assms(1) obtain s where s: "bnk_ptrIds b = Some s" "impl_ok s" "dom (group_view s) = fst ` set (bnk_mapIds b)"
    "distinct (map fst (bnk_mapIds b))" by (rule tables_okE)
  let ?b = "b\<lparr>bnk_mapIds := bnk_mapIds b @ [(gid, name)]\<rparr>"
  have g: "group_view s gid = None" using not_has_key_group_view [OF s(3)] assms(2) by blast
  from ids_add [of ?b s gid E name] s g obtain s' where
    s': "on_ids (\<lambda>s. Ret (qai_addGroup E gid name s)) ?b = Ret (?b\<lparr>bnk_ptrIds := Some s'\<rparr>)" "impl_ok s'"
    "group_view s' = (group_view s)(gid \<mapsto> name)" by auto
  let ?b' = "?b\<lparr>bnk_ptrIds := Some s'\<rparr>"
  have t: "tables_ok ?b'" using s s' assms(2) by (auto simp: tables_ok_def has_key_def)
  have mo: "map_of (bnk_mapIds b @ [(gid, name)]) = (map_of (bnk_mapIds b))(gid \<mapsto> name)"
    using assms(2) map_of_emplace [of gid name "bnk_mapIds b"] by simp
  have na: "names_agree b \<longrightarrow> names_agree ?b'" using s(1) s'(3) by (simp add: names_agree_def mo del: map_of_append)
  let ?r = "if fs_exists F (child_path c name) then (Ret True, F) else fs_create_directory (child_path c name) F"
  have a: "addGroup_in E gid name c b F = (fst ?r, add_child gid name c, ?b', snd ?r)"
    using assms(2) s'(1) fs_create_directory_fresh [of F "child_path c name"]
    by (auto simp: addGroup_in_def Let_def child_path_def add_child_def andthen_def split: prod.splits outcome.splits)
  show ?thesis
    by (intro exI [of _ ?b'] exI [of _ "fst ?r"] exI [of _ "snd ?r"]) (use a t na s'(3) in auto)
qed

lemma addGroup_fresh:
  assumes b: "bank_ok b" "\<not> has_key gid (bnk_mapIds b)" "name \<notin> snd ` set (bnk_mapIds b)" "gid \<noteq> []"
    and p: "parent_at b pid l c"
  shows "\<exists>b' r F'. addGroup E pid name gid b F = (r, b', F') \<and>
    (r, F') = (if fs_exists F (child_path c name) then (Ret True, F) else fs_create_directory (child_path c name) F) \<and>
    bank_ok b' \<and> bnk_root b' = put_group l (add_child gid name c) (bnk_root b) \<and>
    bnk_mapIds b' = bnk_mapIds b @ [(gid, name)] \<and> (names_agree b \<longrightarrow> names_agree b') \<and>
    (\<exists>s'. bnk_ptrIds b' = Some s' \<and> group_view s' gid = Some name) \<and> bnk_error b' = bnk_error b"
proof -
  have t: "tables_ok b" using b(1) by (simp add: bank_ok_def)
  from addGroup_in_tables [OF t b(2), of E name c F] obtain b' r F' where
    a: "addGroup_in E gid name c b F = (r, add_child gid name c, b', F')"
      "(r, F') = (if fs_exists F (child_path c name) then (Ret True, F) else fs_create_directory (child_path c name) F)"
      "tables_ok b'" "bnk_mapIds b' = bnk_mapIds b @ [(gid, name)]" "names_agree b \<longrightarrow> names_agree b'"
      "\<exists>s'. bnk_ptrIds b' = Some s' \<and> group_view s' gid = Some name" "bnk_error b' = bnk_error b" by blast
  let ?b = "b'\<lparr>bnk_root := put_group l (add_child gid name c) (bnk_root b)\<rparr>"
  have ga: "group_at l (bnk_root b) = Some c" using p by (simp add: parent_at_def)
  have tb: "tables_ok ?b" using a(3) by simp
  have ok: "bank_ok ?b"
    by (rule bank_ok_put_add [OF b(1) ga add_child_id tb _ named_ids_add_child [OF b(4)]])
       (use a(4) b(2) in \<open>auto simp: has_key_def\<close>)
  have no: "\<not> (\<exists>kv \<in> set (bnk_mapIds b). snd kv = name)" using b(3) by auto
  have "addGroup E pid name gid b F = (r, ?b, F')"
    using a(1) b(2) no ctrl_root_at [OF b(1) p] by (simp add: addGroup_def ctrl_op_def)
  then show ?thesis using a(2,4-7) ok by (intro exI [of _ ?b] exI [of _ r] exI [of _ F']) (auto simp: names_agree_def)
qed

subsection \<open>Renaming a group\<close>

lemma updateGroup_in_found:
  assumes "tables_ok b" "gid \<in> fst ` set (bnk_mapIds b)" "i = find_index (\<lambda>grp. grp_id grp = gid) (grp_groups c)"
    "i < length (grp_groups c)"
  shows "\<exists>s'. impl_ok s' \<and> (\<exists>s. bnk_ptrIds b = Some s \<and> group_view s' = (group_view s)(gid \<mapsto> name)) \<and>
    updateGroup_in E gid name c b F =
      (let c' = put_child i (set_name name (grp_groups c ! i)) c; b' = b\<lparr>bnk_ptrIds := Some s'\<rparr>
       in case fs_rename (grp_path (grp_groups c ! i)) (child_path c name) F of
            (Ret _, F') \<Rightarrow> (Ret True, c', b', F')
          | (Throw e, F') \<Rightarrow> (Ret False, c', bank_message E ''%s'' [what E e] b', F')
          | (Undef, F') \<Rightarrow> (Undef, c', b', F'))"
proof -
  from assms(1) obtain s where s: "bnk_ptrIds b = Some s" "impl_ok s" "dom (group_view s) = fst ` set (bnk_mapIds b)"
    by (rule tables_okE)
  have "group_view s gid \<noteq> None" using assms(2) s(3) by auto
  with ids_update [OF s(1,2), of E gid name] obtain s' where
    "on_ids (qai_updateGroup E gid name) b = Ret (b\<lparr>bnk_ptrIds := Some s'\<rparr>)" "impl_ok s'"
    "group_view s' = (group_view s)(gid \<mapsto> name)" by auto
  then show ?thesis using s(1) assms(3,4)
    by (intro exI [of _ s']) (simp add: updateGroup_in_def child_path_def Let_def)
qed

subsection \<open>Deleting a group\<close>

text \<open>The id leaves both tables first, whatever is found afterwards.\<close>

lemma delete_tables:
  assumes "tables_ok b"
  shows "\<exists>b'. on_ids (qai_deleteGroup E gid) (b\<lparr>bnk_mapIds := map_erase gid (bnk_mapIds b)\<rparr>) = Ret b' \<and>
    tables_ok b' \<and> bnk_mapIds b' = map_erase gid (bnk_mapIds b) \<and> bnk_root b' = bnk_root b \<and>
    bnk_error b' = bnk_error b \<and> (names_agree b \<longrightarrow> names_agree b') \<and>
    (\<exists>s s'. bnk_ptrIds b = Some s \<and> bnk_ptrIds b' = Some s' \<and> group_view s' = (group_view s)(gid := None))"
proof -
  from assms obtain s where s: "bnk_ptrIds b = Some s" "impl_ok s" "dom (group_view s) = fst ` set (bnk_mapIds b)"
    "distinct (map fst (bnk_mapIds b))" by (rule tables_okE)
  let ?b = "b\<lparr>bnk_mapIds := map_erase gid (bnk_mapIds b)\<rparr>"
  from ids_delete [of ?b s E gid] s obtain s' where
    s': "on_ids (qai_deleteGroup E gid) ?b = Ret (?b\<lparr>bnk_ptrIds := Some s'\<rparr>)" "impl_ok s'"
    "group_view s' = (group_view s)(gid := None)" by auto
  have "fst ` set (map_erase gid (bnk_mapIds b)) = fst ` set (bnk_mapIds b) - {gid}" by (auto simp: map_erase_def)
  then have "tables_ok (?b\<lparr>bnk_ptrIds := Some s'\<rparr>)"
    using s s' distinct_erase [OF s(4)] by (simp add: tables_ok_def)
  moreover have "names_agree b \<longrightarrow> names_agree (?b\<lparr>bnk_ptrIds := Some s'\<rparr>)"
    using s(1) s'(3) by (simp add: names_agree_def map_of_erase)
  ultimately show ?thesis using s(1) s'(1,3) by auto
qed

lemma deleteGroup_in_absent:
  assumes "tables_ok b" "gid \<notin> grp_id ` set (grp_groups c)"
  shows "\<exists>b'. deleteGroup_in E (Suc n) gid c b F =
      (Ret False, c, bank_message E (''Found group by id '' @ quoted_s @ '' failed'') [gid] b', F) \<and>
    tables_ok b' \<and> bnk_mapIds b' = map_erase gid (bnk_mapIds b) \<and> bnk_root b' = bnk_root b \<and>
    (\<exists>s s'. bnk_ptrIds b = Some s \<and> bnk_ptrIds b' = Some s' \<and> group_view s' = (group_view s)(gid := None))"
proof -
  have "find_index (\<lambda>grp. grp_id grp = gid) (grp_groups c) = length (grp_groups c)"
    using assms(2) by (auto simp: find_index_end_iff)
  then show ?thesis using delete_tables [OF assms(1), of E gid] by (auto simp: Let_def)
qed

lemma deleteGroup_in_leaf:
  assumes t: "tables_ok b" and i: "i = find_index (\<lambda>grp. grp_id grp = gid) (grp_groups c)" "i < length (grp_groups c)"
    and leaf: "grp_groups (grp_groups c ! i) = []"
    and closed: "close_contexts (grp_questions (grp_groups c ! i)) F = (Ret (), qs, F1)"
  shows "\<exists>b'. deleteGroup_in E (Suc n) gid c b F = remove_tree E i (set_questions [] (grp_groups c ! i)) c b' F1 \<and>
    tables_ok b' \<and> bnk_mapIds b' = map_erase gid (bnk_mapIds b) \<and> bnk_root b' = bnk_root b \<and>
    bnk_error b' = bnk_error b \<and> (names_agree b \<longrightarrow> names_agree b')"
proof -
  from delete_tables [OF t, of E gid] obtain b' where
    b': "on_ids (qai_deleteGroup E gid) (b\<lparr>bnk_mapIds := map_erase gid (bnk_mapIds b)\<rparr>) = Ret b'"
    "tables_ok b'" "bnk_mapIds b' = map_erase gid (bnk_mapIds b)" "bnk_root b' = bnk_root b"
    "bnk_error b' = bnk_error b" "names_agree b \<longrightarrow> names_agree b'" by blast
  then show ?thesis using i(2) leaf closed unfolding i(1) by (intro exI [of _ b']) (auto simp: Let_def)
qed

lemma remove_tree_unlocked:
  assumes "\<not> locked_below F (components (grp_path found))"
  shows "\<exists>F'. remove_tree E i found c b F = (Ret True, set_groups (erase_at i (grp_groups c)) c, b, F') \<and>
    F' = (if fs_is_directory F (grp_path found) then drop_nodes (prefix (components (grp_path found))) F else F)"
  using assms by (auto simp: remove_tree_def fs_remove_all_def fs_exists_def fs_is_directory_def Let_def)

lemma named_ids_leaf: "grp_groups g = [] \<Longrightarrow> named_ids g = (if grp_id g = [] then [] else [grp_id g])"
  by (simp add: named_ids_unfold [of g])

lemma deleteGroup_leaf:
  assumes b: "bank_ok b" "gid \<noteq> []" and p: "parent_at b pid l c"
    and i: "i = find_index (\<lambda>grp. grp_id grp = gid) (grp_groups c)" "i < length (grp_groups c)"
    and leaf: "grp_groups (grp_groups c ! i) = []"
    and closed: "close_contexts (grp_questions (grp_groups c ! i)) F = (Ret (), qs, F1)"
    and free: "\<not> locked_below F1 (components (grp_path (grp_groups c ! i)))"
  shows "\<exists>b' F'. deleteGroup E pid gid b F = (Ret True, b', F') \<and> bank_ok b' \<and>
    bnk_root b' = put_group l (set_groups (erase_at i (grp_groups c)) c) (bnk_root b) \<and>
    bnk_mapIds b' = map_erase gid (bnk_mapIds b) \<and>
    set (named_ids (bnk_root b')) = set (named_ids (bnk_root b)) - {gid} \<and>
    F' = (let p = grp_path (grp_groups c ! i)
          in if fs_is_directory F1 p then drop_nodes (prefix (components p)) F1 else F1)"
proof -
  let ?f = "grp_groups c ! i" and ?c = "set_groups (erase_at i (grp_groups c)) c"
  have t: "tables_ok b" using b(1) by (simp add: bank_ok_def)
  obtain n where n: "height c = Suc n" by (cases c) simp
  from deleteGroup_in_leaf [OF t i leaf closed, of E n] obtain b1 where
    b1: "deleteGroup_in E (height c) gid c b F = remove_tree E i (set_questions [] ?f) c b1 F1"
    "tables_ok b1" "bnk_mapIds b1 = map_erase gid (bnk_mapIds b)" unfolding n by blast
  from remove_tree_unlocked [of F1 "set_questions [] ?f" E i c b1] free obtain F' where
    F': "remove_tree E i (set_questions [] ?f) c b1 F1 = (Ret True, ?c, b1, F')"
    "F' = (if fs_is_directory F1 (grp_path ?f) then drop_nodes (prefix (components (grp_path ?f))) F1 else F1)" by auto
  let ?b = "b1\<lparr>bnk_root := put_group l ?c (bnk_root b)\<rparr>"
  have d: "deleteGroup E pid gid b F = (Ret True, ?b, F')"
    using b1(1) F'(1) ctrl_root_at [OF b(1) p] by (simp add: deleteGroup_def ctrl_op_def)
  have "grp_id ?f = gid" using find_index_nth i by blast
  then have m: "mset (named_ids ?c @ [gid]) = mset (named_ids c)"
    using named_ids_of_erase [OF i(2)] named_ids_leaf [OF leaf] b(2)
    by (simp add: named_ids_unfold [of c] named_ids_unfold [of ?c])
  have ga: "group_at l (bnk_root b) = Some c" using p by (simp add: parent_at_def)
  have tb: "tables_ok ?b" using b1(2) by simp
  have keys: "fst ` set (bnk_mapIds b) - set [gid] \<subseteq> fst ` set (bnk_mapIds ?b)"
    using b1(3) by (auto simp: map_erase_def)
  have r: "bnk_root ?b = put_group l ?c (bnk_root b)" by simp
  note ok = bank_ok_put_remove [OF b(1) ga _ tb r m keys]
  show ?thesis
    using d ok b1(3) F'(2) by (intro exI [of _ ?b] exI [of _ F']) (simp add: Let_def)
qed

subsection \<open>A group with children cannot be deleted\<close>

text \<open>
  On a file system that refuses nothing, the deletion of a listed child group returns only
  when the child has no groups of its own: any inner deletion succeeds and leaves the loop
  with invalid iterators.
\<close>

lemma fs_locked_ops [fs_defs]:
  "fs_locked (fs_write p bs F) = fs_locked F" "fs_locked (snd (fs_remove p F)) = fs_locked F"
  by (auto simp: fs_write_def fs_remove_def Let_def locked_put locked_drop split: option.split node.split)

lemma qai_close_locked: "qai_close s F = (r, s', F') \<Longrightarrow> fs_locked F' = fs_locked F"
  using fs_locked_ops(2) [of "qai_path s" F]
  by (auto simp: qai_close_def fs_locked_ops(1) split: if_splits prod.splits outcome.splits)

lemma close_contexts_locked: "close_contexts qs F = (r, qs', F') \<Longrightarrow> fs_locked F' = fs_locked F"
  by (induction qs F arbitrary: r qs' F' rule: close_contexts.induct)
     (auto dest!: qai_close_locked split: prod.splits outcome.splits)

lemma remove_tree_returns:
  assumes "fs_locked F = []" "remove_tree E i found c b F = (Ret r, c', b', F')"
  shows "r \<and> fs_locked F' = []"
proof -
  have "\<not> locked_below F (components (grp_path found))" using assms(1) by (simp add: locked_below_def)
  from remove_tree_unlocked [OF this, of E i c b] assms show ?thesis by (auto simp: locked_drop split: if_splits)
qed

lemma delete_children_returns:
  "delete_children E n js f b F = (Ret u, f', b', F') \<Longrightarrow>
   (\<And>j F r f' b' F'. j \<in> set js \<Longrightarrow> fs_locked F = [] \<Longrightarrow>
      deleteGroup_in E n (grp_id (grp_groups f ! j)) f b F = (Ret r, f', b', F') \<Longrightarrow> r) \<Longrightarrow>
   fs_locked F = [] \<Longrightarrow> js = []"
proof (cases js)
  case (Cons j js')
  assume d: "delete_children E n js f b F = (Ret u, f', b', F')"
    and r: "\<And>j F r f' b' F'. j \<in> set js \<Longrightarrow> fs_locked F = [] \<Longrightarrow>
      deleteGroup_in E n (grp_id (grp_groups f ! j)) f b F = (Ret r, f', b', F') \<Longrightarrow> r"
    and l: "fs_locked F = []"
  obtain q f1 b1 F1 where q: "deleteGroup_in E n (grp_id (grp_groups f ! j)) f b F = (q, f1, b1, F1)"
    by (metis prod_cases4)
  show ?thesis
  proof (cases q)
    case (Ret e)
    with q r [of j F e f1 b1 F1] Cons l have "e" by simp
    with d Cons q Ret show ?thesis by simp
  qed (use d Cons q in auto)
qed

lemma deleteGroup_in_returns:
  assumes "fs_locked F = []" "gid \<in> grp_id ` set (grp_groups g)" "deleteGroup_in E n gid g b F = (Ret r, g', b', F')"
  shows "r \<and> grp_groups (grp_groups g ! find_index (\<lambda>grp. grp_id grp = gid) (grp_groups g)) = []"
  using assms
proof (induction n arbitrary: gid g b F r g' b' F')
  case (Suc n)
  let ?i = "find_index (\<lambda>grp. grp_id grp = gid) (grp_groups g)" and ?b = "b\<lparr>bnk_mapIds := map_erase gid (bnk_mapIds b)\<rparr>"
  let ?found = "grp_groups g ! ?i"
  have i: "?i < length (grp_groups g)" using Suc.prems(2) by (auto simp: find_index_less_iff)
  obtain b1 where b1: "on_ids (qai_deleteGroup E gid) ?b = Ret b1"
    using Suc.prems(3) by (cases "on_ids (qai_deleteGroup E gid) ?b") auto
  obtain rc qs F1 where cc: "close_contexts (grp_questions ?found) F = (rc, qs, F1)" by (metis prod_cases3)
  obtain u where u: "rc = Ret u" using Suc.prems(3) b1 cc i by (cases rc) (auto simp: Let_def)
  have F1: "fs_locked F1 = []" using close_contexts_locked [OF cc] Suc.prems(1) by simp
  obtain rd f2 b2 F2 where dc: "delete_children E n [0..<length (grp_groups ?found)] (set_questions [] ?found) b1 F1 = (rd, f2, b2, F2)"
    by (metis prod_cases4)
  obtain v where v: "rd = Ret v" using Suc.prems(3) b1 cc u i dc by (cases rd) (auto simp: Let_def)
  have j: "e" if "j \<in> set [0..<length (grp_groups ?found)]" "fs_locked F' = []"
    "deleteGroup_in E n (grp_id (grp_groups (set_questions [] ?found) ! j)) (set_questions [] ?found) b1 F' = (Ret e, f', b', F'')"
    for j F' e f' b' F''
    using Suc.IH [OF that(2) _ that(3)] that(1) by simp
  have "[0..<length (grp_groups ?found)] = []"
    using delete_children_returns [OF dc [unfolded v] j F1] .
  then have leaf: "grp_groups ?found = []" by simp
  have "remove_tree E ?i (set_questions [] ?found) g b1 F1 = (Ret r, g', b', F')"
    using Suc.prems(3) b1 cc u i leaf by (simp add: Let_def)
  with remove_tree_returns [OF F1] leaf show ?case by blast
qed simp

lemma deleteGroup_returns:
  assumes "bank_ok b" "parent_at b pid l c" "gid \<in> grp_id ` set (grp_groups c)" "fs_locked F = []"
    and "deleteGroup E pid gid b F = (Ret r, b', F')"
  shows "r \<and> grp_groups (grp_groups c ! find_index (\<lambda>grp. grp_id grp = gid) (grp_groups c)) = []"
proof -
  obtain c' b'' where "deleteGroup_in E (height c) gid c b F = (Ret r, c', b'', F')"
    using assms(5) ctrl_root_at [OF assms(1,2), of E gid "[]" GROUP_CTRL_DELETE F]
    by (auto simp: deleteGroup_def ctrl_op_def split: prod.splits)
  from deleteGroup_in_returns [OF assms(4,3) this] show ?thesis .
qed

lemma deleteGroup_nested:
  assumes b: "bank_ok b" and p: "parent_at b pid l c"
    and i: "i = find_index (\<lambda>grp. grp_id grp = gid) (grp_groups c)" "i < length (grp_groups c)"
    and closed: "close_contexts (grp_questions (grp_groups c ! i)) F = (Ret (), qs, F1)"
    and kids: "grp_groups (grp_groups c ! i) = d # ds" "grp_groups d = []"
    and closed_kid: "close_contexts (grp_questions d) F1 = (Ret (), qs', F2)"
    and free: "\<not> locked_below F2 (components (grp_path d))"
  shows "fst (deleteGroup E pid gid b F) = Undef"
proof -
  let ?f = "grp_groups c ! i" and ?g = "set_questions [] (grp_groups c ! i)"
  have t: "tables_ok b" using b by (simp add: bank_ok_def)
  have "height d < height ?f" using height_child [of 0 ?f] kids(1) by simp
  moreover have "0 < height d" by (simp add: height_unfold)
  ultimately have "2 < height c" using height_child [OF i(2)] by simp
  then obtain n where n: "height c = Suc (Suc n)" by (metis add_2_eq_Suc less_imp_Suc_add add_Suc)
  obtain b1 where b1: "on_ids (qai_deleteGroup E gid) (b\<lparr>bnk_mapIds := map_erase gid (bnk_mapIds b)\<rparr>) = Ret b1"
    "tables_ok b1" using delete_tables [OF t] by blast
  have k: "0 = find_index (\<lambda>grp. grp_id grp = grp_id d) (grp_groups ?g)" "0 < length (grp_groups ?g)"
    "grp_groups (grp_groups ?g ! 0) = []" "close_contexts (grp_questions (grp_groups ?g ! 0)) F1 = (Ret (), qs', F2)"
    "\<not> locked_below F2 (components (grp_path (set_questions [] (grp_groups ?g ! 0))))"
    using kids closed_kid free by simp_all
  obtain b2 where "deleteGroup_in E (Suc n) (grp_id d) ?g b1 F1 =
      remove_tree E 0 (set_questions [] (grp_groups ?g ! 0)) ?g b2 F2"
    using deleteGroup_in_leaf [OF b1(2) k(1-4), of E n] by blast
  then have "fst (deleteGroup_in E (Suc n) (grp_id d) ?g b1 F1) = Ret True"
    using remove_tree_unlocked [OF k(5), of E 0 ?g b2] by auto
  then obtain g3 b3 F3 where kid: "deleteGroup_in E (Suc n) (grp_id d) ?g b1 F1 = (Ret True, g3, b3, F3)"
    by (cases "deleteGroup_in E (Suc n) (grp_id d) ?g b1 F1") auto
  have js: "[0..<Suc (length ds)] = 0 # [1..<Suc (length ds)]" by (simp add: upt_conv_Cons del: upt_Suc)
  have dc: "delete_children E (Suc n) [0..<Suc (length ds)] ?g b1 F1 = (Undef, g3, b3, F3)"
    unfolding js using kid kids(1) by (simp del: deleteGroup_in.simps upt_Suc)
  have "fst (deleteGroup_in E (Suc (Suc n)) gid c b F) = Undef"
    using i(2) b1(1) closed kids(1) dc unfolding deleteGroup_in.simps(2) [of E "Suc n"] i(1) [symmetric]
    by (simp del: deleteGroup_in.simps delete_children.simps upt_Suc add: Let_def)
  then show ?thesis using ctrl_root_at [OF b p] by (auto simp: deleteGroup_def ctrl_op_def n split: prod.splits)
qed

text \<open>Deleting a group under the wrong parent reports failure and still forgets its id.\<close>

lemma deleteGroup_wrong_parent:
  assumes "bank_ok b" "parent_at b pid l c" "gid \<notin> grp_id ` set (grp_groups c)"
  shows "\<exists>b'. deleteGroup E pid gid b F = (Ret False, b', F) \<and> bnk_root b' = bnk_root b \<and>
    bnk_mapIds b' = map_erase gid (bnk_mapIds b) \<and>
    (\<exists>s s'. bnk_ptrIds b = Some s \<and> bnk_ptrIds b' = Some s' \<and> group_view s' = (group_view s)(gid := None)) \<and>
    bnk_error b' = env_fmt E (''Found group by id '' @ quoted_s @ '' failed'') [gid]"
proof -
  have t: "tables_ok b" using assms(1) by (simp add: bank_ok_def)
  obtain n where n: "height c = Suc n" by (cases c) simp
  have ga: "put_group l c (bnk_root b) = bnk_root b"
    using assms(2) put_group_same by (auto simp: parent_at_def)
  from deleteGroup_in_absent [OF t assms(3), of E n F] obtain b1 where
    b1: "deleteGroup_in E (height c) gid c b F =
      (Ret False, c, bank_message E (''Found group by id '' @ quoted_s @ '' failed'') [gid] b1, F)"
    "bnk_mapIds b1 = map_erase gid (bnk_mapIds b)"
    "\<exists>s s'. bnk_ptrIds b = Some s \<and> bnk_ptrIds b1 = Some s' \<and> group_view s' = (group_view s)(gid := None)"
    unfolding n by blast
  then have "deleteGroup E pid gid b F = (Ret False,
      (bank_message E (''Found group by id '' @ quoted_s @ '' failed'') [gid] b1)\<lparr>bnk_root := bnk_root b\<rparr>, F)"
    using ctrl_root_at [OF assms(1,2)] by (simp add: deleteGroup_def ctrl_op_def ga)
  then show ?thesis using b1(2,3) by simp
qed

subsection \<open>What a rename leaves behind\<close>

lemma updateGroup_found:
  assumes b: "bank_ok b" "gid \<noteq> []" and p: "parent_at b pid l c"
    and i: "i = find_index (\<lambda>grp. grp_id grp = gid) (grp_groups c)" "i < length (grp_groups c)"
  shows "\<exists>s'. (\<exists>s. bnk_ptrIds b = Some s \<and> group_view s' = (group_view s)(gid \<mapsto> name)) \<and> impl_ok s' \<and>
    updateGroup E pid gid name b F =
      (let g' = put_group l (put_child i (set_name name (grp_groups c ! i)) c) (bnk_root b);
           b' = b\<lparr>bnk_ptrIds := Some s', bnk_root := g'\<rparr>
       in case fs_rename (grp_path (grp_groups c ! i)) (child_path c name) F of
            (Ret _, F') \<Rightarrow> (Ret True, b', F')
          | (Throw e, F') \<Rightarrow> (Ret False, bank_message E ''%s'' [what E e] b', F')
          | (Undef, F') \<Rightarrow> (Undef, b', F'))"
proof -
  have t: "tables_ok b" using b(1) by (simp add: bank_ok_def)
  have ga: "group_at l (bnk_root b) = Some c" using p by (simp add: parent_at_def)
  have "grp_id (grp_groups c ! i) = gid" using find_index_nth i by blast
  then have "gid \<in> set (named_ids c)"
    using i(2) b(2) named_ids_of_nth [of i "grp_groups c"]
    by (auto simp: named_ids_unfold [of c] named_ids_unfold [of "grp_groups c ! i"])
  then have k: "gid \<in> fst ` set (bnk_mapIds b)" using group_at_ids [OF ga] b(1) by (auto simp: bank_ok_def)
  from updateGroup_in_found [OF t k i, of name E F] obtain s' where
    s': "impl_ok s'" "\<exists>s. bnk_ptrIds b = Some s \<and> group_view s' = (group_view s)(gid \<mapsto> name)"
    "updateGroup_in E gid name c b F =
      (let c' = put_child i (set_name name (grp_groups c ! i)) c; b' = b\<lparr>bnk_ptrIds := Some s'\<rparr>
       in case fs_rename (grp_path (grp_groups c ! i)) (child_path c name) F of
            (Ret _, F') \<Rightarrow> (Ret True, c', b', F')
          | (Throw e, F') \<Rightarrow> (Ret False, c', bank_message E ''%s'' [what E e] b', F')
          | (Undef, F') \<Rightarrow> (Undef, c', b', F'))" by blast
  then show ?thesis
    using ctrl_root_at [OF b(1) p, of E gid name GROUP_CTRL_UPDATE F]
    by (intro exI [of _ s'])
       (auto simp: updateGroup_def ctrl_op_def Let_def bank_message_def split: prod.splits outcome.splits)
qed

lemma updateGroup_bank_ok:
  assumes b: "bank_ok b" "gid \<noteq> []" and p: "parent_at b pid l c"
    and i: "i = find_index (\<lambda>grp. grp_id grp = gid) (grp_groups c)" "i < length (grp_groups c)"
    and s: "bnk_ptrIds b = Some s" "group_view s' = (group_view s)(gid \<mapsto> name)" "impl_ok s'"
  shows "bank_ok (b\<lparr>bnk_ptrIds := Some s',
    bnk_root := put_group l (put_child i (set_name name (grp_groups c ! i)) c) (bnk_root b)\<rparr>)"
proof -
  let ?c = "put_child i (set_name name (grp_groups c ! i)) c"
  let ?b = "b\<lparr>bnk_ptrIds := Some s', bnk_root := put_group l ?c (bnk_root b)\<rparr>"
  have ga: "group_at l (bnk_root b) = Some c" using p by (simp add: parent_at_def)
  have id: "grp_id (grp_groups c ! i) = gid" using find_index_nth i by blast
  then have "gid \<in> set (named_ids c)"
    using i(2) b(2) named_ids_of_nth [of i "grp_groups c"]
    by (auto simp: named_ids_unfold [of c] named_ids_unfold [of "grp_groups c ! i"])
  then have k: "gid \<in> fst ` set (bnk_mapIds b)" using group_at_ids [OF ga] b(1) by (auto simp: bank_ok_def)
  have t: "tables_ok ?b" using b(1) s k by (auto simp: bank_ok_def tables_ok_def)
  have n: "mset (named_ids ?c @ []) = mset (named_ids c)"
  proof -
    have same: "named_ids (set_name name (grp_groups c ! i)) = named_ids (grp_groups c ! i)"
      by (simp add: named_ids_unfold [of "set_name _ _"] named_ids_unfold [of "grp_groups c ! i"])
    have "mset (named_ids ?c) + mset (named_ids (grp_groups c ! i)) = mset (named_ids c) + mset (named_ids (grp_groups c ! i))"
      using named_ids_put_child [OF i(2), of "set_name name (grp_groups c ! i)"] same by simp
    then show ?thesis by simp
  qed
  have ci: "grp_id ?c = grp_id c" by simp
  show ?thesis by (rule bank_ok_put_remove(1) [OF b(1) ga ci t _ n]) auto
qed

end
