(* ===== verification/QuestionControl.thy ===== *)
theory QuestionControl
  imports GroupTree
begin

text \<open>
  The operations on questions of a bank: \<open>findQustionAnswerContext\<close> finds the same context
  again, so that the questions of one group form a store under unique ids (the interpretation
  at the end), and an operation on one group is not seen in another.
\<close>

subsection \<open>Finding a context twice\<close>

lemma find_context_absent:
  "gid \<noteq> [] \<Longrightarrow> gid \<notin> set (named_ids g) \<Longrightarrow> findQustionAnswerContext E F gid g = (None, g)"
  "gid \<noteq> [] \<Longrightarrow> gid \<notin> set (named_ids_of gs) \<Longrightarrow> find_context_any E F gid gs = (None, gs)"
  by (induction E F gid g and E F gid gs rule: findQustionAnswerContext_find_context_any.induct)
     (auto simp: named_ids_Group split: if_splits)

lemma find_context_none_again:
  "findQustionAnswerContext E F gid g = (None, g') \<Longrightarrow> g' = g"
  "find_context_any E F gid gs = (None, gs') \<Longrightarrow> gs' = gs"
  by (induction E F gid g and E F gid gs arbitrary: g' and gs' rule: findQustionAnswerContext_find_context_any.induct)
     (auto split: if_splits prod.splits bool.splits option.splits)

lemma find_context_again:
  "findQustionAnswerContext E F gid g = (Some l, g') \<Longrightarrow>
     \<exists>c. group_at l g' = Some c \<and> grp_id c = gid \<and> context_at l g' \<noteq> None \<and>
       (\<forall>s. findQustionAnswerContext E F gid (put_context l s g') = (Some l, put_context l s g'))"
  "find_context_any E F gid gs = (Some (k, l), gs') \<Longrightarrow> k < length gs' \<and>
     (\<exists>c. group_at l (gs' ! k) = Some c \<and> grp_id c = gid \<and> context_at l (gs' ! k) \<noteq> None \<and>
       (\<forall>s. find_context_any E F gid (gs'[k := put_context l s (gs' ! k)]) =
             (Some (k, l), gs'[k := put_context l s (gs' ! k)])))"
proof (induction E F gid g and E F gid gs arbitrary: l g' and k l gs'
    rule: findQustionAnswerContext_find_context_any.induct)
  case (1 E F gid n i p qs gs)
  show ?case
  proof (cases "i = gid")
    case True
    then show ?thesis using 1(2)
      by (cases qs) (auto simp: context_at_def set_questions_def split: if_splits prod.splits bool.splits option.splits)
  next
    case False
    then obtain k l' gs' where f: "find_context_any E F gid gs = (Some (k, l'), gs')" "l = k # l'" "g' = Group n i p qs gs'"
      using 1(2) by (auto split: prod.splits option.splits)
    from 1(1) [OF False f(1)] show ?thesis using f(2,3) False
      by (auto simp: context_at_def put_child_def set_groups_def)
  qed
next
  case (3 E F gid g gs)
  show ?case
  proof (cases "findQustionAnswerContext E F gid g")
    case (Pair r g1)
    show ?thesis
    proof (cases r)
      case (Some l0)
      then show ?thesis using 3(1) [of l0 g1] 3(3) Pair by auto
    next
      case None
      then obtain k0 gs1 where f: "find_context_any E F gid gs = (Some (k0, l), gs1)" "k = Suc k0" "gs' = g1 # gs1"
        using 3(3) Pair by (auto split: prod.splits option.splits)
      have "g1 = g" using find_context_none_again(1) Pair None by blast
      then show ?thesis using 3(2) [OF Pair [unfolded None, symmetric] refl f(1)] f Pair None by auto
    qed
  qed
qed simp

lemma find_context_at:
  assumes "findQustionAnswerContext E F gid g = (Some l, g')"
  obtains c s where "group_at l g' = Some c" "grp_id c = gid" "context_at l g' = Some s"
    "\<And>s. findQustionAnswerContext E F gid (put_context l s g') = (Some l, put_context l s g')"
  using find_context_again(1) [OF assms] by blast

lemma context_at_simps [simp]:
  "context_at [] g = (case grp_questions g of [] \<Rightarrow> None | q # _ \<Rightarrow> q)"
  "context_at (k # l) g = (if k < length (grp_groups g) then context_at l (grp_groups g ! k) else None)"
  by (simp_all add: context_at_def)

lemma context_at_put: "context_at l g \<noteq> None \<Longrightarrow> context_at l (put_context l s g) = Some s"
  by (induction l arbitrary: g) (auto split: list.splits if_splits)

lemma put_context_twice: "context_at l g \<noteq> None \<Longrightarrow> put_context l s (put_context l t g) = put_context l s g"
  by (induction l arbitrary: g) (auto simp: put_child_def set_groups_def set_questions_def split: list.splits if_splits)

lemma put_context_ids:
  "context_at l g \<noteq> None \<Longrightarrow> group_ids (put_context l s g) = group_ids g"
proof (induction l arbitrary: g)
  case Nil
  show ?case by (cases g) (simp add: set_questions_def)
next
  case (Cons k l)
  obtain n i p qs gs where g: "g = Group n i p qs gs" by (cases g)
  have k: "k < length gs" "context_at l (gs ! k) \<noteq> None"
    using Cons.prems g by (auto split: if_splits)
  have "map group_ids (gs[k := put_context l s (gs ! k)]) = map group_ids gs"
    using Cons.IH [OF k(2)] k(1) by (metis list_update_id map_update)
  then show ?case by (simp add: g put_child_def set_groups_def)
qed

lemma find_context_ids:
  "group_ids (snd (findQustionAnswerContext E F gid g)) = group_ids g"
  "map group_ids (snd (find_context_any E F gid gs)) = map group_ids gs"
  by (induction E F gid g and E F gid gs rule: findQustionAnswerContext_find_context_any.induct)
     (auto split: if_splits prod.splits bool.splits option.splits)

subsection \<open>The questions of a group are a store\<close>

definition context_of :: "env \<Rightarrow> fs \<Rightarrow> string \<Rightarrow> CQuestionBankImpl \<Rightarrow> CQuestionAnswerImpl option" where
  "context_of E F gid b =
     (case findQustionAnswerContext E F gid (bnk_root b) of (Some l, g) \<Rightarrow> context_at l g | (None, _) \<Rightarrow> None)"

definition context_ok :: "env \<Rightarrow> fs \<Rightarrow> string \<Rightarrow> CQuestionBankImpl \<Rightarrow> bool" where
  "context_ok E F gid b \<longleftrightarrow> has_key gid (bnk_mapIds b) \<and>
     (case context_of E F gid b of None \<Rightarrow> False | Some s \<Rightarrow> impl_ok s)"

text \<open>Question and answer under a question id, in the group \<open>gid\<close>.\<close>

definition bank_view :: "env \<Rightarrow> fs \<Rightarrow> string \<Rightarrow> CQuestionBankImpl \<Rightarrow> string \<Rightarrow> (string \<times> string) option" where
  "bank_view E F gid b qid =
     (case context_of E F gid b of None \<Rightarrow> None | Some s \<Rightarrow> map_option snd (question_view s qid))"

definition store_outcome :: "(bool \<times> unit) bank_result \<Rightarrow> (fs_error, bool \<times> CQuestionBankImpl) outcome" where
  "store_outcome r =
     (case r of (Ret (ok, _), b, _) \<Rightarrow> Ret (ok, b) | (Throw e, _, _) \<Rightarrow> Throw e | (Undef, _, _) \<Rightarrow> Undef)"

fun bank_question_step ::
  "env \<Rightarrow> fs \<Rightarrow> string \<Rightarrow> (string, string \<times> string, CQuestionBankImpl, fs_error) store_step" where
  "bank_question_step E F gid (Ins qid c) b = store_outcome (addQuestion E gid qid (fst c) (snd c) b F)"
| "bank_question_step E F gid (Del qid) b = store_outcome (deleteQuestion E gid qid b F)"
| "bank_question_step E F gid (Upd qid c) b = store_outcome (updateQuestion E gid qid (fst c) (snd c) b F)"

lemma context_ofE:
  assumes "context_of E F gid b = Some s"
  obtains l g where "findQustionAnswerContext E F gid (bnk_root b) = (Some l, g)" "context_at l g = Some s"
  using assms by (auto simp: context_of_def split: prod.splits option.splits)

lemma context_of_put:
  assumes "findQustionAnswerContext E F gid (bnk_root b) = (Some l, g)"
  shows "context_of E F gid (b'\<lparr>bnk_root := put_context l s g\<rparr>) = Some s"
  using find_context_again(1) [OF assms] by (auto simp: context_of_def context_at_put)

lemma with_context_found:
  assumes "findQustionAnswerContext E F gid (bnk_root b) = (Some l, g)" "context_at l g = Some s"
    "has_key gid (bnk_mapIds b)"
  shows "with_context E gid d f b F =
       (case f s of
          Ret (r, s') \<Rightarrow> (Ret r, b\<lparr>bnk_root := put_context l s' g\<rparr>, F)
        | Throw e \<Rightarrow> (Throw e, b\<lparr>bnk_root := g\<rparr>, F) | Undef \<Rightarrow> (Undef, b\<lparr>bnk_root := g\<rparr>, F))"
  using assms by (simp add: with_context_def)

definition as_content :: "string \<Rightarrow> (string, string \<times> string) store_op \<Rightarrow> (string, question_content) store_op" where
  "as_content gid x = (case x of Ins k c \<Rightarrow> Ins k (gid, c) | Del k \<Rightarrow> Del k | Upd k c \<Rightarrow> Upd k (gid, c))"

lemma spec_op_as_content:
  "fst (spec_op (as_content gid x) m) = fst (spec_op x (\<lambda>k. map_option snd (m k)))"
  "(\<lambda>k. map_option snd (snd (spec_op (as_content gid x) m) k)) = snd (spec_op x (\<lambda>k. map_option snd (m k)))"
  by (auto simp: as_content_def fun_eq_iff split: store_op.splits)

lemma bank_question_step_eq:
  assumes "findQustionAnswerContext E F gid (bnk_root b) = (Some l, g)" "context_at l g = Some s"
    "has_key gid (bnk_mapIds b)" "question_step E (as_content gid x) s = Ret (ok, s')"
  shows "bank_question_step E F gid x b = Ret (ok, b\<lparr>bnk_root := put_context l s' g\<rparr>)"
  using assms(4) with_context_found [OF assms(1-3), where d = "()"]
  by (cases x) (simp_all add: as_content_def mk_param_def addQuestion_def deleteQuestion_def updateQuestion_def
      store_outcome_def case_prod_beta)

lemma bank_question_step_context:
  assumes "context_of E F gid b = Some s" "has_key gid (bnk_mapIds b)" "question_step E (as_content gid x) s = Ret (ok, s')"
  shows "\<exists>b'. bank_question_step E F gid x b = Ret (ok, b') \<and> context_of E F gid b' = Some s' \<and>
    bnk_mapIds b' = bnk_mapIds b \<and> bnk_ptrIds b' = bnk_ptrIds b \<and> bnk_error b' = bnk_error b \<and>
    group_ids (bnk_root b') = group_ids (bnk_root b)"
proof -
  obtain l g where w: "findQustionAnswerContext E F gid (bnk_root b) = (Some l, g)" "context_at l g = Some s"
    using assms(1) by (rule context_ofE)
  have "group_ids (put_context l s' g) = group_ids (bnk_root b)"
    using put_context_ids [of l g s'] w(1) find_context_ids(1) [of E F gid "bnk_root b"] w by simp
  moreover note bank_question_step_eq [OF w assms(2,3)]
  ultimately show ?thesis using context_of_put [OF w(1)] by auto
qed

lemma bank_question_step_spec:
  assumes "context_ok E F gid b"
  shows "\<exists>b'. bank_question_step E F gid x b = Ret (fst (spec_op x (bank_view E F gid b)), b') \<and>
    context_ok E F gid b' \<and> bank_view E F gid b' = snd (spec_op x (bank_view E F gid b))"
proof -
  from assms obtain s where s: "context_of E F gid b = Some s" "impl_ok s" "has_key gid (bnk_mapIds b)"
    by (auto simp: context_ok_def split: option.splits)
  from question_store.step_spec [OF s(2), of E "as_content gid x"] obtain s' where
    s': "question_step E (as_content gid x) s = Ret (fst (spec_op (as_content gid x) (question_view s)), s')" "impl_ok s'"
    "question_view s' = snd (spec_op (as_content gid x) (question_view s))" by blast
  from bank_question_step_context [OF s(1,3) s'(1)] obtain b' where
    b': "bank_question_step E F gid x b = Ret (fst (spec_op (as_content gid x) (question_view s)), b')"
    "context_of E F gid b' = Some s'" "bnk_mapIds b' = bnk_mapIds b" by blast
  have v: "bank_view E F gid b = (\<lambda>k. map_option snd (question_view s k))"
    "bank_view E F gid b' = (\<lambda>k. map_option snd (question_view s' k))"
    using s(1) b'(2) by (auto simp: bank_view_def fun_eq_iff)
  show ?thesis
    using b' s'(2,3) s(3) spec_op_as_content [of gid x "question_view s"] v by (simp add: context_ok_def)
qed

lemma with_context_disk: "with_context E gid d f b F = (r, b', F') \<Longrightarrow> F' = F"
  by (auto simp: with_context_def split: if_splits prod.splits option.splits outcome.splits)

lemma addQuestion_run:
  "bank_question_step E F gid (Ins qid c) b = Ret (ok, b') \<Longrightarrow> addQuestion E gid qid (fst c) (snd c) b F = (Ret (ok, ()), b', F)"
  using with_context_disk by (fastforce simp: store_outcome_def addQuestion_def split: prod.splits outcome.splits)

interpretation bank_questions: id_store "bank_question_step E F gid" "bank_view E F gid" "context_ok E F gid" for E F gid
  by unfold_locales (rule bank_question_step_spec)

lemma queryQuestion_found:
  assumes "context_ok E F gid b"
  shows "\<exists>b'. queryQuestion E gid qid answer b F =
    (Ret (case bank_view E F gid b qid of None \<Rightarrow> (False, answer) | Some (q, a) \<Rightarrow> (True, a)), b', F) \<and>
    bank_view E F gid b' = bank_view E F gid b \<and> context_ok E F gid b' \<and> bnk_error b' = bnk_error b"
proof -
  from assms obtain s where s: "context_of E F gid b = Some s" "impl_ok s" "has_key gid (bnk_mapIds b)"
    by (auto simp: context_ok_def split: option.splits)
  obtain l g where w: "findQustionAnswerContext E F gid (bnk_root b) = (Some l, g)" "context_at l g = Some s"
    using s(1) by (rule context_ofE)
  have p: "qai_path s \<noteq> []" using s(2) by (simp add: impl_ok_def)
  show ?thesis
    using s with_context_found [OF w s(3), where d = answer] queryQuestion_eq [OF p, of E qid answer]
    by (auto simp: queryQuestion_def bank_view_def question_view_def context_ok_def context_of_put [OF w(1)]
        split: option.splits)
qed

subsection \<open>Groups do not see each other's questions\<close>

text \<open>The tree without the contexts of one group determines the contexts of the others.\<close>

fun without_contexts :: "string \<Rightarrow> CQuestionGroupParam \<Rightarrow> CQuestionGroupParam" where
  "without_contexts gid (Group n i p qs gs) =
     Group n i p (if i = gid then [] else qs) (map (without_contexts gid) gs)"

lemma find_context_without:
  "hid \<noteq> gid \<Longrightarrow> findQustionAnswerContext E F hid (without_contexts gid g) =
     map_prod (\<lambda>r. r) (without_contexts gid) (findQustionAnswerContext E F hid g)"
  "hid \<noteq> gid \<Longrightarrow> find_context_any E F hid (map (without_contexts gid) gs) =
     map_prod (\<lambda>r. r) (map (without_contexts gid)) (find_context_any E F hid gs)"
  by (induction E F hid g and E F hid gs rule: findQustionAnswerContext_find_context_any.induct)
     (auto split: prod.splits bool.splits option.splits)

lemma without_simps [simp]:
  "grp_groups (without_contexts gid g) = map (without_contexts gid) (grp_groups g)"
  "grp_questions (without_contexts gid g) = (if grp_id g = gid then [] else grp_questions g)"
  by (cases g; simp)+

lemma context_at_without:
  "group_at l g = Some c \<Longrightarrow> grp_id c \<noteq> gid \<Longrightarrow> context_at l (without_contexts gid g) = context_at l g"
  by (induction l arbitrary: g) (auto split: if_splits)

lemma without_find_context:
  "without_contexts gid (snd (findQustionAnswerContext E F gid g)) = without_contexts gid g"
  "map (without_contexts gid) (snd (find_context_any E F gid gs)) = map (without_contexts gid) gs"
  by (induction E F gid g and E F gid gs rule: findQustionAnswerContext_find_context_any.induct)
     (auto split: prod.splits bool.splits option.splits)

lemma without_put_context:
  "group_at l g = Some c \<Longrightarrow> grp_id c = gid \<Longrightarrow> without_contexts gid (put_context l s g) = without_contexts gid g"
proof (induction l arbitrary: g)
  case Nil
  then show ?case by (cases g) (auto simp: set_questions_def)
next
  case (Cons k l)
  obtain n i p qs gs where g: "g = Group n i p qs gs" by (cases g)
  have k: "k < length gs" "group_at l (gs ! k) = Some c" using Cons.prems g by (auto split: if_splits)
  have "map (without_contexts gid) (gs[k := put_context l s (gs ! k)]) = map (without_contexts gid) gs"
    using Cons.IH [OF k(2) Cons.prems(2)] k(1) by (metis list_update_id map_update)
  then show ?case by (simp add: g put_child_def set_groups_def)
qed

lemma context_of_without:
  assumes "hid \<noteq> gid" "without_contexts gid (bnk_root b) = without_contexts gid (bnk_root b')"
  shows "context_of E F hid b = context_of E F hid b'"
proof -
  have "context_of E F hid c = (case findQustionAnswerContext E F hid (without_contexts gid (bnk_root c)) of
      (Some l, g) \<Rightarrow> context_at l g | (None, _) \<Rightarrow> None)" for c
  proof (cases "findQustionAnswerContext E F hid (bnk_root c)")
    case (Pair r g)
    show ?thesis
    proof (cases r)
      case (Some l)
      from find_context_again(1) [OF Pair [unfolded Some]] obtain d where "group_at l g = Some d" "grp_id d = hid" by blast
      with context_at_without [of l g d gid] assms(1) show ?thesis
        by (simp add: context_of_def find_context_without(1) [OF assms(1)] Pair Some)
    qed (simp add: context_of_def find_context_without(1) [OF assms(1)] Pair)
  qed
  then show ?thesis using assms(2) by simp
qed

lemma bank_question_step_frame:
  assumes "context_ok E F gid b" "hid \<noteq> gid" "bank_question_step E F gid x b = Ret (ok, b')"
  shows "context_of E F hid b' = context_of E F hid b"
proof -
  from assms(1) obtain s where s: "context_of E F gid b = Some s" "impl_ok s" "has_key gid (bnk_mapIds b)"
    by (auto simp: context_ok_def split: option.splits)
  obtain l g where w: "findQustionAnswerContext E F gid (bnk_root b) = (Some l, g)" "context_at l g = Some s"
    using s(1) by (rule context_ofE)
  from find_context_again(1) [OF w(1)] obtain c where c: "group_at l g = Some c" "grp_id c = gid" by blast
  have g: "without_contexts gid (put_context l s' g) = without_contexts gid (bnk_root b)" for s'
    using without_put_context [OF c] without_find_context(1) [of gid E F "bnk_root b"] w(1) by simp
  from question_store.step_spec [OF s(2), of E "as_content gid x"] obtain s' where
    s': "question_step E (as_content gid x) s = Ret (fst (spec_op (as_content gid x) (question_view s)), s')" by blast
  have "b' = b\<lparr>bnk_root := put_context l s' g\<rparr>"
    using bank_question_step_eq [OF w s(3) s'] assms(3) by simp
  then have "without_contexts gid (bnk_root b') = without_contexts gid (bnk_root b)" using g by simp
  with assms(2) show ?thesis by (rule context_of_without)
qed

end
