(* ===== verification/BankLifecycle.thy ===== *)
theory BankLifecycle
  imports GroupControl QuestionControl
begin

text \<open>
  Opening and closing a bank: what \<open>init\<close> makes of a new directory, which group
  \<open>initQuestionBank\<close> gives a directory to, what \<open>uninit\<close> writes, and what is lost when a group
  was renamed in between.
\<close>

subsection \<open>A new bank\<close>

lemma empty_view [simp]: "gl_items (qai_groups new_impl) = []" "qal_items (qai_questions new_impl) = []" "qai_path new_impl = []"
  by (simp_all add: new_impl_def QuestionAnswerGroupList_default_def QuestionAnswerList_default_def)

lemma qai_open_missing: "p \<noteq> [] \<Longrightarrow> \<not> fs_exists F p \<Longrightarrow> qai_open E F p flag new_impl = (True, new_impl\<lparr>qai_path := p\<rparr>)"
  by (simp add: qai_open_def)

lemma impl_ok_new: "p \<noteq> [] \<Longrightarrow> impl_ok (new_impl\<lparr>qai_path := p\<rparr>)"
  by (simp add: impl_ok_def questions_of_def groups_of_def)

lemma group_view_new [simp]: "group_view (new_impl\<lparr>qai_path := p\<rparr>) = Map.empty"
  by (simp add: group_view_def groups_of_def fun_eq_iff)

lemma path_append_nonempty: "n \<noteq> [] \<Longrightarrow> path_append p n \<noteq> []"
  by (simp add: path_append_def join_path_def)

lemma valid_ids_dat: "valid_name ''ids.dat''"
  by (simp add: valid_name_def is_sep_def)

lemma components_path_append: "valid_name n \<Longrightarrow> components (path_append p n) = components p @ [n]"
proof (cases "p = [] \<or> is_sep (last p)")
  case True
  assume n: "valid_name n"
  show ?thesis
  proof (cases p rule: rev_cases)
    case (snoc q c)
    then have "is_sep c" using True by simp
    then show ?thesis using n snoc components_append_sep [of c q n] components_append_sep [of c q "[]"]
      by (simp add: path_append_def components_name)
  qed (use n in \<open>simp add: path_append_def components_name\<close>)
qed (simp add: path_append_def components_join)

lemma init_ids_empty:
  assumes n: "\<not> fs_exists F (path_append path ''ids.dat'')" and e: "entries E F (components path) = ([], None)"
    and b: "b = new_bank"
  shows "\<exists>b'. init_ids E path b F = (Ret True, b', F) \<and> bank_ok b' \<and> names_agree b' \<and> bnk_mapIds b' = [] \<and>
    bnk_root b' = Group (path_filename path) [] path [] []"
proof -
  let ?p = "path_append path ''ids.dat''"
  have p: "?p \<noteq> []" by (rule path_append_nonempty) simp
  have o: "qai_open E F ?p False new_impl = (True, new_impl\<lparr>qai_path := ?p\<rparr>)" using qai_open_missing [OF p n] .
  have g: "getGroups (new_impl\<lparr>qai_path := ?p\<rparr>) [] = (True, [], new_impl\<lparr>qai_path := ?p\<rparr>)"
    using p by (simp add: getGroups_def)
  show ?thesis using o g e impl_ok_new [OF p]
    by (simp add: init_ids_def init_tree_def b new_bank_def empty_group_def Let_def bank_ok_def tables_ok_def
        names_agree_def named_ids_Group)
qed

lemma init_fresh:
  assumes "\<not> fs_exists F path" "can_create F (components path)" "wf_fs F"
    and e: "entries E (put_node (components path) Dir F) (components path) = ([], None)"
  shows "\<exists>b'. init E path new_bank F = (Ret True, b', put_node (components path) Dir F) \<and>
    bank_ok b' \<and> names_agree b' \<and> bnk_mapIds b' = [] \<and> bnk_root b' = Group (path_filename path) [] path [] []"
proof -
  let ?p = "components path" and ?F = "put_node (components path) Dir F"
  have pn: "?p \<noteq> []" "node_at F ?p = None" using assms(1,2) by (auto simp: fs_exists_def can_create_def)
  have c: "fs_create_directory path F = (Ret True, ?F)" using assms(2) pn by (simp add: fs_create_directory_def Let_def)
  have "node_at ?F (?p @ [''ids.dat'']) = None"
    using wf_fs_None_below [OF assms(3) pn(2) pn(1)] by (simp add: node_at_put)
  then have "\<not> fs_exists ?F (path_append path ''ids.dat'')"
    by (simp add: fs_exists_def components_path_append valid_ids_dat)
  from init_ids_empty [OF this e refl] c assms(1) show ?thesis by (simp add: init_def)
qed

subsection \<open>Which group gets a directory\<close>

text \<open>The first group of that name, the group before its children, the children in order.\<close>

fun first_named :: "string \<Rightarrow> CQuestionGroupParam \<Rightarrow> nat list option"
and first_named_any :: "string \<Rightarrow> CQuestionGroupParam list \<Rightarrow> (nat \<times> nat list) option" where
  "first_named name (Group n i p qs gs) =
     (if n = name then Some [] else map_option (\<lambda>(k, l). k # l) (first_named_any name gs))"
| "first_named_any name [] = None"
| "first_named_any name (g # gs) =
     (case first_named name g of
        Some l \<Rightarrow> Some (0, l)
      | None \<Rightarrow> map_option (\<lambda>(k, l). (Suc k, l)) (first_named_any name gs))"

lemma first_named_any_less: "first_named_any name gs = Some (k, l) \<Longrightarrow> k < length gs"
  by (induction gs arbitrary: k) (auto split: option.splits)

lemma first_named_at:
  "first_named name g = Some l \<Longrightarrow> \<exists>c. group_at l g = Some c \<and> grp_name c = name"
  "first_named_any name gs = Some (k, l) \<Longrightarrow> \<exists>c. group_at l (gs ! k) = Some c \<and> grp_name c = name"
  by (induction name g and name gs arbitrary: l and k l rule: first_named_first_named_any.induct)
     (auto dest: first_named_any_less split: if_splits option.splits)

definition new_child :: "(string \<times> string) list \<Rightarrow> string \<Rightarrow> string \<Rightarrow> CQuestionGroupParam \<Rightarrow> CQuestionGroupParam" where
  "new_child ids path name c = set_groups (grp_groups c @ [Group name (id_of_name name ids) path [] []]) c"

lemma initQuestionBank_directory:
  "initQuestionBank E F ids parent_name path name False g =
     (case first_named parent_name g of
        None \<Rightarrow> (False, g)
      | Some l \<Rightarrow> (True, put_group l (new_child ids path name (the (group_at l g))) g))"
  "initQuestionBank_any E F ids parent_name path name False gs =
     (case first_named_any parent_name gs of
        None \<Rightarrow> (False, gs)
      | Some (k, l) \<Rightarrow> (True, gs[k := put_group l (new_child ids path name (the (group_at l (gs ! k)))) (gs ! k)]))"
proof (induction E F ids parent_name path name "False" g and E F ids parent_name path name "False" gs
    rule: initQuestionBank_initQuestionBank_any.induct)
  case (1 E F ids parent_name path name n i p qs gs)
  then show ?case
    by (auto simp: new_child_def set_groups_def put_child_def dest: first_named_any_less split: option.splits prod.splits)
next
  case (3 E F ids parent_name path name g gs)
  show ?case
  proof (cases "first_named parent_name g")
    case None
    then show ?thesis using 3(1) 3(2) [of False g] by (auto split: option.splits prod.splits)
  qed (use 3(1) in simp)
qed simp

subsection \<open>Contexts of a renamed group\<close>

text \<open>Below the old path of a renamed directory nothing exists and nothing can be written.\<close>

lemma renamed_gone:
  assumes wf: "wf_fs F" and r: "fs_rename old new F = (Ret u, F')" "node_at F (components new) = None"
    and p: "components p = components old @ x"
  shows "\<not> fs_exists F' p" "x \<noteq> [] \<Longrightarrow> \<not> can_write F' p"
proof -
  note R = fs_rename_onto_free [OF r]
  have q: "components new \<noteq> []" using R(3) by (auto simp: can_create_def)
  note M = node_at_move [OF wf r(2) q R(2,4)]
  show "\<not> fs_exists F' p" using M(2) R(1) p by (simp add: fs_exists_def)
  assume "x \<noteq> []"
  then have b: "butlast (components p) = components old @ butlast x" using p by (simp add: butlast_append)
  have "node_at F' (components old @ x) = None" "node_at F' (components old @ butlast x) = None"
    unfolding R(1) by (rule M(2))+
  then have "node_at F' (components p) = None" "node_at F' (butlast (components p)) = None"
    by (simp_all only: b) (simp add: p)
  then show "\<not> can_write F' p" by (simp add: can_write_def can_create_def)
qed

lemma renamed_moved:
  assumes wf: "wf_fs F" and r: "fs_rename old new F = (Ret u, F')" "node_at F (components new) = None"
  shows "node_at F' (components new @ x) = node_at F (components old @ x)"
proof -
  note R = fs_rename_onto_free [OF r]
  have q: "components new \<noteq> []" using R(3) by (auto simp: can_create_def)
  show ?thesis using node_at_move(1) [OF wf r(2) q R(2,4)] R(1) by simp
qed

subsection \<open>Closing a bank\<close>

text \<open>The tree without any context, which is what \<open>uninit\<close> leaves.\<close>

fun all_closed :: "CQuestionGroupParam \<Rightarrow> CQuestionGroupParam" where
  "all_closed (Group n i p qs gs) = Group n i p [] (map all_closed gs)"

lemma uninitQuestionBank_closed:
  "uninitQuestionBank g F = (Ret u, g', F') \<Longrightarrow> g' = all_closed g"
  "uninit_groups gs F = (Ret u, gs', F') \<Longrightarrow> gs' = map all_closed gs"
  by (induction g F and gs F arbitrary: g' F' and gs' F' rule: uninitQuestionBank_uninit_groups.induct)
     (auto split: prod.splits outcome.splits)

lemma uninit_closed:
  assumes "uninit b F = (Ret u, b', F')"
  shows "bnk_ptrIds b' = None \<and> bnk_root b' = all_closed (bnk_root b) \<and> bnk_mapIds b' = bnk_mapIds b"
proof -
  obtain b1 F1 where 1: "(if bnk_ptrIds b = None then (Ret (), b, F) else close_ids () b F) = (Ret (), b1, F1)"
    "(case uninitQuestionBank (bnk_root b1) F1 of (r, g, F') \<Rightarrow> (r, b1\<lparr>bnk_root := g\<rparr>, F')) = (Ret u, b', F')"
    using assms by (auto simp: uninit_def andthen_Ret_iff)
  have "bnk_ptrIds b1 = None \<and> bnk_root b1 = bnk_root b \<and> bnk_mapIds b1 = bnk_mapIds b"
    using 1(1) by (auto simp: close_ids_def split: if_splits option.splits prod.splits outcome.splits)
  moreover obtain g where "uninitQuestionBank (bnk_root b1) F1 = (Ret u, g, F')" "b' = b1\<lparr>bnk_root := g\<rparr>"
    using 1(2) by (auto split: prod.splits)
  ultimately show ?thesis using uninitQuestionBank_closed(1) by auto
qed

text \<open>A closed bank still has its table, and every operation on a group follows the null pointer.\<close>

lemma addGroup_in_null: "bnk_ptrIds b = None \<Longrightarrow> fst (addGroup_in E gid name c b F) = Undef"
  by (simp add: addGroup_in_def on_ids_def Let_def)

lemma deleteGroup_in_null: "bnk_ptrIds b = None \<Longrightarrow> fst (deleteGroup_in E n gid c b F) = Undef"
  by (cases n) (simp_all add: on_ids_def Let_def)

lemma closed_bank_undefined:
  assumes "bnk_ptrIds b = None"
  shows "fst (deleteGroup E [] gid b F) = Undef"
    and "\<not> has_key gid (bnk_mapIds b) \<Longrightarrow> name \<notin> snd ` set (bnk_mapIds b) \<Longrightarrow> fst (addGroup E [] name gid b F) = Undef"
proof -
  have c: "ctrlGroup E [] gid name type (bnk_root b) b F = ctrl_op E gid name type (bnk_root b) b F" for name type
    by (simp add: ctrlGroup_here)
  show "fst (deleteGroup E [] gid b F) = Undef"
    using deleteGroup_in_null [OF assms]
    by (auto simp: deleteGroup_def ctrl_root_def c ctrl_op_def split: prod.splits) (metis fst_conv)
  assume k: "\<not> has_key gid (bnk_mapIds b)" "name \<notin> snd ` set (bnk_mapIds b)"
  then have n: "\<not> (\<exists>kv \<in> set (bnk_mapIds b). snd kv = name)" by auto
  show "fst (addGroup E [] name gid b F) = Undef"
    using addGroup_in_null [OF assms, of E gid name "bnk_root b" F] k(1) n
    by (auto simp: addGroup_def ctrl_root_def c ctrl_op_def split: prod.splits)
qed

end
