(* ===== verification/Session.thy ===== *)
theory Session
  imports BankLifecycle
begin

text \<open>
  A session with a bank as a state machine: the public operations as calls, the states they
  reach from a first one, and the invariant that all of them keep. The program's own calls
  are proper: a group id is made by \<open>uid()\<close> and never empty, and a group is deleted under the
  parent it is shown under.
\<close>

datatype bank_call =
    AddGroup string string string
  | DeleteGroup string string
  | UpdateGroup string string string
  | AddQuestion string string string string
  | DeleteQuestion string string
  | UpdateQuestion string string string string
  | QueryQuestion string string

definition reported :: "(bool \<times> 'r) bank_result \<Rightarrow> bool bank_result" where
  "reported r = andthen r (\<lambda>(ok, _) st. (Ret ok, st)) (\<lambda>st. st)"

fun perform :: "env \<Rightarrow> bank_call \<Rightarrow> CQuestionBankImpl \<Rightarrow> fs \<Rightarrow> bool bank_result" where
  "perform E (AddGroup pid name gid) b F = addGroup E pid name gid b F"
| "perform E (DeleteGroup pid gid) b F = deleteGroup E pid gid b F"
| "perform E (UpdateGroup pid gid name) b F = updateGroup E pid gid name b F"
| "perform E (AddQuestion gid qid q a) b F = reported (addQuestion E gid qid q a b F)"
| "perform E (DeleteQuestion gid qid) b F = reported (deleteQuestion E gid qid b F)"
| "perform E (UpdateQuestion gid qid q a) b F = reported (updateQuestion E gid qid q a b F)"
| "perform E (QueryQuestion gid qid) b F = reported (queryQuestion E gid qid [] b F)"

fun proper :: "bank_call \<Rightarrow> CQuestionBankImpl \<Rightarrow> bool" where
  "proper (AddGroup pid name gid) b \<longleftrightarrow> gid \<noteq> []"
| "proper (DeleteGroup pid gid) b \<longleftrightarrow> gid \<noteq> [] \<and>
     (\<forall>l c. parent_at b pid l c \<longrightarrow> gid \<in> grp_id ` set (grp_groups c))"
| "proper (UpdateGroup pid gid name) b \<longleftrightarrow> gid \<noteq> []"
| "proper _ b \<longleftrightarrow> True"

inductive session :: "env \<Rightarrow> CQuestionBankImpl \<Rightarrow> fs \<Rightarrow> CQuestionBankImpl \<Rightarrow> fs \<Rightarrow> bool" for E b0 F0 where
  started: "session E b0 F0 b0 F0"
| called: "session E b0 F0 b F \<Longrightarrow> proper x b \<Longrightarrow> perform E x b F = (Ret r, b', F') \<Longrightarrow> session E b0 F0 b' F'"

inductive_cases session_cases: "session E b0 F0 b F"

subsection \<open>Calls on questions\<close>

lemma question_members_defined:
  "\<exists>r. qai_deleteQuestion E qid s = Ret r" "\<exists>r. qai_updateQuestion E qid p s = Ret r"
proof -
  show "\<exists>r. qai_deleteQuestion E qid s = Ret r"
    by (cases "qai_path s = []") (auto simp: not_open deleteQuestion_eq split: option.split)
  show "\<exists>r. qai_updateQuestion E qid p s = Ret r"
    by (cases "qai_path s = []"; cases "prm_id p = qid")
       (auto simp: not_open updateQuestion_eq updateQuestion_mismatch split: option.split)
qed

text \<open>Whatever the member does, the bank keeps its tables and the ids of its tree, and the disk.\<close>

lemma with_context_keeps:
  assumes "\<And>s. \<exists>r. f s = Ret r"
  shows "\<exists>r b'. with_context E gid d f b F = (Ret r, b', F) \<and> group_ids (bnk_root b') = group_ids (bnk_root b) \<and>
    bnk_mapIds b' = bnk_mapIds b \<and> bnk_ptrIds b' = bnk_ptrIds b"
proof (cases "has_key gid (bnk_mapIds b)")
  case False
  then show ?thesis by (auto simp: with_context_def)
next
  case True
  obtain o' g where fc: "findQustionAnswerContext E F gid (bnk_root b) = (o', g)" by (metis prod.exhaust)
  have ids: "group_ids g = group_ids (bnk_root b)" using find_context_ids(1) [of E F gid "bnk_root b"] fc by simp
  show ?thesis
  proof (cases o')
    case None
    then show ?thesis using True fc ids by (auto simp: with_context_def)
  next
    case (Some l)
    obtain s where s: "context_at l g = Some s" using find_context_again(1) [OF fc [unfolded Some]] by blast
    obtain r s' where "f s = Ret (r, s')" using assms [of s] by auto
    then show ?thesis
      using with_context_found [OF fc [unfolded Some] s True, of d f] put_context_ids [of l g s'] s ids by simp
  qed
qed

lemma question_call_keeps:
  assumes "case x of AddGroup _ _ _ \<Rightarrow> False | DeleteGroup _ _ \<Rightarrow> False | UpdateGroup _ _ _ \<Rightarrow> False | _ \<Rightarrow> True"
  shows "\<exists>r b'. perform E x b F = (Ret r, b', F) \<and> group_ids (bnk_root b') = group_ids (bnk_root b) \<and>
    bnk_mapIds b' = bnk_mapIds b \<and> bnk_ptrIds b' = bnk_ptrIds b"
proof (cases x)
  case (AddQuestion gid qid q a)
  let ?p = "\<lparr>prm_id = qid, prm_question = q, prm_answer = a, prm_group = gid\<rparr>"
  have "\<exists>r. no_out (Ret (qai_addQuestion E ?p s)) = Ret r" for s by (cases "qai_addQuestion E ?p s") auto
  from with_context_keeps [where f = "\<lambda>s. no_out (Ret (qai_addQuestion E ?p s))", OF this, where E = E and gid = gid and d = "()" and b = b and F = F] AddQuestion show ?thesis
    by (fastforce simp: addQuestion_def reported_def)
next
  case (DeleteQuestion gid qid)
  have "\<exists>r. no_out (qai_deleteQuestion E qid s) = Ret r" for s
    using question_members_defined(1) [of E qid s] by auto
  from with_context_keeps [where f = "\<lambda>s. no_out (qai_deleteQuestion E qid s)", OF this, where E = E and gid = gid and d = "()" and b = b and F = F] DeleteQuestion show ?thesis
    by (fastforce simp: deleteQuestion_def reported_def)
next
  case (UpdateQuestion gid qid q a)
  let ?p = "\<lparr>prm_id = qid, prm_question = q, prm_answer = a, prm_group = gid\<rparr>"
  have "\<exists>r. no_out (qai_updateQuestion E qid ?p s) = Ret r" for s
    using question_members_defined(2) [of E qid ?p s] by auto
  from with_context_keeps [where f = "\<lambda>s. no_out (qai_updateQuestion E qid ?p s)", OF this, where E = E and gid = gid and d = "()" and b = b and F = F] UpdateQuestion show ?thesis
    by (fastforce simp: updateQuestion_def reported_def)
next
  case (QueryQuestion gid qid)
  have "\<exists>r. (case qai_queryQuestion E qid [] s of (r, a, ctx') \<Rightarrow> Ret ((r, a), ctx')) = Ret r" for s
    by (auto split: prod.split)
  from with_context_keeps [where f = "\<lambda>s. case qai_queryQuestion E qid [] s of (r, a, ctx') \<Rightarrow> Ret ((r, a), ctx')", OF this, where E = E and gid = gid and d = "[]" and b = b and F = F] QueryQuestion show ?thesis
    by (fastforce simp: queryQuestion_def reported_def)
qed (use assms in auto)

lemma bank_ok_cong:
  assumes "bank_ok b" "group_ids (bnk_root b') = group_ids (bnk_root b)" "bnk_mapIds b' = bnk_mapIds b"
    "bnk_ptrIds b' = bnk_ptrIds b"
  shows "bank_ok b'"
proof -
  have "tables_ok b'" using assms(1) unfolding bank_ok_def tables_ok_def assms(3,4) by blast
  moreover have "grp_id (bnk_root b') = grp_id (bnk_root b)"
    using assms(2) by (cases "bnk_root b"; cases "bnk_root b'") simp
  moreover have "named_ids (bnk_root b') = named_ids (bnk_root b)" using assms(2) by (simp add: named_ids_def)
  ultimately show ?thesis using assms(1,3) by (simp add: bank_ok_def)
qed

subsection \<open>Calls on groups\<close>

lemma locked_rename: "fs_locked (snd (fs_rename p q F)) = fs_locked F"
  by (auto simp: fs_rename_def Let_def move_nodes_def drop_nodes_def split: option.split node.split)

lemma locked_create: "fs_locked (snd (fs_create_directory p F)) = fs_locked F"
  by (auto simp: fs_create_directory_def Let_def put_node_def)

lemma parent_cases:
  "bank_ok b \<Longrightarrow> (\<exists>l c. parent_at b pid l c) \<or> pid \<noteq> [] \<and> pid \<notin> set (named_ids (bnk_root b))"
  using parent_exists [of pid b] by (cases "pid = []") (auto simp: parent_at_def)

lemma addGroup_keeps:
  assumes "bank_ok b" "gid \<noteq> []" "addGroup E pid name gid b F = (r, b', F')"
  shows "r \<noteq> Undef \<and> bank_ok b' \<and> fs_locked F' = fs_locked F"
proof (cases "has_key gid (bnk_mapIds b) \<or> name \<in> snd ` set (bnk_mapIds b)")
  case True
  then show ?thesis using assms by (auto simp: addGroup_def split: if_splits)
next
  case False
  from parent_cases [OF assms(1)] consider l c where "parent_at b pid l c" | "pid \<noteq> []" "pid \<notin> set (named_ids (bnk_root b))"
    by blast
  then show ?thesis
  proof cases
    case (1 l c)
    obtain b1 r1 F1 where a: "addGroup E pid name gid b F = (r1, b1, F1)"
      "(r1, F1) = (if fs_exists F (child_path c name) then (Ret True, F) else fs_create_directory (child_path c name) F)"
      "bank_ok b1" using addGroup_fresh [OF assms(1) _ _ assms(2) 1, of name E F] False by blast
    have "F1 = F \<or> F1 = snd (fs_create_directory (child_path c name) F)" using a(2) by (auto split: if_splits dest: arg_cong [of _ _ snd])
    then have "fs_locked F1 = fs_locked F" using locked_create by auto
    moreover have "r1 \<noteq> Undef" using a(2) fs_create_directory_defined [of "child_path c name" F] by (auto split: if_splits dest: arg_cong [of _ _ fst])
    ultimately show ?thesis using a assms(3) by simp
  next
    case 2
    then have "addGroup E pid name gid b F = (Ret False, b, F)"
      using False ctrl_root_absent [OF assms(1)] by (auto simp: addGroup_def)
    then show ?thesis using assms by simp
  qed
qed

lemma ctrl_root_update_absent:
  assumes "bank_ok b" "parent_at b pid l c" "gid \<notin> grp_id ` set (grp_groups c)"
  shows "updateGroup E pid gid name b F =
    (Ret False, (bank_message E (''Found group by id '' @ quoted_s @ '' failed'') [gid] b)\<lparr>bnk_root := bnk_root b\<rparr>, F)"
proof -
  have "find_index (\<lambda>grp. grp_id grp = gid) (grp_groups c) = length (grp_groups c)"
    using assms(3) by (auto simp: find_index_end_iff)
  moreover have "put_group l c (bnk_root b) = bnk_root b" using assms(2) put_group_same by (auto simp: parent_at_def)
  ultimately show ?thesis
    using ctrl_root_at [OF assms(1,2)] by (simp add: updateGroup_def ctrl_op_def updateGroup_in_def Let_def)
qed

lemma updateGroup_keeps:
  assumes "bank_ok b" "gid \<noteq> []" "updateGroup E pid gid name b F = (r, b', F')"
  shows "r \<noteq> Undef \<and> bank_ok b' \<and> fs_locked F' = fs_locked F"
proof -
  from parent_cases [OF assms(1)] consider l c where "parent_at b pid l c" "gid \<in> grp_id ` set (grp_groups c)"
    | l c where "parent_at b pid l c" "gid \<notin> grp_id ` set (grp_groups c)"
    | "pid \<noteq> []" "pid \<notin> set (named_ids (bnk_root b))"
    by blast
  then show ?thesis
  proof cases
    case (1 l c)
    let ?i = "find_index (\<lambda>grp. grp_id grp = gid) (grp_groups c)"
    let ?ren = "fs_rename (grp_path (grp_groups c ! ?i)) (child_path c name) F"
    have i: "?i < length (grp_groups c)" using 1(2) by (auto simp: find_index_less_iff)
    obtain s s' where s: "bnk_ptrIds b = Some s" "group_view s' = (group_view s)(gid \<mapsto> name)" "impl_ok s'"
      "updateGroup E pid gid name b F =
        (let g' = put_group l (put_child ?i (set_name name (grp_groups c ! ?i)) c) (bnk_root b);
             b' = b\<lparr>bnk_ptrIds := Some s', bnk_root := g'\<rparr>
         in case ?ren of
              (Ret _, F') \<Rightarrow> (Ret True, b', F')
            | (Throw e, F') \<Rightarrow> (Ret False, bank_message E ''%s'' [what E e] b', F')
            | (Undef, F') \<Rightarrow> (Undef, b', F'))"
      using updateGroup_found [OF assms(1,2) 1(1) refl i, of name E F] by blast
    have ok: "bank_ok (b\<lparr>bnk_ptrIds := Some s', bnk_root := put_group l (put_child ?i (set_name name (grp_groups c ! ?i)) c) (bnk_root b)\<rparr>)"
      using updateGroup_bank_ok [OF assms(1,2) 1(1) refl i s(1-3)] .
    have u: "fst ?ren \<noteq> Undef" by (auto simp: fs_rename_def Let_def split: option.split node.split)
    show ?thesis using s(4) assms(3) ok u locked_rename [of "grp_path (grp_groups c ! ?i)" "child_path c name" F]
      by (cases ?ren; cases "fst ?ren") (auto simp: Let_def)
  next
    case (2 l c)
    then show ?thesis using ctrl_root_update_absent [OF assms(1) 2] assms by (auto intro: bank_ok_cong [OF assms(1)])
  next
    case 3
    then show ?thesis using ctrl_root_absent [OF assms(1) 3] assms by (auto simp: updateGroup_def)
  qed
qed

lemma deleteGroup_in_closes:
  assumes "deleteGroup_in E n gid c b F = (Ret r, c', b', F')" "gid \<in> grp_id ` set (grp_groups c)"
  shows "\<exists>qs F1. close_contexts (grp_questions (grp_groups c ! find_index (\<lambda>grp. grp_id grp = gid) (grp_groups c))) F =
    (Ret (), qs, F1)"
proof -
  let ?i = "find_index (\<lambda>grp. grp_id grp = gid) (grp_groups c)"
  have i: "?i < length (grp_groups c)" using assms(2) by (auto simp: find_index_less_iff)
  obtain m where n: "n = Suc m" using assms(1) by (cases n) auto
  obtain b1 where b1: "on_ids (qai_deleteGroup E gid) (b\<lparr>bnk_mapIds := map_erase gid (bnk_mapIds b)\<rparr>) = Ret b1"
    using assms(1) n by (cases "on_ids (qai_deleteGroup E gid) (b\<lparr>bnk_mapIds := map_erase gid (bnk_mapIds b)\<rparr>)") auto
  obtain rc qs F1 where cc: "close_contexts (grp_questions (grp_groups c ! ?i)) F = (rc, qs, F1)" by (metis prod_cases3)
  have "is_ret rc" using assms(1) n b1 cc i by (cases rc) (auto simp: Let_def)
  then show ?thesis using cc by (auto simp: is_ret_iff)
qed

lemma deleteGroup_keeps:
  assumes b: "bank_ok b" "gid \<noteq> []" and l: "fs_locked F = []"
    and p: "\<And>l c. parent_at b pid l c \<Longrightarrow> gid \<in> grp_id ` set (grp_groups c)"
    and d: "deleteGroup E pid gid b F = (Ret r, b', F')"
  shows "bank_ok b' \<and> fs_locked F' = []"
proof -
  from parent_cases [OF b(1)] consider l c where "parent_at b pid l c" | "pid \<noteq> []" "pid \<notin> set (named_ids (bnk_root b))" by blast
  then show ?thesis
  proof cases
    case (1 k c)
    let ?i = "find_index (\<lambda>grp. grp_id grp = gid) (grp_groups c)"
    have g: "gid \<in> grp_id ` set (grp_groups c)" by (rule p [OF 1])
    then have i: "?i < length (grp_groups c)" by (auto simp: find_index_less_iff)
    have leaf: "grp_groups (grp_groups c ! ?i) = []" using deleteGroup_returns [OF b(1) 1 g l d] by blast
    obtain c' b'' where "deleteGroup_in E (height c) gid c b F = (Ret r, c', b'', F')"
      using d ctrl_root_at [OF b(1) 1, of E gid "[]" GROUP_CTRL_DELETE F]
      by (auto simp: deleteGroup_def ctrl_op_def split: prod.splits)
    from deleteGroup_in_closes [OF this g] obtain qs F1 where
      cc: "close_contexts (grp_questions (grp_groups c ! ?i)) F = (Ret (), qs, F1)" by blast
    have l1: "fs_locked F1 = []" using close_contexts_locked [OF cc] l by simp
    have free: "\<not> locked_below F1 (components (grp_path (grp_groups c ! ?i)))" by (simp add: locked_below_def l1)
    from deleteGroup_leaf [OF b 1 refl i leaf cc free, of E] d show ?thesis
      using l1 by (auto simp: Let_def drop_nodes_def)
  next
    case 2
    then show ?thesis using ctrl_root_absent [OF b(1) 2] b d l by (auto simp: deleteGroup_def)
  qed
qed

subsection \<open>The invariant\<close>

text \<open>Every proper call from a consistent bank on an unlocked disk ends in such a state, if it ends.\<close>

lemma perform_keeps:
  assumes "bank_ok b" "fs_locked F = []" "proper x b" "perform E x b F = (Ret r, b', F')"
  shows "bank_ok b' \<and> fs_locked F' = []"
proof (cases x)
  case (AddGroup pid name gid)
  then show ?thesis using addGroup_keeps [OF assms(1), of gid E pid name F] assms by auto
next
  case (DeleteGroup pid gid)
  then show ?thesis using deleteGroup_keeps [OF assms(1) _ assms(2), of gid pid E r b' F'] assms(3,4) by auto
next
  case (UpdateGroup pid gid name)
  then show ?thesis using updateGroup_keeps [OF assms(1), of gid E pid name F] assms by auto
qed (use question_call_keeps [of x E b F] assms in \<open>auto intro: bank_ok_cong\<close>)

lemma session_ok: "session E b0 F0 b F \<Longrightarrow> bank_ok b0 \<Longrightarrow> fs_locked F0 = [] \<Longrightarrow> bank_ok b \<and> fs_locked F = []"
  by (induction rule: session.induct) (use perform_keeps in \<open>blast+\<close>)

lemma session_defined:
  assumes "session E b0 F0 b F" "bank_ok b0" "fs_locked F0 = []" "proper x b" "fst (perform E x b F) = Undef"
  shows "\<exists>pid gid. x = DeleteGroup pid gid"
proof (cases x)
  case (AddGroup pid name gid)
  obtain r b' F' where "addGroup E pid name gid b F = (r, b', F')" by (metis prod_cases3)
  with addGroup_keeps [of b gid E pid name F] session_ok [OF assms(1-3)] AddGroup assms show ?thesis by auto
next
  case (UpdateGroup pid gid name)
  obtain r b' F' where "updateGroup E pid gid name b F = (r, b', F')" by (metis prod_cases3)
  with updateGroup_keeps [of b gid E pid name F] session_ok [OF assms(1-3)] UpdateGroup assms show ?thesis by auto
qed (use question_call_keeps [of x E b F] assms(5) in auto)

end
