(* ===== verification/TreeNavigation.thy ===== *)
theory TreeNavigation
  imports Prelude
begin

text \<open>
  \<open>notebook::findTreeWidgetItem\<close> and the two buttons that use it (\<open>src/ui/notebook.cpp\<close>): the
  question before or after the current item of the tree widget. The widget belongs to Qt, so
  the code walks it through a record of the member functions it calls; the locale says what
  Qt documents of them, in terms of the tree that is shown. The loop may run forever, so it is
  a partial function: \<open>None\<close> is a call that does not return.
\<close>

subsection \<open>The walk\<close>

record 'i tree_api =
  tw_parent :: "'i \<Rightarrow> 'i option"
  tw_childCount :: "'i \<Rightarrow> nat"
  tw_child :: "'i \<Rightarrow> nat \<Rightarrow> 'i"
  tw_indexOfChild :: "'i \<Rightarrow> 'i \<Rightarrow> nat"
  tw_isGroup :: "'i \<Rightarrow> bool"

definition direction :: "bool \<Rightarrow> int" where
  "direction flag = (if flag then -1 else 1)"

partial_function (option) walk :: "'i tree_api \<Rightarrow> bool \<Rightarrow> 'i \<Rightarrow> int \<Rightarrow> 'i option option" where
  "walk T flag cur_item val =
     (case tw_parent T cur_item of
        None \<Rightarrow> Some None
      | Some parent_item \<Rightarrow>
          (let index = int (tw_indexOfChild T parent_item cur_item) + val in
           if index < 0 \<or> index \<ge> int (tw_childCount T parent_item)
           then walk T flag parent_item (direction flag)
           else
             (let cur_item = tw_child T parent_item (nat index) in
              if \<not> tw_isGroup T cur_item then Some (Some cur_item)
              else if tw_childCount T cur_item > 0
              then
                (let cur_item = tw_child T cur_item (if flag then tw_childCount T cur_item - 1 else 0) in
                 if \<not> tw_isGroup T cur_item then Some (Some cur_item)
                 else walk T flag cur_item 0)
              else walk T flag cur_item val)))"

declare walk.simps [code]

definition findTreeWidgetItem :: "'i tree_api \<Rightarrow> 'i option \<Rightarrow> bool \<Rightarrow> 'i option option" where
  "findTreeWidgetItem T item flag =
     (case item of None \<Rightarrow> Some None | Some i \<Rightarrow> walk T flag i (direction flag))"

subsection \<open>The tree that is shown\<close>

datatype item = Item (itm_isGroup: bool) (itm_children: "item list")

fun item_at :: "item \<Rightarrow> nat list \<Rightarrow> item option" where
  "item_at x [] = Some x"
| "item_at x (k # p) = (if k < length (itm_children x) then item_at (itm_children x ! k) p else None)"

locale tree_widget =
  fixes T :: "'i tree_api" and pos :: "'i \<Rightarrow> nat list" and root :: item
  assumes parent_root: "pos i = [] \<Longrightarrow> tw_parent T i = None"
    and parent_child: "item_at root (pos i) \<noteq> None \<Longrightarrow> pos i = l @ [k] \<Longrightarrow>
      \<exists>p. tw_parent T i = Some p \<and> pos p = l \<and> tw_indexOfChild T p i = k"
    and childCount: "item_at root (pos i) = Some x \<Longrightarrow> tw_childCount T i = length (itm_children x)"
    and child: "item_at root (pos i) = Some x \<Longrightarrow> k < length (itm_children x) \<Longrightarrow> pos (tw_child T i k) = pos i @ [k]"
    and isGroup: "item_at root (pos i) = Some x \<Longrightarrow> tw_isGroup T i = itm_isGroup x"

text \<open>The widget whose items are the positions themselves.\<close>

definition position_widget :: "item \<Rightarrow> nat list tree_api" where
  "position_widget root = \<lparr>tw_parent = (\<lambda>p. if p = [] then None else Some (butlast p)),
     tw_childCount = (\<lambda>p. case item_at root p of None \<Rightarrow> 0 | Some x \<Rightarrow> length (itm_children x)),
     tw_child = (\<lambda>p k. p @ [k]), tw_indexOfChild = (\<lambda>p c. last c),
     tw_isGroup = (\<lambda>p. case item_at root p of None \<Rightarrow> False | Some x \<Rightarrow> itm_isGroup x)\<rparr>"

interpretation position_widget: tree_widget "position_widget root" "\<lambda>p. p" root for root
  by unfold_locales (auto simp: position_widget_def)

subsection \<open>What it should find\<close>

text \<open>The positions of the questions in document order, and the item before or after a position.\<close>

fun questions_in :: "item \<Rightarrow> nat list list" where
  "questions_in (Item g cs) =
     (if g then concat (map (\<lambda>(k, c). map ((#) k) c) (enumerate 0 (map questions_in cs))) else [[]])"

fun after :: "nat list \<Rightarrow> nat list \<Rightarrow> bool" where
  "after (a # p) (b # q) \<longleftrightarrow> a < b \<or> a = b \<and> after p q"
| "after _ _ \<longleftrightarrow> False"

definition next_question :: "bool \<Rightarrow> item \<Rightarrow> nat list \<Rightarrow> nat list option" where
  "next_question flag root p =
     (if flag then find (\<lambda>q. after q p) (rev (questions_in root)) else find (after p) (questions_in root))"

text \<open>Every group shows something, and questions have no items below them.\<close>

fun no_empty_group :: "item \<Rightarrow> bool" where
  "no_empty_group (Item g cs) \<longleftrightarrow> (g \<longleftrightarrow> cs \<noteq> []) \<and> (\<forall>c \<in> set cs. no_empty_group c)"

subsection \<open>The search by siblings\<close>

definition end_of :: "bool \<Rightarrow> 'a list \<Rightarrow> 'a" where
  "end_of flag xs = (if flag then last xs else hd xs)"

definition sibling :: "bool \<Rightarrow> nat \<Rightarrow> nat \<Rightarrow> nat option" where
  "sibling flag n k =
     (if flag then (if k = 0 then None else Some (k - 1)) else (if Suc k < n then Some (Suc k) else None))"

definition end_index :: "bool \<Rightarrow> nat \<Rightarrow> nat" where
  "end_index flag n = (if flag then n - 1 else 0)"

lemma end_index: "xs \<noteq> [] \<Longrightarrow> end_index flag (length xs) < length xs" "xs \<noteq> [] \<Longrightarrow> xs ! end_index flag (length xs) = end_of flag xs"
  by (auto simp: end_index_def end_of_def hd_conv_nth last_conv_nth)

fun next_in :: "bool \<Rightarrow> item \<Rightarrow> nat list \<Rightarrow> nat list option" where
  "next_in flag x [] = None"
| "next_in flag x (k # p) =
     (case next_in flag (itm_children x ! k) p of
        Some q \<Rightarrow> Some (k # q)
      | None \<Rightarrow> map_option (\<lambda>j. j # end_of flag (questions_in (itm_children x ! j)))
                  (sibling flag (length (itm_children x)) k))"

lemma sibling_less: "sibling flag n k = Some j \<Longrightarrow> k < n \<Longrightarrow> j < n"
  by (auto simp: sibling_def split: if_splits)

definition chunk :: "item list \<Rightarrow> nat \<Rightarrow> nat list list" where
  "chunk cs j = map ((#) j) (questions_in (cs ! j))"

lemma questions_in_group: "questions_in (Item True cs) = concat (map (chunk cs) [0..<length cs])"
proof -
  have "map (\<lambda>(k, c). map ((#) k) c) (enumerate 0 (map questions_in cs)) = map (chunk cs) [0..<length cs]"
    by (rule nth_equalityI) (simp_all add: chunk_def nth_enumerate_eq)
  then show ?thesis by simp
qed

lemma no_empty_group_iff:
  "no_empty_group x \<longleftrightarrow> (itm_isGroup x \<longleftrightarrow> itm_children x \<noteq> []) \<and> (\<forall>c \<in> set (itm_children x). no_empty_group c)"
  by (cases x) simp

lemma questions_in_nonempty: "no_empty_group x \<Longrightarrow> questions_in x \<noteq> []"
proof (induction x)
  case (Item g cs)
  show ?case
  proof (cases g)
    case True
    then have "cs \<noteq> []" using Item.prems by auto
    then have "chunk cs 0 \<noteq> []" "0 \<in> set [0..<length cs]" using Item by (auto simp: chunk_def)
    then show ?thesis using True questions_in_group [of cs] by (auto simp del: questions_in.simps)
  qed simp
qed

lemma item_at_snoc:
  "item_at x (l @ [k]) = (case item_at x l of None \<Rightarrow> None
     | Some y \<Rightarrow> if k < length (itm_children y) then Some (itm_children y ! k) else None)"
  by (induction l arbitrary: x) (auto split: option.split)

lemma no_empty_group_at: "no_empty_group x \<Longrightarrow> item_at x p = Some y \<Longrightarrow> no_empty_group y"
proof (induction p arbitrary: x)
  case (Cons k p)
  then have "no_empty_group (itm_children x ! k)" "item_at (itm_children x ! k) p = Some y"
    using no_empty_group_iff [of x] nth_mem [of k "itm_children x"] by (auto split: if_splits)
  then show ?case by (rule Cons.IH)
qed simp

lemma hd_last_concat:
  "cs \<noteq> [] \<Longrightarrow> (\<And>j. j < length cs \<Longrightarrow> questions_in (cs ! j) \<noteq> []) \<Longrightarrow>
     end_of flag (questions_in (Item True cs)) =
       (let j = if flag then length cs - 1 else 0 in j # end_of flag (questions_in (cs ! j)))"
proof -
  assume ne: "cs \<noteq> []" and q: "\<And>j. j < length cs \<Longrightarrow> questions_in (cs ! j) \<noteq> []"
  obtain n where n: "length cs = Suc n" using ne by (cases cs) auto
  have c: "chunk cs n \<noteq> []" "chunk cs 0 \<noteq> []" using q n by (auto simp: chunk_def)
  have "questions_in (Item True cs) = chunk cs 0 @ concat (map (chunk cs) [1..<length cs])"
    using n unfolding questions_in_group by (simp add: upt_conv_Cons del: upt_Suc)
  then have h: "hd (questions_in (Item True cs)) = hd (chunk cs 0)" using c(2) by simp
  have "questions_in (Item True cs) = concat (map (chunk cs) [0..<n]) @ chunk cs n"
    using n unfolding questions_in_group by simp
  then have l: "last (questions_in (Item True cs)) = last (chunk cs n)" using c(1) by simp
  show ?thesis using q [of 0] q [of n] n unfolding end_of_def h l by (simp add: Let_def chunk_def hd_map last_map)
qed

lemma next_in_snoc:
  "item_at x l = Some y \<Longrightarrow> k < length (itm_children y) \<Longrightarrow>
     next_in flag x (l @ [k]) =
       (case sibling flag (length (itm_children y)) k of
          Some j \<Rightarrow> Some (l @ j # end_of flag (questions_in (itm_children y ! j)))
        | None \<Rightarrow> next_in flag x l)"
  by (induction l arbitrary: x) (auto split: option.splits if_splits)

subsection \<open>The search in document order\<close>

lemma find_append: "find P (xs @ ys) = (case find P xs of None \<Rightarrow> find P ys | Some x \<Rightarrow> Some x)"
  by (induction xs) auto

lemma find_none: "(\<And>x. x \<in> set xs \<Longrightarrow> \<not> P x) \<Longrightarrow> find P xs = None"
  by (induction xs) auto

lemma find_all: "xs \<noteq> [] \<Longrightarrow> (\<And>x. x \<in> set xs \<Longrightarrow> P x) \<Longrightarrow> find P xs = Some (hd xs)"
  by (cases xs) auto

lemma find_map: "find P (map f xs) = map_option f (find (\<lambda>x. P (f x)) xs)"
  by (induction xs) auto

lemma next_question_cons:
  assumes "k < length cs" "\<And>j. j < length cs \<Longrightarrow> questions_in (cs ! j) \<noteq> []"
  shows "next_question flag (Item True cs) (k # p) =
    (case next_question flag (cs ! k) p of
       Some q \<Rightarrow> Some (k # q)
     | None \<Rightarrow> map_option (\<lambda>j. j # end_of flag (questions_in (cs ! j))) (sibling flag (length cs) k))"
proof -
  let ?before = "concat (map (chunk cs) [0..<k])" and ?behind = "concat (map (chunk cs) [Suc k..<length cs])"
  have "[0..<length cs] = [0..<k] @ k # [Suc k..<length cs]"
    using assms(1) by (metis upt_add_eq_append upt_conv_Cons le_add_diff_inverse less_imp_le_nat zero_le plus_nat.add_0)
  then have qs: "questions_in (Item True cs) = ?before @ chunk cs k @ ?behind"
    unfolding questions_in_group by simp
  show ?thesis
  proof (cases flag)
    case False
    have a: "find (after (k # p)) ?before = None" by (rule find_none) (auto simp: chunk_def)
    have b: "find (after (k # p)) (chunk cs k) = map_option ((#) k) (find (after p) (questions_in (cs ! k)))"
      by (simp add: chunk_def find_map)
    have c: "find (after (k # p)) ?behind = (if Suc k < length cs then Some (Suc k # hd (questions_in (cs ! Suc k))) else None)"
    proof (cases "Suc k < length cs")
      case True
      then have s: "?behind = chunk cs (Suc k) @ concat (map (chunk cs) [Suc (Suc k)..<length cs])"
        by (simp add: upt_conv_Cons)
      have "find (after (k # p)) (chunk cs (Suc k)) = Some (hd (chunk cs (Suc k)))"
        using assms(2) [OF True] by (intro find_all) (auto simp: chunk_def)
      then show ?thesis using True assms(2) [OF True] unfolding s by (simp add: find_append chunk_def hd_map)
    qed simp
    show ?thesis using a b c False
      by (simp add: next_question_def qs find_append sibling_def end_of_def del: questions_in.simps split: option.split)
  next
    case True
    have a: "find (\<lambda>q. after q (k # p)) (rev ?behind) = None" by (rule find_none) (auto simp: chunk_def)
    have b: "find (\<lambda>q. after q (k # p)) (rev (chunk cs k)) = map_option ((#) k) (find (\<lambda>q. after q p) (rev (questions_in (cs ! k))))"
      by (simp add: chunk_def rev_map find_map)
    have c: "find (\<lambda>q. after q (k # p)) (rev ?before) = (if k = 0 then None else Some ((k - 1) # last (questions_in (cs ! (k - 1)))))"
    proof (cases k)
      case (Suc m)
      then have q: "questions_in (cs ! m) \<noteq> []" using assms by simp
      have s: "rev ?before = rev (chunk cs m) @ rev (concat (map (chunk cs) [0..<m]))" using Suc by simp
      have "find (\<lambda>q. after q (k # p)) (rev (chunk cs m)) = Some (hd (rev (chunk cs m)))"
        using q Suc by (intro find_all) (auto simp: chunk_def)
      then show ?thesis using Suc q unfolding s by (simp add: find_append chunk_def hd_rev last_map)
    qed simp
    show ?thesis using a b c True
      by (simp add: next_question_def qs find_append sibling_def end_of_def del: questions_in.simps split: option.split)
  qed
qed

lemma next_question_nil: "next_question flag x [] = None"
  unfolding next_question_def by (auto intro!: find_none elim: after.elims)

lemma next_in_question:
  "no_empty_group x \<Longrightarrow> item_at x p \<noteq> None \<Longrightarrow> next_in flag x p = next_question flag x p"
proof (induction p arbitrary: x)
  case Nil
  then show ?case by (simp add: next_question_nil)
next
  case (Cons k p)
  obtain g cs where x: "x = Item g cs" by (cases x)
  have k: "k < length cs" "item_at (cs ! k) p \<noteq> None" using Cons.prems(2) x by (auto split: if_splits)
  then have g: "g" using Cons.prems(1) x by auto
  have ne: "questions_in (cs ! j) \<noteq> []" if "j < length cs" for j
    using Cons.prems(1) x that questions_in_nonempty by simp
  have "no_empty_group (cs ! k)" using Cons.prems(1) x k(1) by simp
  then show ?case
    using Cons.IH k(2) next_question_cons [OF k(1) ne, of flag p] x g by (simp split: option.split)
qed

subsection \<open>The walk finds it\<close>

context tree_widget
begin

lemma descend:
  assumes "item_at root (pos i) = Some x" "k < length (itm_children x)"
  shows "item_at root (pos (tw_child T i k)) = Some (itm_children x ! k)" "pos (tw_child T i k) = pos i @ [k]"
  using child [OF assms] assms by (simp_all add: item_at_snoc)

text \<open>
  One turn of the loop at an item whose parent has \<open>index\<close> among its children: what happens
  at the item found there.
\<close>

lemma walk_turn:
  assumes i: "item_at root (pos i) \<noteq> None" "pos i = l @ [k]" and y: "item_at root l = Some y"
    and index: "int k + val = int j" "j < length (itm_children y)"
  obtains c where "pos c = l @ [j]" "item_at root (pos c) = Some (itm_children y ! j)"
    "walk T flag i val =
      (let x = itm_children y ! j in
       if \<not> itm_isGroup x then Some (Some c)
       else if itm_children x \<noteq> []
       then (let d = tw_child T c (end_index flag (length (itm_children x))) in
             if \<not> itm_isGroup (end_of flag (itm_children x)) then Some (Some d) else walk T flag d 0)
       else walk T flag c val)"
proof -
  obtain p where p: "tw_parent T i = Some p" "pos p = l" "tw_indexOfChild T p i = k" using parent_child [OF i] by blast
  have yp: "item_at root (pos p) = Some y" using p y by simp
  let ?c = "tw_child T p j" and ?x = "itm_children y ! j"
  note c = descend [OF yp index(2)]
  have n: "tw_childCount T p = length (itm_children y)" using childCount [OF yp] .
  have xs: "tw_isGroup T ?c = itm_isGroup ?x" "tw_childCount T ?c = length (itm_children ?x)"
    using isGroup [OF c(1)] childCount [OF c(1)] by auto
  let ?e = "end_index flag (length (itm_children ?x))"
  have d: "tw_isGroup T (tw_child T ?c ?e) = itm_isGroup (end_of flag (itm_children ?x))" if "itm_children ?x \<noteq> []"
    using isGroup [OF descend(1) [OF c(1) end_index(1) [OF that]]] end_index(2) [OF that] by simp
  have "walk T flag i val =
      (let x = ?x in
       if \<not> itm_isGroup x then Some (Some ?c)
       else if itm_children x \<noteq> []
       then (let d = tw_child T ?c (end_index flag (length (itm_children x))) in
             if \<not> itm_isGroup (end_of flag (itm_children x)) then Some (Some d) else walk T flag d 0)
       else walk T flag ?c val)"
    using index(2) d
    by (cases "itm_children ?x = []"; subst walk.simps) (simp_all add: p n xs index(1) Let_def end_index_def [symmetric])
  with that [of ?c] c p show ?thesis by simp
qed

lemma walk_up:
  assumes i: "item_at root (pos i) \<noteq> None" "pos i = l @ [k]" and y: "item_at root l = Some y"
    and index: "int k + val < 0 \<or> int k + val \<ge> int (length (itm_children y))"
  obtains p where "pos p = l" "walk T flag i val = walk T flag p (direction flag)"
proof -
  obtain p where p: "tw_parent T i = Some p" "pos p = l" "tw_indexOfChild T p i = k" using parent_child [OF i] by blast
  have yp: "item_at root (pos p) = Some y" using p y by simp
  have "walk T flag i val = walk T flag p (direction flag)"
    using index childCount [OF yp] by (subst walk.simps) (simp add: p Let_def)
  with that p show ?thesis by blast
qed

text \<open>From a group that was just entered (\<open>val\<close> is 0) the walk goes down to its end.\<close>

lemma walk_into:
  "item_at root (pos i) = Some x \<Longrightarrow> pos i \<noteq> [] \<Longrightarrow> no_empty_group x \<Longrightarrow> itm_isGroup x \<Longrightarrow>
     \<exists>j. walk T flag i 0 = Some (Some j) \<and> pos j = pos i @ end_of flag (questions_in x)"
proof (induction x arbitrary: i)
  case (Item g cs)
  obtain l k where l: "pos i = l @ [k]" using Item.prems(2) by (cases "pos i" rule: rev_cases) auto
  then obtain y where y: "item_at root l = Some y" "k < length (itm_children y)" "itm_children y ! k = Item g cs"
    using Item.prems(1) by (auto simp: item_at_snoc split: option.splits if_splits)
  have g: "g" "cs \<noteq> []" using Item.prems(3,4) by auto
  let ?e = "end_index flag (length cs)"
  note e = end_index [OF g(2), of flag]
  have ne: "questions_in (cs ! j) \<noteq> []" if "j < length cs" for j using Item.prems(3) that questions_in_nonempty by simp
  have q: "end_of flag (questions_in (Item g cs)) = ?e # end_of flag (questions_in (cs ! ?e))"
    using hd_last_concat [OF g(2) ne] g(1) by (simp add: Let_def end_index_def [symmetric])
  have ii: "item_at root (pos i) \<noteq> None" using Item.prems(1) by simp
  have k0: "int k + 0 = int k" by simp
  obtain c where c0: "pos c = l @ [k]" "item_at root (pos c) = Some (itm_children y ! k)"
    "walk T flag i 0 =
      (let x = itm_children y ! k in
       if \<not> itm_isGroup x then Some (Some c)
       else if itm_children x \<noteq> []
       then (let d = tw_child T c (end_index flag (length (itm_children x))) in
             if \<not> itm_isGroup (end_of flag (itm_children x)) then Some (Some d) else walk T flag d 0)
       else walk T flag c 0)"
    by (rule walk_turn [OF ii l y(1) k0 y(2)])
  then have c: "pos c = pos i" "item_at root (pos c) = Some (Item g cs)"
    "walk T flag i 0 = (let d = tw_child T c ?e in
       if \<not> itm_isGroup (end_of flag cs) then Some (Some d) else walk T flag d 0)"
    using l y(3) g by (simp_all add: Let_def)
  let ?d = "tw_child T c ?e"
  have d: "item_at root (pos ?d) = Some (cs ! ?e)" "pos ?d = pos i @ [?e]"
    using descend [OF c(2), of ?e] e(1) c(1) by simp_all
  show ?case
  proof (cases "itm_isGroup (cs ! ?e)")
    case False
    then have "questions_in (cs ! ?e) = [[]]" by (cases "cs ! ?e") simp
    then show ?thesis using False c(3) e(2) d(2) q by (auto simp: Let_def end_of_def)
  next
    case True
    have "no_empty_group (cs ! ?e)" "cs ! ?e \<in> set cs" using Item.prems(3) e(1) by auto
    from Item.IH [OF this(2) d(1) _ this(1) True] obtain j where
      "walk T flag ?d 0 = Some (Some j)" "pos j = pos ?d @ end_of flag (questions_in (cs ! ?e))" using d(2) by auto
    then show ?thesis using True c(3) e(2) d(2) q by (auto simp: Let_def)
  qed
qed

lemma enter_group:
  assumes "item_at root (pos c) = Some x" "no_empty_group x" "itm_isGroup x"
  shows "\<exists>j. (let d = tw_child T c (end_index flag (length (itm_children x))) in
       if \<not> itm_isGroup (end_of flag (itm_children x)) then Some (Some d) else walk T flag d 0) = Some (Some j) \<and>
    pos j = pos c @ end_of flag (questions_in x)"
proof -
  obtain cs where x: "x = Item True cs" using assms(3) by (cases x) auto
  have ne: "cs \<noteq> []" using assms(2) x by simp
  have nq: "questions_in (cs ! j) \<noteq> []" if "j < length cs" for j using assms(2) x that questions_in_nonempty by simp
  let ?e = "end_index flag (length cs)" let ?d = "tw_child T c ?e"
  note e = end_index [OF ne, of flag]
  have d: "item_at root (pos ?d) = Some (cs ! ?e)" "pos ?d = pos c @ [?e]"
    using descend [OF assms(1), of ?e] e(1) x by simp_all
  have q: "end_of flag (questions_in x) = ?e # end_of flag (questions_in (cs ! ?e))"
    using hd_last_concat [OF ne nq] x by (simp add: Let_def end_index_def [symmetric])
  have "no_empty_group (cs ! ?e)" using assms(2) x e(1) by simp
  show ?thesis
  proof (cases "itm_isGroup (cs ! ?e)")
    case False
    then have "questions_in (cs ! ?e) = [[]]" by (cases "cs ! ?e") simp
    then show ?thesis using False e(2) d(2) q x by (auto simp: Let_def end_of_def)
  next
    case True
    from walk_into [OF d(1) _ \<open>no_empty_group (cs ! ?e)\<close> True, of flag] d(2) q e(2) True x
    show ?thesis by (auto simp: Let_def)
  qed
qed

lemma walk_next:
  "item_at root (pos i) \<noteq> None \<Longrightarrow> no_empty_group root \<Longrightarrow>
     \<exists>r. walk T flag i (direction flag) = Some r \<and> map_option pos r = next_in flag root (pos i)"
proof (induction "pos i" arbitrary: i rule: rev_induct)
  case Nil
  then show ?case using parent_root [of i] by (subst walk.simps) simp
next
  case (snoc k l)
  note l = snoc.hyps(2) [symmetric]
  obtain y where y: "item_at root l = Some y" "k < length (itm_children y)"
    using snoc.prems(1) l by (auto simp: item_at_snoc split: option.splits if_splits)
  show ?case
  proof (cases "sibling flag (length (itm_children y)) k")
    case None
    then have out: "int k + direction flag < 0 \<or> int k + direction flag \<ge> int (length (itm_children y))"
      by (auto simp: sibling_def direction_def split: if_splits)
    obtain p where p: "pos p = l" "walk T flag i (direction flag) = walk T flag p (direction flag)"
      by (rule walk_up [OF snoc.prems(1) l y(1) out])
    then show ?thesis using snoc.hyps(1) [of p] snoc.prems(2) y None by (simp add: l next_in_snoc)
  next
    case (Some j)
    have k: "int k + direction flag = int j" using Some by (auto simp: sibling_def direction_def split: if_splits)
    have j: "j < length (itm_children y)" using sibling_less [OF Some y(2)] .
    let ?x = "itm_children y ! j"
    have x: "no_empty_group ?x" using no_empty_group_at [OF snoc.prems(2) y(1)] j no_empty_group_iff [of y] by simp
    obtain c where c: "pos c = l @ [j]" "item_at root (pos c) = Some ?x"
      "walk T flag i (direction flag) =
        (let x = ?x in
         if \<not> itm_isGroup x then Some (Some c)
         else if itm_children x \<noteq> []
         then (let d = tw_child T c (end_index flag (length (itm_children x))) in
               if \<not> itm_isGroup (end_of flag (itm_children x)) then Some (Some d) else walk T flag d 0)
         else walk T flag c (direction flag))"
      by (rule walk_turn [OF snoc.prems(1) l y(1) k j])
    have n: "next_in flag root (pos i) = Some (l @ j # end_of flag (questions_in ?x))"
      using y Some by (simp add: l next_in_snoc)
    show ?thesis
    proof (cases "itm_isGroup ?x")
      case False
      then have "questions_in ?x = [[]]" by (cases ?x) simp
      then show ?thesis using False c n by (simp add: Let_def end_of_def)
    next
      case True
      then have "itm_children ?x \<noteq> []" using x no_empty_group_iff [of ?x] by simp
      with True c(3) enter_group [OF c(2) x True, of flag] n c(1) show ?thesis by (auto simp: Let_def)
    qed
  qed
qed

text \<open>An empty group that was entered from its parent is never left: the index stays what it is.\<close>

lemma walk_stuck:
  assumes "item_at root (pos i) = Some (Item True [])" "pos i \<noteq> []"
  shows "walk T flag i 0 = None"
proof (rule ccontr)
  assume "walk T flag i 0 \<noteq> None"
  then obtain r where r: "walk T flag i 0 = Some r" by auto
  have "T = T \<longrightarrow> (0 :: int) = 0 \<longrightarrow> \<not> (item_at root (pos i) = Some (Item True []) \<and> pos i \<noteq> [])"
  proof (rule walk.raw_induct [where P = "\<lambda>T' flag i val r. T' = T \<longrightarrow> val = 0 \<longrightarrow>
      \<not> (item_at root (pos i) = Some (Item True []) \<and> pos i \<noteq> [])", OF _ r], intro impI notI, elim conjE)
    fix f T' flag' i' val r'
    assume f: "\<And>T' flag i val r. f T' flag i val = Some r \<Longrightarrow>
        T' = T \<longrightarrow> val = 0 \<longrightarrow> \<not> (item_at root (pos i) = Some (Item True []) \<and> pos i \<noteq> [])"
      and body: "(case tw_parent T' i' of None \<Rightarrow> Some None
        | Some parent_item \<Rightarrow>
            (let index = int (tw_indexOfChild T' parent_item i') + val in
             if index < 0 \<or> int (tw_childCount T' parent_item) \<le> index then f T' flag' parent_item (direction flag')
             else (let cur_item = tw_child T' parent_item (nat index) in
                if \<not> tw_isGroup T' cur_item then Some (Some cur_item)
                else if 0 < tw_childCount T' cur_item
                then (let cur_item = tw_child T' cur_item (if flag' then tw_childCount T' cur_item - 1 else 0) in
                      if \<not> tw_isGroup T' cur_item then Some (Some cur_item) else f T' flag' cur_item 0)
                else f T' flag' cur_item val))) = Some r'"
      and T: "T' = T" "val = 0" and i': "item_at root (pos i') = Some (Item True [])" "pos i' \<noteq> []"
    obtain l k where l: "pos i' = l @ [k]" using i'(2) by (cases "pos i'" rule: rev_cases) auto
    then obtain y where y: "item_at root l = Some y" "k < length (itm_children y)"
      using i'(1) by (auto simp: item_at_snoc split: option.splits if_splits)
    obtain p where p: "tw_parent T i' = Some p" "pos p = l" "tw_indexOfChild T p i' = k"
      using parent_child [OF _ l] i'(1) by auto
    have yp: "item_at root (pos p) = Some y" using p y by simp
    let ?c = "tw_child T p k"
    have c: "item_at root (pos ?c) = Some (Item True [])" "pos ?c \<noteq> []"
      using descend [OF yp y(2)] i'(1) l y by (auto simp: item_at_snoc)
    have "f T flag' ?c 0 = Some r'"
      using body p y(2) T childCount [OF yp] isGroup [OF c(1)] childCount [OF c(1)] by (simp add: Let_def)
    with f c show False by blast
  qed
  with assms show False by simp
qed

lemma walk_hangs:
  assumes i: "pos i = l @ [k]" and y: "item_at root l = Some y" "k < length (itm_children y)"
    and j: "sibling flag (length (itm_children y)) k = Some j" "itm_children y ! j = Item True ds" "ds \<noteq> []"
    and empty: "end_of flag ds = Item True []"
  shows "walk T flag i (direction flag) = None"
proof -
  have ii: "item_at root (pos i) \<noteq> None" using i y by (simp add: item_at_snoc)
  have k: "int k + direction flag = int j" using j(1) by (auto simp: sibling_def direction_def split: if_splits)
  have jl: "j < length (itm_children y)" using sibling_less [OF j(1) y(2)] .
  obtain c where c: "pos c = l @ [j]" "item_at root (pos c) = Some (itm_children y ! j)"
    "walk T flag i (direction flag) =
      (let x = itm_children y ! j in
       if \<not> itm_isGroup x then Some (Some c)
       else if itm_children x \<noteq> []
       then (let d = tw_child T c (end_index flag (length (itm_children x))) in
             if \<not> itm_isGroup (end_of flag (itm_children x)) then Some (Some d) else walk T flag d 0)
       else walk T flag c (direction flag))"
    by (rule walk_turn [OF ii i y(1) k jl])
  let ?d = "tw_child T c (end_index flag (length ds))"
  have cx: "item_at root (pos c) = Some (Item True ds)" using c(2) j(2) by simp
  have e: "end_index flag (length ds) < length (itm_children (Item True ds))" using end_index(1) [OF j(3)] by simp
  have "item_at root (pos ?d) = Some (Item True [])" "pos ?d \<noteq> []"
    using descend [OF cx e] end_index(2) [OF j(3), of flag] empty by simp_all
  then have "walk T flag ?d 0 = None" by (rule walk_stuck)
  then show ?thesis using c(3) j(2,3) empty by (simp add: Let_def)
qed

end

end
