(* ===== verification/Examples.thy ===== *)
theory Examples
  imports Session TreeNavigation
begin

text \<open>
  A small bank on a small disk, at which the properties of the root theory are instantiated:
  the bank directory holds the groups \<open>math\<close> (id \<open>g1\<close>, with a question file and a subgroup
  \<open>sets\<close>, id \<open>g3\<close>) and \<open>art\<close> (id \<open>g2\<close>).
\<close>

definition disk :: fs where
  "disk = \<lparr>fs_nodes = [([''C:''], Dir), ([''C:'', ''qb''], Dir), ([''C:'', ''qb'', ''math''], Dir),
     ([''C:'', ''qb'', ''math'', ''sets''], Dir), ([''C:'', ''qb'', ''art''], Dir)], fs_locked = []\<rparr>"

definition math_path :: string where
  "math_path = ''C:/qb'' @ sep @ ''math''"

definition sets_path :: string where
  "sets_path = math_path @ sep @ ''sets''"

definition art_path :: string where
  "art_path = ''C:/qb'' @ sep @ ''art''"

definition file_path :: string where
  "file_path = math_path @ sep @ ''g1.dat''"

definition a_question :: QuestionAnswer where
  "a_question = QuestionAnswer_default\<lparr>qa_id := ''q1'', qa_group := ''g1'', qa_question := ''1+1'', qa_answer := ''2''\<rparr>"

definition math_file :: CQuestionAnswerImpl where
  "math_file = new_impl\<lparr>qai_path := file_path,
     qai_questions := QuestionAnswerList_default\<lparr>qal_items := [a_question]\<rparr>\<rparr>"

definition ids_file :: CQuestionAnswerImpl where
  "ids_file = new_impl\<lparr>qai_path := ''C:/qb'' @ sep @ ''ids.dat'',
     qai_groups := QuestionAnswerGroupList_default\<lparr>gl_items :=
       [new_group ''g1'' ''math'', new_group ''g2'' ''art'', new_group ''g3'' ''sets'']\<rparr>\<rparr>"

definition sets_group :: CQuestionGroupParam where
  "sets_group = Group ''sets'' ''g3'' sets_path [] []"

definition math_group :: CQuestionGroupParam where
  "math_group = Group ''math'' ''g1'' math_path [Some math_file] [sets_group]"

definition art_group :: CQuestionGroupParam where
  "art_group = Group ''art'' ''g2'' art_path [] []"

definition bank :: CQuestionBankImpl where
  "bank = new_bank\<lparr>bnk_root := Group ''qb'' [] ''C:/qb'' [] [math_group, art_group],
     bnk_idPath := ''C:/qb'' @ sep @ ''ids.dat'', bnk_ptrIds := Some ids_file,
     bnk_mapIds := [(''g1'', ''math''), (''g2'', ''art''), (''g3'', ''sets'')]\<rparr>"

lemmas bank_parts = bank_def math_group_def sets_group_def art_group_def ids_file_def math_file_def a_question_def
  new_bank_def new_impl_def

lemmas path_parts = math_path_def sets_path_def art_path_def file_path_def sep_def

lemma dom_group_view: "dom (group_view s) = qag_id ` set (groups_of s)"
  by (auto simp: group_view_def dom_def first_with_None_iff image_iff)

lemma ids_file_ok: "impl_ok ids_file" "group_view ids_file ''g1'' = Some ''math''"
  by (simp_all add: impl_ok_def ids_file_def new_impl_def questions_of_def groups_of_def QuestionAnswerList_default_def
      group_view_def sep_def)

lemma math_file_ok: "impl_ok math_file"
  by (simp add: impl_ok_def math_file_def new_impl_def questions_of_def groups_of_def QuestionAnswerGroupList_default_def
      path_parts)

lemma bank_ok_bank: "bank_ok bank"
  unfolding bank_ok_def tables_ok_def
  using ids_file_ok
  by (simp add: bank_parts dom_group_view groups_of_def named_ids_Group insert_commute)

lemma names_agree_bank: "names_agree bank"
  by (auto simp: names_agree_def bank_parts group_view_def groups_of_def fun_eq_iff)

lemma math_context: "context_of plain_env F ''g1'' bank = Some math_file"
  by (simp add: context_of_def bank_def new_bank_def math_group_def)

lemma math_context_ok: "context_ok plain_env F ''g1'' bank"
  using math_file_ok by (simp add: context_ok_def math_context) (simp add: bank_def new_bank_def has_key_def)

lemma parent_root: "parent_at bank [] [] (bnk_root bank)"
  by (simp add: parent_at_def)

lemma parent_math: "parent_at bank ''g1'' [0] math_group"
  by (simp add: parent_at_def bank_def new_bank_def) (simp add: math_group_def)

lemma node_at_disk:
  "node_at disk [''C:'', ''qb''] = Some Dir" "node_at disk [''C:'', ''qb'', ''math''] = Some Dir"
  "node_at disk [''C:'', ''qb'', ''art''] = Some Dir" "node_at disk [''C:'', ''qb'', ''math'', ''sets''] = Some Dir"
  by (simp_all add: node_at_def disk_def)

lemma components_demo:
  "components ''C:/qb'' = [''C:'', ''qb'']" "components math_path = [''C:'', ''qb'', ''math'']"
  "components sets_path = [''C:'', ''qb'', ''math'', ''sets'']" "components art_path = [''C:'', ''qb'', ''art'']"
  "components file_path = [''C:'', ''qb'', ''math'', ''g1.dat'']"
  by (simp_all add: path_parts is_sep_def)

lemma wf_disk: "wf_fs disk"
proof -
  have "node_at disk (butlast p) = Some Dir" if "node_at disk p \<noteq> None" "length p > 1" for p
  proof -
    have "p \<in> set (map fst (fs_nodes disk))" using that(1) node_at_in_keys [of disk p] by auto
    then show ?thesis using that(2) by (auto simp: disk_def node_at_def)
  qed
  moreover have "distinct (map fst (fs_nodes disk))" by (simp add: disk_def)
  ultimately show ?thesis by (simp add: wf_fs_def)
qed

lemma art_renamed:
  "fs_rename art_path (child_path (bnk_root bank) ''music'') disk =
     (Ret (), move_nodes [''C:'', ''qb'', ''art''] [''C:'', ''qb'', ''music''] disk)"
  "node_at disk (components (child_path (bnk_root bank) ''music'')) = None"
proof -
  have c: "components (child_path (bnk_root bank) ''music'') = [''C:'', ''qb'', ''music'']"
    by (simp add: child_path_def bank_def new_bank_def sep_def is_sep_def)
  have n: "node_at disk [''C:'', ''qb'', ''music''] = None" by (simp add: node_at_def disk_def)
  then show "node_at disk (components (child_path (bnk_root bank) ''music'')) = None" by (simp add: c)
  have w: "can_create disk [''C:'', ''qb'', ''music'']"
    by (simp add: can_create_def node_at_disk) (simp add: disk_def)
  have l: "\<not> locked_below disk p" for p by (simp add: locked_below_def disk_def)
  show "fs_rename art_path (child_path (bnk_root bank) ''music'') disk =
     (Ret (), move_nodes [''C:'', ''qb'', ''art''] [''C:'', ''qb'', ''music''] disk)"
    by (simp add: fs_rename_def c components_demo node_at_disk n w l Let_def strict_prefix_def)
qed

lemma art_second:
  "Suc 0 = find_index (\<lambda>grp. grp_id grp = ''g2'') (grp_groups (bnk_root bank))" "Suc 0 < length (grp_groups (bnk_root bank))"
  "grp_path (grp_groups (bnk_root bank) ! Suc 0) = art_path"
  by (simp_all add: bank_def new_bank_def math_group_def art_group_def)

text \<open>A bank that has just been opened at a new path.\<close>

definition new_disk :: fs where
  "new_disk = put_node [''C:'', ''new''] Dir disk"

lemma new_directory:
  "components ''C:/new'' = [''C:'', ''new'']" "entries plain_env new_disk [''C:'', ''new''] = ([], None)"
  "\<not> fs_exists new_disk (path_append ''C:/new'' ''ids.dat'')" "fs_locked new_disk = []"
proof -
  show c: "components ''C:/new'' = [''C:'', ''new'']" by (simp add: is_sep_def)
  show "entries plain_env new_disk [''C:'', ''new''] = ([], None)"
    by (simp add: plain_env_def fs_below_def new_disk_def put_node_def disk_def strict_prefix_def)
  show "\<not> fs_exists new_disk (path_append ''C:/new'' ''ids.dat'')"
    by (simp add: fs_exists_def components_path_append valid_ids_dat c new_disk_def node_at_put) (simp add: node_at_def disk_def)
  show "fs_locked new_disk = []" by (simp add: new_disk_def put_node_def disk_def)
qed

lemma new_bank_opened:
  "\<exists>b. init plain_env ''C:/new'' new_bank disk = (Ret True, b, new_disk) \<and> bnk_mapIds b = [] \<and> bank_ok b \<and>
     bnk_root b = Group ''new'' [] ''C:/new'' [] []"
proof -
  have "\<not> fs_exists disk ''C:/new''" unfolding fs_exists_def new_directory by (simp add: node_at_def disk_def)
  moreover have "can_create disk (components ''C:/new'')"
    unfolding can_create_def new_directory by (simp add: node_at_def disk_def)
  moreover have "path_filename ''C:/new'' = ''new''" by (simp add: path_filename_def is_sep_def)
  ultimately show ?thesis
    using init_fresh [of disk "''C:/new''" plain_env, unfolded new_directory(1), folded new_disk_def] wf_disk new_directory(2)
    unfolding new_directory(1) by auto
qed

end
