(* ===== verification/Dialogs.thy ===== *)
theory Dialogs
  imports Prelude
begin

text \<open>
  The two dialogs of the program, \<open>src/ui/group_dashboard.cpp\<close> and \<open>question_dashboard.cpp\<close>: what
  their slots do to the texts they show. Qt belongs to the outside. A \<open>QString\<close> is modelled by
  its UTF-8 form. What \<open>toPlainText\<close> gives back after \<open>setText\<close> is a parameter, since
  \<open>QTextEdit::setText\<close> guesses whether a text is HTML; so are \<open>trimmed\<close> and \<open>QString::arg\<close>. The
  user and the network are a list of events; the window closed by its close box is rejected.
  Message boxes are recorded in the order in which they are shown.
\<close>

record qt_text =
  shown_text :: "string \<Rightarrow> string"
  trimmed :: "string \<Rightarrow> string"
  qt_arg :: "string \<Rightarrow> string \<Rightarrow> string"

definition utf8_text :: "nat list \<Rightarrow> string" where
  "utf8_text bs = map char_of bs"

subsection \<open>The dialog for a group\<close>

datatype notice = NoGroupName | NoQuestionText | EmptyInput | ApiFailed string

text \<open>\<open>gd_result\<close> is what \<open>accept\<close> or \<open>reject\<close> have set, \<open>None\<close> while the dialog is open.\<close>

record group_dashboard =
  gd_name :: string
  gd_result :: "bool option"
  gd_notices :: "notice list"

definition new_group_dashboard :: group_dashboard where
  "new_group_dashboard = \<lparr>gd_name = [], gd_result = None, gd_notices = []\<rparr>"

definition setGroupName :: "qt_text \<Rightarrow> string \<Rightarrow> group_dashboard \<Rightarrow> group_dashboard" where
  "setGroupName T name d = d\<lparr>gd_name := shown_text T name\<rparr>"

definition getGroupName :: "group_dashboard \<Rightarrow> string" where
  "getGroupName d = gd_name d"

definition gd_onBtnClickedConfirm :: "group_dashboard \<Rightarrow> group_dashboard" where
  "gd_onBtnClickedConfirm d =
     (if gd_name d = [] then d\<lparr>gd_notices := gd_notices d @ [NoGroupName]\<rparr> else d\<lparr>gd_result := Some True\<rparr>)"

definition gd_onBtnClickedCancel :: "group_dashboard \<Rightarrow> group_dashboard" where
  "gd_onBtnClickedCancel d = d\<lparr>gd_result := Some False\<rparr>"

datatype gd_event = TypeName string | ConfirmGroup | CancelGroup

fun gd_step :: "gd_event \<Rightarrow> group_dashboard \<Rightarrow> group_dashboard" where
  "gd_step (TypeName s) d = d\<lparr>gd_name := s\<rparr>"
| "gd_step ConfirmGroup d = gd_onBtnClickedConfirm d"
| "gd_step CancelGroup d = gd_onBtnClickedCancel d"

text \<open>\<open>QDialog::exec\<close>: events until one closes the dialog.\<close>

fun gd_exec :: "gd_event list \<Rightarrow> group_dashboard \<Rightarrow> bool \<times> group_dashboard" where
  "gd_exec [] d = (False, d)"
| "gd_exec (e # es) d =
     (let d' = gd_step e d in case gd_result d' of None \<Rightarrow> gd_exec es d' | Some r \<Rightarrow> (r, d'))"

subsection \<open>The dialog for a question\<close>

text \<open>
  \<open>qd_asked\<close> lists the questions handed to \<open>QwenClient::askQuestion\<close>, \<open>qd_btnAnswer\<close> says whether
  the button for it is enabled.
\<close>

record question_dashboard =
  qd_question :: string
  qd_answer :: string
  qd_btnAnswer :: bool
  qd_asked :: "string list"
  qd_result :: "bool option"
  qd_notices :: "notice list"

definition new_question_dashboard :: question_dashboard where
  "new_question_dashboard = \<lparr>qd_question = [], qd_answer = [], qd_btnAnswer = True, qd_asked = [],
     qd_result = None, qd_notices = []\<rparr>"

definition setQuestion :: "qt_text \<Rightarrow> string \<Rightarrow> question_dashboard \<Rightarrow> question_dashboard" where
  "setQuestion T str d = d\<lparr>qd_question := shown_text T str\<rparr>"

definition getQuestion :: "question_dashboard \<Rightarrow> string" where
  "getQuestion d = qd_question d"

definition setAnswer :: "qt_text \<Rightarrow> string \<Rightarrow> question_dashboard \<Rightarrow> question_dashboard" where
  "setAnswer T str d = d\<lparr>qd_answer := shown_text T str\<rparr>"

definition getAnswer :: "question_dashboard \<Rightarrow> string" where
  "getAnswer d = qd_answer d"

definition qd_onBtnClickedConfirm :: "question_dashboard \<Rightarrow> question_dashboard" where
  "qd_onBtnClickedConfirm d =
     (if qd_question d = [] then d\<lparr>qd_notices := qd_notices d @ [NoQuestionText]\<rparr>
      else d\<lparr>qd_result := Some True\<rparr>)"

definition qd_onBtnClickedCancel :: "question_dashboard \<Rightarrow> question_dashboard" where
  "qd_onBtnClickedCancel d = d\<lparr>qd_result := Some False\<rparr>"

text \<open>The texts shown while waiting, and in front of an error, in UTF-8.\<close>

definition waiting_text :: string where
  "waiting_text = utf8_text [0xE7,0xAD,0x89,0xE5,0xBE,0x85,0xE9,0x80,0x9A,0xE4,0xB9,0x89,0xE5,0x8D,0x83,
     0xE9,0x97,0xAE,0xE5,0x9B,0x9E,0xE5,0xA4,0x8D,0x2E,0x2E,0x2E]"

definition error_text :: string where
  "error_text = utf8_text [0xE9,0x94,0x99,0xE8,0xAF,0xAF,0xEF,0xBC,0x9A,0x25,0x31]"

definition onBtnClickedAnswer :: "qt_text \<Rightarrow> question_dashboard \<Rightarrow> question_dashboard" where
  "onBtnClickedAnswer T d =
     (let question = trimmed T (qd_question d) in
      if question = [] then d\<lparr>qd_notices := qd_notices d @ [EmptyInput]\<rparr>
      else d\<lparr>qd_answer := shown_text T waiting_text, qd_btnAnswer := False,
             qd_asked := qd_asked d @ [question]\<rparr>)"

text \<open>\<open>setPlainText\<close> takes a text as it is.\<close>

definition onRecvAnswer :: "string \<Rightarrow> question_dashboard \<Rightarrow> question_dashboard" where
  "onRecvAnswer answer d = d\<lparr>qd_btnAnswer := True, qd_answer := answer\<rparr>"

definition onRecvError :: "qt_text \<Rightarrow> string \<Rightarrow> question_dashboard \<Rightarrow> question_dashboard" where
  "onRecvError T error d =
     d\<lparr>qd_btnAnswer := True, qd_answer := qt_arg T error_text error,
       qd_notices := qd_notices d @ [ApiFailed error]\<rparr>"

text \<open>
  What can happen to the open dialog. A disabled button cannot be clicked; a reply, a text or
  an error, comes for a question that was asked.
\<close>

datatype qd_event = TypeQuestion string | TypeAnswer string | ConfirmQuestion | CancelQuestion
  | ClickAnswer | Answered string | Failed string

fun qd_step :: "qt_text \<Rightarrow> qd_event \<Rightarrow> question_dashboard \<Rightarrow> question_dashboard" where
  "qd_step T (TypeQuestion s) d = d\<lparr>qd_question := s\<rparr>"
| "qd_step T (TypeAnswer s) d = d\<lparr>qd_answer := s\<rparr>"
| "qd_step T ConfirmQuestion d = qd_onBtnClickedConfirm d"
| "qd_step T CancelQuestion d = qd_onBtnClickedCancel d"
| "qd_step T ClickAnswer d = (if qd_btnAnswer d then onBtnClickedAnswer T d else d)"
| "qd_step T (Answered s) d = onRecvAnswer s d"
| "qd_step T (Failed s) d = onRecvError T s d"

fun qd_exec :: "qt_text \<Rightarrow> qd_event list \<Rightarrow> question_dashboard \<Rightarrow> bool \<times> question_dashboard" where
  "qd_exec T [] d = (False, d)"
| "qd_exec T (e # es) d =
     (let d' = qd_step T e d in case qd_result d' of None \<Rightarrow> qd_exec T es d' | Some r \<Rightarrow> (r, d'))"

subsection \<open>Lemmas\<close>

lemmas gd_slots = gd_onBtnClickedConfirm_def gd_onBtnClickedCancel_def
lemmas qd_slots = qd_onBtnClickedConfirm_def qd_onBtnClickedCancel_def onBtnClickedAnswer_def
  onRecvAnswer_def onRecvError_def

text \<open>A dialog that is accepted has a text.\<close>

lemma gd_accepted_name:
  "gd_exec es d = (True, d') \<Longrightarrow> gd_result d = None \<Longrightarrow> gd_name d' \<noteq> [] \<and> ConfirmGroup \<in> set es"
proof (induction es arbitrary: d)
  case (Cons e es)
  show ?case
  proof (cases "gd_result (gd_step e d)")
    case None
    then show ?thesis using Cons by auto
  next
    case (Some r)
    then have "r" "d' = gd_step e d" using Cons.prems(1) by auto
    then show ?thesis using Some Cons.prems(2) by (cases e) (auto simp: gd_slots split: if_splits)
  qed
qed simp

lemma qd_accepted_question:
  "qd_exec T es d = (True, d') \<Longrightarrow> qd_result d = None \<Longrightarrow> qd_question d' \<noteq> [] \<and> ConfirmQuestion \<in> set es"
proof (induction es arbitrary: d)
  case (Cons e es)
  show ?case
  proof (cases "qd_result (qd_step T e d)")
    case None
    then show ?thesis using Cons by auto
  next
    case (Some r)
    then have "r" "d' = qd_step T e d" using Cons.prems(1) by auto
    then show ?thesis using Some Cons.prems(2) by (cases e) (auto simp: qd_slots Let_def split: if_splits)
  qed
qed simp

subsection \<open>One question at a time\<close>

text \<open>The replies among the events, and the order of questions and replies that the network keeps:
  every reply follows the question it is for.\<close>

fun is_reply :: "qd_event \<Rightarrow> bool" where
  "is_reply (Answered s) = True"
| "is_reply (Failed s) = True"
| "is_reply _ = False"

inductive dialog :: "qt_text \<Rightarrow> question_dashboard \<Rightarrow> nat \<Rightarrow> bool" for T where
  opened: "dialog T new_question_dashboard 0"
| prepared: "dialog T d n \<Longrightarrow> dialog T (setAnswer T a (setQuestion T q d)) n"
| user: "dialog T d n \<Longrightarrow> \<not> is_reply e \<Longrightarrow> dialog T (qd_step T e d) n"
| reply: "dialog T d n \<Longrightarrow> is_reply e \<Longrightarrow> n < length (qd_asked d) \<Longrightarrow> dialog T (qd_step T e d) (Suc n)"

text \<open>\<open>n\<close> counts the replies: at most one question waits for its reply, and the button says which.\<close>

lemma dialog_asks_once:
  "dialog T d n \<Longrightarrow> length (qd_asked d) = n + (if qd_btnAnswer d then 0 else 1)"
proof (induction rule: dialog.induct)
  case opened
  then show ?case by (simp add: new_question_dashboard_def)
next
  case (prepared d n a q)
  then show ?case by (simp add: setAnswer_def setQuestion_def)
next
  case (user d n e)
  then show ?case by (cases e) (auto simp: qd_slots Let_def)
next
  case (reply d n e)
  then show ?case by (cases e) (auto simp: qd_slots split: if_splits)
qed

end
