(* ===== verification/MainWindow.thy ===== *)
theory MainWindow
  imports QuestionBank TreeNavigation Dialogs
begin

text \<open>
  \<open>src/ui/notebook.cpp\<close>: the main window, its slots and the construction of the tree it shows. The
  tree widget is Qt's: the slots work on a widget of any type \<open>'w\<close> with items of any type \<open>'i\<close>
  through a record of the member functions they call. Icons, colours of the main window and
  read-only flags are left out where no code reads them back; the colour of a question is kept.
  A null pointer that is followed is \<open>Undef\<close>.
\<close>

subsection \<open>The widget\<close>

datatype role = UserRole | NOTEBOOK_ROLE_ID | NOTEBOOK_ROLE_ANSWER | ForegroundRole | ToolTipRole
datatype colour = Red | Black | Blue
datatype variant = VBool bool | VString string | VBrush colour

text \<open>An invalid \<open>QVariant\<close> is \<open>None\<close>; it reads as \<open>false\<close> and as the empty string.\<close>

fun toBool :: "variant option \<Rightarrow> bool" where
  "toBool (Some (VBool b)) = b"
| "toBool _ = False"

fun toString :: "variant option \<Rightarrow> string" where
  "toString (Some (VString s)) = s"
| "toString _ = []"

record ('w, 'i) qt_tree =
  tr_currentItem :: "'w \<Rightarrow> 'i option"
  tr_setCurrentItem :: "'i \<Rightarrow> 'w \<Rightarrow> 'w"
  tr_parent :: "'w \<Rightarrow> 'i \<Rightarrow> 'i option"
  tr_childCount :: "'w \<Rightarrow> 'i \<Rightarrow> nat"
  tr_child :: "'w \<Rightarrow> 'i \<Rightarrow> nat \<Rightarrow> 'i"
  tr_indexOfChild :: "'w \<Rightarrow> 'i \<Rightarrow> 'i \<Rightarrow> nat"
  tr_text :: "'w \<Rightarrow> 'i \<Rightarrow> string"
  tr_setText :: "'i \<Rightarrow> string \<Rightarrow> 'w \<Rightarrow> 'w"
  tr_data :: "'w \<Rightarrow> 'i \<Rightarrow> role \<Rightarrow> variant option"
  tr_setData :: "'i \<Rightarrow> role \<Rightarrow> variant \<Rightarrow> 'w \<Rightarrow> 'w"
  tr_newTop :: "'w \<Rightarrow> 'i \<times> 'w"
  tr_newItem :: "'i \<Rightarrow> 'w \<Rightarrow> 'i \<times> 'w"
  tr_takeChildren :: "'i \<Rightarrow> 'w \<Rightarrow> 'w"
  tr_removeChild :: "'i \<Rightarrow> 'i \<Rightarrow> 'w \<Rightarrow> 'w"
  tr_setExpanded :: "'i \<Rightarrow> 'w \<Rightarrow> 'w"

definition walk_api :: "('w, 'i) qt_tree \<Rightarrow> 'w \<Rightarrow> 'i tree_api" where
  "walk_api Q w = \<lparr>tw_parent = tr_parent Q w, tw_childCount = tr_childCount Q w, tw_child = tr_child Q w,
     tw_indexOfChild = tr_indexOfChild Q w, tw_isGroup = (\<lambda>i. toBool (tr_data Q w i UserRole))\<rparr>"

subsection \<open>The window\<close>

datatype window_notice = FirstReached | LastReached | NoQuestion | NoAnswer | NoGroup | InitFailed
  | AddGroupFailed string | DeleteGroupFailed string | UpdateGroupFailed string
  | AddQuestionFailed string | DeleteQuestionFailed string | UpdateQuestionFailed string

text \<open>
  \<open>nb_menu\<close> is the context menu, the visibility of its seven actions (the separator is one of
  them); \<open>nb_popups\<close> counts how often it was opened.
\<close>

record ('w, 'i) notebook =
  nb_bank :: "CQuestionBankImpl option"
  nb_question :: "'i option"
  nb_menu :: "bool list option"
  nb_tree :: 'w
  nb_edtQuestion :: string
  nb_edtAnswer :: string
  nb_notices :: "window_notice list"
  nb_popups :: nat

type_synonym ('w, 'i) window_result = "(fs_error, unit) outcome \<times> ('w, 'i) notebook \<times> fs"

definition notify :: "window_notice \<Rightarrow> ('w, 'i) notebook \<Rightarrow> ('w, 'i) notebook" where
  "notify n nb = nb\<lparr>nb_notices := nb_notices nb @ [n]\<rparr>"

definition bank_message_of :: "('w, 'i) notebook \<Rightarrow> string" where
  "bank_message_of nb = (case nb_bank nb of None \<Rightarrow> [] | Some b \<Rightarrow> bank_err b)"

text \<open>A call of a member of \<open>*m_ptrBank\<close>, and what follows it.\<close>

definition on_bank ::
  "(CQuestionBankImpl \<Rightarrow> fs \<Rightarrow> 'a bank_result) \<Rightarrow> ('a \<Rightarrow> ('w, 'i) notebook \<Rightarrow> fs \<Rightarrow> ('w, 'i) window_result) \<Rightarrow>
   ('w, 'i) notebook \<Rightarrow> fs \<Rightarrow> ('w, 'i) window_result" where
  "on_bank f k nb F =
     (case nb_bank nb of
        None \<Rightarrow> (Undef, nb, F)
      | Some b \<Rightarrow>
          (case f b F of
             (Ret a, b', F') \<Rightarrow> k a (nb\<lparr>nb_bank := Some b'\<rparr>) F'
           | (Throw e, b', F') \<Rightarrow> (Throw e, nb\<lparr>nb_bank := Some b'\<rparr>, F')
           | (Undef, b', F') \<Rightarrow> (Undef, nb\<lparr>nb_bank := Some b'\<rparr>, F')))"

definition on_item ::
  "('w, 'i) qt_tree \<Rightarrow> ('i \<Rightarrow> ('w, 'i) window_result) \<Rightarrow> ('w, 'i) notebook \<Rightarrow> fs \<Rightarrow> ('w, 'i) window_result" where
  "on_item Q k nb F = (case tr_currentItem Q (nb_tree nb) of None \<Rightarrow> (Undef, nb, F) | Some item \<Rightarrow> k item)"

subsection \<open>Items\<close>

text \<open>\<open>new QTreeWidgetItem(parent)\<close> for a group and for a question, with what is set on it.\<close>

definition group_item :: "('w, 'i) qt_tree \<Rightarrow> 'i \<Rightarrow> string \<Rightarrow> string \<Rightarrow> 'w \<Rightarrow> 'i \<times> 'w" where
  "group_item Q item name gid w =
     (case tr_newItem Q item w of
        (child, w) \<Rightarrow>
          (let w = tr_setText Q child name w;
               w = tr_setData Q child ToolTipRole (VString name) w;
               w = tr_setData Q child UserRole (VBool True) w;
               w = tr_setData Q child NOTEBOOK_ROLE_ID (VString gid) w
           in (child, tr_setExpanded Q item w)))"

definition question_item :: "('w, 'i) qt_tree \<Rightarrow> 'i \<Rightarrow> string \<Rightarrow> string \<Rightarrow> string \<Rightarrow> 'w \<Rightarrow> 'i \<times> 'w" where
  "question_item Q item question qid answer w =
     (case tr_newItem Q item w of
        (child, w) \<Rightarrow>
          (let w = tr_setText Q child question w;
               w = tr_setData Q child ToolTipRole (VString question) w;
               w = tr_setData Q child UserRole (VBool False) w;
               w = tr_setData Q child NOTEBOOK_ROLE_ID (VString qid) w
           in (child, tr_setData Q child NOTEBOOK_ROLE_ANSWER (VString answer) w)))"

definition answer_colour :: "string \<Rightarrow> colour" where
  "answer_colour answer = (if answer = [] then Red else Black)"

subsection \<open>The slots\<close>

text \<open>\<open>findTreeWidgetItem\<close> selects what it finds. \<open>None\<close> is a search that does not return.\<close>

definition find_item :: "('w, 'i) qt_tree \<Rightarrow> 'i option \<Rightarrow> bool \<Rightarrow> 'w \<Rightarrow> ('i option \<times> 'w) option" where
  "find_item Q item flag w =
     map_option (\<lambda>r. (r, case r of None \<Rightarrow> w | Some i \<Rightarrow> tr_setCurrentItem Q i w))
       (findTreeWidgetItem (walk_api Q w) item flag)"

definition show_question :: "('w, 'i) qt_tree \<Rightarrow> qt_text \<Rightarrow> 'i \<Rightarrow> ('w, 'i) notebook \<Rightarrow> ('w, 'i) notebook" where
  "show_question Q T item nb =
     nb\<lparr>nb_edtQuestion := shown_text T (tr_text Q (nb_tree nb) item), nb_edtAnswer := []\<rparr>"

definition onBtnClickedLastQuestion ::
  "('w, 'i) qt_tree \<Rightarrow> qt_text \<Rightarrow> ('w, 'i) notebook \<Rightarrow> ('w, 'i) notebook option" where
  "onBtnClickedLastQuestion Q T nb =
     (case find_item Q (tr_currentItem Q (nb_tree nb)) True (nb_tree nb) of
        None \<Rightarrow> None
      | Some (None, w) \<Rightarrow> Some (notify FirstReached (nb\<lparr>nb_tree := w\<rparr>))
      | Some (Some item, w) \<Rightarrow> Some (show_question Q T item (nb\<lparr>nb_tree := w\<rparr>)))"

definition onBtnClickedNextQuestion ::
  "('w, 'i) qt_tree \<Rightarrow> qt_text \<Rightarrow> ('w, 'i) notebook \<Rightarrow> ('w, 'i) notebook option" where
  "onBtnClickedNextQuestion Q T nb =
     (case find_item Q (tr_currentItem Q (nb_tree nb)) False (nb_tree nb) of
        None \<Rightarrow> None
      | Some (None, w) \<Rightarrow> Some (notify LastReached (nb\<lparr>nb_tree := w\<rparr>))
      | Some (Some item, w) \<Rightarrow> Some (show_question Q T item (nb\<lparr>nb_tree := w\<rparr>)))"

definition onBtnClickedShowAnswer ::
  "('w, 'i) qt_tree \<Rightarrow> qt_text \<Rightarrow> ('w, 'i) notebook \<Rightarrow> ('w, 'i) notebook" where
  "onBtnClickedShowAnswer Q T nb =
     (case tr_currentItem Q (nb_tree nb) of
        None \<Rightarrow> notify NoQuestion nb
      | Some item \<Rightarrow>
          (let answer = toString (tr_data Q (nb_tree nb) item NOTEBOOK_ROLE_ANSWER) in
           if answer = [] then notify NoAnswer nb else nb\<lparr>nb_edtAnswer := shown_text T answer\<rparr>))"

text \<open>\<open>es\<close> are the events of the dialog, \<open>uid\<close> is the new UUID.\<close>

definition onBtnClickedAddGroup ::
  "env \<Rightarrow> ('w, 'i) qt_tree \<Rightarrow> gd_event list \<Rightarrow> string \<Rightarrow> ('w, 'i) notebook \<Rightarrow> fs \<Rightarrow> ('w, 'i) window_result" where
  "onBtnClickedAddGroup E Q es uid nb F =
     (case gd_exec es new_group_dashboard of
        (False, gd) \<Rightarrow> (Ret (), nb, F)
      | (True, gd) \<Rightarrow>
          (let grp_name = getGroupName gd in
           on_item Q (\<lambda>item.
             (let pid = (if tr_parent Q (nb_tree nb) item \<noteq> None
                         then toString (tr_data Q (nb_tree nb) item NOTEBOOK_ROLE_ID) else []) in
              on_bank (addGroup E pid grp_name uid)
                (\<lambda>ok nb F. if \<not> ok then (Ret (), notify (AddGroupFailed (bank_message_of nb)) nb, F)
                   else (Ret (), nb\<lparr>nb_tree := snd (group_item Q item grp_name uid (nb_tree nb))\<rparr>, F))
                nb F)) nb F))"

definition onBtnClickedDeleteGroup ::
  "env \<Rightarrow> ('w, 'i) qt_tree \<Rightarrow> ('w, 'i) notebook \<Rightarrow> fs \<Rightarrow> ('w, 'i) window_result" where
  "onBtnClickedDeleteGroup E Q nb F =
     on_item Q (\<lambda>item.
       (case tr_parent Q (nb_tree nb) item of
          None \<Rightarrow> (Ret (), nb, F)
        | Some parent_item \<Rightarrow>
            (let pid = tr_data Q (nb_tree nb) parent_item NOTEBOOK_ROLE_ID;
                 gid = toString (tr_data Q (nb_tree nb) item NOTEBOOK_ROLE_ID) in
             on_bank (deleteGroup E (if pid \<noteq> None then toString pid else []) gid)
               (\<lambda>ok nb F. if \<not> ok then (Ret (), notify (DeleteGroupFailed (bank_message_of nb)) nb, F)
                  else (Ret (), nb\<lparr>nb_tree := tr_removeChild Q parent_item item
                                                (tr_takeChildren Q item (nb_tree nb))\<rparr>, F))
               nb F))) nb F"

definition onBtnClickedModifyGroup ::
  "env \<Rightarrow> ('w, 'i) qt_tree \<Rightarrow> qt_text \<Rightarrow> gd_event list \<Rightarrow> ('w, 'i) notebook \<Rightarrow> fs \<Rightarrow> ('w, 'i) window_result" where
  "onBtnClickedModifyGroup E Q T es nb F =
     on_item Q (\<lambda>item.
       (case gd_exec es (setGroupName T (tr_text Q (nb_tree nb) item) new_group_dashboard) of
          (False, gd) \<Rightarrow> (Ret (), nb, F)
        | (True, gd) \<Rightarrow>
            (let gid = toString (tr_data Q (nb_tree nb) item NOTEBOOK_ROLE_ID);
                 pid = (case tr_parent Q (nb_tree nb) item of
                          None \<Rightarrow> []
                        | Some parent_item \<Rightarrow> toString (tr_data Q (nb_tree nb) parent_item NOTEBOOK_ROLE_ID)) in
             on_bank (updateGroup E pid gid (getGroupName gd))
               (\<lambda>ok nb F. if \<not> ok then (Ret (), notify (UpdateGroupFailed (bank_message_of nb)) nb, F)
                  else (let w = tr_setText Q item (getGroupName gd) (nb_tree nb);
                            w = tr_setData Q item ToolTipRole (VString (getGroupName gd)) w
                        in (Ret (), nb\<lparr>nb_tree := tr_setExpanded Q item w\<rparr>, F)))
               nb F))) nb F"

definition onBtnClickedAddQuestion ::
  "env \<Rightarrow> ('w, 'i) qt_tree \<Rightarrow> qt_text \<Rightarrow> qd_event list \<Rightarrow> string \<Rightarrow> ('w, 'i) notebook \<Rightarrow> fs \<Rightarrow>
   ('w, 'i) window_result" where
  "onBtnClickedAddQuestion E Q T es uid nb F =
     (case qd_exec T es new_question_dashboard of
        (False, qd) \<Rightarrow> (Ret (), nb, F)
      | (True, qd) \<Rightarrow>
          on_item Q (\<lambda>item.
            (let gid = toString (tr_data Q (nb_tree nb) item NOTEBOOK_ROLE_ID) in
             on_bank (addQuestion E gid uid (getQuestion qd) (getAnswer qd))
               (\<lambda>(ok, _) nb F. if \<not> ok then (Ret (), notify (AddQuestionFailed (bank_message_of nb)) nb, F)
                  else (case question_item Q item (getQuestion qd) uid (getAnswer qd) (nb_tree nb) of
                          (child, w) \<Rightarrow>
                            (let w = tr_setData Q child ForegroundRole (VBrush (answer_colour (getAnswer qd))) w
                             in (Ret (), nb\<lparr>nb_tree := tr_setExpanded Q item w\<rparr>, F))))
               nb F)) nb F)"

definition onBtnClickedDeleteQuestion ::
  "env \<Rightarrow> ('w, 'i) qt_tree \<Rightarrow> ('w, 'i) notebook \<Rightarrow> fs \<Rightarrow> ('w, 'i) window_result" where
  "onBtnClickedDeleteQuestion E Q nb F =
     on_item Q (\<lambda>item.
       (case tr_parent Q (nb_tree nb) item of
          None \<Rightarrow> (Ret (), nb, F)
        | Some parent_item \<Rightarrow>
            (let gid = toString (tr_data Q (nb_tree nb) parent_item NOTEBOOK_ROLE_ID);
                 qid = toString (tr_data Q (nb_tree nb) item NOTEBOOK_ROLE_ID) in
             on_bank (deleteQuestion E gid qid)
               (\<lambda>(ok, _) nb F. if \<not> ok then (Ret (), notify (DeleteQuestionFailed (bank_message_of nb)) nb, F)
                  else (Ret (), nb\<lparr>nb_tree := tr_removeChild Q parent_item item
                                                (tr_takeChildren Q item (nb_tree nb))\<rparr>, F))
               nb F))) nb F"

definition onBtnClickedModifyQuestion ::
  "env \<Rightarrow> ('w, 'i) qt_tree \<Rightarrow> qt_text \<Rightarrow> qd_event list \<Rightarrow> ('w, 'i) notebook \<Rightarrow> fs \<Rightarrow> ('w, 'i) window_result" where
  "onBtnClickedModifyQuestion E Q T es nb F =
     on_item Q (\<lambda>item.
       (case qd_exec T es (setAnswer T (toString (tr_data Q (nb_tree nb) item NOTEBOOK_ROLE_ANSWER))
                             (setQuestion T (tr_text Q (nb_tree nb) item) new_question_dashboard)) of
          (False, qd) \<Rightarrow> (Ret (), nb, F)
        | (True, qd) \<Rightarrow>
            (case tr_parent Q (nb_tree nb) item of
               None \<Rightarrow> (Ret (), notify NoGroup nb, F)
             | Some parent_item \<Rightarrow>
                 (let gid = toString (tr_data Q (nb_tree nb) parent_item NOTEBOOK_ROLE_ID);
                      qid = toString (tr_data Q (nb_tree nb) item NOTEBOOK_ROLE_ID) in
                  on_bank (updateQuestion E gid qid (getQuestion qd) (getAnswer qd))
                    (\<lambda>(ok, _) nb F. if \<not> ok then (Ret (), notify (UpdateQuestionFailed (bank_message_of nb)) nb, F)
                       else (let w = tr_setText Q item (getQuestion qd) (nb_tree nb);
                                 w = tr_setData Q item ToolTipRole (VString (getQuestion qd)) w;
                                 w = tr_setData Q item NOTEBOOK_ROLE_ANSWER (VString (getAnswer qd)) w;
                                 w = tr_setData Q item ForegroundRole (VBrush (answer_colour (getAnswer qd))) w
                             in (Ret (), nb\<lparr>nb_tree := w\<rparr>, F)))
                    nb F)))) nb F"

text \<open>A press in the tree: \<open>qApp->mouseButtons()\<close> is exactly the left or the right button, or neither.\<close>

datatype mouse = LeftButton | RightButton | OtherButtons

definition menu_for :: "bool \<Rightarrow> bool list" where
  "menu_for is_group = replicate 5 is_group @ replicate 2 (\<not> is_group)"

definition onTreeWidgetItemClicked ::
  "('w, 'i) qt_tree \<Rightarrow> qt_text \<Rightarrow> mouse \<Rightarrow> 'i \<Rightarrow> ('w, 'i) notebook \<Rightarrow> ('w, 'i) notebook" where
  "onTreeWidgetItemClicked Q T mouse item nb =
     (if nb_menu nb = None then nb
      else let val = tr_data Q (nb_tree nb) item UserRole in
        if val = None then nb
        else if mouse = LeftButton then
          (let nb = (if \<not> toBool val then nb\<lparr>nb_edtQuestion := shown_text T (tr_text Q (nb_tree nb) item)\<rparr>
                     else nb\<lparr>nb_edtQuestion := []\<rparr>)
           in nb\<lparr>nb_edtAnswer := []\<rparr>)
        else if mouse \<noteq> RightButton then nb
        else nb\<lparr>nb_menu := Some (menu_for (toBool val)), nb_popups := Suc (nb_popups nb)\<rparr>)"

subsection \<open>Building the tree\<close>

text \<open>The questions of one context: \<open>getQuestions\<close> into an empty vector, an item for each.\<close>

fun question_items :: "('w, 'i) qt_tree \<Rightarrow> 'i \<Rightarrow> CQuestionAnswerParam list \<Rightarrow> 'w \<Rightarrow> 'w" where
  "question_items Q parent_item [] w = w"
| "question_items Q parent_item (qap # qaps) w =
     (case question_item Q parent_item (prm_question qap) (prm_id qap) (prm_answer qap) w of
        (child, w) \<Rightarrow>
          (let w = (if prm_answer qap = [] then tr_setData Q child ForegroundRole (VBrush Red) w else w)
           in question_items Q parent_item qaps (tr_setExpanded Q parent_item w)))"

fun context_items ::
  "('w, 'i) qt_tree \<Rightarrow> 'i \<Rightarrow> CQuestionAnswerImpl option list \<Rightarrow> 'w \<Rightarrow> (fs_error, unit) outcome \<times> 'w" where
  "context_items Q parent_item [] w = (Ret (), w)"
| "context_items Q parent_item (None # qs) w = (Undef, w)"
| "context_items Q parent_item (Some qa # qs) w =
     (case getQuestions qa [] of (_, qaps, _) \<Rightarrow>
        context_items Q parent_item qs (question_items Q parent_item qaps w))"

fun initQuestionTree ::
  "('w, 'i) qt_tree \<Rightarrow> 'i \<Rightarrow> CQuestionGroupParam \<Rightarrow> 'w \<Rightarrow> (fs_error, unit) outcome \<times> 'w"
and group_items ::
  "('w, 'i) qt_tree \<Rightarrow> 'i \<Rightarrow> CQuestionGroupParam list \<Rightarrow> 'w \<Rightarrow> (fs_error, unit) outcome \<times> 'w" where
  "initQuestionTree Q parent_item (Group n i p qs gs) w =
     andthen (group_items Q parent_item gs w) (\<lambda>_ w. context_items Q parent_item qs w) (\<lambda>w. w)"
| "group_items Q parent_item [] w = (Ret (), w)"
| "group_items Q parent_item (g # gs) w =
     (case group_item Q parent_item (grp_name g) (grp_id g) w of
        (child, w) \<Rightarrow>
          andthen (initQuestionTree Q child g w) (\<lambda>_ w. group_items Q parent_item gs w) (\<lambda>w. w))"

text \<open>\<open>dir\<close> is \<open>QCoreApplication::applicationDirPath()\<close>.\<close>

definition window_initQuestionBank ::
  "env \<Rightarrow> ('w, 'i) qt_tree \<Rightarrow> string \<Rightarrow> ('w, 'i) notebook \<Rightarrow> fs \<Rightarrow> (fs_error, bool) outcome \<times> ('w, 'i) notebook \<times> fs" where
  "window_initQuestionBank E Q dir nb F =
     (if nb_bank nb \<noteq> None then (Ret True, nb, F)
      else let strPath = dir @ ''/QuestionBank'' in
        if \<not> alloc_ok E then (Ret False, notify InitFailed nb, F)
        else
          (case init E strPath new_bank F of
             (Ret False, b, F) \<Rightarrow> (Ret False, (notify InitFailed nb)\<lparr>nb_bank := None\<rparr>, F)
           | (Throw e, b, F) \<Rightarrow> (Throw e, nb\<lparr>nb_bank := Some b\<rparr>, F)
           | (Undef, b, F) \<Rightarrow> (Undef, nb\<lparr>nb_bank := Some b\<rparr>, F)
           | (Ret True, b, F) \<Rightarrow>
               (case getQuestionsBank b of
                  (ok, qgp) \<Rightarrow>
                    (if \<not> ok then
                       andthen (uninit b F)
                         (\<lambda>_ (b, F). (Ret False, (notify InitFailed nb)\<lparr>nb_bank := None\<rparr>, F))
                         (\<lambda>(b, F). ((notify InitFailed nb)\<lparr>nb_bank := Some b\<rparr>, F))
                     else
                       (case nb_question nb of
                          None \<Rightarrow> (Undef, nb\<lparr>nb_bank := Some b\<rparr>, F)
                        | Some root_item \<Rightarrow>
                            (case initQuestionTree Q root_item qgp (nb_tree nb) of
                               (r, w) \<Rightarrow>
                                 ((case r of Ret _ \<Rightarrow> Ret True | Throw e \<Rightarrow> Throw e | Undef \<Rightarrow> Undef),
                                  nb\<lparr>nb_bank := Some b, nb_tree := w\<rparr>, F)))))))"

text \<open>The constructor on an empty widget \<open>w\<close>, and the destructor. The name of the root item in UTF-8.\<close>

definition root_text :: string where
  "root_text = utf8_text [0xE9,0xA2,0x98,0xE5,0xBA,0x93]"

definition new_notebook ::
  "env \<Rightarrow> ('w, 'i) qt_tree \<Rightarrow> string \<Rightarrow> 'w \<Rightarrow> fs \<Rightarrow> (fs_error, bool) outcome \<times> ('w, 'i) notebook \<times> fs" where
  "new_notebook E Q dir w F =
     (case tr_newTop Q w of
        (root_item, w) \<Rightarrow>
          (let w = tr_setText Q root_item root_text w;
               w = tr_setData Q root_item ForegroundRole (VBrush Blue) w;
               w = tr_setData Q root_item UserRole (VBool True) w
           in window_initQuestionBank E Q dir
                \<lparr>nb_bank = None, nb_question = Some root_item, nb_menu = Some (replicate 7 True), nb_tree = w,
                 nb_edtQuestion = [], nb_edtAnswer = [], nb_notices = [], nb_popups = 0\<rparr> F))"

definition delete_notebook :: "('w, 'i) notebook \<Rightarrow> fs \<Rightarrow> ('w, 'i) window_result" where
  "delete_notebook nb F =
     andthen (case nb_bank nb of None \<Rightarrow> (Ret (), nb, F)
              | Some b \<Rightarrow> (case uninit b F of
                  (Ret _, _, F) \<Rightarrow> (Ret (), nb\<lparr>nb_bank := None\<rparr>, F)
                | (r, b, F) \<Rightarrow> (r, nb\<lparr>nb_bank := Some b\<rparr>, F)))
       (\<lambda>_ (nb, F). (Ret (), nb\<lparr>nb_question := None, nb_menu := None\<rparr>, F))
       (\<lambda>st. st)"

end
