(* ===== verification/TreeView.thy ===== *)
theory TreeView
  imports MainWindow
begin

text \<open>
  What Qt documents of a \<open>QTreeWidget\<close> with one top-level item: the locale \<open>qt_widget\<close> relates the
  member functions the window calls to the tree that is shown and to the position of an item in
  it (\<open>empty\<close> is a widget without items). It gives the contract of the search in \<open>TreeNavigation\<close>, and a widget whose items are the
  positions themselves meets it.
\<close>

datatype shown = Shown (sh_text: string) (sh_data: "role \<Rightarrow> variant option") (sh_children: "shown list")

definition blank :: shown where
  "blank = Shown [] (\<lambda>_. None) []"

fun shown_at :: "shown \<Rightarrow> nat list \<Rightarrow> shown option" where
  "shown_at x [] = Some x"
| "shown_at x (k # p) = (if k < length (sh_children x) then shown_at (sh_children x ! k) p else None)"

fun change_at :: "nat list \<Rightarrow> (shown \<Rightarrow> shown) \<Rightarrow> shown \<Rightarrow> shown" where
  "change_at [] f x = f x"
| "change_at (k # p) f x =
     Shown (sh_text x) (sh_data x) ((sh_children x)[k := change_at p f (sh_children x ! k)])"

definition put_text :: "string \<Rightarrow> shown \<Rightarrow> shown" where
  "put_text s x = Shown s (sh_data x) (sh_children x)"

definition put_data :: "role \<Rightarrow> variant \<Rightarrow> shown \<Rightarrow> shown" where
  "put_data r v x = Shown (sh_text x) ((sh_data x)(r \<mapsto> v)) (sh_children x)"

definition put_children :: "shown list \<Rightarrow> shown \<Rightarrow> shown" where
  "put_children cs x = Shown (sh_text x) (sh_data x) cs"

lemma put_simps [simp]:
  "sh_text (put_text s x) = s" "sh_data (put_text s x) = sh_data x" "sh_children (put_text s x) = sh_children x"
  "sh_text (put_data r v x) = sh_text x" "sh_data (put_data r v x) = (sh_data x)(r \<mapsto> v)"
  "sh_children (put_data r v x) = sh_children x"
  "sh_text (put_children cs x) = sh_text x" "sh_data (put_children cs x) = sh_data x"
  "sh_children (put_children cs x) = cs"
  "sh_text blank = []" "sh_data blank = (\<lambda>_. None)" "sh_children blank = []"
  by (simp_all add: put_text_def put_data_def put_children_def blank_def)

subsection \<open>Trees and positions\<close>

lemma shown_at_append: "shown_at x (p @ q) = (case shown_at x p of None \<Rightarrow> None | Some y \<Rightarrow> shown_at y q)"
  by (induction p arbitrary: x) auto

lemma shown_at_child:
  "shown_at x (p @ [k]) = Some c \<longleftrightarrow> (\<exists>y. shown_at x p = Some y \<and> k < length (sh_children y) \<and> c = sh_children y ! k)"
  by (auto simp: shown_at_append split: option.splits if_splits)

lemma shown_at_change: "shown_at x p = Some y \<Longrightarrow> shown_at (change_at p f x) p = Some (f y)"
  by (induction p arbitrary: x) (auto split: if_splits)

lemma shown_at_change_below:
  "shown_at x p = Some y \<Longrightarrow> shown_at (change_at p f x) (p @ q) = shown_at (f y) q"
  by (simp add: shown_at_append shown_at_change)

lemma change_at_change: "shown_at x p = Some y \<Longrightarrow> change_at p f (change_at p g x) = change_at p (f \<circ> g) x"
  by (induction p arbitrary: x) (auto split: if_splits)

lemma change_at_append: "shown_at x p = Some y \<Longrightarrow> change_at (p @ q) f x = change_at p (change_at q f) x"
  by (induction p arbitrary: x) (auto split: if_splits)

lemma change_at_cong: "shown_at x p = Some y \<Longrightarrow> f y = g y \<Longrightarrow> change_at p f x = change_at p g x"
  by (induction p arbitrary: x) (auto split: if_splits)

lemma change_at_same: "shown_at x p = Some y \<Longrightarrow> f y = y \<Longrightarrow> change_at p f x = x"
  by (induction p arbitrary: x) (auto split: if_splits)

text \<open>A change that keeps the number of children leaves all positions in the tree.\<close>

lemma shown_at_still:
  assumes "shown_at x p = Some y" "length (sh_children y) \<le> length (sh_children (f y))"
    "\<forall>k < length (sh_children y). sh_children (f y) ! k = sh_children y ! k" "shown_at x q \<noteq> None"
  shows "shown_at (change_at p f x) q \<noteq> None"
  using assms
proof (induction p arbitrary: x q)
  case Nil
  then show ?case by (cases q) (simp_all split: if_splits)
next
  case (Cons k p)
  then have k: "k < length (sh_children x)" "shown_at (sh_children x ! k) p = Some y" by (simp_all split: if_splits)
  show ?case
  proof (cases q)
    case (Cons j r)
    then show ?thesis
      using Cons.IH [OF k(2) Cons.prems(2,3), of r] Cons.prems(4) k(1) by (cases "j = k") (simp_all split: if_splits)
  qed simp
qed

subsection \<open>The contract\<close>

fun item_of :: "shown \<Rightarrow> item" where
  "item_of (Shown t d cs) = Item (toBool (d UserRole)) (map item_of cs)"

lemma item_of_simps [simp]:
  "itm_children (item_of x) = map item_of (sh_children x)" "itm_isGroup (item_of x) = toBool (sh_data x UserRole)"
  by (cases x; simp)+

lemma item_at_item_of: "item_at (item_of x) p = map_option item_of (shown_at x p)"
  by (induction p arbitrary: x) auto

locale qt_widget =
  fixes Q :: "('w, 'i) qt_tree" and tree :: "'w \<Rightarrow> shown" and pos :: "'w \<Rightarrow> 'i \<Rightarrow> nat list" and empty :: "'w \<Rightarrow> bool"
  assumes item_text: "shown_at (tree w) (pos w i) = Some x \<Longrightarrow> tr_text Q w i = sh_text x"
    and item_data: "shown_at (tree w) (pos w i) = Some x \<Longrightarrow> tr_data Q w i r = sh_data x r"
    and parent_top: "pos w i = [] \<Longrightarrow> tr_parent Q w i = None"
    and parent: "shown_at (tree w) (pos w i) \<noteq> None \<Longrightarrow> pos w i = p @ [k] \<Longrightarrow>
      \<exists>j. tr_parent Q w i = Some j \<and> pos w j = p \<and> tr_indexOfChild Q w j i = k"
    and childCount: "shown_at (tree w) (pos w i) = Some x \<Longrightarrow> tr_childCount Q w i = length (sh_children x)"
    and child: "shown_at (tree w) (pos w i) = Some x \<Longrightarrow> k < length (sh_children x) \<Longrightarrow>
      pos w (tr_child Q w i k) = pos w i @ [k]"
    and setText: "shown_at (tree w) (pos w i) \<noteq> None \<Longrightarrow> tree (tr_setText Q i s w) = change_at (pos w i) (put_text s) (tree w)"
      "pos (tr_setText Q i s w) = pos w"
    and setData: "shown_at (tree w) (pos w i) \<noteq> None \<Longrightarrow> tree (tr_setData Q i r v w) = change_at (pos w i) (put_data r v) (tree w)"
      "pos (tr_setData Q i r v w) = pos w"
    and setExpanded: "tree (tr_setExpanded Q i w) = tree w" "pos (tr_setExpanded Q i w) = pos w"
    and setCurrent: "tree (tr_setCurrentItem Q i w) = tree w" "pos (tr_setCurrentItem Q i w) = pos w"
    and newTop: "empty w \<Longrightarrow> tr_newTop Q w = (c, w') \<Longrightarrow> tree w' = blank \<and> pos w' c = []"
    and newItem: "shown_at (tree w) (pos w i) = Some x \<Longrightarrow> tr_newItem Q i w = (c, w') \<Longrightarrow>
      tree w' = change_at (pos w i) (\<lambda>y. put_children (sh_children y @ [blank]) y) (tree w) \<and>
      pos w' c = pos w i @ [length (sh_children x)] \<and>
      (\<forall>j. shown_at (tree w) (pos w j) \<noteq> None \<longrightarrow> pos w' j = pos w j)"
    and takeChildren: "shown_at (tree w) (pos w i) \<noteq> None \<Longrightarrow>
      tree (tr_takeChildren Q i w) = change_at (pos w i) (put_children []) (tree w) \<and>
      (\<forall>j. shown_at (tree (tr_takeChildren Q i w)) (pos w j) \<noteq> None \<longrightarrow> pos (tr_takeChildren Q i w) j = pos w j)"
    and removeChild: "shown_at (tree w) (pos w i) \<noteq> None \<Longrightarrow> pos w i = pos w j @ [k] \<Longrightarrow>
      tree (tr_removeChild Q j i w) = change_at (pos w j) (\<lambda>y. put_children (erase_at k (sh_children y)) y) (tree w)"

sublocale qt_widget \<subseteq> walking: tree_widget "walk_api Q w" "pos w" "item_of (tree w)" for w
proof unfold_locales
  fix i l k
  assume "pos w i = []"
  then show "tw_parent (walk_api Q w) i = None" by (simp add: walk_api_def parent_top)
next
  fix i l k
  assume "item_at (item_of (tree w)) (pos w i) \<noteq> None" "pos w i = l @ [k]"
  then show "\<exists>p. tw_parent (walk_api Q w) i = Some p \<and> pos w p = l \<and> tw_indexOfChild (walk_api Q w) p i = k"
    using parent [of w i l k] by (auto simp: walk_api_def item_at_item_of)
next
  fix i x
  assume "item_at (item_of (tree w)) (pos w i) = Some x"
  then show "tw_childCount (walk_api Q w) i = length (itm_children x)"
    by (auto simp: walk_api_def item_at_item_of childCount)
next
  fix i x k
  assume "item_at (item_of (tree w)) (pos w i) = Some x" "k < length (itm_children x)"
  then show "pos w (tw_child (walk_api Q w) i k) = pos w i @ [k]"
    by (auto simp: walk_api_def item_at_item_of child)
next
  fix i x
  assume "item_at (item_of (tree w)) (pos w i) = Some x"
  then show "tw_isGroup (walk_api Q w) i = itm_isGroup x"
    by (auto simp: walk_api_def item_at_item_of item_data)
qed

subsection \<open>The widget of positions\<close>

text \<open>The tree and the position of the current item.\<close>

type_synonym tree_state = "shown \<times> nat list option"

definition shown_widget :: "(tree_state, nat list) qt_tree" where
  "shown_widget = \<lparr>tr_currentItem = snd, tr_setCurrentItem = (\<lambda>i w. (fst w, Some i)),
     tr_parent = (\<lambda>w p. if p = [] then None else Some (butlast p)),
     tr_childCount = (\<lambda>w p. case shown_at (fst w) p of None \<Rightarrow> 0 | Some x \<Rightarrow> length (sh_children x)),
     tr_child = (\<lambda>w p k. p @ [k]), tr_indexOfChild = (\<lambda>w p c. last c),
     tr_text = (\<lambda>w p. case shown_at (fst w) p of None \<Rightarrow> [] | Some x \<Rightarrow> sh_text x),
     tr_setText = (\<lambda>p s w. (change_at p (put_text s) (fst w), snd w)),
     tr_data = (\<lambda>w p r. case shown_at (fst w) p of None \<Rightarrow> None | Some x \<Rightarrow> sh_data x r),
     tr_setData = (\<lambda>p r v w. (change_at p (put_data r v) (fst w), snd w)),
     tr_newTop = (\<lambda>w. ([], (blank, snd w))),
     tr_newItem = (\<lambda>p w. (p @ [case shown_at (fst w) p of None \<Rightarrow> 0 | Some x \<Rightarrow> length (sh_children x)],
                          (change_at p (\<lambda>y. put_children (sh_children y @ [blank]) y) (fst w), snd w))),
     tr_takeChildren = (\<lambda>p w. (change_at p (put_children []) (fst w), snd w)),
     tr_removeChild = (\<lambda>p c w. (change_at p (\<lambda>y. put_children (erase_at (last c) (sh_children y)) y) (fst w), snd w)),
     tr_setExpanded = (\<lambda>p w. w)\<rparr>"

interpretation shown_widget: qt_widget shown_widget fst "\<lambda>_ p. p" "\<lambda>w. fst w = blank"
  by unfold_locales (auto simp: shown_widget_def)

end
