(* ===== verification/Catalog.thy ===== *)
theory Catalog
  imports TreeView QuestionControl
begin

text \<open>
  What a bank and the tree widget have in common: a catalog of groups, in order, with their ids
  and names, and in each group the questions, in no order. The bank and the shown tree are both
  read as catalogs, and a change at one place of either is a change at one place of its catalog.
\<close>

type_synonym row = "string \<times> string \<times> string"

datatype catalog = Catalog (cat_groups: "(string \<times> string \<times> catalog) list") (cat_questions: "row multiset")

fun cat_change :: "nat list \<Rightarrow> catalog \<Rightarrow> catalog \<Rightarrow> catalog" where
  "cat_change [] d c = d"
| "cat_change (k # l) d c =
     Catalog ((cat_groups c)[k := (fst (cat_groups c ! k), fst (snd (cat_groups c ! k)),
                                   cat_change l d (snd (snd (cat_groups c ! k))))]) (cat_questions c)"

subsection \<open>The bank\<close>

definition question_row :: "QuestionAnswer \<Rightarrow> row" where
  "question_row qa = (qa_id qa, qa_question qa, qa_answer qa)"

definition context_rows :: "CQuestionAnswerImpl option \<Rightarrow> row multiset" where
  "context_rows q = (case q of None \<Rightarrow> {#} | Some s \<Rightarrow> mset (map question_row (questions_of s)))"

definition rows_of :: "CQuestionAnswerImpl option list \<Rightarrow> row multiset" where
  "rows_of qs = sum_list (map context_rows qs)"

lemma rows_of_simps [simp]: "rows_of [] = {#}" "rows_of (q # qs) = context_rows q + rows_of qs"
  by (simp_all add: rows_of_def)

fun bank_catalog :: "CQuestionGroupParam \<Rightarrow> catalog" where
  "bank_catalog (Group n i p qs gs) =
     Catalog (map (\<lambda>g. (grp_id g, grp_name g, bank_catalog g)) gs) (rows_of qs)"

lemma bank_catalog_unfold:
  "cat_groups (bank_catalog g) = map (\<lambda>g. (grp_id g, grp_name g, bank_catalog g)) (grp_groups g)"
  "cat_questions (bank_catalog g) = rows_of (grp_questions g)"
  by (cases g; simp)+

lemma bank_catalog_eqI:
  "grp_groups g = grp_groups h \<Longrightarrow> rows_of (grp_questions g) = rows_of (grp_questions h) \<Longrightarrow> bank_catalog g = bank_catalog h"
  by (cases g; cases h) simp

lemma bank_catalog_put:
  "group_at l g = Some c \<Longrightarrow> (l \<noteq> [] \<longrightarrow> grp_id c' = grp_id c \<and> grp_name c' = grp_name c) \<Longrightarrow>
   bank_catalog (put_group l c' g) = cat_change l (bank_catalog c') (bank_catalog g)"
proof (induction l arbitrary: g)
  case (Cons k l)
  obtain n i p qs gs where g: "g = Group n i p qs gs" by (cases g)
  have k: "k < length gs" "group_at l (gs ! k) = Some c" using Cons.prems(1) g by (auto split: if_splits)
  have e: "grp_id (put_group l c' (gs ! k)) = grp_id (gs ! k)" "grp_name (put_group l c' (gs ! k)) = grp_name (gs ! k)"
    using k(2) Cons.prems(2) by (cases l; simp)+
  show ?case
    using Cons.IH [OF k(2)] Cons.prems(2) k(1) e by (simp add: g put_child_def set_groups_def map_update)
qed simp

subsection \<open>The shown tree\<close>

definition sh_group :: "shown \<Rightarrow> bool" where
  "sh_group x = toBool (sh_data x UserRole)"

definition sh_id :: "shown \<Rightarrow> string" where
  "sh_id x = toString (sh_data x NOTEBOOK_ROLE_ID)"

definition shown_row :: "shown \<Rightarrow> row" where
  "shown_row x = (sh_id x, sh_text x, toString (sh_data x NOTEBOOK_ROLE_ANSWER))"

fun shown_catalog :: "shown \<Rightarrow> catalog" where
  "shown_catalog (Shown t d cs) =
     Catalog (map snd (filter fst (map (\<lambda>c. (sh_group c, sh_id c, sh_text c, shown_catalog c)) cs)))
       (mset (map shown_row (filter (\<lambda>c. \<not> sh_group c) cs)))"

definition shown_entry :: "shown \<Rightarrow> string \<times> string \<times> catalog" where
  "shown_entry c = (sh_id c, sh_text c, shown_catalog c)"

lemma shown_catalog_unfold:
  "cat_groups (shown_catalog x) = map shown_entry (filter sh_group (sh_children x))"
  "cat_questions (shown_catalog x) = mset (map shown_row (filter (\<lambda>c. \<not> sh_group c) (sh_children x)))"
  by (cases x; simp add: filter_map comp_def shown_entry_def)+

lemma shown_catalog_Catalog:
  "shown_catalog x = Catalog (map shown_entry (filter sh_group (sh_children x)))
     (mset (map shown_row (filter (\<lambda>c. \<not> sh_group c) (sh_children x))))"
  using shown_catalog_unfold [of x] by (cases "shown_catalog x") simp

declare shown_catalog.simps [simp del]

text \<open>Only groups have items below them.\<close>

fun wf_shown :: "shown \<Rightarrow> bool" where
  "wf_shown (Shown t d cs) \<longleftrightarrow> (\<forall>c \<in> set cs. wf_shown c \<and> (\<not> toBool (sh_data c UserRole) \<longrightarrow> sh_children c = []))"

lemma wf_shown_iff: "wf_shown x \<longleftrightarrow> (\<forall>c \<in> set (sh_children x). wf_shown c \<and> (\<not> sh_group c \<longrightarrow> sh_children c = []))"
  by (cases x) (simp add: sh_group_def)

declare wf_shown.simps [simp del]

fun all_groups :: "shown \<Rightarrow> nat list \<Rightarrow> bool" where
  "all_groups x [] = True"
| "all_groups x (k # p) = (sh_group (sh_children x ! k) \<and> all_groups (sh_children x ! k) p)"

text \<open>The positions among the groups that belong to a position among all items.\<close>

fun group_path :: "shown \<Rightarrow> nat list \<Rightarrow> nat list" where
  "group_path x [] = []"
| "group_path x (k # p) = length (filter sh_group (take k (sh_children x))) # group_path (sh_children x ! k) p"

lemma all_groups_append:
  "shown_at x p = Some y \<Longrightarrow> all_groups x (p @ q) \<longleftrightarrow> all_groups x p \<and> all_groups y q"
  by (induction p arbitrary: x) (auto split: if_splits)

lemma all_groups_parent:
  "wf_shown x \<Longrightarrow> shown_at x (p @ [k]) = Some c \<Longrightarrow> all_groups x p"
proof (induction p arbitrary: x)
  case (Cons j p)
  let ?c = "sh_children x ! j"
  have j: "j < length (sh_children x)" "shown_at ?c (p @ [k]) = Some c" using Cons.prems(2) by (auto split: if_splits)
  then have c: "?c \<in> set (sh_children x)" by simp
  have "sh_children ?c \<noteq> []" using j(2) by (cases p) (auto split: if_splits)
  moreover have "wf_shown ?c" "\<not> sh_group ?c \<longrightarrow> sh_children ?c = []" using Cons.prems(1) c by (auto simp: wf_shown_iff [of x])
  ultimately show ?case using Cons.IH [OF _ j(2)] by simp
qed simp

lemma wf_shown_at: "wf_shown x \<Longrightarrow> shown_at x p = Some y \<Longrightarrow> wf_shown y"
proof (induction p arbitrary: x)
  case (Cons k p)
  have k: "k < length (sh_children x)" "shown_at (sh_children x ! k) p = Some y" using Cons.prems(2) by (simp_all split: if_splits)
  have "wf_shown (sh_children x ! k)" using Cons.prems(1) k(1) nth_mem unfolding wf_shown_iff [of x] by blast
  then show ?case using Cons.IH k(2) by blast
qed simp

lemma wf_change_at:
  "wf_shown x \<Longrightarrow> shown_at x p = Some y \<Longrightarrow> wf_shown (f y) \<Longrightarrow> (p \<noteq> [] \<longrightarrow> sh_group (f y) \<or> sh_children (f y) = []) \<Longrightarrow>
   all_groups x (butlast p) \<Longrightarrow> wf_shown (change_at p f x)"
proof (induction p arbitrary: x)
  case (Cons k p)
  let ?c = "sh_children x ! k"
  have k: "k < length (sh_children x)" "shown_at ?c p = Some y" using Cons.prems(2) by (auto split: if_splits)
  have c: "wf_shown ?c" using Cons.prems(1) k(1) by (auto simp: wf_shown_iff [of x])
  have a: "all_groups ?c (butlast p)" "p \<noteq> [] \<longrightarrow> sh_group ?c" using Cons.prems(5) by (cases p; simp)+
  have w: "wf_shown (change_at p f ?c)"
    using Cons.IH [OF c k(2) Cons.prems(3) _ a(1)] Cons.prems(4) by simp
  have g: "sh_group (change_at p f ?c) \<or> sh_children (change_at p f ?c) = []"
  proof (cases p)
    case Nil
    then show ?thesis using Cons.prems(4) k(2) by simp
  next
    case (Cons j q)
    then show ?thesis using a(2) by (simp add: sh_group_def)
  qed
  have "wf_shown d \<and> (\<not> sh_group d \<longrightarrow> sh_children d = [])"
    if "d \<in> set ((sh_children x)[k := change_at p f ?c])" for d
  proof -
    have "d = change_at p f ?c \<or> d \<in> set (sh_children x)" using subsetD [OF set_update_subset_insert that] by simp
    then show ?thesis using Cons.prems(1) w g unfolding wf_shown_iff [of x] by blast
  qed
  then have "\<forall>d \<in> set (sh_children (change_at (k # p) f x)). wf_shown d \<and> (\<not> sh_group d \<longrightarrow> sh_children d = [])"
    unfolding change_at.simps shown.sel by blast
  then show ?case by (rule wf_shown_iff [THEN iffD2])
qed simp

lemma filter_update:
  assumes "k < length xs" "P x = P (xs ! k)"
  shows "filter P (xs[k := x]) = (if P (xs ! k) then (filter P xs)[length (filter P (take k xs)) := x] else filter P xs)"
  using assms by (induction xs arbitrary: k) (auto simp: nth_Cons split: nat.splits)

lemma nth_filter_take:
  "k < length xs \<Longrightarrow> P (xs ! k) \<Longrightarrow> length (filter P (take k xs)) < length (filter P xs) \<and>
     filter P xs ! length (filter P (take k xs)) = xs ! k"
  by (induction xs arbitrary: k) (auto simp: nth_Cons split: nat.splits)

lemma shown_catalog_change:
  "shown_at x p = Some y \<Longrightarrow> all_groups x p \<Longrightarrow>
   (p \<noteq> [] \<longrightarrow> sh_group (f y) \<and> sh_id (f y) = sh_id y \<and> sh_text (f y) = sh_text y) \<Longrightarrow>
   shown_catalog (change_at p f x) = cat_change (group_path x p) (shown_catalog (f y)) (shown_catalog x)"
proof (induction p arbitrary: x)
  case (Cons k p)
  let ?c = "sh_children x ! k" and ?j = "length (filter sh_group (take k (sh_children x)))"
  have k: "k < length (sh_children x)" "shown_at ?c p = Some y" using Cons.prems(1) by (auto split: if_splits)
  have g: "sh_group ?c" "all_groups ?c p" using Cons.prems(2) by auto
  have n: "?j < length (filter sh_group (sh_children x))" "filter sh_group (sh_children x) ! ?j = ?c"
    using nth_filter_take [of k "sh_children x" sh_group] k(1) g(1) by auto
  have c: "sh_group (change_at p f ?c)" "sh_id (change_at p f ?c) = sh_id ?c" "sh_text (change_at p f ?c) = sh_text ?c"
    using Cons.prems(3) k(2) g(1) by (cases p; simp add: sh_group_def sh_id_def)+
  show ?case
    using Cons.IH [OF k(2) g(2)] Cons.prems(3) n c g(1) k(1)
      filter_update [of k "sh_children x" sh_group "change_at p f ?c"]
      filter_update [of k "sh_children x" "\<lambda>c. \<not> sh_group c" "change_at p f ?c"]
    by (simp add: shown_catalog_Catalog [of "Shown a b c" for a b c] shown_catalog_unfold [of x] shown_entry_def map_update)
qed simp

subsection \<open>The same catalog\<close>

text \<open>Equal catalogs have the same groups at corresponding places.\<close>

lemma same_group:
  "shown_catalog x = bank_catalog g \<Longrightarrow> shown_at x p = Some y \<Longrightarrow> all_groups x p \<Longrightarrow>
   \<exists>h. group_at (group_path x p) g = Some h \<and> shown_catalog y = bank_catalog h \<and>
       (p \<noteq> [] \<longrightarrow> grp_id h = sh_id y \<and> grp_name h = sh_text y)"
proof (induction p arbitrary: x g)
  case (Cons k p)
  let ?c = "sh_children x ! k" and ?j = "length (filter sh_group (take k (sh_children x)))"
  have k: "k < length (sh_children x)" "shown_at ?c p = Some y" using Cons.prems(2) by (auto split: if_splits)
  have g: "sh_group ?c" "all_groups ?c p" using Cons.prems(3) by auto
  have n: "?j < length (filter sh_group (sh_children x))" "filter sh_group (sh_children x) ! ?j = ?c"
    using nth_filter_take [of k "sh_children x" sh_group] k(1) g(1) by auto
  have m: "map shown_entry (filter sh_group (sh_children x)) = map (\<lambda>g. (grp_id g, grp_name g, bank_catalog g)) (grp_groups g)"
    using Cons.prems(1) shown_catalog_unfold(1) [of x] bank_catalog_unfold(1) [of g] by simp
  then have l: "?j < length (grp_groups g)" using n(1) by (metis length_map)
  have "shown_entry ?c = (grp_id (grp_groups g ! ?j), grp_name (grp_groups g ! ?j), bank_catalog (grp_groups g ! ?j))"
    using arg_cong [OF m, of "\<lambda>xs. xs ! ?j"] n l by simp
  then have e: "grp_id (grp_groups g ! ?j) = sh_id ?c" "grp_name (grp_groups g ! ?j) = sh_text ?c"
    "shown_catalog ?c = bank_catalog (grp_groups g ! ?j)" by (simp_all add: shown_entry_def)
  from Cons.IH [OF e(3) k(2) g(2)] show ?case using l e k(2) by (cases p) auto
qed simp

end
