(* ===== verification/QuestionRows.thy ===== *)
theory QuestionRows
  imports Catalog GroupControl
begin

text \<open>
  The operations on questions, read as changes of the catalog: the group with the given id is
  found at its place in the tree, its file is opened when it has none, and the rows of the group
  change by the one that was added, deleted or replaced.
\<close>

subsection \<open>Where the context is found\<close>

definition context_path :: "CQuestionGroupParam \<Rightarrow> string" where
  "context_path c = grp_path c @ sep @ grp_id c @ ''.dat''"

text \<open>The group with its first context at hand, if it can be had.\<close>

definition opened :: "env \<Rightarrow> fs \<Rightarrow> CQuestionGroupParam \<Rightarrow> CQuestionGroupParam option" where
  "opened E F c =
     (case grp_questions c of
        [] \<Rightarrow> (case qai_open E F (context_path c) True new_impl of
                 (False, _) \<Rightarrow> None | (True, impl) \<Rightarrow> Some (set_questions [Some impl] c))
      | None # _ \<Rightarrow> None
      | Some s # _ \<Rightarrow> Some c)"

lemma find_context_here:
  "findQustionAnswerContext E F (grp_id c) c = (case opened E F c of None \<Rightarrow> (None, c) | Some c' \<Rightarrow> (Some [], c'))"
  by (cases c) (auto simp: opened_def context_path_def set_questions_def split: list.splits option.splits prod.splits bool.splits)

lemma opened_same [simp]:
  assumes "opened E F c = Some c'"
  shows "grp_id c' = grp_id c" "grp_name c' = grp_name c" "grp_groups c' = grp_groups c" "grp_path c' = grp_path c"
  using assms by (auto simp: opened_def split: list.splits option.splits prod.splits bool.splits)

lemma opened_first: "opened E F c = Some c' \<Longrightarrow> \<exists>s qs. grp_questions c' = Some s # qs"
  by (auto simp: opened_def split: list.splits option.splits prod.splits bool.splits)

lemma find_context_any_at:
  assumes "k < length gs" "gid \<noteq> []" "distinct (named_ids_of gs)" "gid \<in> set (named_ids (gs ! k))"
  shows "find_context_any E F gid gs =
    (case findQustionAnswerContext E F gid (gs ! k) of
       (None, g') \<Rightarrow> (None, gs[k := g']) | (Some l, g') \<Rightarrow> (Some (k, l), gs[k := g']))"
  using assms
proof (induction gs arbitrary: k)
  case (Cons g gs)
  show ?case
  proof (cases k)
    case 0
    then have "gid \<notin> set (named_ids_of gs)" using Cons.prems by auto
    from find_context_absent(2) [OF Cons.prems(2) this] 0 show ?thesis
      by (auto split: prod.splits option.splits)
  next
    case (Suc j)
    then have j: "j < length gs" "gid \<in> set (named_ids (gs ! j))" using Cons.prems by auto
    then have "gid \<notin> set (named_ids g)"
      using Cons.prems(3) named_ids_of_nth [OF j(1)] by auto
    from find_context_absent(1) [OF Cons.prems(2) this] Cons.IH [OF j(1) Cons.prems(2) _ j(2)] Cons.prems(3) Suc
    show ?thesis by (auto split: prod.splits option.splits)
  qed
qed simp

lemma find_context_path:
  assumes "distinct (named_ids g)" "group_at l g = Some c" "grp_id c \<noteq> []"
  shows "findQustionAnswerContext E F (grp_id c) g =
    (case opened E F c of None \<Rightarrow> (None, g) | Some c' \<Rightarrow> (Some l, put_group l c' g))"
  using assms
proof (induction l arbitrary: g)
  case Nil
  then show ?case by (simp add: find_context_here split: option.split)
next
  case (Cons k l)
  obtain n i p qs gs where g: "g = Group n i p qs gs" by (cases g)
  with Cons.prems have k: "k < length gs" "group_at l (gs ! k) = Some c" by (auto split: if_splits)
  have d: "distinct (named_ids_of gs)" "distinct (named_ids (gs ! k))"
    using Cons.prems(1) g distinct_named_ids_nth [OF _ k(1)] by (auto simp: named_ids_Group split: if_splits)
  have pk: "grp_id c \<in> set (named_ids (gs ! k))" using group_at_id [OF k(2)] Cons.prems by simp
  then have "grp_id c \<noteq> i" using Cons.prems(1,3) named_ids_of_nth [OF k(1)] g by (auto simp: named_ids_Group)
  moreover have "gs[k := gs ! k] = gs" by simp
  ultimately show ?case
    using Cons.IH [OF d(2) k(2) Cons.prems(3)] find_context_any_at [OF k(1) Cons.prems(3) d(1) pk, of E F] g
    by (auto simp: put_child_def set_groups_def split: option.splits)
qed

subsection \<open>A member of the context\<close>

definition set_first :: "CQuestionAnswerImpl \<Rightarrow> CQuestionGroupParam \<Rightarrow> CQuestionGroupParam" where
  "set_first s c = set_questions ((grp_questions c)[0 := Some s]) c"

lemma put_context_group:
  "group_at l g = Some d \<Longrightarrow> put_context l s (put_group l c g) = put_group l (set_first s c) g"
  by (induction l arbitrary: g) (auto simp: set_first_def put_child_def set_groups_def split: if_splits)

lemma context_at_group: "group_at l g = Some d \<Longrightarrow> context_at l (put_group l c g) = (case grp_questions c of [] \<Rightarrow> None | q # _ \<Rightarrow> q)"
  by (induction l arbitrary: g) (auto split: if_splits list.splits)

text \<open>Nothing is on the disk that the tree does not know: a group without a context has no file.\<close>

definition no_file :: "fs \<Rightarrow> CQuestionGroupParam \<Rightarrow> bool" where
  "no_file F c \<longleftrightarrow> (grp_questions c = [] \<longrightarrow> \<not> fs_exists F (context_path c))"

lemma opened_rows:
  assumes "opened E F c = Some c'" "no_file F c"
  shows "rows_of (grp_questions c') = rows_of (grp_questions c)"
proof (cases "grp_questions c")
  case Nil
  then have "qai_open E F (context_path c) True new_impl = (True, new_impl\<lparr>qai_path := context_path c\<rparr>)"
    using assms(2) by (simp add: no_file_def qai_open_def context_path_def)
  then have "c' = set_questions [Some (new_impl\<lparr>qai_path := context_path c\<rparr>)] c" using assms(1) Nil by (simp add: opened_def)
  then show ?thesis
    using Nil by (simp add: context_rows_def questions_of_def new_impl_def QuestionAnswerList_default_def)
qed (use assms(1) in \<open>auto simp: opened_def split: option.splits\<close>)

text \<open>
  \<open>R ok M N\<close> says how the rows may change; it says nothing of the rows of other contexts.
\<close>

lemma with_context_rows:
  assumes g: "distinct (named_ids (bnk_root b))" "group_at l (bnk_root b) = Some c" "grp_id c \<noteq> []" "no_file F c"
    and run: "with_context E (grp_id c) d f b F = (Ret (ok, r), b', F')"
    and f: "\<And>s s' ok r. f s = Ret ((ok, r), s') \<Longrightarrow> R ok (context_rows (Some s)) (context_rows (Some s'))"
    and R: "\<And>M. R False M M" "\<And>ok M N K. R ok M N \<Longrightarrow> R ok (M + K) (N + K)"
  shows "F' = F \<and> (\<exists>c'. bnk_root b' = put_group l c' (bnk_root b) \<and> grp_id c' = grp_id c \<and> grp_name c' = grp_name c \<and>
    grp_groups c' = grp_groups c \<and> R ok (rows_of (grp_questions c)) (rows_of (grp_questions c')) \<and>
    bnk_mapIds b' = bnk_mapIds b \<and> grp_path c' = grp_path c \<and> (grp_questions c' = [] \<longrightarrow> grp_questions c = []))"
proof -
  have same: "F = F \<and> (\<exists>c'. bnk_root b = put_group l c' (bnk_root b) \<and> grp_id c' = grp_id c \<and> grp_name c' = grp_name c \<and>
    grp_groups c' = grp_groups c \<and> R False (rows_of (grp_questions c)) (rows_of (grp_questions c')) \<and>
    bnk_mapIds b = bnk_mapIds b \<and> grp_path c' = grp_path c \<and> (grp_questions c' = [] \<longrightarrow> grp_questions c = []))"
    using put_group_same [OF g(2)] R(1) by (intro conjI refl exI [of _ c]) simp_all
  note find = find_context_path [OF g(1-3), of E F]
  show ?thesis
  proof (cases "has_key (grp_id c) (bnk_mapIds b)")
    case False
    then show ?thesis using run same by (auto simp: with_context_def)
  next
    case True
    show ?thesis
    proof (cases "opened E F c")
      case None
      then show ?thesis using run same True find by (auto simp: with_context_def)
    next
      case (Some c1)
      obtain s qs where s: "grp_questions c1 = Some s # qs" using opened_first [OF Some] by blast
      have w: "context_at l (put_group l c1 (bnk_root b)) = Some s" using context_at_group [OF g(2)] s by simp
      with run True find Some obtain s' where s': "f s = Ret ((ok, r), s')" "F' = F"
        "b' = b\<lparr>bnk_root := put_context l s' (put_group l c1 (bnk_root b))\<rparr>"
        by (auto simp: with_context_def split: outcome.splits)
      have "R ok (rows_of (grp_questions c1)) (rows_of (grp_questions (set_first s' c1)))"
        using R(2) [OF f [OF s'(1)], of "rows_of qs"] s by (simp add: set_first_def)
      then show ?thesis
        using s' put_context_group [OF g(2)] opened_same [OF Some] opened_rows [OF Some g(4)]
          s
        by (intro conjI exI [of _ "set_first s' c1"]) (simp_all add: set_first_def)
    qed
  qed
qed

subsection \<open>The rows of a context\<close>

lemma context_rows_with [simp]:
  "context_rows (Some (with_questions xs s)) = mset (map question_row xs)"
  "context_rows (Some (s\<lparr>qai_error := e\<rparr>)) = context_rows (Some s)"
  by (simp_all add: context_rows_def)

definition added :: "row \<Rightarrow> bool \<Rightarrow> row multiset \<Rightarrow> row multiset \<Rightarrow> bool" where
  "added r ok M N \<longleftrightarrow> N = (if ok then add_mset r M else M)"

definition deleted :: "string \<Rightarrow> bool \<Rightarrow> row multiset \<Rightarrow> row multiset \<Rightarrow> bool" where
  "deleted qid ok M N \<longleftrightarrow> (if ok then \<exists>c. M = add_mset (qid, c) N else N = M)"

definition replaced :: "row \<Rightarrow> bool \<Rightarrow> row multiset \<Rightarrow> row multiset \<Rightarrow> bool" where
  "replaced r ok M N \<longleftrightarrow> (if ok then \<exists>c K. M = add_mset (fst r, c) K \<and> N = add_mset r K else N = M)"

lemmas row_changes = added_def deleted_def replaced_def

lemma add_rows:
  "qai_addQuestion E p s = (ok, s') \<Longrightarrow>
     added (prm_id p, prm_question p, prm_answer p) ok (context_rows (Some s)) (context_rows (Some s'))"
  by (cases "qai_path s = []")
     (auto simp: not_open addQuestion_eq added_def question_row_def context_rows_def [of "Some s"] split: option.splits)

lemma mset_remove_nth: "i < length xs \<Longrightarrow> mset xs = add_mset (xs ! i) (mset (swap_remove i xs))"
  by (simp add: mset_swap_remove)

lemma delete_rows:
  assumes "qai_deleteQuestion E qid s = Ret (ok, s')"
  shows "deleted qid ok (context_rows (Some s)) (context_rows (Some s'))"
proof (cases "qai_path s = [] \<or> first_with qa_id qid (questions_of s) = None")
  case True
  then show ?thesis using assms by (cases "qai_path s = []") (auto simp: not_open deleteQuestion_eq deleted_def)
next
  case False
  then obtain q where q: "first_with qa_id qid (questions_of s) = Some q" by auto
  let ?i = "find_question qid (questions_of s)"
  have i: "?i < length (questions_of s)" "questions_of s ! ?i = q" "qa_id q = qid"
    using q by (auto simp: keyed find_question_def dest: first_with_SomeD)
  have "context_rows (Some s) = add_mset (question_row q) (mset (map question_row (swap_remove ?i (questions_of s))))"
    using mset_remove_nth [of ?i "map question_row (questions_of s)"] i by (simp add: context_rows_def swap_remove_map)
  then show ?thesis
    using assms False q i(3) by (auto simp: deleteQuestion_eq deleted_def question_row_def)
qed

lemma update_rows:
  assumes "qai_updateQuestion E qid p s = Ret (ok, s')"
  shows "replaced (prm_id p, prm_question p, prm_answer p) ok (context_rows (Some s)) (context_rows (Some s'))"
proof (cases "qai_path s = [] \<or> prm_id p \<noteq> qid \<or> first_with qa_id qid (questions_of s) = None")
  case True
  then show ?thesis
    using assms by (cases "qai_path s = []"; cases "prm_id p = qid")
      (auto simp: not_open updateQuestion_eq updateQuestion_mismatch replaced_def)
next
  case False
  then obtain q where q: "first_with qa_id qid (questions_of s) = Some q" by auto
  let ?i = "find_question qid (questions_of s)"
  let ?q = "q\<lparr>qa_group := prm_group p, qa_question := prm_question p, qa_answer := prm_answer p\<rparr>"
  have i: "?i < length (questions_of s)" "questions_of s ! ?i = q" "qa_id q = qid"
    using q by (auto simp: keyed find_question_def dest: first_with_SomeD)
  have "mset (map question_row ((questions_of s)[?i := ?q])) =
      add_mset (question_row ?q) (context_rows (Some s) - {#question_row q#})"
    using i by (simp add: context_rows_def map_update mset_update)
  moreover have "question_row q \<in># context_rows (Some s)"
    using i nth_mem [of ?i "questions_of s"] by (auto simp: context_rows_def)
  ultimately show ?thesis
    using assms False q i(3)
    by (auto simp: updateQuestion_eq replaced_def question_row_def intro!: exI [of _ "context_rows (Some s) - {#question_row q#}"])
       (metis insert_DiffM)
qed

end
