(* ===== verification/WindowMirror.thy ===== *)
theory WindowMirror
  imports QuestionRows
begin

text \<open>
  The tree in the window mirrors the bank: it is built from the bank's groups and questions, and
  the slots change both in the same way. The widget is any that meets \<open>qt_widget\<close>.
\<close>

definition mirrors :: "shown \<Rightarrow> CQuestionBankImpl \<Rightarrow> bool" where
  "mirrors x b \<longleftrightarrow> wf_shown x \<and> sh_id x = [] \<and> shown_catalog x = bank_catalog (bnk_root b)"

definition append_child :: "shown \<Rightarrow> shown \<Rightarrow> shown" where
  "append_child d y = put_children (sh_children y @ [d]) y"

definition question_node :: "string \<Rightarrow> string \<Rightarrow> string \<Rightarrow> shown" where
  "question_node question qid answer =
     put_data NOTEBOOK_ROLE_ANSWER (VString answer) (put_data NOTEBOOK_ROLE_ID (VString qid)
       (put_data UserRole (VBool False) (put_data ToolTipRole (VString question) (put_text question blank))))"

definition group_node :: "string \<Rightarrow> string \<Rightarrow> shown" where
  "group_node name gid =
     put_data NOTEBOOK_ROLE_ID (VString gid) (put_data UserRole (VBool True)
       (put_data ToolTipRole (VString name) (put_text name blank)))"

text \<open>Colours and tool tips are not part of the catalog.\<close>

definition same_item :: "shown \<Rightarrow> shown \<Rightarrow> bool" where
  "same_item x y \<longleftrightarrow> sh_group x = sh_group y \<and> shown_row x = shown_row y \<and> shown_catalog x = shown_catalog y \<and>
     wf_shown x = wf_shown y \<and> (sh_children x = [] \<longleftrightarrow> sh_children y = [])"

lemma node_simps [simp]:
  "sh_group (question_node question qid answer) = False" "shown_row (question_node question qid answer) = (qid, question, answer)"
  "sh_children (question_node question qid answer) = []"
  "sh_group (group_node name gid)" "sh_id (group_node name gid) = gid" "sh_text (group_node name gid) = name"
  "sh_children (group_node name gid) = []"
  by (simp_all add: question_node_def group_node_def sh_group_def shown_row_def sh_id_def)

lemma wf_leaf: "sh_children x = [] \<Longrightarrow> wf_shown x"
  by (simp add: wf_shown_iff [of x])

lemma catalog_leaf: "sh_children x = [] \<Longrightarrow> shown_catalog x = Catalog [] {#}"
  by (simp add: shown_catalog_Catalog [of x])

lemma put_data_item [simp]:
  "sh_children (put_data r v x) = sh_children x" "wf_shown (put_data r v x) = wf_shown x"
  "shown_catalog (put_data r v x) = shown_catalog x"
  "sh_children (put_text s x) = sh_children x" "wf_shown (put_text s x) = wf_shown x"
  "shown_catalog (put_text s x) = shown_catalog x"
  by (simp_all add: wf_shown_iff [of "put_data r v x"] wf_shown_iff [of "put_text s x"] wf_shown_iff [of x]
      shown_catalog_Catalog [of "put_data r v x"] shown_catalog_Catalog [of "put_text s x"] shown_catalog_Catalog [of x])

lemma put_data_colour [simp]:
  "sh_group (put_data ForegroundRole v x) = sh_group x" "shown_row (put_data ForegroundRole v x) = shown_row x"
  "sh_id (put_data ForegroundRole v x) = sh_id x"
  by (simp_all add: sh_group_def shown_row_def sh_id_def)

lemma append_child_simps [simp]:
  "sh_text (append_child d y) = sh_text y" "sh_data (append_child d y) = sh_data y"
  "sh_children (append_child d y) = sh_children y @ [d]" "sh_group (append_child d y) = sh_group y"
  "sh_id (append_child d y) = sh_id y"
  by (simp_all add: append_child_def sh_group_def sh_id_def)

lemma wf_append_child: "wf_shown y \<Longrightarrow> wf_shown d \<Longrightarrow> sh_group d \<or> sh_children d = [] \<Longrightarrow> wf_shown (append_child d y)"
  unfolding wf_shown_iff [of y] wf_shown_iff [of "append_child d y"] by auto

lemma catalog_append_question:
  "\<not> sh_group d \<Longrightarrow> shown_catalog (append_child d y) =
     Catalog (cat_groups (shown_catalog y)) (add_mset (shown_row d) (cat_questions (shown_catalog y)))"
  by (simp add: shown_catalog_Catalog [of "append_child d y"] shown_catalog_unfold)

lemma catalog_append_group:
  "sh_group d \<Longrightarrow> shown_catalog (append_child d y) =
     Catalog (cat_groups (shown_catalog y) @ [shown_entry d]) (cat_questions (shown_catalog y))"
  by (simp add: shown_catalog_Catalog [of "append_child d y"] shown_catalog_unfold)

text \<open>A change of one group on both sides.\<close>

lemma mirrors_change:
  assumes "mirrors x b" "shown_at x p = Some y" "all_groups x p"
    and "group_at (group_path x p) (bnk_root b) = Some c" "bnk_root b' = put_group (group_path x p) c' (bnk_root b)"
    and "grp_id c' = grp_id c" "grp_name c' = grp_name c"
    and "sh_group (f y) = sh_group y" "sh_id (f y) = sh_id y" "sh_text (f y) = sh_text y"
    and "wf_shown (f y)" "shown_catalog (f y) = bank_catalog c'"
  shows "mirrors (change_at p f x) b'"
proof -
  have g: "p \<noteq> [] \<Longrightarrow> sh_group y" using assms(2,3)
  proof (induction p arbitrary: x)
    case (Cons k p)
    then show ?case by (cases p) (auto split: if_splits)
  qed simp
  have "all_groups x (butlast p)"
  proof (cases p rule: rev_cases)
    case (snoc q k)
    then obtain z where "shown_at x q = Some z" using assms(2) shown_at_append [of x q "[k]"] by (auto split: option.splits)
    then show ?thesis using assms(3) all_groups_append [of x q z "[k]"] snoc by simp
  qed simp
  then have "wf_shown (change_at p f x)"
    using wf_change_at [of x p y f] assms(1,2,8,11) g by (auto simp: mirrors_def)
  moreover have "shown_catalog (change_at p f x) = bank_catalog (bnk_root b')"
    using shown_catalog_change [OF assms(2,3), of f] bank_catalog_put [OF assms(4), of c'] assms(1,5-12) g
    by (auto simp: mirrors_def)
  moreover have "sh_id (change_at p f x) = []"
    using assms(1,2,9) by (cases p) (auto simp: mirrors_def sh_id_def)
  ultimately show ?thesis by (simp add: mirrors_def)
qed

lemma bank_catalog_rows:
  "grp_groups c' = grp_groups c \<Longrightarrow> bank_catalog c' = Catalog (cat_groups (bank_catalog c)) (rows_of (grp_questions c'))"
  by (cases c; cases c') simp

subsection \<open>New items in the widget\<close>

lemma change_child:
  assumes "shown_at x p = Some y" "n = length (sh_children y)"
  shows "change_at (p @ [n]) g (change_at p (append_child d) x) = change_at p (append_child (g d)) x"
    "shown_at (change_at p (append_child d) x) (p @ [n]) = Some d"
proof -
  show "shown_at (change_at p (append_child d) x) (p @ [n]) = Some d"
    using shown_at_change_below [OF assms(1)] assms(2) by simp
  have "change_at (p @ [n]) g (change_at p (append_child d) x) = change_at p (change_at [n] g) (change_at p (append_child d) x)"
    using change_at_append [OF shown_at_change [OF assms(1)]] by simp
  also have "\<dots> = change_at p (change_at [n] g \<circ> append_child d) x" by (rule change_at_change [OF assms(1)])
  also have "\<dots> = change_at p (append_child (g d)) x"
    using assms(2) by (intro change_at_cong [OF assms(1)]) (simp add: append_child_def put_children_def)
  finally show "change_at (p @ [n]) g (change_at p (append_child d) x) = change_at p (append_child (g d)) x" .
qed

context qt_widget
begin

text \<open>\<open>c\<close> is the last child, \<open>d\<close>, of the item at \<open>p\<close> in a tree that was \<open>x\<close> before.\<close>

definition has_new_child :: "shown \<Rightarrow> nat list \<Rightarrow> 'i \<Rightarrow> shown \<Rightarrow> 'w \<Rightarrow> bool" where
  "has_new_child x p c d w \<longleftrightarrow> (\<exists>y. shown_at x p = Some y \<and> pos w c = p @ [length (sh_children y)]) \<and>
     tree w = change_at p (append_child d) x"

lemma new_child:
  assumes "shown_at (tree w) (pos w i) = Some y" "tr_newItem Q i w = (c, w')"
  shows "has_new_child (tree w) (pos w i) c blank w'"
    and "\<And>j. shown_at (tree w) (pos w j) \<noteq> None \<Longrightarrow> pos w' j = pos w j"
  using newItem [OF assms] assms(1) by (auto simp: has_new_child_def append_child_def [abs_def])

lemma set_child:
  assumes "has_new_child x p c d w"
  shows "has_new_child x p c (put_text s d) (tr_setText Q c s w)"
    and "has_new_child x p c (put_data r v d) (tr_setData Q c r v w)"
    and "has_new_child x p c d (tr_setExpanded Q i w)"
proof -
  obtain y where y: "shown_at x p = Some y" "pos w c = p @ [length (sh_children y)]" "tree w = change_at p (append_child d) x"
    using assms by (auto simp: has_new_child_def)
  have v: "shown_at (tree w) (pos w c) \<noteq> None" using change_child(2) [OF y(1) refl] y by simp
  show "has_new_child x p c (put_text s d) (tr_setText Q c s w)"
    using y setText(1) [OF v] setText(2) change_child(1) [OF y(1) refl] by (simp add: has_new_child_def)
  show "has_new_child x p c (put_data r v d) (tr_setData Q c r v w)" for r v
    using y setData(1) [OF v] setData(2) change_child(1) [OF y(1) refl] by (simp add: has_new_child_def)
  show "has_new_child x p c d (tr_setExpanded Q i w)"
    using assms setExpanded by (simp add: has_new_child_def)
qed

lemma question_item_tree:
  assumes "shown_at (tree w) (pos w i) = Some y" "question_item Q i question qid answer w = (c, w')"
  shows "has_new_child (tree w) (pos w i) c (question_node question qid answer) w'"
    and "\<And>j. shown_at (tree w) (pos w j) \<noteq> None \<Longrightarrow> pos w' j = pos w j"
proof -
  obtain w1 where w1: "tr_newItem Q i w = (c, w1)"
    using assms(2) by (auto simp: question_item_def Let_def split: prod.splits)
  note n = new_child [OF assms(1) w1]
  have w': "w' = tr_setData Q c NOTEBOOK_ROLE_ANSWER (VString answer) (tr_setData Q c NOTEBOOK_ROLE_ID (VString qid)
      (tr_setData Q c UserRole (VBool False) (tr_setData Q c ToolTipRole (VString question) (tr_setText Q c question w1))))"
    using assms(2) w1 by (simp add: question_item_def Let_def)
  show "has_new_child (tree w) (pos w i) c (question_node question qid answer) w'"
    unfolding w' question_node_def by (intro set_child n(1))
  show "\<And>j. shown_at (tree w) (pos w j) \<noteq> None \<Longrightarrow> pos w' j = pos w j"
    using n(2) unfolding w' by (simp add: setText(2) setData(2))
qed

lemma group_item_tree:
  assumes "shown_at (tree w) (pos w i) = Some y" "group_item Q i name gid w = (c, w')"
  shows "has_new_child (tree w) (pos w i) c (group_node name gid) w'"
    and "\<And>j. shown_at (tree w) (pos w j) \<noteq> None \<Longrightarrow> pos w' j = pos w j"
proof -
  obtain w1 where w1: "tr_newItem Q i w = (c, w1)"
    using assms(2) by (auto simp: group_item_def Let_def split: prod.splits)
  note n = new_child [OF assms(1) w1]
  have w': "w' = tr_setExpanded Q i (tr_setData Q c NOTEBOOK_ROLE_ID (VString gid)
      (tr_setData Q c UserRole (VBool True) (tr_setData Q c ToolTipRole (VString name) (tr_setText Q c name w1))))"
    using assms(2) w1 by (simp add: group_item_def Let_def)
  show "has_new_child (tree w) (pos w i) c (group_node name gid) w'"
    unfolding w' group_node_def by (intro set_child n(1))
  show "\<And>j. shown_at (tree w) (pos w j) \<noteq> None \<Longrightarrow> pos w' j = pos w j"
    using n(2) unfolding w' by (simp add: setText(2) setData(2) setExpanded)
qed

end

end
