(* ===== verification/QuestionSlots.thy ===== *)
theory QuestionSlots
  imports WindowMirror
begin

text \<open>
  The three slots for questions: what they change in the window they change in the bank, so the
  tree goes on mirroring the bank, whatever the bank reports.
\<close>

subsection \<open>The bank behind a window\<close>

text \<open>A property of every group of a tree.\<close>

fun every :: "(CQuestionGroupParam \<Rightarrow> bool) \<Rightarrow> CQuestionGroupParam \<Rightarrow> bool" where
  "every P (Group n i p qs gs) \<longleftrightarrow> P (Group n i p qs gs) \<and> (\<forall>g \<in> set gs. every P g)"

lemma every_unfold: "every P g \<longleftrightarrow> P g \<and> (\<forall>h \<in> set (grp_groups g). every P h)"
  by (cases g) simp

lemma every_at: "every P g \<Longrightarrow> group_at l g = Some c \<Longrightarrow> P c"
proof (induction l arbitrary: g)
  case (Cons k l)
  then have "k < length (grp_groups g)" "group_at l (grp_groups g ! k) = Some c" by (auto split: if_splits)
  then show ?case using Cons.IH [of "grp_groups g ! k"] Cons.prems(1) by (simp add: every_unfold [of P g])
qed (simp add: every_unfold [of P c])

lemma every_put:
  "every P g \<Longrightarrow> group_at l g = Some c \<Longrightarrow> P c' \<Longrightarrow> grp_groups c' = grp_groups c \<Longrightarrow>
   (\<And>h k d. P h \<Longrightarrow> P (put_child k d h)) \<Longrightarrow> every P (put_group l c' g)"
proof (induction l arbitrary: g)
  case Nil
  then show ?case by (auto simp: every_unfold [of P c'] every_unfold [of P c])
next
  case (Cons k l)
  have k: "k < length (grp_groups g)" "group_at l (grp_groups g ! k) = Some c" using Cons.prems(2) by (auto split: if_splits)
  let ?d = "put_group l c' (grp_groups g ! k)"
  have d: "every P ?d" using Cons.IH [OF _ k(2) Cons.prems(3-5)] Cons.prems(1) k(1) by (simp add: every_unfold [of P g])
  have "every P h" if "h \<in> set ((grp_groups g)[k := ?d])" for h
    using subsetD [OF set_update_subset_insert that] d Cons.prems(1) by (auto simp: every_unfold [of P g])
  then show ?case
    using Cons.prems(1,5) by (simp add: every_unfold [of P g] every_unfold [of P "put_child k ?d g"])
qed

text \<open>No two questions of a group have one id.\<close>

definition distinct_rows :: "row multiset \<Rightarrow> bool" where
  "distinct_rows M \<longleftrightarrow> (\<forall>q. count (image_mset fst M) q \<le> 1)"

text \<open>
  Group ids name one group each, and the empty one none; a group without a context has no file
  either; question ids are unique in their group.
\<close>

definition bank_settled :: "fs \<Rightarrow> CQuestionBankImpl \<Rightarrow> bool" where
  "bank_settled F b \<longleftrightarrow> distinct (named_ids (bnk_root b)) \<and> \<not> has_key [] (bnk_mapIds b) \<and>
     every (\<lambda>g. no_file F g \<and> distinct_rows (rows_of (grp_questions g))) (bnk_root b)"

lemma settled_at:
  "bank_settled F b \<Longrightarrow> group_at l (bnk_root b) = Some c \<Longrightarrow> no_file F c \<and> distinct_rows (rows_of (grp_questions c))"
  using every_at unfolding bank_settled_def by fastforce

lemma settled_put:
  assumes "bank_settled F b" "group_at l (bnk_root b) = Some c" "bnk_root b' = put_group l c' (bnk_root b)"
    and "grp_id c' = grp_id c" "grp_groups c' = grp_groups c" "grp_path c' = grp_path c"
    and "grp_questions c' = [] \<longrightarrow> grp_questions c = []" "distinct_rows (rows_of (grp_questions c'))"
    and "bnk_mapIds b' = bnk_mapIds b"
  shows "bank_settled F b'"
proof -
  have "named_ids c' = named_ids c" using named_ids_unfold [of c] named_ids_unfold [of c'] assms(4,5) by simp
  then have "mset (named_ids (put_group l c' (bnk_root b))) = mset (named_ids (bnk_root b))"
    using named_ids_put_group [OF assms(2), of c'] by simp
  then have "distinct (named_ids (bnk_root b'))"
    using assms(1,3) mset_eq_imp_distinct_iff by (fastforce simp: bank_settled_def)
  moreover have "no_file F c'" using settled_at [OF assms(1,2)] assms(4,6,7) by (auto simp: no_file_def context_path_def)
  then have "every (\<lambda>g. no_file F g \<and> distinct_rows (rows_of (grp_questions g))) (put_group l c' (bnk_root b))"
    using assms(1,5,8)
    by (intro every_put [OF _ assms(2)])
      (auto simp: bank_settled_def no_file_def context_path_def put_child_def set_groups_def)
  ultimately show ?thesis using assms(1,3,9) by (simp add: bank_settled_def)
qed

lemma settled_same:
  "bank_settled F b \<Longrightarrow> bnk_root b' = bnk_root b \<Longrightarrow> bnk_mapIds b' = bnk_mapIds b \<Longrightarrow> bank_settled F b'"
  by (simp add: bank_settled_def)

lemma distinct_rows_unique:
  assumes "distinct_rows M" "M = add_mset (q, c) N" "M = add_mset (q, d) K"
  shows "c = d \<and> N = K"
proof (rule ccontr)
  assume n: "\<not> (c = d \<and> N = K)"
  then have "c \<noteq> d" using assms(2,3) by auto
  then have "(q, d) \<in># N" using assms(2,3) by (metis add_mset_remove_trivial_eq insert_noteq_member prod.inject)
  then obtain L where "N = add_mset (q, d) L" by (metis insert_DiffM)
  then have "2 \<le> count (image_mset fst M) q" using assms(2) by simp
  then show False using assms(1) unfolding distinct_rows_def by (metis not_less_eq_eq one_add_one plus_1_eq_Suc)
qed

lemma distinct_rows_changes:
  assumes "distinct_rows M"
  shows "added r ok M N \<Longrightarrow> fst r \<notin># image_mset fst M \<Longrightarrow> distinct_rows N"
    "deleted q ok M N \<Longrightarrow> distinct_rows N" "replaced r ok M N \<Longrightarrow> distinct_rows N"
proof -
  assume "added r ok M N" "fst r \<notin># image_mset fst M"
  then have "N = (if ok then add_mset r M else M)" "count (image_mset fst M) (fst r) = 0"
    by (simp_all only: added_def not_in_iff)
  then show "distinct_rows N" using assms by (simp add: distinct_rows_def)
next
  assume "deleted q ok M N"
  then have "image_mset fst N \<subseteq># image_mset fst M" by (cases ok) (auto simp: deleted_def)
  then have "count (image_mset fst N) i \<le> count (image_mset fst M) i" for i by (rule mset_subset_eq_count)
  then show "distinct_rows N" using assms unfolding distinct_rows_def by (meson le_trans)
next
  assume "replaced r ok M N"
  then have "image_mset fst N = image_mset fst M" by (auto simp: replaced_def split: if_splits)
  then show "distinct_rows N" using assms by (simp add: distinct_rows_def)
qed

subsection \<open>Calls of the bank on the group of an item\<close>

text \<open>\<open>R\<close> is the change of the rows of the group; a call for the root, which has no id, is refused.\<close>

lemma question_call:
  assumes m: "mirrors x b" and b: "bank_settled F b"
    and p: "shown_at x p = Some y" "all_groups x p"
    and run: "with_context E (sh_id y) d f b F = (Ret (ok, r), b', F')"
    and f: "\<And>s s' ok r. f s = Ret ((ok, r), s') \<Longrightarrow> R ok (context_rows (Some s)) (context_rows (Some s'))"
    and R: "\<And>M. R False M M" "\<And>ok M N K. R ok M N \<Longrightarrow> R ok (M + K) (N + K)"
    and D: "\<And>N. R ok (cat_questions (shown_catalog y)) N \<Longrightarrow> distinct_rows (cat_questions (shown_catalog y)) \<Longrightarrow> distinct_rows N"
  shows "F' = F \<and> bank_settled F b' \<and> distinct_rows (cat_questions (shown_catalog y)) \<and>
    (\<exists>c c'. group_at (group_path x p) (bnk_root b) = Some c \<and>
    bnk_root b' = put_group (group_path x p) c' (bnk_root b) \<and> grp_id c' = grp_id c \<and> grp_name c' = grp_name c \<and>
    grp_groups c' = grp_groups c \<and> shown_catalog y = bank_catalog c \<and>
    R ok (cat_questions (shown_catalog y)) (rows_of (grp_questions c')))"
proof -
  have s: "shown_catalog x = bank_catalog (bnk_root b)" using m by (simp add: mirrors_def)
  obtain c where c: "group_at (group_path x p) (bnk_root b) = Some c" "shown_catalog y = bank_catalog c"
    "p \<noteq> [] \<longrightarrow> grp_id c = sh_id y" using same_group [OF s p] by blast
  have q: "cat_questions (shown_catalog y) = rows_of (grp_questions c)" using c(2) bank_catalog_unfold(2) by simp
  note st = settled_at [OF b c(1)]
  show ?thesis
  proof (cases "sh_id y = []")
    case True
    then have r: "b' = bank_message E (''Found group id '' @ quoted_s @ '' failed'') [[]] b" "F' = F" "ok = False"
      using run b by (auto simp: with_context_def bank_settled_def)
    then have "bank_settled F b'" using settled_same [OF b] by simp
    then show ?thesis using r c q st R(1) put_group_same [OF c(1)] by (auto intro!: exI [of _ c])
  next
    case False
    then have i: "grp_id c = sh_id y" using c(3) m p(1) by (cases p) (auto simp: mirrors_def)
    have d: "distinct (named_ids (bnk_root b))" using b by (simp add: bank_settled_def)
    from with_context_rows [OF d c(1) _ conjunct1 [OF st], where f = f and R = R and E = E] run f R i False
    obtain c' where c': "F' = F" "bnk_root b' = put_group (group_path x p) c' (bnk_root b)" "grp_id c' = grp_id c"
      "grp_name c' = grp_name c" "grp_groups c' = grp_groups c" "R ok (rows_of (grp_questions c)) (rows_of (grp_questions c'))"
      "bnk_mapIds b' = bnk_mapIds b" "grp_path c' = grp_path c" "grp_questions c' = [] \<longrightarrow> grp_questions c = []"
      by metis
    have "bank_settled F b'"
      using settled_put [OF b c(1) c'(2,3,5,8,9) _ c'(7)] D [of "rows_of (grp_questions c')"] c'(6) q st by simp
    then show ?thesis using c' c q st by auto
  qed
qed

lemma mirrors_same_rows:
  assumes "mirrors x b" "group_at l (bnk_root b) = Some c" "bnk_root b' = put_group l c' (bnk_root b)"
    "grp_id c' = grp_id c" "grp_name c' = grp_name c" "grp_groups c' = grp_groups c"
    "shown_catalog y = bank_catalog c" "rows_of (grp_questions c') = cat_questions (shown_catalog y)"
  shows "mirrors x b'"
proof -
  have "bank_catalog c' = bank_catalog c"
    using assms(6-8) by (intro bank_catalog_eqI) (simp_all add: bank_catalog_unfold)
  then have "bank_catalog (bnk_root b') = bank_catalog (bnk_root b)"
    using bank_catalog_put [OF assms(2), of c'] bank_catalog_put [OF assms(2), of c] put_group_same [OF assms(2)] assms(3-5)
    by simp
  then show ?thesis using assms(1) by (simp add: mirrors_def)
qed

lemma row_changes_R:
  "added r False M M" "deleted q False M M" "replaced r False M M"
  "added r ok M N \<Longrightarrow> added r ok (M + K) (N + K)"
  "deleted q ok M N \<Longrightarrow> deleted q ok (M + K) (N + K)"
  "replaced r ok M N \<Longrightarrow> replaced r ok (M + K) (N + K)"
proof -
  show "replaced r ok M N \<Longrightarrow> replaced r ok (M + K) (N + K)"
  proof (cases ok)
    case True
    assume "replaced r ok M N"
    then obtain c L where "M = add_mset (fst r, c) L" "N = add_mset r L" using True by (auto simp: replaced_def)
    then show ?thesis using True by (auto simp: replaced_def intro!: exI [of _ "snd c"] exI [of _ "fst c"] exI [of _ "L + K"])
  qed (simp add: replaced_def)
qed (auto simp: row_changes)

lemma no_out_Ret: "no_out r = Ret ((ok, u), s) \<longleftrightarrow> r = Ret (ok, s)"
  by (cases r rule: no_out.cases) auto

lemma add_call:
  assumes "mirrors x b" "bank_settled F b" "shown_at x p = Some y" "all_groups x p"
    "addQuestion E (sh_id y) uid q a b F = (Ret (ok, u), b', F')" "uid \<notin># image_mset fst (cat_questions (shown_catalog y))"
  shows "F' = F \<and> bank_settled F b' \<and> distinct_rows (cat_questions (shown_catalog y)) \<and>
    (\<exists>c c'. group_at (group_path x p) (bnk_root b) = Some c \<and>
    bnk_root b' = put_group (group_path x p) c' (bnk_root b) \<and> grp_id c' = grp_id c \<and> grp_name c' = grp_name c \<and>
    grp_groups c' = grp_groups c \<and> shown_catalog y = bank_catalog c \<and>
    added (uid, q, a) ok (cat_questions (shown_catalog y)) (rows_of (grp_questions c')))"
proof (rule question_call [OF assms(1-4) assms(5) [unfolded addQuestion_def], where R = "added (uid, q, a)"])
qed (use add_rows [of E "\<lparr>prm_id = uid, prm_question = q, prm_answer = a, prm_group = sh_id y\<rparr>"]
      distinct_rows_changes(1) row_changes_R assms(6) in \<open>auto simp: no_out_Ret\<close>)

lemma delete_call:
  assumes "mirrors x b" "bank_settled F b" "shown_at x p = Some y" "all_groups x p"
    "deleteQuestion E (sh_id y) qid b F = (Ret (ok, u), b', F')"
  shows "F' = F \<and> bank_settled F b' \<and> distinct_rows (cat_questions (shown_catalog y)) \<and>
    (\<exists>c c'. group_at (group_path x p) (bnk_root b) = Some c \<and>
    bnk_root b' = put_group (group_path x p) c' (bnk_root b) \<and> grp_id c' = grp_id c \<and> grp_name c' = grp_name c \<and>
    grp_groups c' = grp_groups c \<and> shown_catalog y = bank_catalog c \<and>
    deleted qid ok (cat_questions (shown_catalog y)) (rows_of (grp_questions c')))"
proof (rule question_call [OF assms(1-4) assms(5) [unfolded deleteQuestion_def], where R = "deleted qid"])
qed (use delete_rows distinct_rows_changes(2) row_changes_R in \<open>auto simp: no_out_Ret\<close>)

lemma update_call:
  assumes "mirrors x b" "bank_settled F b" "shown_at x p = Some y" "all_groups x p"
    "updateQuestion E (sh_id y) qid q a b F = (Ret (ok, u), b', F')"
  shows "F' = F \<and> bank_settled F b' \<and> distinct_rows (cat_questions (shown_catalog y)) \<and>
    (\<exists>c c'. group_at (group_path x p) (bnk_root b) = Some c \<and>
    bnk_root b' = put_group (group_path x p) c' (bnk_root b) \<and> grp_id c' = grp_id c \<and> grp_name c' = grp_name c \<and>
    grp_groups c' = grp_groups c \<and> shown_catalog y = bank_catalog c \<and>
    replaced (qid, q, a) ok (cat_questions (shown_catalog y)) (rows_of (grp_questions c')))"
proof (rule question_call [OF assms(1-4) assms(5) [unfolded updateQuestion_def], where R = "replaced (qid, q, a)"])
qed (use update_rows [of E _ "\<lparr>prm_id = qid, prm_question = q, prm_answer = a, prm_group = sh_id y\<rparr>"]
      distinct_rows_changes(3) row_changes_R in \<open>auto simp: no_out_Ret\<close>)

lemma catalog_erase_question:
  assumes "k < length (sh_children y)" "\<not> sh_group (sh_children y ! k)"
  shows "cat_groups (shown_catalog (put_children (erase_at k (sh_children y)) y)) = cat_groups (shown_catalog y)"
    "cat_questions (shown_catalog y) = add_mset (shown_row (sh_children y ! k))
       (cat_questions (shown_catalog (put_children (erase_at k (sh_children y)) y)))"
proof -
  have e: "sh_children y = take k (sh_children y) @ sh_children y ! k # drop (Suc k) (sh_children y)"
    using assms(1) by (rule id_take_nth_drop)
  have g: "filter P (sh_children y) = filter P (take k (sh_children y)) @
      (if P (sh_children y ! k) then [sh_children y ! k] else []) @ filter P (drop (Suc k) (sh_children y))" for P
    by (subst e) simp
  show "cat_groups (shown_catalog (put_children (erase_at k (sh_children y)) y)) = cat_groups (shown_catalog y)"
    using assms(2) g [of sh_group] by (simp add: shown_catalog_unfold erase_at_def)
  show "cat_questions (shown_catalog y) = add_mset (shown_row (sh_children y ! k))
       (cat_questions (shown_catalog (put_children (erase_at k (sh_children y)) y)))"
    using assms(2) g [of "\<lambda>c. \<not> sh_group c"] by (simp add: shown_catalog_unfold erase_at_def)
qed

lemma catalog_update_question:
  assumes "k < length (sh_children y)" "\<not> sh_group (sh_children y ! k)" "\<not> sh_group d"
  shows "cat_groups (shown_catalog (put_children ((sh_children y)[k := d]) y)) = cat_groups (shown_catalog y)"
    "\<exists>K. cat_questions (shown_catalog y) = add_mset (shown_row (sh_children y ! k)) K \<and>
       cat_questions (shown_catalog (put_children ((sh_children y)[k := d]) y)) = add_mset (shown_row d) K"
proof -
  have e: "(sh_children y)[k := c] = take k (sh_children y) @ c # drop (Suc k) (sh_children y)" for c
    using assms(1) by (rule upd_conv_take_nth_drop)
  have g: "filter P ((sh_children y)[k := c]) = filter P (take k (sh_children y)) @
      (if P c then [c] else []) @ filter P (drop (Suc k) (sh_children y))" for P c
    by (subst e) simp
  note g' = g [of _ "sh_children y ! k", simplified]
  show "cat_groups (shown_catalog (put_children ((sh_children y)[k := d]) y)) = cat_groups (shown_catalog y)"
    using assms g [of sh_group d] g' [of sh_group] by (simp add: shown_catalog_unfold)
  let ?K = "mset (map shown_row (filter (\<lambda>c. \<not> sh_group c) (take k (sh_children y)))) +
      mset (map shown_row (filter (\<lambda>c. \<not> sh_group c) (drop (Suc k) (sh_children y))))"
  have "cat_questions (shown_catalog y) = add_mset (shown_row (sh_children y ! k)) ?K"
    using assms(2) unfolding shown_catalog_unfold g' [of "\<lambda>c. \<not> sh_group c"] by simp
  moreover have "cat_questions (shown_catalog (put_children ((sh_children y)[k := d]) y)) = add_mset (shown_row d) ?K"
    using assms(3) unfolding shown_catalog_unfold put_simps g by simp
  ultimately show "\<exists>K. cat_questions (shown_catalog y) = add_mset (shown_row (sh_children y ! k)) K \<and>
       cat_questions (shown_catalog (put_children ((sh_children y)[k := d]) y)) = add_mset (shown_row d) K" by blast
qed

lemma change_child_at:
  assumes "shown_at x p = Some y"
  shows "change_at (p @ [k]) (\<lambda>_. d) x = change_at p (\<lambda>y. put_children ((sh_children y)[k := d]) y) x"
  unfolding change_at_append [OF assms] by (rule change_at_cong [OF assms]) (simp add: put_children_def)

context qt_widget
begin

text \<open>The item at \<open>q\<close> of a tree that was \<open>x\<close> before is now \<open>d\<close>.\<close>

definition has_item :: "shown \<Rightarrow> nat list \<Rightarrow> 'i \<Rightarrow> shown \<Rightarrow> 'w \<Rightarrow> bool" where
  "has_item x q i d w \<longleftrightarrow> pos w i = q \<and> shown_at x q \<noteq> None \<and> tree w = change_at q (\<lambda>_. d) x"

lemma has_itemI: "shown_at (tree w) (pos w i) = Some z \<Longrightarrow> has_item (tree w) (pos w i) i z w"
  using change_at_same [of "tree w" "pos w i" z "\<lambda>_. z"] by (simp add: has_item_def)

lemma set_item:
  assumes "has_item x q i d w"
  shows "has_item x q i (put_text s d) (tr_setText Q i s w)" "has_item x q i (put_data r v d) (tr_setData Q i r v w)"
    "has_item x q i d (tr_setExpanded Q i w)"
proof -
  obtain z where x: "shown_at x q = Some z" "pos w i = q" "tree w = change_at q (\<lambda>_. d) x"
    using assms by (auto simp: has_item_def)
  then have v: "shown_at (tree w) (pos w i) \<noteq> None" using shown_at_change by simp
  have c: "change_at q g (change_at q (\<lambda>_. d) x) = change_at q (\<lambda>_. g d) x" for g
    using change_at_change [OF x(1), of g "\<lambda>_. d"] by (simp add: comp_def)
  show "has_item x q i (put_text s d) (tr_setText Q i s w)"
    using x setText(1) [OF v] setText(2) c by (simp add: has_item_def)
  show "has_item x q i (put_data r v d) (tr_setData Q i r v w)"
    using x setData(1) [OF v] setData(2) c by (simp add: has_item_def)
  show "has_item x q i d (tr_setExpanded Q i w)" using assms by (simp add: has_item_def setExpanded)
qed

lemma on_item_current:
  "tr_currentItem Q (nb_tree nb) = Some i \<Longrightarrow> on_item Q k nb F = k i"
  by (simp add: on_item_def)

text \<open>The selected group item, and the window with its bank.\<close>

theorem add_question_keeps_mirror:
  assumes w: "nb_bank nb = Some b" "mirrors (tree (nb_tree nb)) b" "bank_settled F b"
    and i: "tr_currentItem Q (nb_tree nb) = Some i" "shown_at (tree (nb_tree nb)) (pos (nb_tree nb) i) = Some y"
      "all_groups (tree (nb_tree nb)) (pos (nb_tree nb) i)"
    and new: "uid \<notin># image_mset fst (cat_questions (shown_catalog y))"
    and run: "onBtnClickedAddQuestion E Q T es uid nb F = (Ret (), nb', F')"
  shows "F' = F \<and> (\<exists>b'. nb_bank nb' = Some b' \<and> mirrors (tree (nb_tree nb')) b' \<and> bank_settled F b')"
proof (cases "qd_exec T es new_question_dashboard")
  case (Pair accepted qd)
  let ?x = "tree (nb_tree nb)" and ?p = "pos (nb_tree nb) i"
  show ?thesis
  proof (cases accepted)
    case False
    then show ?thesis using run w Pair by (simp add: onBtnClickedAddQuestion_def)
  next
    case True
    have gid: "toString (tr_data Q (nb_tree nb) i NOTEBOOK_ROLE_ID) = sh_id y" using item_data [OF i(2)] by (simp add: sh_id_def)
    obtain ok u b' F1 where a: "addQuestion E (sh_id y) uid (getQuestion qd) (getAnswer qd) b F = (Ret (ok, u), b', F1)"
      using run w(1) True Pair i(1) gid
      by (auto simp: onBtnClickedAddQuestion_def on_item_def on_bank_def Let_def split: outcome.splits prod.splits)
    from add_call [OF w(2,3) i(2,3) a new]
    obtain c c' where F: "F1 = F" "bank_settled F b'" and c: "group_at (group_path ?x ?p) (bnk_root b) = Some c"
      "bnk_root b' = put_group (group_path ?x ?p) c' (bnk_root b)" "grp_id c' = grp_id c" "grp_name c' = grp_name c"
      "grp_groups c' = grp_groups c" "shown_catalog y = bank_catalog c"
      "added (uid, getQuestion qd, getAnswer qd) ok (cat_questions (shown_catalog y)) (rows_of (grp_questions c'))"
      by blast
    have wy: "wf_shown y" using w(2) wf_shown_at i(2) by (auto simp: mirrors_def)
    show ?thesis
    proof (cases ok)
      case False
      then have "mirrors ?x b'" using mirrors_same_rows [OF w(2) c(1-6)] c(7) by (simp add: added_def)
      then show ?thesis
        using run w(1) True Pair i(1) gid a False F
        by (auto simp: onBtnClickedAddQuestion_def on_item_def on_bank_def notify_def Let_def)
    next
      case ok: True
      obtain k w1 where k: "question_item Q i (getQuestion qd) uid (getAnswer qd) (nb_tree nb) = (k, w1)" by fastforce
      let ?d = "put_data ForegroundRole (VBrush (answer_colour (getAnswer qd))) (question_node (getQuestion qd) uid (getAnswer qd))"
      have n: "has_new_child ?x ?p k ?d (tr_setExpanded Q i (tr_setData Q k ForegroundRole (VBrush (answer_colour (getAnswer qd))) w1))"
        by (intro set_child question_item_tree(1) [OF i(2) k])
      have "mirrors (change_at ?p (append_child ?d) ?x) b'"
      proof (rule mirrors_change [OF w(2) i(2,3) c(1-4)])
        show "wf_shown (append_child ?d y)" using wf_append_child [OF wy] wf_leaf by simp
        show "shown_catalog (append_child ?d y) = bank_catalog c'"
          using c(5-7) ok by (simp add: catalog_append_question bank_catalog_rows [OF c(5)] added_def)
      qed simp_all
      then show ?thesis
        using run w(1) True Pair i(1) gid a ok F k n
        by (auto simp: onBtnClickedAddQuestion_def on_item_def on_bank_def Let_def has_new_child_def)
    qed
  qed
qed

text \<open>The item of a question and its parent.\<close>

lemma question_position:
  assumes "shown_at (tree w) (pos w i) = Some z" "pos w i \<noteq> []"
  obtains j p k y where "tr_parent Q w i = Some j" "pos w j = p" "pos w i = p @ [k]" "shown_at (tree w) p = Some y"
    "k < length (sh_children y)" "z = sh_children y ! k"
proof -
  obtain p k where p: "pos w i = p @ [k]" using assms(2) by (cases "pos w i" rule: rev_cases) auto
  with assms(1) obtain y where "shown_at (tree w) p = Some y" "k < length (sh_children y)" "z = sh_children y ! k"
    by (auto simp: shown_at_child)
  moreover obtain j where "tr_parent Q w i = Some j" "pos w j = p" using parent [of w i p k] assms(1) p by auto
  ultimately show thesis using that p by blast
qed

lemma remove_item_tree:
  assumes "shown_at (tree w) (p @ [k]) = Some z" "pos w i = p @ [k]" "pos w j = p"
  shows "tree (tr_removeChild Q j i (tr_takeChildren Q i w)) =
    change_at p (\<lambda>y. put_children (erase_at k (sh_children y)) y) (tree w)"
proof -
  let ?w = "tr_takeChildren Q i w" and ?e = "\<lambda>y. put_children (erase_at k (sh_children y)) y"
  obtain y where y: "shown_at (tree w) p = Some y" using assms(1) by (auto simp: shown_at_child)
  have "tree ?w = change_at (p @ [k]) (put_children []) (tree w)" using takeChildren [of w i] assms(1,2) by simp
  then have t: "tree ?w = change_at p (change_at [k] (put_children [])) (tree w)" using change_at_append [OF y] by simp
  have "shown_at (tree ?w) (p @ [k]) \<noteq> None" "shown_at (tree ?w) p \<noteq> None"
    using shown_at_change_below [OF y, of "change_at [k] (put_children [])" "[k]"] assms(1) y shown_at_change [OF y]
    by (auto simp: t shown_at_child)
  moreover from this have "pos ?w i = p @ [k]" "pos ?w j = p" using takeChildren [of w i] assms by auto
  ultimately have "tree (tr_removeChild Q j i ?w) = change_at p ?e (tree ?w)" using removeChild [of ?w i j k] by simp
  also have "\<dots> = change_at p (?e \<circ> change_at [k] (put_children [])) (tree w)" unfolding t by (rule change_at_change [OF y])
  also have "\<dots> = change_at p ?e (tree w)"
    by (rule change_at_cong [OF y]) (simp add: put_children_def erase_at_def)
  finally show ?thesis .
qed

theorem delete_question_keeps_mirror:
  assumes w: "nb_bank nb = Some b" "mirrors (tree (nb_tree nb)) b" "bank_settled F b"
    and i: "tr_currentItem Q (nb_tree nb) = Some i" "shown_at (tree (nb_tree nb)) (pos (nb_tree nb) i) = Some z"
      "\<not> sh_group z" "pos (nb_tree nb) i = p @ [k]" "shown_at (tree (nb_tree nb)) p = Some y"
    and run: "onBtnClickedDeleteQuestion E Q nb F = (Ret (), nb', F')"
  shows "F' = F \<and> (\<exists>b'. nb_bank nb' = Some b' \<and> mirrors (tree (nb_tree nb')) b' \<and> bank_settled F b')"
proof -
  let ?x = "tree (nb_tree nb)"
  have k: "k < length (sh_children y)" "z = sh_children y ! k" using i(2,4,5) by (auto simp: shown_at_append split: if_splits)
  obtain j where j: "tr_parent Q (nb_tree nb) i = Some j" "pos (nb_tree nb) j = p"
    using parent [of "nb_tree nb" i p k] i(2,4) by auto
  have a: "all_groups ?x p" using w(2) all_groups_parent i(2,4) by (auto simp: mirrors_def)
  have ids: "toString (tr_data Q (nb_tree nb) j NOTEBOOK_ROLE_ID) = sh_id y"
      "toString (tr_data Q (nb_tree nb) i NOTEBOOK_ROLE_ID) = sh_id z"
    using item_data [of "nb_tree nb"] i(2,5) j(2) by (simp_all add: sh_id_def)
  obtain ok u b' F1 where c: "deleteQuestion E (sh_id y) (sh_id z) b F = (Ret (ok, u), b', F1)"
    using run w(1) i(1) j(1) ids
    by (auto simp: onBtnClickedDeleteQuestion_def on_item_def on_bank_def Let_def split: outcome.splits prod.splits)
  from delete_call [OF w(2,3) i(5) a c]
  obtain h h' where F: "F1 = F" "bank_settled F b'" and d: "distinct_rows (cat_questions (shown_catalog y))"
    and h: "group_at (group_path ?x p) (bnk_root b) = Some h"
    "bnk_root b' = put_group (group_path ?x p) h' (bnk_root b)" "grp_id h' = grp_id h" "grp_name h' = grp_name h"
    "grp_groups h' = grp_groups h" "shown_catalog y = bank_catalog h"
    "deleted (sh_id z) ok (cat_questions (shown_catalog y)) (rows_of (grp_questions h'))"
    by blast
  have wy: "wf_shown y" using w(2) wf_shown_at i(5) by (auto simp: mirrors_def)
  have z: "sh_children z = []" using wy k i(3) nth_mem unfolding wf_shown_iff [of y] by metis
  show ?thesis
  proof (cases ok)
    case False
    then have "mirrors ?x b'" using mirrors_same_rows [OF w(2) h(1-6)] h(7) by (simp add: deleted_def)
    then show ?thesis
      using run w(1) i(1) j(1) ids c False F
      by (auto simp: onBtnClickedDeleteQuestion_def on_item_def on_bank_def notify_def Let_def)
  next
    case True
    let ?f = "\<lambda>y. put_children (erase_at k (sh_children y)) y"
    have cat: "cat_groups (shown_catalog (?f y)) = cat_groups (shown_catalog y)"
      "cat_questions (shown_catalog y) = add_mset (shown_row z) (cat_questions (shown_catalog (?f y)))"
      using catalog_erase_question [OF k(1)] i(3) k(2) by simp_all
    obtain e where e: "cat_questions (shown_catalog y) = add_mset (sh_id z, e) (rows_of (grp_questions h'))"
      using h(7) True unfolding deleted_def by auto
    have "cat_questions (shown_catalog (?f y)) = rows_of (grp_questions h')"
      using distinct_rows_unique [OF d cat(2) [unfolded shown_row_def] e] by (rule conjunct2)
    then have s: "shown_catalog (?f y) = bank_catalog h'"
      using cat(1) h(6) by (simp add: bank_catalog_rows [OF h(5)] catalog.expand)
    have "mirrors (change_at p ?f ?x) b'"
    proof (rule mirrors_change [OF w(2) i(5) a h(1-4)])
      show "wf_shown (?f y)"
        using wy set_erase_at [of k "sh_children y"] unfolding wf_shown_iff [of y] wf_shown_iff [of "?f y"] by auto
      show "shown_catalog (?f y) = bank_catalog h'" by (rule s)
    qed (simp_all add: sh_group_def sh_id_def)
    moreover have "shown_at ?x (p @ [k]) = Some z" using i(2,4) by simp
    ultimately show ?thesis
      using run w(1) i(1) j(1) ids c True F remove_item_tree [OF _ i(4) j(2)]
      by (auto simp: onBtnClickedDeleteQuestion_def on_item_def on_bank_def Let_def)
  qed
qed

theorem modify_question_keeps_mirror:
  assumes w: "nb_bank nb = Some b" "mirrors (tree (nb_tree nb)) b" "bank_settled F b"
    and i: "tr_currentItem Q (nb_tree nb) = Some i" "shown_at (tree (nb_tree nb)) (pos (nb_tree nb) i) = Some z"
      "\<not> sh_group z" "pos (nb_tree nb) i = p @ [k]" "shown_at (tree (nb_tree nb)) p = Some y"
    and run: "onBtnClickedModifyQuestion E Q T es nb F = (Ret (), nb', F')"
  shows "F' = F \<and> (\<exists>b'. nb_bank nb' = Some b' \<and> mirrors (tree (nb_tree nb')) b' \<and> bank_settled F b')"
proof (cases "qd_exec T es (setAnswer T (toString (tr_data Q (nb_tree nb) i NOTEBOOK_ROLE_ANSWER))
                             (setQuestion T (tr_text Q (nb_tree nb) i) new_question_dashboard))")
  case (Pair accepted qd)
  let ?x = "tree (nb_tree nb)"
  have k: "k < length (sh_children y)" "z = sh_children y ! k" using i(2,4,5) by (auto simp: shown_at_append split: if_splits)
  obtain j where j: "tr_parent Q (nb_tree nb) i = Some j" "pos (nb_tree nb) j = p"
    using parent [of "nb_tree nb" i p k] i(2,4) by auto
  have a: "all_groups ?x p" using w(2) all_groups_parent i(2,4) by (auto simp: mirrors_def)
  have ids: "toString (tr_data Q (nb_tree nb) j NOTEBOOK_ROLE_ID) = sh_id y"
      "toString (tr_data Q (nb_tree nb) i NOTEBOOK_ROLE_ID) = sh_id z"
    using item_data [of "nb_tree nb"] i(2,5) j(2) by (simp_all add: sh_id_def)
  show ?thesis
  proof (cases accepted)
    case False
    then show ?thesis using run w i(1) Pair by (simp add: onBtnClickedModifyQuestion_def on_item_def)
  next
    case acc: True
    obtain ok u b' F1 where c: "updateQuestion E (sh_id y) (sh_id z) (getQuestion qd) (getAnswer qd) b F = (Ret (ok, u), b', F1)"
      using run w(1) i(1) j(1) ids Pair acc
      by (auto simp: onBtnClickedModifyQuestion_def on_item_def on_bank_def Let_def split: outcome.splits prod.splits)
    let ?r = "(sh_id z, getQuestion qd, getAnswer qd)"
    from update_call [OF w(2,3) i(5) a c]
    obtain h h' where F: "F1 = F" "bank_settled F b'" and d: "distinct_rows (cat_questions (shown_catalog y))"
    and h: "group_at (group_path ?x p) (bnk_root b) = Some h"
      "bnk_root b' = put_group (group_path ?x p) h' (bnk_root b)" "grp_id h' = grp_id h" "grp_name h' = grp_name h"
      "grp_groups h' = grp_groups h" "shown_catalog y = bank_catalog h"
      "replaced ?r ok (cat_questions (shown_catalog y)) (rows_of (grp_questions h'))"
      by blast
    have wy: "wf_shown y" using w(2) wf_shown_at i(5) by (auto simp: mirrors_def)
    have z: "sh_children z = []" using wy k i(3) nth_mem unfolding wf_shown_iff [of y] by metis
    show ?thesis
    proof (cases ok)
      case False
      then have "mirrors ?x b'" using mirrors_same_rows [OF w(2) h(1-6)] h(7) by (simp add: replaced_def)
      then show ?thesis
        using run w(1) i(1) j(1) ids c False F Pair acc
        by (auto simp: onBtnClickedModifyQuestion_def on_item_def on_bank_def notify_def Let_def)
    next
      case True
      let ?d = "put_data ForegroundRole (VBrush (answer_colour (getAnswer qd)))
          (put_data NOTEBOOK_ROLE_ANSWER (VString (getAnswer qd))
            (put_data ToolTipRole (VString (getQuestion qd)) (put_text (getQuestion qd) z)))"
      let ?f = "\<lambda>y. put_children ((sh_children y)[k := ?d]) y"
      have dz: "\<not> sh_group ?d" "shown_row ?d = ?r" "sh_children ?d = []"
        using i(3) z by (simp_all add: sh_group_def shown_row_def sh_id_def)
      obtain K where K: "cat_questions (shown_catalog y) = add_mset (shown_row z) K"
        "cat_questions (shown_catalog (?f y)) = add_mset ?r K" "cat_groups (shown_catalog (?f y)) = cat_groups (shown_catalog y)"
        using catalog_update_question [OF k(1) _ dz(1)] i(3) k(2) dz(2) by auto
      obtain e L where e: "cat_questions (shown_catalog y) = add_mset (sh_id z, e) L" "rows_of (grp_questions h') = add_mset ?r L"
        using h(7) True unfolding replaced_def by auto
      have "K = L" using distinct_rows_unique [OF d K(1) [unfolded shown_row_def] e(1)] by (rule conjunct2)
      then have s: "shown_catalog (?f y) = bank_catalog h'"
        using K(2,3) e(2) h(6) by (simp add: bank_catalog_rows [OF h(5)] catalog.expand)
      have "mirrors (change_at p ?f ?x) b'"
      proof (rule mirrors_change [OF w(2) i(5) a h(1-4)])
        have "wf_shown c \<and> (\<not> sh_group c \<longrightarrow> sh_children c = [])" if "c \<in> set ((sh_children y)[k := ?d])" for c
          using subsetD [OF set_update_subset_insert that] wy wf_leaf [OF dz(3)] dz(3) unfolding wf_shown_iff [of y] by auto
        then show "wf_shown (?f y)" unfolding wf_shown_iff [of "?f y"] put_simps by blast
        show "shown_catalog (?f y) = bank_catalog h'" by (rule s)
      qed (simp_all add: sh_group_def sh_id_def)
      moreover have "has_item ?x (p @ [k]) i ?d (tr_setData Q i ForegroundRole (VBrush (answer_colour (getAnswer qd)))
          (tr_setData Q i NOTEBOOK_ROLE_ANSWER (VString (getAnswer qd)) (tr_setData Q i ToolTipRole (VString (getQuestion qd))
            (tr_setText Q i (getQuestion qd) (nb_tree nb)))))"
        using has_itemI [OF i(2)] i(4) by (intro set_item) simp
      ultimately show ?thesis
        using run w(1) i(1) j(1) ids c True F Pair acc change_child_at [OF i(5), of k ?d]
        by (auto simp: onBtnClickedModifyQuestion_def on_item_def on_bank_def Let_def has_item_def)
    qed
  qed
qed

end

end
