(* ===== verification/GroupSlots.thy ===== *)
theory GroupSlots
  imports QuestionSlots
begin

text \<open>
  The slots for groups. Adding and deleting keep the tree a mirror of the bank; renaming does
  when it is reported as done. A rename that the disk refuses has already changed the bank, and
  leaves the window with the old name.
\<close>

subsection \<open>A group below the parent\<close>

lemma find_index_named:
  "distinct (named_ids_of gs) \<Longrightarrow> j < length gs \<Longrightarrow> grp_id (gs ! j) = gid \<Longrightarrow> gid \<noteq> [] \<Longrightarrow>
   find_index (\<lambda>grp. grp_id grp = gid) gs = j"
proof (induction gs arbitrary: j)
  case (Cons g gs)
  show ?case
  proof (cases j)
    case (Suc i)
    have "gid \<in> set (named_ids (gs ! i))" using Cons.prems Suc by (simp add: named_ids_unfold [of "gs ! i"])
    then have "gid \<in> set (named_ids_of gs)" using Cons.prems(2) Suc named_ids_of_nth [of i gs] by auto
    then have "grp_id g \<noteq> gid" using Cons.prems(1,4) by (auto simp: named_ids_unfold [of g])
    then show ?thesis using Cons.IH [of i] Cons.prems Suc by simp
  qed (use Cons.prems in simp)
qed simp

lemma distinct_named_children:
  "distinct (named_ids g) \<Longrightarrow> group_at l g = Some c \<Longrightarrow> distinct (named_ids_of (grp_groups c))"
proof (induction l arbitrary: g)
  case Nil
  then show ?case by (simp add: named_ids_unfold [of c] split: if_splits)
next
  case (Cons k l)
  then have k: "k < length (grp_groups g)" "group_at l (grp_groups g ! k) = Some c" by (auto split: if_splits)
  have "distinct (named_ids_of (grp_groups g))" using Cons.prems(1) by (simp add: named_ids_unfold [of g] split: if_splits)
  from Cons.IH [OF distinct_named_ids_nth [OF this k(1)] k(2)] show ?case .
qed

text \<open>The position among the groups that belongs to a position among the items.\<close>

definition group_index :: "shown \<Rightarrow> nat \<Rightarrow> nat" where
  "group_index y k = length (filter sh_group (take k (sh_children y)))"

lemma child_group:
  assumes "shown_catalog y = bank_catalog c" "k < length (sh_children y)" "sh_group (sh_children y ! k)"
  shows "group_index y k < length (grp_groups c)"
    "(grp_id (grp_groups c ! group_index y k), grp_name (grp_groups c ! group_index y k), bank_catalog (grp_groups c ! group_index y k))
       = shown_entry (sh_children y ! k)"
proof -
  have m: "map shown_entry (filter sh_group (sh_children y)) = map (\<lambda>g. (grp_id g, grp_name g, bank_catalog g)) (grp_groups c)"
    using assms(1) shown_catalog_unfold(1) [of y] bank_catalog_unfold(1) [of c] by simp
  note n = nth_filter_take [of k "sh_children y" sh_group, OF assms(2,3), folded group_index_def]
  show l: "group_index y k < length (grp_groups c)" using n m by (metis length_map)
  show "(grp_id (grp_groups c ! group_index y k), grp_name (grp_groups c ! group_index y k), bank_catalog (grp_groups c ! group_index y k))
       = shown_entry (sh_children y ! k)"
    using arg_cong [OF m, of "\<lambda>xs. xs ! group_index y k"] n l by simp
qed

lemma filter_erase:
  "k < length xs \<Longrightarrow> filter P (erase_at k xs) =
     (if P (xs ! k) then erase_at (length (filter P (take k xs))) (filter P xs) else filter P xs)"
  by (induction xs arbitrary: k) (auto simp: erase_at_def nth_Cons split: nat.splits)

lemma map_erase_at: "map f (erase_at k xs) = erase_at k (map f xs)"
  by (simp add: erase_at_def take_map drop_map)

lemma catalog_erase_group:
  assumes "shown_catalog y = bank_catalog c" "k < length (sh_children y)" "sh_group (sh_children y ! k)"
  shows "shown_catalog (put_children (erase_at k (sh_children y)) y) =
    bank_catalog (set_groups (erase_at (group_index y k) (grp_groups c)) c)"
proof -
  have "cat_groups (shown_catalog y) = cat_groups (bank_catalog c)" "cat_questions (shown_catalog y) = cat_questions (bank_catalog c)"
    using assms(1) by simp_all
  then show ?thesis
    using assms(2,3) by (intro catalog.expand)
      (simp add: shown_catalog_unfold bank_catalog_unfold filter_erase group_index_def map_erase_at)
qed

lemma catalog_update_group:
  assumes "shown_catalog y = bank_catalog c" "k < length (sh_children y)" "sh_group (sh_children y ! k)"
    and "sh_group d" "(grp_id h, grp_name h, bank_catalog h) = shown_entry d"
  shows "shown_catalog (put_children ((sh_children y)[k := d]) y) = bank_catalog (put_child (group_index y k) h c)"
proof -
  have "cat_groups (shown_catalog y) = cat_groups (bank_catalog c)" "cat_questions (shown_catalog y) = cat_questions (bank_catalog c)"
    using assms(1) by simp_all
  then show ?thesis
    using assms(2-5) filter_update [of k "sh_children y" sh_group d] filter_update [of k "sh_children y" "\<lambda>c. \<not> sh_group c" d]
    by (intro catalog.expand)
      (simp add: shown_catalog_unfold bank_catalog_unfold group_index_def map_update put_child_def set_groups_def)
qed

text \<open>The parent of an operation on an item, when the item has the id of its group.\<close>

lemma item_parent_at:
  assumes "mirrors x b" "shown_at x p = Some y" "all_groups x p" "p \<noteq> [] \<longrightarrow> sh_id y \<noteq> []"
  shows "\<exists>c. parent_at b (sh_id y) (group_path x p) c \<and> shown_catalog y = bank_catalog c"
proof -
  have "shown_catalog x = bank_catalog (bnk_root b)" using assms(1) by (simp add: mirrors_def)
  from same_group [OF this assms(2,3)] obtain c where c: "group_at (group_path x p) (bnk_root b) = Some c"
    "shown_catalog y = bank_catalog c" "p \<noteq> [] \<longrightarrow> grp_id c = sh_id y" by blast
  have "p = [] \<Longrightarrow> sh_id y = []" using assms(1,2) by (auto simp: mirrors_def)
  then show ?thesis using c assms(4) by (cases "p = []") (auto simp: parent_at_def)
qed

lemma mirrors_same_root: "mirrors x b \<Longrightarrow> bnk_root b' = bnk_root b \<Longrightarrow> mirrors x b'"
  by (simp add: mirrors_def)

text \<open>On a disk that refuses nothing, a deletion that returns has deleted a group without subgroups.\<close>

lemma deleteGroup_returned:
  assumes b: "bank_ok b" "gid \<noteq> []" and p: "parent_at b pid l c"
    and i: "i < length (grp_groups c)" "grp_id (grp_groups c ! i) = gid" and F: "fs_locked F = []"
    and run: "deleteGroup E pid gid b F = (Ret r, b', F')"
  shows "r \<and> bank_ok b' \<and> bnk_root b' = put_group l (set_groups (erase_at i (grp_groups c)) c) (bnk_root b) \<and>
    bnk_mapIds b' = map_erase gid (bnk_mapIds b) \<and> set (named_ids (bnk_root b')) = set (named_ids (bnk_root b)) - {gid}"
proof -
  have d: "distinct (named_ids_of (grp_groups c))"
    using distinct_named_children b(1) p by (auto simp: bank_ok_def parent_at_def)
  note fi = find_index_named [OF d i(1) i(2) b(2)]
  have leaf: "grp_groups (grp_groups c ! i) = []"
    using deleteGroup_returns [OF b(1) p _ F run] i nth_mem [OF i(1)] fi by auto
  obtain rc qs F1 where cc: "close_contexts (grp_questions (grp_groups c ! i)) F = (rc, qs, F1)" by (metis prod_cases3)
  obtain n where n: "height c = Suc n" by (cases c) simp
  have "\<exists>u. rc = Ret u"
  proof -
    have t: "tables_ok b" using b(1) by (simp add: bank_ok_def)
    obtain b1 where "on_ids (qai_deleteGroup E gid) (b\<lparr>bnk_mapIds := map_erase gid (bnk_mapIds b)\<rparr>) = Ret b1"
      using delete_tables [OF t] by blast
    then show ?thesis
      using run ctrl_root_at [OF b(1) p, of E gid "[]" GROUP_CTRL_DELETE F] cc fi i(1) n
      by (cases rc) (auto simp: deleteGroup_def ctrl_op_def Let_def)
  qed
  then have closed: "close_contexts (grp_questions (grp_groups c ! i)) F = (Ret (), qs, F1)" using cc by auto
  have free: "\<not> locked_below F1 (components (grp_path (grp_groups c ! i)))"
    using close_contexts_locked [OF closed] F by (simp add: locked_below_def)
  from deleteGroup_leaf [OF b p fi [symmetric] i(1) leaf closed free, of E] obtain b1 F2 where
    d: "deleteGroup E pid gid b F = (Ret True, b1, F2)" "bank_ok b1"
      "bnk_root b1 = put_group l (set_groups (erase_at i (grp_groups c)) c) (bnk_root b)"
      "bnk_mapIds b1 = map_erase gid (bnk_mapIds b)" "set (named_ids (bnk_root b1)) = set (named_ids (bnk_root b)) - {gid}"
    by blast
  have "r" "b' = b1" using d(1) run by simp_all
  then show ?thesis using d(2-5) by simp
qed

lemma addGroup_outcome:
  assumes "bank_ok b" "gid \<noteq> []" "parent_at b pid l c" "addGroup E pid name gid b F = (Ret ok, b', F')"
  shows "bank_ok b' \<and> bnk_root b' = (if ok then put_group l (add_child gid name c) (bnk_root b) else bnk_root b)"
proof (cases "has_key gid (bnk_mapIds b) \<or> name \<in> snd ` set (bnk_mapIds b)")
  case True
  then show ?thesis using assms(1,4) by (auto simp: addGroup_def split: if_splits)
next
  case False
  then have n: "\<not> has_key gid (bnk_mapIds b)" "name \<notin> snd ` set (bnk_mapIds b)" by simp_all
  from addGroup_fresh [OF assms(1) n assms(2,3), of E F] assms(4) have
    "(Ret ok, F') = (if fs_exists F (child_path c name) then (Ret True, F) else fs_create_directory (child_path c name) F)"
    "bank_ok b'" "bnk_root b' = put_group l (add_child gid name c) (bnk_root b)" by auto
  moreover from this(1) have "ok"
    using fs_create_directory_fresh [of F "child_path c name"] by (cases ok) (auto split: if_splits dest: arg_cong [of _ _ fst])
  ultimately show ?thesis by simp
qed

lemma updateGroup_outcome:
  assumes b: "bank_ok b" "gid \<noteq> []" and p: "parent_at b pid l c"
    and i: "i < length (grp_groups c)" "grp_id (grp_groups c ! i) = gid"
    and run: "updateGroup E pid gid name b F = (Ret ok, b', F')"
  shows "bank_ok b' \<and> bnk_root b' = put_group l (put_child i (set_name name (grp_groups c ! i)) c) (bnk_root b) \<and>
    (ok \<longleftrightarrow> fst (fs_rename (grp_path (grp_groups c ! i)) (child_path c name) F) = Ret ())"
proof -
  have d: "distinct (named_ids_of (grp_groups c))"
    using distinct_named_children b(1) p by (auto simp: bank_ok_def parent_at_def)
  note fi = find_index_named [OF d i(1) i(2) b(2), symmetric]
  obtain s s' where s: "bnk_ptrIds b = Some s" "group_view s' = (group_view s)(gid \<mapsto> name)" "impl_ok s'"
    "updateGroup E pid gid name b F =
      (let g' = put_group l (put_child i (set_name name (grp_groups c ! i)) c) (bnk_root b);
           b' = b\<lparr>bnk_ptrIds := Some s', bnk_root := g'\<rparr>
       in case fs_rename (grp_path (grp_groups c ! i)) (child_path c name) F of
            (Ret _, F') \<Rightarrow> (Ret True, b', F')
          | (Throw e, F') \<Rightarrow> (Ret False, bank_message E ''%s'' [what E e] b', F')
          | (Undef, F') \<Rightarrow> (Undef, b', F'))"
    using updateGroup_found [OF b p fi i(1), of name E F] by blast
  note ok = updateGroup_bank_ok [OF b p fi i(1) s(1-3)]
  show ?thesis
    using run s(4) ok
    by (cases "fs_rename (grp_path (grp_groups c ! i)) (child_path c name) F") (auto simp: Let_def split: outcome.splits)
qed

lemma bank_catalog_add_child:
  "bank_catalog (add_child gid name c) =
     Catalog (cat_groups (bank_catalog c) @ [(gid, name, Catalog [] {#})]) (cat_questions (bank_catalog c))"
  by (cases c) (simp add: add_child_def set_groups_def)

lemma set_name_simps [simp]:
  "grp_id (set_name name g) = grp_id g" "grp_name (set_name name g) = name" "bank_catalog (set_name name g) = bank_catalog g"
  by (cases g; simp add: set_name_def)+

text \<open>A new name in the bank alone is seen, unless it is the old one.\<close>

lemma rename_unseen:
  assumes "mirrors x b" "shown_at x p = Some y" "all_groups x p" "group_at (group_path x p) (bnk_root b) = Some c"
    and "shown_catalog y = bank_catalog c" "k < length (sh_children y)" "sh_group (sh_children y ! k)"
    and "bnk_root b' = put_group (group_path x p)
      (put_child (group_index y k) (set_name name (grp_groups c ! group_index y k)) c) (bnk_root b)"
  shows "mirrors x b' \<longleftrightarrow> name = sh_text (sh_children y ! k)"
proof
  let ?j = "group_index y k"
  let ?c = "put_child ?j (set_name name (grp_groups c ! ?j)) c"
  note e = child_group [OF assms(5-7)]
  {
    assume "mirrors x b'"
    then have "shown_catalog x = bank_catalog (bnk_root b')" by (simp add: mirrors_def)
    from same_group [OF this assms(2,3)] have "shown_catalog y = bank_catalog ?c"
      using group_at_put_same [OF assms(4)] assms(8) by auto
    from child_group(2) [OF this assms(6,7)] e(1) show "name = sh_text (sh_children y ! k)"
      by (simp add: shown_entry_def put_child_def set_groups_def)
  next
    assume "name = sh_text (sh_children y ! k)"
    then have "(map (\<lambda>g. (grp_id g, grp_name g, bank_catalog g)) (grp_groups c))[?j := (grp_id (grp_groups c ! ?j), name,
        bank_catalog (grp_groups c ! ?j))] = map (\<lambda>g. (grp_id g, grp_name g, bank_catalog g)) (grp_groups c)"
      using e by (simp add: shown_entry_def list_update_same_conv)
    then have "bank_catalog ?c = bank_catalog c"
      by (intro catalog.expand) (simp add: bank_catalog_unfold put_child_def set_groups_def map_update)
    then have "mirrors (change_at p (\<lambda>y. y) x) b'"
      using assms(1,5) wf_shown_at [OF _ assms(2)]
      by (intro mirrors_change [OF assms(1-4,8)]) (simp_all add: mirrors_def)
    then show "mirrors x b'" using change_at_same [OF assms(2), of "\<lambda>y. y"] by simp
  }
qed

context qt_widget
begin

theorem add_group_keeps_mirror:
  assumes w: "nb_bank nb = Some b" "mirrors (tree (nb_tree nb)) b" "bank_ok b" "uid \<noteq> []"
    and i: "tr_currentItem Q (nb_tree nb) = Some i" "shown_at (tree (nb_tree nb)) (pos (nb_tree nb) i) = Some y"
      "all_groups (tree (nb_tree nb)) (pos (nb_tree nb) i)" "pos (nb_tree nb) i \<noteq> [] \<longrightarrow> sh_id y \<noteq> []"
    and run: "onBtnClickedAddGroup E Q es uid nb F = (Ret (), nb', F')"
  shows "\<exists>b'. nb_bank nb' = Some b' \<and> mirrors (tree (nb_tree nb')) b' \<and> bank_ok b'"
proof (cases "gd_exec es new_group_dashboard")
  case (Pair accepted gd)
  let ?x = "tree (nb_tree nb)" and ?p = "pos (nb_tree nb) i" and ?name = "getGroupName gd"
  show ?thesis
  proof (cases accepted)
    case False
    then show ?thesis using run w Pair by (simp add: onBtnClickedAddGroup_def)
  next
    case True
    have "tr_parent Q (nb_tree nb) i = None \<longleftrightarrow> ?p = []"
      using parent_top [of "nb_tree nb" i] parent [of "nb_tree nb" i] i(2) by (cases ?p rule: rev_cases) auto
    moreover have "?p = [] \<Longrightarrow> sh_id y = []" using w(2) i(2) by (auto simp: mirrors_def)
    ultimately have pid: "(if tr_parent Q (nb_tree nb) i \<noteq> None
        then toString (tr_data Q (nb_tree nb) i NOTEBOOK_ROLE_ID) else []) = sh_id y"
      using item_data [OF i(2)] by (simp add: sh_id_def)
    obtain ok b' F1 where a: "addGroup E (sh_id y) ?name uid b F = (Ret ok, b', F1)"
      using run w(1) True Pair i(1) pid
      by (auto simp: onBtnClickedAddGroup_def on_item_def on_bank_def Let_def split: outcome.splits prod.splits)
    obtain c where c: "parent_at b (sh_id y) (group_path ?x ?p) c" "shown_catalog y = bank_catalog c"
      using item_parent_at [OF w(2) i(2-4)] by blast
    note out = addGroup_outcome [OF w(3,4) c(1) a]
    obtain k w1 where k: "group_item Q i ?name uid (nb_tree nb) = (k, w1)" by fastforce
    have nb': "nb_bank nb' = Some b'" "tree (nb_tree nb') = (if ok then tree w1 else ?x)"
      using run w(1) True Pair i(1) pid a k
      by (auto simp: onBtnClickedAddGroup_def on_item_def on_bank_def notify_def Let_def split: if_splits)
    show ?thesis
    proof (cases ok)
      case False
      then show ?thesis using nb' out mirrors_same_root [OF w(2), of b'] by simp
    next
      case ok: True
      have t: "tree w1 = change_at ?p (append_child (group_node ?name uid)) ?x"
        using group_item_tree(1) [OF i(2) k] by (simp add: has_new_child_def)
      have "mirrors (change_at ?p (append_child (group_node ?name uid)) ?x) b'"
      proof (rule mirrors_change [OF w(2) i(2,3)])
        show "group_at (group_path ?x ?p) (bnk_root b) = Some c" using c(1) by (simp add: parent_at_def)
        show "bnk_root b' = put_group (group_path ?x ?p) (add_child uid ?name c) (bnk_root b)" using out ok by simp
        show "grp_name (add_child uid ?name c) = grp_name c" by (simp add: add_child_def)
        have "wf_shown y" using w(2) wf_shown_at i(2) by (auto simp: mirrors_def)
        then show "wf_shown (append_child (group_node ?name uid) y)" using wf_append_child wf_leaf by simp
        show "shown_catalog (append_child (group_node ?name uid) y) = bank_catalog (add_child uid ?name c)"
          using c(2) by (simp add: catalog_append_group bank_catalog_add_child shown_entry_def catalog_leaf)
      qed simp_all
      then show ?thesis using nb' out ok t by simp
    qed
  qed
qed

text \<open>The item of a group, \<open>z\<close>, with its parent \<open>y\<close> and the groups behind both.\<close>

lemma group_item_call:
  assumes w: "mirrors (tree w) b" "bank_ok b"
    and i: "shown_at (tree w) (pos w i) = Some z" "sh_group z" "pos w i = p @ [k]" "shown_at (tree w) p = Some y"
      "p \<noteq> [] \<longrightarrow> sh_id y \<noteq> []"
  obtains j c where "tr_parent Q w i = Some j" "pos w j = p" "toString (tr_data Q w j NOTEBOOK_ROLE_ID) = sh_id y"
    "toString (tr_data Q w i NOTEBOOK_ROLE_ID) = sh_id z" "tr_data Q w j NOTEBOOK_ROLE_ID = None \<longrightarrow> sh_id y = []"
    "parent_at b (sh_id y) (group_path (tree w) p) c" "shown_catalog y = bank_catalog c" "all_groups (tree w) p" "wf_shown y"
    "k < length (sh_children y)" "z = sh_children y ! k" "group_index y k < length (grp_groups c)"
    "(grp_id (grp_groups c ! group_index y k), grp_name (grp_groups c ! group_index y k),
       bank_catalog (grp_groups c ! group_index y k)) = shown_entry z"
proof -
  have k: "k < length (sh_children y)" "z = sh_children y ! k" using i by (auto simp: shown_at_append split: if_splits)
  obtain j where j: "tr_parent Q w i = Some j" "pos w j = p" using parent [of w i p k] i by auto
  have a: "all_groups (tree w) p" using w(1) all_groups_parent i(1,3) by (auto simp: mirrors_def)
  obtain c where c: "parent_at b (sh_id y) (group_path (tree w) p) c" "shown_catalog y = bank_catalog c"
    using item_parent_at [OF w(1) i(4) a i(5)] by blast
  have ids: "toString (tr_data Q w j NOTEBOOK_ROLE_ID) = sh_id y" "toString (tr_data Q w i NOTEBOOK_ROLE_ID) = sh_id z"
    "tr_data Q w j NOTEBOOK_ROLE_ID = None \<longrightarrow> sh_id y = []"
    using item_data [of w i] item_data [of w j] i(1,4) j(2) by (simp_all add: sh_id_def)
  have "wf_shown y" using w(1) wf_shown_at i(4) by (auto simp: mirrors_def)
  moreover have "group_index y k < length (grp_groups c)" "(grp_id (grp_groups c ! group_index y k),
      grp_name (grp_groups c ! group_index y k), bank_catalog (grp_groups c ! group_index y k)) = shown_entry z"
    using child_group [OF c(2) k(1)] i(2) k(2) by simp_all
  ultimately show thesis by (intro that [OF j ids c a _ k])
qed

theorem delete_group_keeps_mirror:
  assumes w: "nb_bank nb = Some b" "mirrors (tree (nb_tree nb)) b" "bank_ok b" "fs_locked F = []"
    and i: "tr_currentItem Q (nb_tree nb) = Some i" "shown_at (tree (nb_tree nb)) (pos (nb_tree nb) i) = Some z"
      "sh_group z" "pos (nb_tree nb) i = p @ [k]" "shown_at (tree (nb_tree nb)) p = Some y"
      "p \<noteq> [] \<longrightarrow> sh_id y \<noteq> []" "sh_id z \<noteq> []"
    and run: "onBtnClickedDeleteGroup E Q nb F = (Ret (), nb', F')"
  shows "tree (nb_tree nb') = change_at p (\<lambda>y. put_children (erase_at k (sh_children y)) y) (tree (nb_tree nb)) \<and>
    (\<exists>b'. nb_bank nb' = Some b' \<and> mirrors (tree (nb_tree nb')) b' \<and> bank_ok b' \<and> \<not> has_key (sh_id z) (bnk_mapIds b') \<and>
      set (named_ids (bnk_root b')) = set (named_ids (bnk_root b)) - {sh_id z})"
proof -
  let ?x = "tree (nb_tree nb)" and ?e = "\<lambda>y. put_children (erase_at k (sh_children y)) y"
  obtain j c where j: "tr_parent Q (nb_tree nb) i = Some j" "pos (nb_tree nb) j = p"
    "toString (tr_data Q (nb_tree nb) j NOTEBOOK_ROLE_ID) = sh_id y" "toString (tr_data Q (nb_tree nb) i NOTEBOOK_ROLE_ID) = sh_id z"
    "tr_data Q (nb_tree nb) j NOTEBOOK_ROLE_ID = None \<longrightarrow> sh_id y = []"
    and c: "parent_at b (sh_id y) (group_path ?x p) c" "shown_catalog y = bank_catalog c" "all_groups ?x p" "wf_shown y"
    and k: "k < length (sh_children y)" "z = sh_children y ! k" "group_index y k < length (grp_groups c)"
      "(grp_id (grp_groups c ! group_index y k), grp_name (grp_groups c ! group_index y k),
         bank_catalog (grp_groups c ! group_index y k)) = shown_entry z"
    by (rule group_item_call [OF w(2,3) i(2-6)])
  have pid: "(if tr_data Q (nb_tree nb) j NOTEBOOK_ROLE_ID \<noteq> None
      then toString (tr_data Q (nb_tree nb) j NOTEBOOK_ROLE_ID) else []) = sh_id y" using j(3,5) by simp
  obtain ok b' F1 where d: "deleteGroup E (sh_id y) (sh_id z) b F = (Ret ok, b', F1)"
    using run w(1) i(1) j(1,4) pid
    by (auto simp: onBtnClickedDeleteGroup_def on_item_def on_bank_def Let_def split: outcome.splits prod.splits)
  have "grp_id (grp_groups c ! group_index y k) = sh_id z" using k(4) by (simp add: shown_entry_def)
  note out = deleteGroup_returned [OF w(3) i(7) c(1) k(3) this w(4) d]
  have "ok" using out by simp
  then have nb': "nb_bank nb' = Some b'" "tree (nb_tree nb') = change_at p ?e ?x"
    using run w(1) i(1) j(1,4) pid d remove_item_tree [of "nb_tree nb" p k z i j] i(2,4) j(2)
    by (auto simp: onBtnClickedDeleteGroup_def on_item_def on_bank_def Let_def)
  have "mirrors (change_at p ?e ?x) b'"
  proof (rule mirrors_change [OF w(2) i(5) c(3)])
    show "group_at (group_path ?x p) (bnk_root b) = Some c" using c(1) by (simp add: parent_at_def)
    show "bnk_root b' = put_group (group_path ?x p) (set_groups (erase_at (group_index y k) (grp_groups c)) c) (bnk_root b)"
      using out by simp
    show "wf_shown (?e y)"
      using c(4) set_erase_at [of k "sh_children y"] unfolding wf_shown_iff [of y] wf_shown_iff [of "?e y"] by auto
    show "shown_catalog (?e y) = bank_catalog (set_groups (erase_at (group_index y k) (grp_groups c)) c)"
      using catalog_erase_group [OF c(2) k(1)] i(3) k(2) by simp
  qed (simp_all add: sh_group_def sh_id_def)
  moreover have "bank_ok b'" "set (named_ids (bnk_root b')) = set (named_ids (bnk_root b)) - {sh_id z}"
    "bnk_mapIds b' = map_erase (sh_id z) (bnk_mapIds b)" using out by blast+
  moreover from this(3) have "\<not> has_key (sh_id z) (bnk_mapIds b')" by (auto simp: has_key_def map_erase_def)
  ultimately show ?thesis using nb' by simp
qed

text \<open>
  Renaming. The bank changes its tree whether or not the disk renames the directory; the item
  changes only when the bank reports success.
\<close>

theorem modify_group_mirrors:
  assumes w: "nb_bank nb = Some b" "mirrors (tree (nb_tree nb)) b" "bank_ok b"
    and i: "tr_currentItem Q (nb_tree nb) = Some i" "shown_at (tree (nb_tree nb)) (pos (nb_tree nb) i) = Some z"
      "sh_group z" "pos (nb_tree nb) i = p @ [k]" "shown_at (tree (nb_tree nb)) p = Some y"
      "p \<noteq> [] \<longrightarrow> sh_id y \<noteq> []" "sh_id z \<noteq> []"
    and gd: "gd_exec es (setGroupName T (sh_text z) new_group_dashboard) = (True, gd)"
    and run: "onBtnClickedModifyGroup E Q T es nb F = (Ret (), nb', F')"
  shows "\<exists>b'. nb_bank nb' = Some b' \<and> bank_ok b' \<and>
    (mirrors (tree (nb_tree nb')) b' \<longleftrightarrow> nb_notices nb' = nb_notices nb \<or> getGroupName gd = sh_text z)"
proof -
  let ?x = "tree (nb_tree nb)" and ?name = "getGroupName gd"
  let ?d = "put_data ToolTipRole (VString ?name) (put_text ?name z)"
  let ?f = "\<lambda>y. put_children ((sh_children y)[k := ?d]) y"
  obtain j c where j: "tr_parent Q (nb_tree nb) i = Some j" "pos (nb_tree nb) j = p"
    "toString (tr_data Q (nb_tree nb) j NOTEBOOK_ROLE_ID) = sh_id y" "toString (tr_data Q (nb_tree nb) i NOTEBOOK_ROLE_ID) = sh_id z"
    "tr_data Q (nb_tree nb) j NOTEBOOK_ROLE_ID = None \<longrightarrow> sh_id y = []"
    and c: "parent_at b (sh_id y) (group_path ?x p) c" "shown_catalog y = bank_catalog c" "all_groups ?x p" "wf_shown y"
    and k: "k < length (sh_children y)" "z = sh_children y ! k" "group_index y k < length (grp_groups c)"
      "(grp_id (grp_groups c ! group_index y k), grp_name (grp_groups c ! group_index y k),
         bank_catalog (grp_groups c ! group_index y k)) = shown_entry z"
    by (rule group_item_call [OF w(2,3) i(2-6)])
  note name = item_text [OF i(2)]
  obtain ok b' F1 where u: "updateGroup E (sh_id y) (sh_id z) ?name b F = (Ret ok, b', F1)"
    using run w(1) i(1) j(1,3,4) gd name
    by (auto simp: onBtnClickedModifyGroup_def on_item_def on_bank_def Let_def split: outcome.splits prod.splits)
  have "grp_id (grp_groups c ! group_index y k) = sh_id z" using k(4) by (simp add: shown_entry_def)
  note out = updateGroup_outcome [OF w(3) i(7) c(1) k(3) this u]
  have t: "has_item ?x (p @ [k]) i ?d (tr_setExpanded Q i (tr_setData Q i ToolTipRole (VString ?name)
      (tr_setText Q i ?name (nb_tree nb))))"
    using has_itemI [OF i(2)] i(4) by (intro set_item) simp
  then have nb': "nb_bank nb' = Some b'" "tree (nb_tree nb') = (if ok then change_at p ?f ?x else ?x)"
    "nb_notices nb' = nb_notices nb \<longleftrightarrow> ok"
    using run w(1) i(1) j(1,3,4) gd name u change_child_at [OF i(5), of k ?d]
    by (auto simp: onBtnClickedModifyGroup_def on_item_def on_bank_def notify_def has_item_def Let_def split: if_splits)
  let ?h = "set_name ?name (grp_groups c ! group_index y k)"
  have ga: "group_at (group_path ?x p) (bnk_root b) = Some c" using c(1) by (simp add: parent_at_def)
  have same: "shown_catalog (?f y) = bank_catalog (put_child (group_index y k) ?h c)"
    using k i(3) by (intro catalog_update_group [OF c(2)]) (simp_all add: shown_entry_def sh_group_def sh_id_def)
  have m: "mirrors (change_at p ?f ?x) b'"
  proof (rule mirrors_change [OF w(2) i(5) c(3) ga])
    show "bnk_root b' = put_group (group_path ?x p) (put_child (group_index y k) ?h c) (bnk_root b)" using out by simp
    have "wf_shown e \<and> (\<not> sh_group e \<longrightarrow> sh_children e = [])" if "e \<in> set ((sh_children y)[k := ?d])" for e
      using subsetD [OF set_update_subset_insert that] c(4) k(1,2) i(3) nth_mem [OF k(1)]
      unfolding wf_shown_iff [of y] by (auto simp: sh_group_def)
    then show "wf_shown (?f y)" unfolding wf_shown_iff [of "?f y"] put_simps by blast
    show "shown_catalog (?f y) = bank_catalog (put_child (group_index y k) ?h c)" by (rule same)
  qed (simp_all add: sh_group_def sh_id_def)
  show ?thesis
  proof (cases ok)
    case True
    then show ?thesis using nb' m out by simp
  next
    case False
    then show ?thesis
      using nb' out rename_unseen [OF w(2) i(5) c(3) ga c(2) k(1)] i(3) k(2) by simp
  qed
qed

end

end
