(* ===== verification/TreeBuilding.thy ===== *)
theory TreeBuilding
  imports QuestionSlots
begin

text \<open>
  \<open>initQuestionTree\<close>: the items it makes under an item add the groups and questions of the bank to
  the catalog that is shown there, and leave all other items where they are.
\<close>

definition grown :: "shown \<Rightarrow> shown \<Rightarrow> (string \<times> string \<times> catalog) list \<Rightarrow> row multiset \<Rightarrow> bool" where
  "grown y d es M \<longleftrightarrow> sh_text d = sh_text y \<and> sh_data d = sh_data y \<and>
     length (sh_children y) \<le> length (sh_children d) \<and>
     (\<forall>k < length (sh_children y). sh_children d ! k = sh_children y ! k) \<and> (wf_shown y \<longrightarrow> wf_shown d) \<and>
     cat_groups (shown_catalog d) = cat_groups (shown_catalog y) @ es \<and>
     cat_questions (shown_catalog d) = cat_questions (shown_catalog y) + M"

lemma grown_refl: "grown y y [] {#}"
  by (simp add: grown_def)

lemma grown_trans: "grown y d es M \<Longrightarrow> grown d e fs N \<Longrightarrow> grown y e (es @ fs) (M + N)"
  by (auto simp: grown_def ac_simps)

lemma grown_question:
  "\<not> sh_group q \<Longrightarrow> sh_children q = [] \<Longrightarrow> grown y (append_child q y) [] {#shown_row q#}"
  by (auto simp: grown_def nth_append catalog_append_question wf_append_child wf_leaf)

lemma grown_group:
  "sh_group g \<Longrightarrow> wf_shown g \<Longrightarrow> grown y (append_child g y) [shown_entry g] {#}"
  by (auto simp: grown_def nth_append catalog_append_group wf_append_child)

text \<open>The contexts of a bank are open files.\<close>

fun contexts_open :: "CQuestionGroupParam \<Rightarrow> bool" where
  "contexts_open (Group n i p qs gs) \<longleftrightarrow> (\<forall>q \<in> set qs. \<exists>s. q = Some s \<and> qai_path s \<noteq> []) \<and> (\<forall>g \<in> set gs. contexts_open g)"

text \<open>Induction on a group and on a list of groups together.\<close>

lemma group_list_induct:
  assumes "\<And>n i p qs gs. S gs \<Longrightarrow> P (Group n i p qs gs)" "S []" "\<And>g gs. P g \<Longrightarrow> S gs \<Longrightarrow> S (g # gs)"
  shows "P g" "S gs"
proof -
  have P: "P g" for g
  proof (induction g)
    case (Group n i p qs gs)
    have "S gs" using Group by (induction gs) (auto intro: assms(2,3))
    then show ?case by (rule assms(1))
  qed
  show "P g" by (rule P)
  show "S gs" by (induction gs) (auto intro: assms P)
qed

context qt_widget
begin

definition grows :: "'w \<Rightarrow> 'i \<Rightarrow> 'w \<Rightarrow> (string \<times> string \<times> catalog) list \<Rightarrow> row multiset \<Rightarrow> bool" where
  "grows w i w' es M \<longleftrightarrow>
     (\<exists>y d. shown_at (tree w) (pos w i) = Some y \<and> tree w' = change_at (pos w i) (\<lambda>_. d) (tree w) \<and> grown y d es M) \<and>
     (\<forall>j. shown_at (tree w) (pos w j) \<noteq> None \<longrightarrow> pos w' j = pos w j)"

lemma grows_valid:
  assumes "grows w i w' es M" "shown_at (tree w) (pos w j) \<noteq> None"
  shows "shown_at (tree w') (pos w' j) \<noteq> None" "pos w' j = pos w j"
proof -
  obtain y d where y: "shown_at (tree w) (pos w i) = Some y" "tree w' = change_at (pos w i) (\<lambda>_. d) (tree w)" "grown y d es M"
    using assms(1) by (auto simp: grows_def)
  show p: "pos w' j = pos w j" using assms by (simp add: grows_def)
  show "shown_at (tree w') (pos w' j) \<noteq> None"
    unfolding p y(2) using y(3) by (intro shown_at_still [OF y(1) _ _ assms(2)]) (simp_all add: grown_def)
qed

lemma grows_refl: "shown_at (tree w) (pos w i) \<noteq> None \<Longrightarrow> grows w i w [] {#}"
proof -
  assume "shown_at (tree w) (pos w i) \<noteq> None"
  then obtain y where y: "shown_at (tree w) (pos w i) = Some y" by auto
  then have "tree w = change_at (pos w i) (\<lambda>_. y) (tree w)" using change_at_same [OF y, of "\<lambda>_. y"] by simp
  then show ?thesis using y grown_refl unfolding grows_def by blast
qed

lemma grows_trans:
  assumes "grows w i w1 es M" "grows w1 i w2 fs N"
  shows "grows w i w2 (es @ fs) (M + N)"
proof -
  obtain y d where y: "shown_at (tree w) (pos w i) = Some y" "tree w1 = change_at (pos w i) (\<lambda>_. d) (tree w)" "grown y d es M"
    using assms(1) by (auto simp: grows_def)
  then have i: "pos w1 i = pos w i" and d: "shown_at (tree w1) (pos w i) = Some d"
    using grows_valid(2) [OF assms(1)] shown_at_change by auto
  obtain e where e: "tree w2 = change_at (pos w i) (\<lambda>_. e) (tree w1)" "grown d e fs N"
    using assms(2) i d by (auto simp: grows_def)
  have "tree w2 = change_at (pos w i) (\<lambda>_. e) (tree w)"
    using change_at_change [OF y(1), of "\<lambda>_. e" "\<lambda>_. d"] e(1) y(2) by (simp add: comp_def)
  moreover have "pos w2 j = pos w j" if "shown_at (tree w) (pos w j) \<noteq> None" for j
    using grows_valid [OF assms(1) that] assms(2) by (simp add: grows_def)
  ultimately show ?thesis using y(1) grown_trans [OF y(3) e(2)] by (auto simp: grows_def)
qed

lemma grows_new_child:
  assumes "has_new_child (tree w) (pos w i) c d w'" "\<And>j. shown_at (tree w) (pos w j) \<noteq> None \<Longrightarrow> pos w' j = pos w j"
    and "\<And>y. grown y (append_child d y) es M"
  shows "grows w i w' es M"
proof -
  obtain y where y: "shown_at (tree w) (pos w i) = Some y" "tree w' = change_at (pos w i) (append_child d) (tree w)"
    using assms(1) by (auto simp: has_new_child_def)
  then have "tree w' = change_at (pos w i) (\<lambda>_. append_child d y) (tree w)"
    using change_at_cong [OF y(1), of "append_child d" "\<lambda>_. append_child d y"] by simp
  then show ?thesis using y(1) assms(2,3) by (auto simp: grows_def)
qed

lemma grows_question:
  assumes "shown_at (tree w) (pos w i) \<noteq> None" "question_item Q i question qid answer w = (c, w1)"
  shows "grows w i (tr_setExpanded Q i (if answer = [] then tr_setData Q c ForegroundRole (VBrush Red) w1 else w1))
    [] {#(qid, question, answer)#}"
proof -
  obtain y where y: "shown_at (tree w) (pos w i) = Some y" using assms(1) by auto
  note n = question_item_tree [OF y assms(2)]
  let ?d = "if answer = [] then put_data ForegroundRole (VBrush Red) (question_node question qid answer)
      else question_node question qid answer"
  let ?w = "tr_setExpanded Q i (if answer = [] then tr_setData Q c ForegroundRole (VBrush Red) w1 else w1)"
  have "has_new_child (tree w) (pos w i) c ?d ?w"
    using set_child(3) [OF n(1)] set_child(3) [OF set_child(2) [OF n(1)]] by auto
  moreover have "\<And>j. shown_at (tree w) (pos w j) \<noteq> None \<Longrightarrow> pos ?w j = pos w j"
    using n(2) by (simp add: setExpanded setData(2))
  ultimately show ?thesis
    by (rule grows_new_child) (use grown_question [of ?d] in \<open>auto split: if_splits\<close>)
qed

lemma grows_group:
  assumes "shown_at (tree w) (pos w i) \<noteq> None" "group_item Q i name gid w = (c, w1)" "grows w1 c w2 es M"
  shows "grows w i w2 [(gid, name, Catalog es M)] {#}"
proof -
  obtain y where y: "shown_at (tree w) (pos w i) = Some y" using assms(1) by auto
  let ?p = "pos w i" and ?n = "length (sh_children y)"
  note n = group_item_tree [OF y assms(2)]
  have w1: "pos w1 c = ?p @ [?n]" "tree w1 = change_at ?p (append_child (group_node name gid)) (tree w)"
    using n(1) y by (auto simp: has_new_child_def)
  obtain d where d: "tree w2 = change_at (?p @ [?n]) (\<lambda>_. d) (tree w1)" "grown (group_node name gid) d es M"
    using assms(3) w1 change_child(2) [OF y refl, of "group_node name gid"] by (auto simp: grows_def)
  have t: "tree w2 = change_at ?p (append_child d) (tree w)"
    using change_child(1) [OF y refl, of "\<lambda>_. d"] d(1) w1(2) by simp
  have s: "sh_group d" "sh_id d = gid" "sh_text d = name" "wf_shown d" "shown_catalog d = Catalog es M"
    using d(2) wf_leaf [of "group_node name gid"] catalog_leaf [of "group_node name gid"]
    by (auto simp: grown_def sh_group_def sh_id_def group_node_def intro: catalog.expand)
  have v: "shown_at (tree w1) (pos w1 j) \<noteq> None \<and> pos w1 j = pos w j" if "shown_at (tree w) (pos w j) \<noteq> None" for j
    using n(2) [OF that] shown_at_still [OF y, of "append_child (group_node name gid)"] that w1(2)
    by (simp add: nth_append)
  have "pos w2 j = pos w j" if "shown_at (tree w) (pos w j) \<noteq> None" for j
    using v [OF that] grows_valid(2) [OF assms(3), of j] by metis
  moreover have "change_at ?p (append_child d) (tree w) = change_at ?p (\<lambda>_. append_child d y) (tree w)"
    by (rule change_at_cong [OF y]) simp
  ultimately show ?thesis
    using y t grown_group [OF s(1,4), of y] s by (auto simp: grows_def shown_entry_def)
qed

text \<open>The whole construction.\<close>

lemma question_items_grow:
  "shown_at (tree w) (pos w i) \<noteq> None \<Longrightarrow>
   grows w i (question_items Q i qaps w) [] (mset (map (\<lambda>p. (prm_id p, prm_question p, prm_answer p)) qaps))"
proof (induction qaps arbitrary: w)
  case Nil
  then show ?case by (simp add: grows_refl)
next
  case (Cons p qaps)
  obtain c w1 where c: "question_item Q i (prm_question p) (prm_id p) (prm_answer p) w = (c, w1)" by fastforce
  note g = grows_question [OF Cons.prems c]
  from grows_trans [OF g Cons.IH] grows_valid(1) [OF g Cons.prems] c show ?case
    by (simp add: Let_def)
qed

lemma context_items_grow:
  "shown_at (tree w) (pos w i) \<noteq> None \<Longrightarrow> (\<forall>q \<in> set qs. \<exists>s. q = Some s \<and> qai_path s \<noteq> []) \<Longrightarrow>
   context_items Q i qs w = (Ret (), w') \<Longrightarrow> grows w i w' [] (rows_of qs)"
proof (induction qs arbitrary: w)
  case Nil
  then show ?case by (simp add: grows_refl)
next
  case (Cons q qs)
  show ?case
  proof (cases q)
    case None
    then show ?thesis using Cons.prems(3) by simp
  next
    case (Some s)
    let ?qaps = "map param_of (questions_of s)"
    have "getQuestions s [] = (True, ?qaps, s)"
      using Cons.prems(2) Some by (simp add: getQuestions_def questions_of_def)
    then have r: "context_items Q i qs (question_items Q i ?qaps w) = (Ret (), w')" using Cons.prems(3) Some by simp
    have m: "mset (map (\<lambda>p. (prm_id p, prm_question p, prm_answer p)) ?qaps) = context_rows (Some s)"
      by (simp add: context_rows_def param_of_def question_row_def [abs_def] image_mset.compositionality comp_def)
    note g = question_items_grow [OF Cons.prems(1), of ?qaps, unfolded m]
    from grows_trans [OF g Cons.IH [OF grows_valid(1) [OF g Cons.prems(1)] _ r]] Cons.prems(2) Some
    show ?thesis by simp
  qed
qed

lemma initQuestionTree_grows:
  "initQuestionTree Q i g w = (Ret (), w') \<Longrightarrow> contexts_open g \<Longrightarrow> shown_at (tree w) (pos w i) \<noteq> None \<Longrightarrow>
     grows w i w' (cat_groups (bank_catalog g)) (cat_questions (bank_catalog g))"
  "group_items Q i gs w = (Ret (), w') \<Longrightarrow> (\<forall>g \<in> set gs. contexts_open g) \<Longrightarrow> shown_at (tree w) (pos w i) \<noteq> None \<Longrightarrow>
     grows w i w' (map (\<lambda>g. (grp_id g, grp_name g, bank_catalog g)) gs) {#}"
proof (induction g and gs arbitrary: i w w' and i w w' rule: group_list_induct)
  case (1 n gi p qs gs)
  obtain w1 where w1: "group_items Q i gs w = (Ret (), w1)" "context_items Q i qs w1 = (Ret (), w')"
    using 1(2) by (auto simp: andthen_Ret_iff)
  note g = 1(1) [OF w1(1) _ 1(4)]
  have o: "\<forall>g \<in> set gs. contexts_open g" "\<forall>q \<in> set qs. \<exists>s. q = Some s \<and> qai_path s \<noteq> []" using 1(3) by auto
  note g = g [OF o(1)]
  have "grows w1 i w' [] (rows_of qs)"
    using context_items_grow [OF _ o(2) w1(2)] grows_valid(1) [OF g 1(4)] by simp
  from grows_trans [OF g this] show ?case by simp
next
  case 2
  then show ?case by (simp add: grows_refl)
next
  case (3 g gs)
  obtain c w1 where c: "group_item Q i (grp_name g) (grp_id g) w = (c, w1)" by fastforce
  obtain w2 where w2: "initQuestionTree Q c g w1 = (Ret (), w2)" "group_items Q i gs w2 = (Ret (), w')"
    using 3(3) c by (auto simp: andthen_Ret_iff)
  obtain y where y: "shown_at (tree w) (pos w i) = Some y" using 3(5) by auto
  have v: "shown_at (tree w1) (pos w1 c) \<noteq> None"
    using group_item_tree(1) [OF y c] change_child(2) [OF y refl] y by (auto simp: has_new_child_def)
  have "grows w1 c w2 (cat_groups (bank_catalog g)) (cat_questions (bank_catalog g))"
    using 3(1) [OF w2(1) _ v] 3(4) by simp
  from grows_group [OF 3(5) c this]
  have g: "grows w i w2 [(grp_id g, grp_name g, bank_catalog g)] {#}" by simp
  have "grows w2 i w' (map (\<lambda>g. (grp_id g, grp_name g, bank_catalog g)) gs) {#}"
    using 3(2) [OF w2(2) _ grows_valid(1) [OF g 3(5)]] 3(4) by simp
  from grows_trans [OF g this] show ?case by simp
qed

text \<open>It returns whenever no context is missing.\<close>

lemma context_items_returns:
  "\<forall>q \<in> set qs. \<exists>s. q = Some s \<and> qai_path s \<noteq> [] \<Longrightarrow> \<exists>w'. context_items Q i qs w = (Ret (), w')"
  by (induction qs arbitrary: w) (auto split: prod.split)

lemma initQuestionTree_returns:
  "contexts_open g \<Longrightarrow> \<exists>w'. initQuestionTree Q i g w = (Ret (), w')"
  "(\<forall>g \<in> set gs. contexts_open g) \<Longrightarrow> \<exists>w'. group_items Q i gs w = (Ret (), w')"
proof (induction g and gs arbitrary: i w and i w rule: group_list_induct)
  case (1 n gi p qs gs)
  have o: "\<forall>g \<in> set gs. contexts_open g" "\<forall>q \<in> set qs. \<exists>s. q = Some s \<and> qai_path s \<noteq> []" using 1(2) by auto
  obtain w1 where w1: "group_items Q i gs w = (Ret (), w1)" using 1(1) [OF o(1)] by blast
  obtain w2 where "context_items Q i qs w1 = (Ret (), w2)" using context_items_returns [OF o(2)] by blast
  with w1 show ?case by simp
next
  case (3 g gs)
  obtain c w1 where c: "group_item Q i (grp_name g) (grp_id g) w = (c, w1)" by fastforce
  have o: "contexts_open g" "\<forall>g \<in> set gs. contexts_open g" using 3(3) by simp_all
  obtain w2 where w2: "initQuestionTree Q c g w1 = (Ret (), w2)" using 3(1) [OF o(1)] by blast
  obtain w3 where "group_items Q i gs w2 = (Ret (), w3)" using 3(2) [OF o(2)] by blast
  with c w2 show ?case by simp
qed simp

end

subsection \<open>The contexts \<open>init\<close> makes are open\<close>

lemma qai_open_path: "qai_open E F path flag s = (True, s') \<Longrightarrow> qai_path s' \<noteq> []"
  by (auto simp: qai_open_def Let_def split: if_splits prod.splits)

lemma initQuestionBank_open:
  "initQuestionBank E F ids pn path name is_file g = (r, g') \<Longrightarrow> contexts_open g \<Longrightarrow> contexts_open g'"
  "initQuestionBank_any E F ids pn path name is_file gs = (q, gs') \<Longrightarrow>
     \<forall>g \<in> set gs. contexts_open g \<Longrightarrow> \<forall>g \<in> set gs'. contexts_open g"
  by (induction E F ids pn path name is_file g and E F ids pn path name is_file gs arbitrary: r g' and q gs'
      rule: initQuestionBank_initQuestionBank_any.induct)
     (auto dest: qai_open_path split: if_splits prod.splits bool.splits)

lemma contexts_open_append:
  "contexts_open g \<Longrightarrow> contexts_open h \<Longrightarrow> contexts_open (set_groups (grp_groups g @ [h]) g)"
  by (cases g) (simp add: set_groups_def)

lemma init_entries_open:
  "init_entries E F root_name paths b = (r, b') \<Longrightarrow> contexts_open (bnk_root b) \<Longrightarrow> contexts_open (bnk_root b')"
proof (induction E F root_name paths b rule: init_entries.induct)
  case (2 E F root_name path paths b)
  have "init_entry E F root_name path b = (q, c) \<Longrightarrow> contexts_open (bnk_root c)" for q c
    using 2(3) contexts_open_append [of "bnk_root b"] initQuestionBank_open(1)
    by (auto simp: init_entry_def Let_def split: option.splits node.splits if_splits prod.splits)
  then show ?case using 2 by (auto split: prod.splits bool.splits)
qed simp

lemma init_tree_open:
  assumes "init_tree E path b F = (Ret True, b', F')" "contexts_open (bnk_root b)"
  shows "contexts_open (bnk_root b')"
proof -
  obtain b1 where b1: "init_entries E F (path_filename path) (map (entry_path path) (fst (entries E F (components path))))
      (b\<lparr>bnk_root := Group (path_filename path) (grp_id (bnk_root b)) path (grp_questions (bnk_root b)) (grp_groups (bnk_root b))\<rparr>) =
      (True, b1)" "b' = b1"
    using assms(1) by (auto simp: init_tree_def Let_def close_ids_def split: prod.splits bool.splits option.splits outcome.splits)
  have "contexts_open (Group (path_filename path) (grp_id (bnk_root b)) path (grp_questions (bnk_root b)) (grp_groups (bnk_root b)))"
    using assms(2) by (cases "bnk_root b") simp
  with init_entries_open [OF b1(1)] b1(2) show ?thesis by simp
qed

lemma init_open:
  assumes "init E path new_bank F = (Ret True, b, F')"
  shows "contexts_open (bnk_root b)"
proof -
  obtain F1 where "init_ids E path new_bank F1 = (Ret True, b, F')"
    using assms by (auto simp: init_def andthen_Ret_iff split: if_splits)
  then obtain b1 where b1: "init_tree E path b1 F1 = (Ret True, b, F')" "bnk_root b1 = empty_group"
    by (auto simp: init_ids_def Let_def new_bank_def close_ids_def
        split: prod.splits bool.splits if_splits option.splits outcome.splits)
  show ?thesis using init_tree_open [OF b1(1)] b1(2) by (simp add: empty_group_def)
qed

subsection \<open>The window that is opened\<close>

context qt_widget
begin

theorem window_opens_with_mirror:
  assumes "empty w" "alloc_ok E" "init E (dir @ ''/QuestionBank'') new_bank F = (Ret True, b, F')"
  shows "\<exists>nb. new_notebook E Q dir w F = (Ret True, nb, F') \<and> nb_bank nb = Some b \<and> mirrors (tree (nb_tree nb)) b"
proof -
  obtain c w1 where c: "tr_newTop Q w = (c, w1)" by fastforce
  then have t: "tree w1 = blank" "pos w1 c = []" using newTop [OF assms(1)] by auto
  let ?y = "put_data UserRole (VBool True) (put_data ForegroundRole (VBrush Blue) (put_text root_text blank))"
  let ?w = "tr_setData Q c UserRole (VBool True) (tr_setData Q c ForegroundRole (VBrush Blue) (tr_setText Q c root_text w1))"
  have "has_item blank [] c blank w1" using t by (simp add: has_item_def)
  then have "has_item blank [] c ?y ?w" by (intro set_item)
  then have y: "tree ?w = ?y" "pos ?w c = []" by (simp_all add: has_item_def)
  have o: "contexts_open (bnk_root b)" using init_open [OF assms(3)] .
  obtain w' where w': "initQuestionTree Q c (bnk_root b) ?w = (Ret (), w')" using initQuestionTree_returns(1) [OF o] by blast
  have "grows ?w c w' (cat_groups (bank_catalog (bnk_root b))) (cat_questions (bank_catalog (bnk_root b)))"
    by (rule initQuestionTree_grows(1) [OF w' o]) (simp add: y)
  then have g: "grown ?y (tree w') (cat_groups (bank_catalog (bnk_root b))) (cat_questions (bank_catalog (bnk_root b)))"
    using y by (auto simp: grows_def)
  then have "shown_catalog (tree w') = bank_catalog (bnk_root b)"
    by (intro catalog.expand) (simp add: grown_def catalog_leaf)
  moreover have "wf_shown (tree w')" "sh_id (tree w') = []"
    using g wf_leaf [of ?y] by (simp_all add: grown_def sh_id_def)
  ultimately have "mirrors (tree w') b" by (simp add: mirrors_def)
  then show ?thesis
    using assms(2,3) c w' by (simp add: new_notebook_def window_initQuestionBank_def getQuestionsBank_def Let_def)
qed

end

end
