(* ===== verification/WindowSession.thy ===== *)
theory WindowSession
  imports GroupSlots TreeBuilding
begin

text \<open>
  Working with questions in the window: pressing items, walking through the questions, showing
  answers, and the three slots that change questions, in any order. The context menu offers
  the slot for a new question on groups and the other two on questions; the id of a new question
  is a fresh UUID. All along the window mirrors the bank.
\<close>

inductive question_work ::
  "env \<Rightarrow> ('w, 'i) qt_tree \<Rightarrow> qt_text \<Rightarrow> ('w \<Rightarrow> shown) \<Rightarrow> ('w \<Rightarrow> 'i \<Rightarrow> nat list) \<Rightarrow> fs \<Rightarrow>
   ('w, 'i) notebook \<Rightarrow> ('w, 'i) notebook \<Rightarrow> bool" for E Q T tree pos F nb where
  start: "question_work E Q T tree pos F nb nb"
| pressed: "question_work E Q T tree pos F nb nb1 \<Longrightarrow>
    question_work E Q T tree pos F nb (onTreeWidgetItemClicked Q T m i (nb1\<lparr>nb_tree := tr_setCurrentItem Q i (nb_tree nb1)\<rparr>))"
| previous: "question_work E Q T tree pos F nb nb1 \<Longrightarrow> onBtnClickedLastQuestion Q T nb1 = Some nb2 \<Longrightarrow>
    question_work E Q T tree pos F nb nb2"
| following: "question_work E Q T tree pos F nb nb1 \<Longrightarrow> onBtnClickedNextQuestion Q T nb1 = Some nb2 \<Longrightarrow>
    question_work E Q T tree pos F nb nb2"
| answer: "question_work E Q T tree pos F nb nb1 \<Longrightarrow> question_work E Q T tree pos F nb (onBtnClickedShowAnswer Q T nb1)"
| add: "question_work E Q T tree pos F nb nb1 \<Longrightarrow> tr_currentItem Q (nb_tree nb1) = Some i \<Longrightarrow>
    shown_at (tree (nb_tree nb1)) (pos (nb_tree nb1) i) = Some y \<Longrightarrow> sh_group y \<Longrightarrow>
    uid \<notin># image_mset fst (cat_questions (shown_catalog y)) \<Longrightarrow>
    onBtnClickedAddQuestion E Q T es uid nb1 F = (Ret (), nb2, F') \<Longrightarrow> question_work E Q T tree pos F nb nb2"
| delete: "question_work E Q T tree pos F nb nb1 \<Longrightarrow> tr_currentItem Q (nb_tree nb1) = Some i \<Longrightarrow>
    shown_at (tree (nb_tree nb1)) (pos (nb_tree nb1) i) = Some z \<Longrightarrow> \<not> sh_group z \<Longrightarrow>
    onBtnClickedDeleteQuestion E Q nb1 F = (Ret (), nb2, F') \<Longrightarrow> question_work E Q T tree pos F nb nb2"
| modify: "question_work E Q T tree pos F nb nb1 \<Longrightarrow> tr_currentItem Q (nb_tree nb1) = Some i \<Longrightarrow>
    shown_at (tree (nb_tree nb1)) (pos (nb_tree nb1) i) = Some z \<Longrightarrow> \<not> sh_group z \<Longrightarrow>
    onBtnClickedModifyQuestion E Q T es nb1 F = (Ret (), nb2, F') \<Longrightarrow> question_work E Q T tree pos F nb nb2"

definition window_ok :: "('w \<Rightarrow> shown) \<Rightarrow> fs \<Rightarrow> ('w, 'i) notebook \<Rightarrow> bool" where
  "window_ok tree F nb \<longleftrightarrow> (\<exists>b. nb_bank nb = Some b \<and> mirrors (tree (nb_tree nb)) b \<and> bank_settled F b)"

lemma group_all:
  assumes "wf_shown x" "shown_at x p = Some y" "sh_group y"
  shows "all_groups x p"
proof (cases p rule: rev_cases)
  case (snoc q k)
  then obtain z where "shown_at x q = Some z" "k < length (sh_children z)" "y = sh_children z ! k"
    using assms(2) by (auto simp: shown_at_child)
  then show ?thesis using all_groups_parent [OF assms(1), of q k y] all_groups_append [of x q z "[k]"] assms(2,3) snoc by simp
qed simp

context qt_widget
begin

text \<open>Slots that only look leave the tree and the bank as they are.\<close>

lemma looking:
  "nb_bank (onTreeWidgetItemClicked Q T m i nb) = nb_bank nb" "nb_tree (onTreeWidgetItemClicked Q T m i nb) = nb_tree nb"
  "nb_bank (onBtnClickedShowAnswer Q T nb) = nb_bank nb" "nb_tree (onBtnClickedShowAnswer Q T nb) = nb_tree nb"
  by (simp_all add: onTreeWidgetItemClicked_def onBtnClickedShowAnswer_def notify_def Let_def split: option.split)

lemma walking_keeps:
  "onBtnClickedLastQuestion Q T nb = Some nb' \<Longrightarrow> nb_bank nb' = nb_bank nb \<and> tree (nb_tree nb') = tree (nb_tree nb)"
  "onBtnClickedNextQuestion Q T nb = Some nb' \<Longrightarrow> nb_bank nb' = nb_bank nb \<and> tree (nb_tree nb') = tree (nb_tree nb)"
  by (auto simp: onBtnClickedLastQuestion_def onBtnClickedNextQuestion_def find_item_def notify_def show_question_def setCurrent
      split: option.splits)

text \<open>A question at the top has no group: nothing is deleted, and nothing is changed.\<close>

lemma top_question:
  assumes "tr_currentItem Q (nb_tree nb) = Some i" "pos (nb_tree nb) i = []" "nb_bank nb = Some b"
  shows "onBtnClickedDeleteQuestion E Q nb F = (Ret (), nb', F') \<Longrightarrow> nb' = nb"
    "onBtnClickedModifyQuestion E Q T es nb F = (Ret (), nb', F') \<Longrightarrow> nb_bank nb' = nb_bank nb \<and> nb_tree nb' = nb_tree nb"
  using assms parent_top [OF assms(2)]
  by (auto simp: onBtnClickedDeleteQuestion_def onBtnClickedModifyQuestion_def on_item_def notify_def split: prod.splits bool.splits)

theorem question_work_keeps:
  "question_work E Q T tree pos F nb nb' \<Longrightarrow> window_ok tree F nb \<Longrightarrow> window_ok tree F nb'"
proof (induction rule: question_work.induct)
  case (pressed nb1 m i)
  then show ?case by (simp add: window_ok_def looking setCurrent)
next
  case (previous nb1 nb2)
  then show ?case using walking_keeps(1) by (fastforce simp: window_ok_def)
next
  case (following nb1 nb2)
  then show ?case using walking_keeps(2) by (fastforce simp: window_ok_def)
next
  case (answer nb1)
  then show ?case by (simp add: window_ok_def looking)
next
  case (add nb1 i y uid es nb2 F')
  then obtain b where b: "nb_bank nb1 = Some b" "mirrors (tree (nb_tree nb1)) b" "bank_settled F b" by (auto simp: window_ok_def)
  have "all_groups (tree (nb_tree nb1)) (pos (nb_tree nb1) i)"
    using group_all b(2) add.hyps by (auto simp: mirrors_def)
  from add_question_keeps_mirror [OF b add.hyps(2,3) this add.hyps(5,6)] show ?case by (auto simp: window_ok_def)
next
  case (delete nb1 i z nb2 F')
  then obtain b where b: "nb_bank nb1 = Some b" "mirrors (tree (nb_tree nb1)) b" "bank_settled F b" by (auto simp: window_ok_def)
  show ?case
  proof (cases "pos (nb_tree nb1) i" rule: rev_cases)
    case Nil
    from top_question(1) [OF delete.hyps(2) this b(1) delete.hyps(5)] show ?thesis using delete by simp
  next
    case (snoc p k)
    then obtain y where y: "shown_at (tree (nb_tree nb1)) p = Some y" using delete.hyps(3) by (auto simp: shown_at_child)
    from delete_question_keeps_mirror [OF b delete.hyps(2-4) snoc y delete.hyps(5)] show ?thesis by (auto simp: window_ok_def)
  qed
next
  case (modify nb1 i z es nb2 F')
  then obtain b where b: "nb_bank nb1 = Some b" "mirrors (tree (nb_tree nb1)) b" "bank_settled F b" by (auto simp: window_ok_def)
  show ?case
  proof (cases "pos (nb_tree nb1) i" rule: rev_cases)
    case Nil
    from top_question(2) [OF modify.hyps(2) this b(1) modify.hyps(5)] show ?thesis using b by (simp add: window_ok_def)
  next
    case (snoc p k)
    then obtain y where y: "shown_at (tree (nb_tree nb1)) p = Some y" using modify.hyps(3) by (auto simp: shown_at_child)
    from modify_question_keeps_mirror [OF b modify.hyps(2-4) snoc y modify.hyps(5)] show ?thesis by (auto simp: window_ok_def)
  qed
qed

end

end
