(* ===== verification/QwenClient.thy ===== *)
theory QwenClient
  imports Dialogs
begin

text \<open>
  \<open>src/ui/qwenclient.cpp\<close>: the request that is posted for a question and what is made of the reply.
  JSON and the network belong to Qt: the classes \<open>QJsonValue\<close>, \<open>QJsonObject\<close>, \<open>QJsonArray\<close> and
  \<open>QJsonDocument\<close> are a record of the members the code calls, over any type \<open>'v\<close> of JSON values.
  The locale \<open>json_values\<close> states what is documented of them, and \<open>json_tree\<close> interprets it.
\<close>

record 'v json_api =
  js_string :: "string \<Rightarrow> 'v"
  js_int :: "int \<Rightarrow> 'v"
  js_array :: "'v list \<Rightarrow> 'v"
  js_object :: "(string \<times> 'v) list \<Rightarrow> 'v"
  js_isObject :: "'v \<Rightarrow> bool"
  js_isArray :: "'v \<Rightarrow> bool"
  js_toObject :: "'v \<Rightarrow> (string \<times> 'v) list"
  js_toArray :: "'v \<Rightarrow> 'v list"
  js_toString :: "'v \<Rightarrow> string"
  js_undefined :: 'v
  js_toJson :: "(string \<times> 'v) list \<Rightarrow> string"
  js_fromJson :: "string \<Rightarrow> (string \<times> 'v) list"

text \<open>
  A \<open>QJsonObject\<close> is the list of its members; \<open>insert\<close> is \<open>obj[key] = v\<close>, \<open>value\<close> is
  \<open>obj[key]\<close> as it is read, with an undefined value for a key that is missing.
\<close>

definition js_insert :: "string \<Rightarrow> 'v \<Rightarrow> (string \<times> 'v) list \<Rightarrow> (string \<times> 'v) list" where
  "js_insert k v obj = filter (\<lambda>kv. fst kv \<noteq> k) obj @ [(k, v)]"

definition js_contains :: "(string \<times> 'v) list \<Rightarrow> string \<Rightarrow> bool" where
  "js_contains obj k \<longleftrightarrow> k \<in> fst ` set obj"

definition js_value :: "'v json_api \<Rightarrow> (string \<times> 'v) list \<Rightarrow> string \<Rightarrow> 'v" where
  "js_value J obj k = (case map_of obj k of None \<Rightarrow> js_undefined J | Some v \<Rightarrow> v)"

subsection \<open>The client\<close>

record request =
  rq_url :: string
  rq_headers :: "(string \<times> string) list"
  rq_body :: string

record QwenClient =
  qc_apiKey :: string
  qc_posts :: "request list"

datatype qwen_signal = answerReceived string | requestError string

definition new_QwenClient :: "string \<Rightarrow> QwenClient" where
  "new_QwenClient apiKey = \<lparr>qc_apiKey = apiKey, qc_posts = []\<rparr>"

definition service_url :: string where
  "service_url = ''https://dashscope.aliyuncs.com/api/v1/services/aigc/text-generation/generation''"

definition question_object :: "'v json_api \<Rightarrow> string \<Rightarrow> (string \<times> 'v) list" where
  "question_object J question =
     (let root = js_insert ''model'' (js_string J ''qwen3-max'') [];
          msg = js_insert ''content'' (js_string J question) (js_insert ''role'' (js_string J ''user'') []);
          messages = [] @ [js_object J msg];
          input = js_insert ''messages'' (js_array J messages) [];
          root = js_insert ''input'' (js_object J input) root;
          parameters = js_insert ''result_format'' (js_string J ''message'') (js_insert ''seed'' (js_int J 1234) [])
      in js_insert ''parameters'' (js_object J parameters) root)"

definition askQuestion :: "'v json_api \<Rightarrow> string \<Rightarrow> QwenClient \<Rightarrow> QwenClient" where
  "askQuestion J question c =
     c\<lparr>qc_posts := qc_posts c @
        [\<lparr>rq_url = service_url,
          rq_headers = [(''Content-Type'', ''application/json''), (''Authorization'', ''Bearer '' @ qc_apiKey c)],
          rq_body = js_toJson J (question_object J question)\<rparr>]\<rparr>"

text \<open>A reply is an error with its text, or the bytes that were received. Texts in UTF-8.\<close>

datatype reply = NetworkError string | Received string

definition network_error_text :: string where
  "network_error_text = utf8_text [0xE7,0xBD,0x91,0xE7,0xBB,0x9C,0xE9,0x94,0x99,0xE8,0xAF,0xAF,0x3A,0x20,0x25,0x31]"

definition unknown_error_text :: string where
  "unknown_error_text = utf8_text [0xE6,0x9C,0xAA,0xE7,0x9F,0xA5,0xE9,0x94,0x99,0xE8,0xAF,0xAF]"

definition service_error_text :: string where
  "service_error_text = utf8_text [0xE9,0x94,0x99,0xE8,0xAF,0xAF,0x20,0x25,0x31,0x3A,0x20,0x25,0x32]"

definition error_message :: "qt_text \<Rightarrow> 'v json_api \<Rightarrow> (string \<times> 'v) list \<Rightarrow> string" where
  "error_message T J obj =
     (if js_contains obj ''code''
      then qt_arg T (qt_arg T service_error_text (js_toString J (js_value J obj ''code'')))
             (js_toString J (js_value J obj ''message''))
      else unknown_error_text)"

text \<open>The path \<open>output.choices[0].message.content\<close> with the checks on the way.\<close>

definition reply_answer :: "'v json_api \<Rightarrow> (string \<times> 'v) list \<Rightarrow> string option" where
  "reply_answer J obj =
     (if js_contains obj ''output'' \<and> js_isObject J (js_value J obj ''output'') then
        let output_obj = js_toObject J (js_value J obj ''output'') in
        if js_contains output_obj ''choices'' \<and> js_isArray J (js_value J output_obj ''choices'') then
          let choices = js_toArray J (js_value J output_obj ''choices'') in
          if choices \<noteq> [] then
            let firstChoice = js_toObject J (choices ! 0) in
            if js_contains firstChoice ''message'' then
              let message = js_toObject J (js_value J firstChoice ''message'')
              in Some (js_toString J (js_value J message ''content''))
            else None
          else None
        else None
      else None)"

text \<open>Exactly one signal is emitted for every reply.\<close>

definition onReplyFinished :: "qt_text \<Rightarrow> 'v json_api \<Rightarrow> reply \<Rightarrow> qwen_signal" where
  "onReplyFinished T J reply =
     (case reply of
        NetworkError s \<Rightarrow> requestError (qt_arg T network_error_text s)
      | Received data \<Rightarrow>
          (let obj = js_fromJson J data in
           case reply_answer J obj of
             Some answer \<Rightarrow> answerReceived answer
           | None \<Rightarrow> requestError (error_message T J obj)))"

text \<open>The connections made by the dialog: a signal runs one of its slots.\<close>

fun deliver :: "qt_text \<Rightarrow> qwen_signal \<Rightarrow> question_dashboard \<Rightarrow> question_dashboard" where
  "deliver T (answerReceived s) d = onRecvAnswer s d"
| "deliver T (requestError s) d = onRecvError T s d"

subsection \<open>What Qt documents of JSON values\<close>

locale json_values =
  fixes J :: "'v json_api"
  assumes object: "js_isObject J (js_object J obj)" "js_toObject J (js_object J obj) = obj"
    and array: "js_isArray J (js_array J vs)" "js_toArray J (js_array J vs) = vs"
    and str: "js_toString J (js_string J s) = s"
    and not_object: "\<not> js_isObject J v \<Longrightarrow> js_toObject J v = []"
    and not_array: "\<not> js_isArray J v \<Longrightarrow> js_toArray J v = []"
    and is_object: "js_isObject J v \<Longrightarrow> \<exists>obj. v = js_object J obj"
    and is_array: "js_isArray J v \<Longrightarrow> \<exists>vs. v = js_array J vs"
begin

lemmas json_simps = object array str

lemma value_insert: "js_value J (js_insert k v obj) l = (if l = k then v else js_value J obj l)"
proof -
  have k: "map_of (filter (\<lambda>kv. fst kv \<noteq> k) xs) k = None" for xs :: "(string \<times> 'v) list"
    by (induction xs) auto
  have l: "l \<noteq> k \<Longrightarrow> map_of (filter (\<lambda>kv. fst kv \<noteq> k) xs) l = map_of xs l" for xs :: "(string \<times> 'v) list"
    by (induction xs) auto
  show ?thesis
    using k l by (auto simp: js_value_def js_insert_def map_add_def split: option.splits)
qed

text \<open>The question is the content of the only message of the request.\<close>

lemma question_posted:
  "map (\<lambda>m. js_toString J (js_value J (js_toObject J m) ''content''))
     (js_toArray J (js_value J (js_toObject J (js_value J (question_object J question) ''input'')) ''messages'')) = [question]"
  by (simp add: question_object_def Let_def value_insert json_simps)

text \<open>An answer is reported exactly when the reply has one, whatever else the reply holds.\<close>

lemma reply_answer_iff:
  "reply_answer J obj = Some answer \<longleftrightarrow>
    (\<exists>output_obj c cs v. map_of obj ''output'' = Some (js_object J output_obj) \<and>
       map_of output_obj ''choices'' = Some (js_array J (c # cs)) \<and>
       map_of (js_toObject J c) ''message'' = Some v \<and>
       answer = js_toString J (js_value J (js_toObject J v) ''content''))"
    (is "?l \<longleftrightarrow> ?r")
proof
  have has: "js_contains x k \<longleftrightarrow> (\<exists>v. map_of x k = Some v)" for x :: "(string \<times> 'v) list" and k
    using map_of_eq_None_iff [of x k] by (auto simp: js_contains_def)
  {
    assume l: ?l
    then obtain v where v: "map_of obj ''output'' = Some v" "js_isObject J v"
      by (auto simp: reply_answer_def has js_value_def split: if_splits)
    then obtain out where out: "v = js_object J out" using is_object by blast
    with l v obtain w where w: "map_of out ''choices'' = Some w" "js_isArray J w"
      by (auto simp: reply_answer_def has js_value_def Let_def json_simps split: if_splits)
    then obtain vs where vs: "w = js_array J vs" using is_array by blast
    with l v out w obtain c cs where c: "vs = c # cs"
      by (cases vs) (auto simp: reply_answer_def has js_value_def Let_def json_simps split: if_splits)
    with l v out w vs show ?r
      by (auto simp: reply_answer_def has js_value_def Let_def json_simps split: if_splits)
  next
    assume ?r
    then show ?l by (auto simp: reply_answer_def has js_value_def Let_def json_simps)
  }
qed

end

subsection \<open>JSON values as trees\<close>

datatype json = JNull | JBool bool | JNumber int | JString string | JArray "json list" | JObject "(string \<times> json) list"

definition json_tree :: "((string \<times> json) list \<Rightarrow> string) \<Rightarrow> (string \<Rightarrow> (string \<times> json) list) \<Rightarrow> json json_api" where
  "json_tree print parse = \<lparr>js_string = JString, js_int = JNumber, js_array = JArray, js_object = JObject,
     js_isObject = (\<lambda>v. case v of JObject _ \<Rightarrow> True | _ \<Rightarrow> False),
     js_isArray = (\<lambda>v. case v of JArray _ \<Rightarrow> True | _ \<Rightarrow> False),
     js_toObject = (\<lambda>v. case v of JObject m \<Rightarrow> m | _ \<Rightarrow> []),
     js_toArray = (\<lambda>v. case v of JArray vs \<Rightarrow> vs | _ \<Rightarrow> []),
     js_toString = (\<lambda>v. case v of JString s \<Rightarrow> s | _ \<Rightarrow> []),
     js_undefined = JNull, js_toJson = print, js_fromJson = parse\<rparr>"

interpretation json_tree: json_values "json_tree print parse" for print parse
  by unfold_locales (auto simp: json_tree_def split: json.splits)

end
