(* ===== verification/WindowExamples.thy ===== *)
theory WindowExamples
  imports Examples WindowSession QwenClient
begin

text \<open>
  The window on the bank of \<open>Examples\<close>, over the widget of positions: the tree it shows, with the
  item at \<open>i\<close> selected, and dialogs whose editors keep a text as it is.
\<close>

definition plain_text :: qt_text where
  "plain_text = \<lparr>shown_text = (\<lambda>s. s), trimmed = (\<lambda>s. s), qt_arg = (@)\<rparr>"

definition bank_tree :: shown where
  "bank_tree = put_children
     [put_children [group_node ''sets'' ''g3'', question_node ''1+1'' ''q1'' ''2''] (group_node ''math'' ''g1''),
      group_node ''art'' ''g2'']
     (put_data UserRole (VBool True) (put_text root_text blank))"

definition window :: "nat list \<Rightarrow> (tree_state, nat list) notebook" where
  "window i = \<lparr>nb_bank = Some bank, nb_question = Some [], nb_menu = Some (replicate 7 True), nb_tree = (bank_tree, Some i),
     nb_edtQuestion = [], nb_edtAnswer = [], nb_notices = [], nb_popups = 0\<rparr>"

lemma window_simps [simp]:
  "nb_bank (window i) = Some bank" "nb_tree (window i) = (bank_tree, Some i)" "nb_notices (window i) = []"
  "tr_currentItem shown_widget w = snd w"
  by (simp_all add: window_def shown_widget_def)

lemma bank_tree_at:
  "shown_at bank_tree [] = Some bank_tree"
  "shown_at bank_tree [0] = Some (put_children [group_node ''sets'' ''g3'', question_node ''1+1'' ''q1'' ''2''] (group_node ''math'' ''g1''))"
  "shown_at bank_tree [0, 0] = Some (group_node ''sets'' ''g3'')"
  "shown_at bank_tree [0, 1] = Some (question_node ''1+1'' ''q1'' ''2'')"
  "shown_at bank_tree [1] = Some (group_node ''art'' ''g2'')"
  by (simp_all add: bank_tree_def)

lemma bank_tree_children [simp]:
  "sh_children bank_tree = [put_children [group_node ''sets'' ''g3'', question_node ''1+1'' ''q1'' ''2''] (group_node ''math'' ''g1''),
     group_node ''art'' ''g2'']"
  by (simp add: bank_tree_def)

lemma bank_tree_items [simp]:
  "sh_id (put_children cs x) = sh_id x" "sh_group (put_children cs x) = sh_group x"
  "sh_id (put_data UserRole v x) = sh_id x" "sh_id (put_text s x) = sh_id x" "sh_id blank = []"
  by (simp_all add: sh_id_def sh_group_def)

lemma mirrors_bank: "mirrors bank_tree bank"
proof -
  have "wf_shown (put_children [group_node ''sets'' ''g3'', question_node ''1+1'' ''q1'' ''2''] (group_node ''math'' ''g1''))"
    by (simp add: wf_shown_iff [of "put_children cs x" for cs x] wf_leaf)
  then have "wf_shown bank_tree" by (simp add: bank_tree_def wf_shown_iff [of "put_children cs x" for cs x] wf_leaf)
  moreover have "shown_catalog bank_tree = bank_catalog (bnk_root bank)"
    by (simp add: bank_tree_def shown_catalog_Catalog [of "put_children cs x" for cs x] shown_entry_def catalog_leaf bank_parts
        context_rows_def questions_of_def question_row_def)
  ultimately show ?thesis by (simp add: mirrors_def bank_tree_def)
qed

lemma settled_bank: "bank_settled disk bank"
proof -
  let ?P = "\<lambda>g. no_file disk g \<and> distinct_rows (rows_of (grp_questions g))"
  have f: "\<not> fs_exists disk (context_path sets_group)" "\<not> fs_exists disk (context_path art_group)"
    "\<not> fs_exists disk (context_path (bnk_root bank))"
    by (simp_all add: fs_exists_def context_path_def sets_group_def art_group_def bank_def new_bank_def path_parts is_sep_def
        node_at_def disk_def)
  have "?P sets_group" "?P art_group" "?P (bnk_root bank)"
    using f by (simp_all add: no_file_def distinct_rows_def sets_group_def art_group_def bank_def new_bank_def)
  moreover have "?P math_group"
    by (simp add: no_file_def distinct_rows_def math_group_def context_rows_def questions_of_def math_file_def question_row_def)
  moreover have "grp_groups (bnk_root bank) = [math_group, art_group]" "grp_groups math_group = [sets_group]"
    "grp_groups art_group = []" "grp_groups sets_group = []"
    by (simp_all add: bank_def new_bank_def math_group_def art_group_def sets_group_def)
  ultimately have "every ?P (bnk_root bank)"
    by (simp add: every_unfold [of ?P "bnk_root bank"] every_unfold [of ?P math_group] every_unfold [of ?P art_group]
        every_unfold [of ?P sets_group])
  moreover have "\<not> has_key [] (bnk_mapIds bank)" by (simp add: has_key_def bank_def new_bank_def)
  ultimately show ?thesis using bank_ok_bank by (simp add: bank_settled_def bank_ok_def)
qed

lemma window_ok_window: "window_ok fst disk (window i)"
  using mirrors_bank settled_bank by (simp add: window_ok_def)

subsection \<open>Runs\<close>

lemma catalog_math:
  "cat_questions (shown_catalog (put_children [group_node ''sets'' ''g3'', question_node ''1+1'' ''q1'' ''2''] x)) =
     {#(''q1'', ''1+1'', ''2'')#}"
  by (simp add: shown_catalog_Catalog [of "put_children cs x" for cs x])

text \<open>Opening at a path where nothing is yet.\<close>

lemma new_bank_opens: "\<exists>b F'. init plain_env ''C:/QuestionBank'' new_bank disk = (Ret True, b, F')"
proof -
  have c: "components ''C:/QuestionBank'' = [''C:'', ''QuestionBank'']" by (simp add: is_sep_def)
  have "\<not> fs_exists disk ''C:/QuestionBank''" unfolding fs_exists_def c by (simp add: node_at_def disk_def)
  moreover have "can_create disk (components ''C:/QuestionBank'')" unfolding can_create_def c by (simp add: node_at_def disk_def)
  moreover have "entries plain_env (put_node (components ''C:/QuestionBank'') Dir disk) (components ''C:/QuestionBank'') = ([], None)"
    unfolding c by (simp add: plain_env_def fs_below_def put_node_def disk_def strict_prefix_def)
  ultimately show ?thesis using init_fresh [of disk "''C:/QuestionBank''" plain_env] wf_disk by auto
qed

text \<open>The reads of the widget on the tree of the example.\<close>

lemma window_reads [simp]:
  "tr_parent shown_widget w p = (if p = [] then None else Some (butlast p))"
  "shown_at (fst w) p = Some x \<Longrightarrow> tr_data shown_widget w p r = sh_data x r"
  "shown_at (fst w) p = Some x \<Longrightarrow> tr_text shown_widget w p = sh_text x"
  by (simp_all add: shown_widget_def)

lemma math_item:
  "tr_data shown_widget (bank_tree, i) [0] NOTEBOOK_ROLE_ID = Some (VString ''g1'')"
  "tr_data shown_widget (bank_tree, i) [Suc 0] NOTEBOOK_ROLE_ID = Some (VString ''g2'')"
  "tr_data shown_widget (bank_tree, i) [] NOTEBOOK_ROLE_ID = None"
  "tr_text shown_widget (bank_tree, i) [Suc 0] = ''art''"
  using bank_tree_at(5) by (simp_all add: bank_tree_at) (simp_all add: group_node_def bank_tree_def)

lemma question_added:
  "\<exists>nb' F'. onBtnClickedAddQuestion plain_env shown_widget plain_text [TypeQuestion ''2+2'', ConfirmQuestion] ''q2''
     (window [0]) disk = (Ret (), nb', F')"
proof -
  obtain b1 where a: "addQuestion plain_env ''g1'' ''q2'' ''2+2'' [] bank disk = (Ret (True, ()), b1, disk)"
    by (simp add: addQuestion_def with_context_def bank_parts has_key_def qai_addQuestion_def Let_def find_question_def
        path_parts QuestionAnswerList_default_def)
  then show ?thesis
    by (simp add: onBtnClickedAddQuestion_def on_item_def on_bank_def math_item Let_def qd_slots new_question_dashboard_def
        getQuestion_def getAnswer_def split: prod.split)
qed

lemma group_added:
  "\<exists>nb' F'. onBtnClickedAddGroup plain_env shown_widget [TypeName ''sums'', ConfirmGroup] ''g4'' (window [0]) disk =
     (Ret (), nb', F')"
proof -
  have p: "child_path math_group ''sums'' = math_path @ sep @ ''sums''" by (simp add: child_path_def math_group_def)
  have c: "components (math_path @ sep @ ''sums'') = [''C:'', ''qb'', ''math'', ''sums'']" by (simp add: path_parts is_sep_def)
  have f: "\<not> fs_exists disk (child_path math_group ''sums'')" "can_create disk (components (child_path math_group ''sums''))"
    unfolding p fs_exists_def can_create_def c by (simp_all add: node_at_def disk_def)
  have k: "\<not> has_key ''g4'' (bnk_mapIds bank)" "''sums'' \<notin> snd ` set (bnk_mapIds bank)"
    by (simp_all add: has_key_def bank_def new_bank_def)
  obtain b1 F1 where "addGroup plain_env ''g1'' ''sums'' ''g4'' bank disk = (Ret True, b1, F1)"
    using addGroup_fresh [OF bank_ok_bank k _ parent_math, of plain_env disk] f
    by (auto simp: fs_create_directory_def fs_exists_def can_create_def Let_def)
  then show ?thesis
    by (simp add: onBtnClickedAddGroup_def on_item_def on_bank_def math_item Let_def gd_slots new_group_dashboard_def
        getGroupName_def)
qed

lemma group_deleted:
  "\<exists>nb' F'. onBtnClickedDeleteGroup plain_env shown_widget (window [1]) disk = (Ret (), nb', F')"
proof -
  have l: "grp_groups (grp_groups (bnk_root bank) ! Suc 0) = []"
    "close_contexts (grp_questions (grp_groups (bnk_root bank) ! Suc 0)) disk = (Ret (), [], disk)"
    by (simp_all add: bank_def new_bank_def art_group_def)
  have "\<not> locked_below disk p" for p by (simp add: locked_below_def disk_def)
  from deleteGroup_leaf [OF bank_ok_bank _ parent_root art_second(1,2) l this, of plain_env]
  obtain b1 F1 where "deleteGroup plain_env [] ''g2'' bank disk = (Ret True, b1, F1)" by auto
  then show ?thesis
    by (simp add: onBtnClickedDeleteGroup_def on_item_def on_bank_def math_item Let_def)
qed

text \<open>A rename onto the name of a directory that exists and is not empty.\<close>

lemma rename_refused:
  "\<exists>nb' F'. onBtnClickedModifyGroup plain_env shown_widget plain_text [TypeName ''math'', ConfirmGroup] (window [1]) disk =
     (Ret (), nb', F') \<and> nb_notices nb' \<noteq> []"
proof -
  have "components (child_path (bnk_root bank) ''math'') = [''C:'', ''qb'', ''math'']"
    by (simp add: child_path_def bank_def new_bank_def sep_def is_sep_def)
  then have "\<exists>e. fs_rename art_path (child_path (bnk_root bank) ''math'') disk = (Throw e, disk)"
    by (simp add: fs_rename_def components_demo node_at_disk Let_def)
  then obtain e where e: "fs_rename art_path (child_path (bnk_root bank) ''math'') disk = (Throw e, disk)" by blast
  from updateGroup_found [OF bank_ok_bank _ parent_root art_second(1,2), where E = plain_env and name = "''math''" and F = disk] e art_second(3)
  obtain b1 where "updateGroup plain_env [] ''g2'' ''math'' bank disk = (Ret False, b1, disk)" by (auto simp: Let_def)
  then show ?thesis
    by (simp add: onBtnClickedModifyGroup_def on_item_def on_bank_def math_item Let_def gd_slots setGroupName_def
        new_group_dashboard_def getGroupName_def notify_def)
qed

text \<open>A disk with a list of ids that the parser rejects.\<close>

definition unreadable_env :: env where
  "unreadable_env = plain_env\<lparr>parse_groups := (\<lambda>_. (False, QuestionAnswerGroupList_default))\<rparr>"

definition unreadable_disk :: fs where
  "unreadable_disk = \<lparr>fs_nodes = [([''C:''], Dir), ([''C:'', ''QuestionBank''], Dir),
     ([''C:'', ''QuestionBank'', ''ids.dat''], File ''junk'')], fs_locked = []\<rparr>"

lemma unreadable_bank: "\<exists>b F'. init unreadable_env ''C:/QuestionBank'' new_bank unreadable_disk = (Ret False, b, F')"
proof -
  have c: "components ''C:/QuestionBank'' = [''C:'', ''QuestionBank'']" by (simp add: is_sep_def)
  have a: "path_append ''C:/QuestionBank'' ''ids.dat'' = ''C:/QuestionBank'' @ sep @ ''ids.dat''"
    by (simp add: path_append_def join_path_def is_sep_def sep_def)
  have d: "components (''C:/QuestionBank'' @ sep @ ''ids.dat'') = [''C:'', ''QuestionBank'', ''ids.dat'']"
    by (simp add: is_sep_def sep_def)
  have "fs_exists unreadable_disk ''C:/QuestionBank''" unfolding fs_exists_def c by (simp add: node_at_def unreadable_disk_def)
  moreover have "fs_exists unreadable_disk (path_append ''C:/QuestionBank'' ''ids.dat'')"
    unfolding fs_exists_def a d by (simp add: node_at_def unreadable_disk_def)
  moreover have "path_append ''C:/QuestionBank'' ''ids.dat'' \<noteq> []" unfolding a by simp
  ultimately show ?thesis
    by (simp add: init_def init_ids_def qai_open_def unreadable_env_def Let_def)
qed

end
