(* ===== verification/Opening.thy ===== *)
theory Opening
  imports Session TreeBuilding
begin

text \<open>
  What \<open>init\<close> makes of any directory it opens: the tables agree, every directory becomes a group, and no id is
  used twice when no directory name and no id of \<open>ids.dat\<close> is. So the sessions of \<open>Session\<close> start in a
  consistent bank.
\<close>

text \<open>
  A directory in which \<open>ids.dat\<close> lists every id once and no two directories have the same name: what the
  program keeps as long as names differ. A directory without either is such a directory.
\<close>

definition directory_names :: "env \<Rightarrow> fs \<Rightarrow> string \<Rightarrow> string list" where
  "directory_names E F path =
     map path_filename (filter (\<lambda>p. node_at F (components p) = Some Dir)
       (map (entry_path path) (fst (entries E F (components path)))))"

definition well_kept :: "env \<Rightarrow> fs \<Rightarrow> string \<Rightarrow> bool" where
  "well_kept E F path \<longleftrightarrow>
     distinct (map qag_id (groups_of (snd (qai_open E F (path_append path ''ids.dat'') False new_impl)))) \<and>
     distinct (directory_names E F path)"

definition id_of_directory :: "(string \<times> string) list \<Rightarrow> string \<Rightarrow> string list" where
  "id_of_directory ids name = (if id_of_name name ids = [] then [] else [id_of_name name ids])"

subsection \<open>The ids of the groups\<close>

lemma id_of_name_in: "id_of_name n m \<noteq> [] \<Longrightarrow> (id_of_name n m, n) \<in> set m"
proof (cases "find (\<lambda>kv. snd kv = n) m")
  case (Some kv)
  then have "kv \<in> set m" "snd kv = n" unfolding find_Some_iff by (metis nth_mem)+
  then have "(fst kv, n) \<in> set m" by (metis prod.collapse)
  then show ?thesis using Some by (simp add: id_of_name_def)
qed (simp add: id_of_name_def)

lemma distinct_directory_ids:
  assumes "distinct (map fst m)" "distinct ns"
  shows "distinct (concat (map (id_of_directory m) ns))" "set (concat (map (id_of_directory m) ns)) \<subseteq> fst ` set m"
proof -
  have i: "i \<in> set (id_of_directory m n) \<Longrightarrow> (i, n) \<in> set m" for i n
    using id_of_name_in [of n m] by (auto simp: id_of_directory_def split: if_splits)
  then show "set (concat (map (id_of_directory m) ns)) \<subseteq> fst ` set m" by force
  show "distinct (concat (map (id_of_directory m) ns))"
    using assms(2)
  proof (induction ns)
    case (Cons n ns)
    have "n \<in> set ns" if "x \<in> set (id_of_directory m n)" "k \<in> set ns" "x \<in> set (id_of_directory m k)" for x k
      using eq_key_imp_eq_value [OF assms(1) i [OF that(1)] i [OF that(3)]] that(2) by simp
    moreover have "n \<notin> set ns" using Cons.prems by simp
    ultimately have "set (id_of_directory m n) \<inter> set (concat (map (id_of_directory m) ns)) = {}" by fastforce
    moreover have "distinct (id_of_directory m n)" by (simp add: id_of_directory_def)
    ultimately show ?case using Cons by simp
  qed simp
qed

lemma initQuestionBank_file:
  "initQuestionBank E F ids pn path name True g = (r, g') \<Longrightarrow> group_ids g' = group_ids g"
  "initQuestionBank_any E F ids pn path name True gs = (q, gs') \<Longrightarrow> map group_ids gs' = map group_ids gs"
proof (induction g and gs arbitrary: r g' and q gs' rule: group_list_induct)
  case (1 n i p qs gs)
  show ?case
  proof (cases "n = pn")
    case True
    then show ?thesis using 1(2) by (auto split: prod.splits bool.splits)
  next
    case False
    then obtain gs1 where "initQuestionBank_any E F ids pn path name True gs = (r, gs1)" "g' = Group n i p qs gs1"
      using 1(2) by (auto split: prod.splits)
    then show ?thesis using 1(1) by simp
  qed
next
  case (3 g gs)
  obtain u g1 where u: "initQuestionBank E F ids pn path name True g = (u, g1)" by fastforce
  obtain v gs1 where v: "initQuestionBank_any E F ids pn path name True gs = (v, gs1)" by fastforce
  show ?case using 3(1) [OF u] 3(2) [OF v] 3(3) u v by (cases u) auto
qed simp

lemma root_id_group_ids: "group_ids g = grp_id g # concat (map group_ids (grp_groups g))"
  by (cases g) simp

lemma init_entry_ids:
  assumes "init_entry E F root_name path b = (True, b')"
  shows "bnk_mapIds b' = bnk_mapIds b \<and> bnk_ptrIds b' = bnk_ptrIds b \<and> grp_id (bnk_root b') = grp_id (bnk_root b) \<and>
    mset (named_ids (bnk_root b')) = mset (named_ids (bnk_root b)) +
      mset (if node_at F (components path) = Some Dir then id_of_directory (bnk_mapIds b) (path_filename path) else [])"
proof -
  let ?new = "\<lambda>c. new_child (bnk_mapIds b) path (path_filename path) c"
  have n: "mset (named_ids (?new c)) = mset (named_ids c) + mset (id_of_directory (bnk_mapIds b) (path_filename path))"
    "grp_id (?new c) = grp_id c" for c
    by (simp_all add: new_child_def named_ids_unfold [of c] named_ids_unfold [of "set_groups _ c"] named_ids_Group id_of_directory_def)
  have e: "?new (bnk_root b) = set_groups (grp_groups (bnk_root b) @
      [Group (path_filename path) (id_of_name (path_filename path) (bnk_mapIds b)) path [] []]) (bnk_root b)"
    by (simp add: new_child_def)
  have p: "mset (named_ids (put_group l (?new c) (bnk_root b))) =
      mset (named_ids (bnk_root b)) + mset (id_of_directory (bnk_mapIds b) (path_filename path)) \<and>
      grp_id (put_group l (?new c) (bnk_root b)) = grp_id (bnk_root b)" if "group_at l (bnk_root b) = Some c" for l c
    using named_ids_put_group [OF that, of "?new c"] n that by (cases l) auto
  have f: "named_ids g' = named_ids (bnk_root b) \<and> grp_id g' = grp_id (bnk_root b)"
    if "initQuestionBank E F (bnk_mapIds b) pn path name True (bnk_root b) = (True, g')" for pn name g'
    using initQuestionBank_file(1) [OF that] root_id_group_ids [of g'] root_id_group_ids [of "bnk_root b"] by (simp add: named_ids_def)
  show ?thesis
  proof (cases "node_at F (components path)")
    case None
    then show ?thesis using assms by (simp add: init_entry_def Let_def)
  next
    case (Some nd)
    show ?thesis
    proof (cases nd)
      case (File x)
      then show ?thesis using assms Some f by (auto simp: init_entry_def Let_def split: if_splits prod.splits)
    next
      case Dir
      show ?thesis
      proof (cases "path_filename (path_parent path) = root_name")
        case True
        then show ?thesis using assms Some Dir n [of "bnk_root b"] e by (auto simp: init_entry_def Let_def)
      next
        case False
        then obtain l where "first_named (path_filename (path_parent path)) (bnk_root b) = Some l"
          "b' = b\<lparr>bnk_root := put_group l (?new (the (group_at l (bnk_root b)))) (bnk_root b)\<rparr>"
          using assms Some Dir by (auto simp: init_entry_def Let_def initQuestionBank_directory split: option.splits)
        moreover from first_named_at(1) [OF this(1)] obtain c where "group_at l (bnk_root b) = Some c" by blast
        ultimately show ?thesis using p [of l c] Some Dir by simp
      qed
    qed
  qed
qed

lemma init_entries_ids:
  assumes "init_entries E F root_name paths b = (True, b')"
  shows "bnk_mapIds b' = bnk_mapIds b \<and> bnk_ptrIds b' = bnk_ptrIds b \<and> grp_id (bnk_root b') = grp_id (bnk_root b) \<and>
    mset (named_ids (bnk_root b')) = mset (named_ids (bnk_root b)) + mset (concat (map (id_of_directory (bnk_mapIds b))
      (map path_filename (filter (\<lambda>p. node_at F (components p) = Some Dir) paths))))"
  using assms
proof (induction paths arbitrary: b)
  case (Cons path paths)
  obtain b1 where "init_entry E F root_name path b = (True, b1)" "init_entries E F root_name paths b1 = (True, b')"
    using Cons.prems by (auto split: prod.splits bool.splits)
  with Cons.IH [of b1] init_entry_ids [of E F root_name path b b1] show ?case by simp
qed simp

subsection \<open>Consistency\<close>

lemma init_at_end:
  assumes "init E path new_bank F = (Ret True, b, F')"
  shows "fs_locked F' = fs_locked F \<and> init_ids E path new_bank F' = (Ret True, b, F')"
proof -
  have same: "F2 = F1" if i: "init_ids E path new_bank F1 = (Ret True, b, F2)" for F1 F2
  proof -
    have c: "close_ids False c F1 \<noteq> (Ret True, b, F2)" for c
      by (auto simp: close_ids_def split: option.split prod.split outcome.split)
    show ?thesis using i c
      by (auto simp: init_ids_def init_tree_def Let_def split: prod.splits bool.splits option.splits if_splits)
  qed
  show ?thesis
  proof (cases "fs_exists F path")
    case True
    then have "init_ids E path new_bank F = (Ret True, b, F')" using assms by (simp add: init_def)
    then show ?thesis using same by metis
  next
    case False
    then obtain F1 where "fs_create_directory path F = (Ret True, F1)" "init_ids E path new_bank F1 = (Ret True, b, F')"
      using assms by (auto simp: init_def andthen_Ret_iff split: if_splits)
    then show ?thesis using same locked_create [of path F] by (metis snd_conv)
  qed
qed

lemma init_ids_tables:
  assumes "init_ids E path new_bank F = (Ret True, b, F)"
    and d: "distinct (map qag_id (groups_of (snd (qai_open E F (path_append path ''ids.dat'') False new_impl))))"
  shows "\<exists>b1. init_tree E path b1 F = (Ret True, b, F) \<and> bnk_root b1 = empty_group \<and> tables_ok b1"
proof -
  let ?ids = "path_append path ''ids.dat''"
  have c: "close_ids False c F \<noteq> (Ret True, b, F)" for c
    by (auto simp: close_ids_def split: option.split prod.split outcome.split)
  obtain s where s: "qai_open E F ?ids False new_impl = (True, s)"
    using assms(1) by (cases "qai_open E F ?ids False new_impl") (auto simp: init_ids_def Let_def split: bool.splits)
  have p: "qai_path s \<noteq> []" by (rule qai_open_path [OF s])
  have q: "questions_of s = []"
    using s by (auto simp: qai_open_def Let_def questions_of_def split: if_splits prod.splits)
  let ?m = "map (\<lambda>g. (qag_id g, qag_group g)) (groups_of s)"
  let ?b = "new_bank\<lparr>bnk_idPath := ?ids, bnk_ptrIds := Some s, bnk_mapIds := ?m\<rparr>"
  have g: "getGroups s [] = (True, ?m, s)" using getGroups_eq [OF p] d s by simp
  have "impl_ok s" using p q d s by (simp add: impl_ok_def)
  moreover have "dom (group_view s) = qag_id ` set (groups_of s)"
    by (auto simp: group_view_def dom_def first_with_None_iff image_iff)
  ultimately have "tables_ok ?b" using d s by (simp add: tables_ok_def comp_def image_image)
  moreover have "init_tree E path ?b F = (Ret True, b, F)"
    using assms(1) s g c by (simp add: init_ids_def Let_def new_bank_def)
  ultimately show ?thesis by (intro exI [of _ ?b]) (simp add: new_bank_def)
qed

theorem init_bank_ok:
  assumes "init E path new_bank F = (Ret True, b, F')" "well_kept E F' path"
  shows "bank_ok b \<and> fs_locked F' = fs_locked F"
proof -
  note i = init_at_end [OF assms(1)]
  have w: "distinct (map qag_id (groups_of (snd (qai_open E F' (path_append path ''ids.dat'') False new_impl))))"
    "distinct (directory_names E F' path)" using assms(2) by (simp_all add: well_kept_def)
  obtain b1 where b1: "init_tree E path b1 F' = (Ret True, b, F')" "bnk_root b1 = empty_group" "tables_ok b1"
    using init_ids_tables [OF conjunct2 [OF i] w(1)] by blast
  let ?b = "b1\<lparr>bnk_root := Group (path_filename path) [] path [] []\<rparr>"
  have c: "close_ids False d F' \<noteq> (Ret True, b, F')" for d
    by (auto simp: close_ids_def split: option.split prod.split outcome.split)
  have "init_entries E F' (path_filename path) (map (entry_path path) (fst (entries E F' (components path)))) ?b = (True, b)"
    using b1(1) c by (auto simp: init_tree_def b1(2) empty_group_def Let_def split: prod.splits bool.splits option.splits)
  note r = init_entries_ids [OF this]
  then have n: "mset (named_ids (bnk_root b)) = mset (concat (map (id_of_directory (bnk_mapIds b)) (directory_names E F' path)))"
    by (simp add: directory_names_def named_ids_Group)
  have "bnk_mapIds b = bnk_mapIds b1" "bnk_ptrIds b = bnk_ptrIds b1" using r by simp_all
  then have t: "tables_ok b" using b1(3) by (simp only: tables_ok_def)
  then have d: "distinct (map fst (bnk_mapIds b))" by (simp add: tables_ok_def)
  note ids = distinct_directory_ids [OF d w(2)]
  have "distinct (named_ids (bnk_root b))" using n ids(1) by (metis mset_eq_imp_distinct_iff)
  moreover have "set (named_ids (bnk_root b)) \<subseteq> fst ` set (bnk_mapIds b)" using n ids(2) by (metis set_mset_mset)
  ultimately show ?thesis using t r i by (simp add: bank_ok_def)
qed

end
