(* ===== verification/VarintParse.thy ===== *)
theory VarintParse
  imports MessageParser
begin

text \<open>
  Reading varints, the inline routines of \<open>parse_context.h\<close>. They read ahead without asking whether
  the input has ended: the runtime keeps spare bytes behind every buffer. Memory is therefore
  a function from the distance to the pointer to the byte there. All routines are compared with
  one plain description: the bytes up to the first without the continuation bit, seven bits of
  each, lowest first.
\<close>

type_synonym memory = "nat \<Rightarrow> 8 word"

definition ahead :: "nat \<Rightarrow> memory \<Rightarrow> memory" where
  "ahead n p = (\<lambda>k. p (n + k))"

lemma ahead_apply [simp]: "ahead n p k = p (n + k)"
  by (simp add: ahead_def)

subsection \<open>The plain description\<close>

definition continues :: "memory \<Rightarrow> nat \<Rightarrow> bool" where
  "continues p k \<longleftrightarrow> bit (p k) 7"

text \<open>The number of bytes of the varint at \<open>p\<close>, if it has at most \<open>m\<close>.\<close>

definition varint_length :: "nat \<Rightarrow> memory \<Rightarrow> nat option" where
  "varint_length m p = map_option Suc (find (\<lambda>k. \<not> continues p k) [0..<m])"

text \<open>The low \<open>w\<close> bits of \<open>n\<close> bytes, side by side.\<close>

fun gather :: "nat \<Rightarrow> nat \<Rightarrow> memory \<Rightarrow> 64 word" where
  "gather w 0 p = 0"
| "gather w (Suc n) p = gather w n p OR push_bit (w * n) (take_bit w (ucast (p n)))"

definition varint_read :: "nat \<Rightarrow> memory \<Rightarrow> (nat \<times> 64 word) option" where
  "varint_read m p = map_option (\<lambda>n. (n, gather 7 n p)) (varint_length m p)"

lemma bit_byte: "bit (b :: 8 word) n \<Longrightarrow> n < 8"
  using bit_imp_le_length [of b n] by simp

lemma place: "w * n \<le> j \<Longrightarrow> j - w * n < w \<Longrightarrow> j div w = n \<and> j mod w = j - w * n" for j :: nat
proof -
  assume j: "w * n \<le> j" "j - w * n < w"
  then have "j = w * n + (j - w * n)" by simp
  then have "j div w = n + (j - w * n) div w" "j mod w = (j - w * n) mod w"
    using j(2) by (metis div_mult_self2 add.commute not_less_zero, metis mod_mult_self2 add.commute)
  then show ?thesis using j(2) by simp
qed

lemma bit_gather:
  assumes "0 < w" "w \<le> 8"
  shows "bit (gather w n p) j \<longleftrightarrow> j < 64 \<and> j < w * n \<and> bit (p (j div w)) (j mod w)"
proof (induction n)
  case (Suc n)
  have "bit (push_bit (w * n) (take_bit w (ucast (p n)) :: 64 word)) j \<longleftrightarrow>
      j < 64 \<and> w * n \<le> j \<and> j - w * n < w \<and> bit (p n) (j - w * n)"
    using assms(2) bit_byte [of "p n" "j - w * n"] by (auto simp: bit_simps)
  moreover have "w * n \<le> j \<Longrightarrow> j - w * n < w \<Longrightarrow> j div w = n \<and> j mod w = j - w * n" by (rule place)
  ultimately show ?case unfolding gather.simps bit_or_iff Suc.IH by (auto simp: algebra_simps)
qed simp

lemma varint_length_SomeD:
  assumes "varint_length m p = Some n"
  shows "0 < n" "n \<le> m" "\<not> continues p (n - 1)" "\<And>k. k < n - 1 \<Longrightarrow> continues p k"
proof -
  obtain i where i: "find (\<lambda>k. \<not> continues p k) [0..<m] = Some i" "n = Suc i"
    using assms by (auto simp: varint_length_def)
  then obtain j where "j < m" "\<not> continues p ([0..<m] ! j)" "i = [0..<m] ! j" "\<forall>k < j. continues p ([0..<m] ! k)"
    unfolding find_Some_iff by auto
  then show "0 < n" "n \<le> m" "\<not> continues p (n - 1)" "\<And>k. k < n - 1 \<Longrightarrow> continues p k" using i(2) by simp_all
qed

lemma varint_lengthI:
  assumes "0 < n" "n \<le> m" "\<not> continues p (n - 1)" "\<And>k. k < n - 1 \<Longrightarrow> continues p k"
  shows "varint_length m p = Some n"
proof -
  have "find (\<lambda>k. \<not> continues p k) [0..<m] = Some (n - 1)"
    unfolding find_Some_iff using assms by (intro exI [of _ "n - 1"]) auto
  then show ?thesis using assms(1) by (simp add: varint_length_def)
qed

lemma varint_length_None: "varint_length m p = None \<longleftrightarrow> (\<forall>k < m. continues p k)"
  by (auto simp: varint_length_def find_None_iff)

subsection \<open>Tags\<close>

text \<open>\<open>EndianHelper::Load\<close> on a little-endian host: \<open>n\<close> bytes as one number, lowest first.\<close>

definition UnalignedLoad :: "nat \<Rightarrow> memory \<Rightarrow> 64 word" where
  "UnalignedLoad n p = gather 8 n p"

definition RotateLeft :: "64 word \<Rightarrow> int \<Rightarrow> 64 word" where
  "RotateLeft x s = push_bit (nat (s AND 63)) x OR drop_bit (nat (- s AND 63)) x"

definition RotRight7AndReplaceLowByte :: "64 word \<Rightarrow> 8 word \<Rightarrow> 64 word" where
  "RotRight7AndReplaceLowByte res byte =
     (let res = RotateLeft res (- 7); res = res AND NOT 0xFF in res OR (0xFF AND ucast byte))"

text \<open>\<open>None\<close> is the null pointer; otherwise the bytes read and \<open>*out\<close>.\<close>

definition ReadTagInlined :: "memory \<Rightarrow> (nat \<times> 32 word) option" where
  "ReadTagInlined ptr =
     (let res = 0xFF AND ucast (ptr 0) in
      if res \<ge> 128 then
        let res = RotRight7AndReplaceLowByte res (ptr 1) in
        if res AND 0x80 \<noteq> 0 then
          let res = RotRight7AndReplaceLowByte res (ptr 2) in
          if res AND 0x80 \<noteq> 0 then
            let res = RotRight7AndReplaceLowByte res (ptr 3) in
            if res AND 0x80 \<noteq> 0 then
              let res = RotRight7AndReplaceLowByte res (ptr 4) in
              if res AND 0x80 \<noteq> 0 then None
              else Some (5, ucast (RotateLeft res 28))
            else Some (4, ucast (RotateLeft res 21))
          else Some (3, ucast (RotateLeft res 14))
        else Some (2, ucast (RotateLeft res 7))
      else Some (1, ucast res))"

lemma RotateLeft_rotl: "RotateLeft x s = word_rotl (nat (s mod 64)) x"
proof (rule bit_word_eqI)
  fix n
  assume "n < LENGTH(64)"
  then have n: "n < 64" by simp
  have m: "s AND 63 = s mod 64" "- s AND 63 = - s mod 64" for s :: int
    using take_bit_eq_mask [of 6 s] take_bit_eq_mask [of 6 "- s"] by (simp_all add: take_bit_eq_mod mask_eq_exp_minus_1)
  define r where "r = nat (s mod 64)"
  have r: "r < 64" "nat (- s mod 64) = (if r = 0 then 0 else 64 - r)"
    by (auto simp: r_def zmod_zminus1_eq_if nat_diff_distrib)
  have "bit (word_rotl r x) n \<longleftrightarrow> bit x ((n + (64 - r)) mod 64)"
    using n r(1) by (simp add: bit_word_rotl_iff)
  moreover have "(n + (64 - r)) mod 64 = (if r \<le> n then n - r else 64 + n - r)"
    using n r(1) by (auto simp: mod_if)
  ultimately show "bit (RotateLeft x s) n = bit (word_rotl (nat (s mod 64)) x) n"
    using n r bit_imp_le_length [of x "64 + n - r"]
    by (auto simp: RotateLeft_def m r_def [symmetric] bit_simps)
qed

lemma mask_FF: "0xFF = (mask 8 :: 64 word)"
  by (simp add: mask_eq_exp_minus_1)

text \<open>What the register holds after \<open>k + 1\<close> bytes, before it is rotated into place.\<close>

definition tag_bits :: "nat \<Rightarrow> memory \<Rightarrow> 64 word" where
  "tag_bits k p = gather 7 k p OR push_bit (7 * k) (ucast (p k))"

lemma bit_tag_bits:
  "bit (tag_bits k p) j \<longleftrightarrow> j < 64 \<and> (if j < 7 * k then bit (p (j div 7)) (j mod 7) else bit (p k) (j - 7 * k))"
  using bit_byte [of "p k" "j - 7 * k"] by (auto simp: tag_bits_def bit_or_iff bit_gather bit_simps)

lemma tag_bits_end: "\<not> continues p k \<Longrightarrow> tag_bits k p = gather 7 (Suc k) p"
proof -
  assume "\<not> continues p k"
  then have "ucast (p k) = (take_bit 7 (ucast (p k)) :: 64 word)"
    using bit_byte [of "p k"] by (intro bit_word_eqI) (auto simp: bit_simps continues_def less_Suc_eq numeral_eq_Suc)
  then show ?thesis by (simp add: tag_bits_def)
qed

lemma tag_step:
  assumes "k \<le> 5"
  shows "RotRight7AndReplaceLowByte (word_rotr (7 * k) (tag_bits k p)) (p (Suc k)) = word_rotr (7 * Suc k) (tag_bits (Suc k) p)"
proof (rule bit_word_eqI)
  fix n
  assume "n < LENGTH(64)"
  then have n: "n < 64" by simp
  have l: "word_rotl 57 (word_rotr (7 * k) x) = word_rotr (7 * Suc k) x" for x :: "64 word"
    by (rule bit_word_eqI) (simp add: bit_word_rotl_iff bit_word_rotr_iff mod_add_left_eq add.assoc)
  let ?j = "(n + 7 * Suc k) mod 64"
  have "bit (RotRight7AndReplaceLowByte (word_rotr (7 * k) (tag_bits k p)) (p (Suc k))) n \<longleftrightarrow>
      (if n < 8 then bit (p (Suc k)) n else bit (tag_bits k p) ?j)"
    using n l [of "tag_bits k p"] bit_byte [of "p (Suc k)" n]
    unfolding RotRight7AndReplaceLowByte_def RotateLeft_rotl mask_FF Let_def
    by (auto simp: bit_simps bit_word_rotr_iff)
  also have "\<dots> \<longleftrightarrow> bit (tag_bits (Suc k) p) ?j"
  proof (cases "n < 8")
    case True
    then have "?j = n + 7 * Suc k" using assms by simp
    then show ?thesis using True assms by (simp add: bit_tag_bits)
  next
    case False
    have j: "?j < 64" "?j < 7 * Suc k \<or> 7 * k + 15 \<le> ?j" using False n assms by (auto simp: mod_if)
    have "bit (p (?j div 7)) (?j mod 7) = bit (p k) (?j - 7 * k)" if "7 * k \<le> ?j" "?j < 7 * Suc k"
      using place [of 7 k ?j] that by simp
    then show ?thesis
      using False j bit_byte [of "p k" "?j - 7 * k"] bit_byte [of "p (Suc k)" "?j - 7 * Suc k"]
      by (auto simp: bit_tag_bits)
  qed
  finally show "bit (RotRight7AndReplaceLowByte (word_rotr (7 * k) (tag_bits k p)) (p (Suc k))) n =
      bit (word_rotr (7 * Suc k) (tag_bits (Suc k) p)) n"
    using n by (simp add: bit_word_rotr_iff)
qed

lemma tag_continues: "k \<le> 5 \<Longrightarrow> word_rotr (7 * k) (tag_bits k p) AND 0x80 \<noteq> 0 \<longleftrightarrow> continues p k"
  using and_exp_eq_0_iff_not_bit [of "word_rotr (7 * k) (tag_bits k p)" 7]
  by (simp add: bit_word_rotr_iff bit_tag_bits continues_def)

lemma tag_rotate: "RotateLeft (word_rotr (7 * k) x) (int (7 * k)) = x" if "k \<le> 5" for x :: "64 word"
proof (rule bit_word_eqI)
  fix n
  assume "n < LENGTH(64)"
  then have n: "n < 64" by simp
  have k: "nat (int (7 * k) mod 64) = 7 * k" using that by simp
  have "(n + (64 - 7 * k)) mod 64 + 7 * k = n \<or> (n + (64 - 7 * k)) mod 64 + 7 * k = n + 64"
    using that n by (auto simp: mod_if)
  then show "bit (RotateLeft (word_rotr (7 * k) x) (int (7 * k))) n = bit x n"
    unfolding RotateLeft_rotl k using that n by (auto simp: bit_word_rotl_iff bit_word_rotr_iff)
qed

lemma byte_continues: "128 \<le> (ucast b :: 64 word) \<longleftrightarrow> bit (b :: 8 word) 7"
proof -
  have "unat b < 256" using unsigned_less [of b] by simp
  then have "unat b div 128 = (if 128 \<le> unat b then 1 else 0)"
    using div_nat_eqI [of 1 128 "unat b"] by auto
  then have "bit (unat b) 7 \<longleftrightarrow> 128 \<le> unat b" by (simp add: bit_iff_odd)
  moreover have "unat (ucast b :: 64 word) = unat b"
    using \<open>unat b < 256\<close> by (simp add: unsigned_ucast_eq take_bit_nat_eq_self)
  ultimately show ?thesis by (simp add: bit_unsigned_iff word_le_nat_alt)
qed

theorem ReadTagInlined_read: "ReadTagInlined p = map_option (\<lambda>(n, v). (n, ucast v)) (varint_read 5 p)"
proof -
  define R where "R k = word_rotr (7 * k) (tag_bits k p)" for k
  have u: "[0..<5] = [0, 1, 2, 3, 4 :: nat]" by (simp add: upt_rec)
  have t: "tag_bits 0 p = ucast (p 0)" by (simp add: tag_bits_def)
  have R0: "R 0 = ucast (p 0)" unfolding R_def t by (rule bit_word_eqI) (simp add: bit_word_rotr_iff)
  have z: "0xFF AND ucast (p 0) = R 0"
    unfolding R0 mask_FF by (rule bit_word_eqI) (auto simp: bit_simps dest: bit_byte)
  have ge: "R 0 \<ge> 128 \<longleftrightarrow> continues p 0" by (simp only: R0 byte_continues continues_def)
  have step: "RotRight7AndReplaceLowByte (R k) (p j) = R j" if "j = Suc k" "k \<le> 5" for k j
    using tag_step [OF that(2)] that(1) by (simp add: R_def)
  have s: "RotRight7AndReplaceLowByte (R 0) (p 1) = R 1" "RotRight7AndReplaceLowByte (R 1) (p 2) = R 2"
    "RotRight7AndReplaceLowByte (R 2) (p 3) = R 3" "RotRight7AndReplaceLowByte (R 3) (p 4) = R 4"
    by (rule step; simp)+
  have c: "R k AND 0x80 \<noteq> 0 \<longleftrightarrow> continues p k" if "k \<le> 5" for k using tag_continues [OF that] by (simp only: R_def)
  have r: "RotateLeft (R 1) 7 = tag_bits 1 p" "RotateLeft (R 2) 14 = tag_bits 2 p" "RotateLeft (R 3) 21 = tag_bits 3 p"
    "RotateLeft (R 4) 28 = tag_bits 4 p"
    using tag_rotate [of 1] tag_rotate [of 2] tag_rotate [of 3] tag_rotate [of 4] by (simp_all add: R_def)
  have e: "tag_bits k p = gather 7 (Suc k) p" if "\<not> continues p k" for k using tag_bits_end [OF that] .
  have tests: "R 1 AND 0x80 \<noteq> 0 \<longleftrightarrow> continues p 1" "R 2 AND 0x80 \<noteq> 0 \<longleftrightarrow> continues p 2"
    "R 3 AND 0x80 \<noteq> 0 \<longleftrightarrow> continues p 3" "R 4 AND 0x80 \<noteq> 0 \<longleftrightarrow> continues p 4"
    by (rule c; simp)+
  have ends: "\<not> continues p 0 \<Longrightarrow> R 0 = gather 7 1 p" "\<not> continues p 1 \<Longrightarrow> tag_bits 1 p = gather 7 2 p"
    "\<not> continues p 2 \<Longrightarrow> tag_bits 2 p = gather 7 3 p" "\<not> continues p 3 \<Longrightarrow> tag_bits 3 p = gather 7 4 p"
    "\<not> continues p 4 \<Longrightarrow> tag_bits 4 p = gather 7 5 p"
    using e [of 0] e [of 1] e [of 2] e [of 3] e [of 4] unfolding R0 t by (simp_all del: gather.simps add: eval_nat_numeral)
  have "ReadTagInlined p = (if \<not> continues p 0 then Some (1, ucast (R 0)) else
      if \<not> continues p 1 then Some (2, ucast (tag_bits 1 p)) else
      if \<not> continues p 2 then Some (3, ucast (tag_bits 2 p)) else
      if \<not> continues p 3 then Some (4, ucast (tag_bits 3 p)) else
      if \<not> continues p 4 then Some (5, ucast (tag_bits 4 p)) else None)"
    unfolding ReadTagInlined_def z Let_def s tests ge r by simp
  also have "\<dots> = map_option (\<lambda>(n, v). (n, ucast v)) (varint_read 5 p)"
    unfolding varint_read_def varint_length_def u using ends by (simp del: gather.simps flip: numeral_2_eq_2)
  finally show ?thesis .
qed

subsection \<open>Two bytes at a time\<close>

text \<open>
  \<open>DecodeTwoBytes\<close>: the value, twice what the bytes stand for, and how far the pointer moves.
  \<open>ParseBigVarint\<close> runs it up to five times; its loop goes over \<open>i = 1, 2, 3, 4\<close>.
\<close>

definition DecodeTwoBytes :: "memory \<Rightarrow> 32 word \<times> nat" where
  "DecodeTwoBytes ptr =
     (let value = ucast (UnalignedLoad 2 ptr);
          x = scast (ucast value :: 8 word);
          value = value AND x;
          value = value + x
      in (value, if value < x then 2 else 1))"

fun big_varint_loop :: "nat list \<Rightarrow> memory \<Rightarrow> 64 word \<Rightarrow> (nat \<times> 64 word) option" where
  "big_varint_loop [] p res = None"
| "big_varint_loop (i # js) p res =
     (case DecodeTwoBytes (ahead (2 * i) p) of
        (tmp, n) \<Rightarrow>
          (let res = res + push_bit (14 * i - 1) (ucast tmp - 2)
           in if sint (ucast tmp :: 16 word) \<ge> 0 then Some (2 * i + n, res) else big_varint_loop js p res))"

definition ParseBigVarint :: "memory \<Rightarrow> (nat \<times> 64 word) option" where
  "ParseBigVarint p =
     (case DecodeTwoBytes p of
        (tmp, n) \<Rightarrow>
          (let res = ucast (drop_bit 1 tmp)
           in if sint (ucast tmp :: 16 word) \<ge> 0 then Some (n, res) else big_varint_loop [1..<5] p res))"

lemma gather_add: "gather 7 (Suc n) p = gather 7 n p + push_bit (7 * n) (take_bit 7 (ucast (p n)))"
proof -
  have "gather 7 n p AND push_bit (7 * n) (take_bit 7 (ucast (p n))) = 0"
    by (rule bit_word_eqI) (auto simp: bit_simps bit_gather)
  then show ?thesis by (simp add: disjunctive_add_eq_or)
qed

text \<open>Sign extension of a byte.\<close>

lemma scast_byte: "(scast (b :: 8 word) :: 32 word) = (if bit b 7 then ucast b - 256 else ucast b)"
proof (cases "bit b 7")
  case False
  have "bit (scast b :: 32 word) n = bit (ucast b :: 32 word) n" if "n < 32" for n
    using False that bit_byte [of b n] by (cases "n < 7"; cases "n = 7") (auto simp: bit_simps min_def)
  then have "(scast b :: 32 word) = ucast b" by (intro bit_word_eqI) simp
  then show ?thesis using False by simp
next
  case True
  have n: "NOT (mask 8) = (- 256 :: 32 word)" by (simp add: mask_eq_exp_minus_1)
  have d: "ucast b AND NOT (mask 8) = (0 :: 32 word)"
    by (rule bit_word_eqI) (use bit_byte [of b] in \<open>auto simp: bit_simps\<close>)
  have "(scast b :: 32 word) = ucast b OR NOT (mask 8)"
  proof (rule bit_word_eqI)
    fix n assume "n < LENGTH(32)"
    then show "bit (scast b :: 32 word) n = bit (ucast b OR NOT (mask 8) :: 32 word) n"
      using True bit_byte [of b n] by (cases "n < 8"; cases "n = 7") (auto simp: bit_simps min_def)
  qed
  also have "\<dots> = ucast b + NOT (mask 8)" by (rule disjunctive_add_eq_or [OF d, symmetric])
  finally show ?thesis using True by (simp add: n)
qed

lemma unat_byte: "unat (b :: 8 word) < 256"
  using unsigned_less [of b] by simp

lemma continues_le: "continues p k \<longleftrightarrow> 128 \<le> unat (p k)"
proof -
  have "unat (ucast (p k) :: 64 word) = unat (p k)"
    using unat_byte [of "p k"] by (simp add: unsigned_ucast_eq take_bit_nat_eq_self)
  then show ?thesis using byte_continues [of "p k"] by (simp add: continues_def word_le_nat_alt)
qed

text \<open>What the two bytes stand for.\<close>

definition two_bytes :: "memory \<Rightarrow> nat" where
  "two_bytes p = (if continues p 0 then unat (p 0) - 128 + 128 * unat (p 1) else unat (p 0))"

lemma two_bytes_less: "two_bytes p < 2 ^ 15"
  using unat_byte [of "p 0"] unat_byte [of "p 1"] by (auto simp: two_bytes_def continues_le)

text \<open>The sum that carries, on numbers.\<close>

lemma carry_sum:
  assumes "128 \<le> a" "a < 256" "b < 256"
  shows "(of_nat a + 256 * of_nat b + (of_nat a - 256) :: 32 word) = of_nat (2 * (a - 128 + 128 * b))"
    "of_nat (2 * (a - 128 + 128 * b)) < (of_nat a - 256 :: 32 word)"
proof -
  obtain c where c: "a = 128 + c" "c < 128" using assms(1,2) le_Suc_ex by fastforce
  show "(of_nat a + 256 * of_nat b + (of_nat a - 256) :: 32 word) = of_nat (2 * (a - 128 + 128 * b))"
    by (simp add: c(1) algebra_simps)
  have x: "(of_nat a - 256 :: 32 word) = of_nat (a + 4294967040)" by simp
  have "2 * (a - 128 + 128 * b) < 2 ^ 32" "a + 4294967040 < 2 ^ 32" using assms c by simp_all
  then show "of_nat (2 * (a - 128 + 128 * b)) < (of_nat a - 256 :: 32 word)"
    unfolding x word_less_nat_alt using assms c by (simp only: unat_of_nat_32) simp
qed

lemma DecodeTwoBytes_eq: "DecodeTwoBytes p = (of_nat (2 * two_bytes p), if continues p 0 then 2 else 1)"
proof -
  let ?v = "ucast (UnalignedLoad 2 p) :: 32 word"
  have low: "ucast ?v = p 0"
    by (rule bit_word_eqI) (auto simp: UnalignedLoad_def bit_gather bit_simps)
  have v: "?v = ucast (p 0) + 256 * ucast (p 1)"
  proof -
    have "?v = ucast (p 0) OR push_bit 8 (ucast (p 1))"
      by (rule bit_word_eqI)
        (use bit_byte [of "p 0"] bit_byte [of "p 1"] in \<open>auto simp: UnalignedLoad_def numeral_2_eq_2 bit_simps\<close>)
    moreover have "ucast (p 0) AND push_bit 8 (ucast (p 1)) = (0 :: 32 word)"
      by (rule bit_word_eqI) (auto simp: bit_simps dest: bit_byte)
    ultimately show ?thesis by (simp add: disjunctive_add_eq_or [symmetric] push_bit_eq_mult)
  qed
  let ?a = "unat (p 0)" and ?b = "unat (p 1)"
  have u: "ucast (p k) = (of_nat (unat (p k)) :: 32 word)" for k by simp
  have ab: "?a < 256" "?b < 256" by (rule unat_byte)+
  show ?thesis
  proof (cases "continues p 0")
    case False
    then have x: "scast (p 0) = (of_nat ?a :: 32 word)" by (simp add: scast_byte continues_def)
    have "?v AND ucast (p 0) = ucast (p 0)"
      by (rule bit_word_eqI) (auto simp: UnalignedLoad_def numeral_2_eq_2 bit_simps dest: bit_byte)
    then have m: "?v AND of_nat ?a = of_nat ?a" by (simp only: u)
    have s: "of_nat ?a + of_nat ?a = (of_nat (2 * ?a) :: 32 word)" by simp
    have "unat (of_nat (2 * ?a) :: 32 word) = 2 * ?a" "unat (of_nat ?a :: 32 word) = ?a"
      using unat_of_nat_32 [of "2 * ?a"] unat_of_nat_32 [of ?a] ab by simp_all
    then have "\<not> of_nat (2 * ?a) < (of_nat ?a :: 32 word)" unfolding word_less_nat_alt by simp
    then show ?thesis using False unfolding DecodeTwoBytes_def low x Let_def m s by (simp add: two_bytes_def)
  next
    case True
    then have a: "128 \<le> ?a" by (simp add: continues_le)
    have x: "scast (p 0) = (of_nat ?a - 256 :: 32 word)" using True by (simp add: scast_byte continues_def)
    have j: "bit ?v n \<longleftrightarrow> n < 16 \<and> bit (p (n div 8)) (n mod 8)" for n
      by (auto simp: UnalignedLoad_def bit_gather bit_simps)
    have "bit ?v n \<Longrightarrow> bit (scast (p 0) :: 32 word) n" for n
    proof -
      assume v: "bit ?v n"
      then have "n < 16" "bit (p (n div 8)) (n mod 8)" by (simp_all add: j)
      then show ?thesis using True by (cases "n < 7") (auto simp: bit_simps continues_def min_def)
    qed
    then have "?v AND scast (p 0) = ?v" by (intro bit_word_eqI) (auto simp: bit_and_iff)
    then have m: "?v AND (of_nat ?a - 256) = of_nat ?a + 256 * of_nat ?b" by (simp only: x v u)
    have l: "of_nat (2 * (?a - 128 + 128 * ?b)) < (of_nat ?a - 256 :: 32 word)" by (rule carry_sum(2) [OF a ab])
    show ?thesis
      unfolding DecodeTwoBytes_def low x Let_def m carry_sum(1) [OF a ab] using True l by (simp only: two_bytes_def if_True)
  qed
qed

text \<open>The test for the sign of the low 16 bits, and the shifted value.\<close>

lemma two_bytes_sign: "sint (ucast (of_nat (2 * n) :: 32 word) :: 16 word) \<ge> 0 \<longleftrightarrow> n < 2 ^ 14" if "n < 2 ^ 15"
proof -
  have "bit (of_nat (2 * n) :: 32 word) 15 \<longleftrightarrow> bit n 14"
  proof -
    have "unat (of_nat (2 * n) :: 32 word) = 2 * n" using that by (intro unat_of_nat_32) simp
    then have "bit (of_nat (2 * n) :: 32 word) 15 = bit (2 * n) 15"
      using bit_unsigned_iff [where 'a = nat and w = "of_nat (2 * n) :: 32 word" and n = 15] by simp
    then show ?thesis using bit_double_iff [of n 15] by simp
  qed
  moreover have "bit n 14 \<longleftrightarrow> \<not> n < 2 ^ 14"
  proof -
    have "n div 2 ^ 14 < 2" using that by (simp add: div_less_iff_less_mult)
    then have "odd (n div 2 ^ 14) \<longleftrightarrow> n div 2 ^ 14 \<noteq> 0" by (auto simp: less_2_cases_iff)
    then show ?thesis by (auto simp: bit_iff_odd div_eq_0_iff)
  qed
  moreover have "sint (w :: 16 word) \<ge> 0 \<longleftrightarrow> \<not> bit w 15" for w
    using signed_take_bit_nonnegative_iff [of 15 "uint w"] by (simp add: sint_uint bit_uint_iff)
  ultimately show ?thesis by (simp add: bit_simps)
qed

lemma shift_two: "1 \<le> i \<Longrightarrow> push_bit (14 * i - 1) (of_nat (2 * m) - 2) = (push_bit (14 * i) (of_nat m) - push_bit (14 * i) 1 :: 64 word)"
proof -
  assume "1 \<le> i"
  then have e: "(2 :: 64 word) ^ (14 * i) = 2 ^ (14 * i - 1) * 2" by (simp add: power_Suc2 [symmetric] del: power_Suc)
  show ?thesis unfolding push_bit_eq_mult e by (simp add: algebra_simps)
qed

lemma low_seven: "take_bit 7 (ucast (b :: 8 word)) = (of_nat (unat b mod 128) :: 64 word)"
proof -
  have "(of_nat (unat b mod 128) :: 64 word) = of_nat (take_bit 7 (unat b))" by (simp add: take_bit_eq_mod)
  also have "\<dots> = take_bit 7 (of_nat (unat b))" by (rule of_nat_take_bit)
  finally show ?thesis by simp
qed

lemma two_bytes_small: "two_bytes p < 2 ^ 14 \<longleftrightarrow> \<not> (continues p 0 \<and> continues p 1)"
  using unat_byte [of "p 0"] unat_byte [of "p 1"] by (auto simp: two_bytes_def continues_le)

lemma gather_two_bytes:
  "gather 7 m p + push_bit (7 * m) (of_nat (two_bytes (ahead m p))) =
     (if \<not> continues p m then gather 7 (m + 1) p
      else if \<not> continues p (m + 1) then gather 7 (m + 2) p
      else gather 7 (m + 2) p + push_bit (7 * m + 14) 1)"
proof -
  have q: "continues (ahead m p) k = continues p (m + k)" for k by (simp add: continues_def)
  have low: "unat (p k) mod 128 = unat (p k) - (if continues p k then 128 else 0)" for k
    using unat_byte [of "p k"] by (auto simp: continues_le mod_if)
  have high: "continues p k \<Longrightarrow> 128 \<le> unat (p k)" for k by (simp add: continues_le)
  have t: "two_bytes (ahead m p) =
      (if continues p m then unat (p m) mod 128 + 128 * (unat (p (m + 1)) mod 128) + (if continues p (m + 1) then 2 ^ 14 else 0)
       else unat (p m) mod 128)"
    unfolding low using high [of m] high [of "m + 1"] by (auto simp: two_bytes_def q)
  have g1: "gather 7 (m + 1) p = gather 7 m p + push_bit (7 * m) (of_nat (unat (p m) mod 128))"
    by (simp add: gather_add low_seven del: gather.simps)
  have g2: "gather 7 (m + 2) p = gather 7 (m + 1) p + push_bit (7 * m) (of_nat (128 * (unat (p (m + 1)) mod 128)))"
    using gather_add [of "m + 1" p] by (simp add: low_seven push_bit_eq_mult power_add algebra_simps del: gather.simps)
  have g3: "push_bit (7 * m) (2 ^ 14) = (push_bit (7 * m + 14) 1 :: 64 word)"
    by (simp add: push_bit_eq_mult power_add)
  show ?thesis unfolding t g2 unfolding g1 g3 [symmetric] by (simp add: push_bit_add algebra_simps)
qed

lemma big_varint_step:
  assumes r: "res = gather 7 (2 * i) p + push_bit (14 * i) 1" and i: "1 \<le> i"
  shows "big_varint_loop (i # js) p res =
    (if \<not> continues p (2 * i) then Some (2 * i + 1, gather 7 (2 * i + 1) p)
     else if \<not> continues p (2 * i + 1) then Some (2 * i + 2, gather 7 (2 * i + 2) p)
     else big_varint_loop js p (gather 7 (2 * Suc i) p + push_bit (14 * Suc i) 1))"
proof -
  let ?q = "ahead (2 * i) p"
  let ?m = "two_bytes ?q"
  have q: "continues ?q k = continues p (2 * i + k)" for k by (simp add: continues_def)
  have u: "ucast (of_nat (2 * ?m) :: 32 word) = (of_nat (2 * ?m) :: 64 word)"
  proof -
    have "unat (of_nat (2 * ?m) :: 32 word) = 2 * ?m" using two_bytes_less [of ?q] by (intro unat_of_nat_32) simp
    then show ?thesis by (metis of_nat_unat)
  qed
  have s: "res + push_bit (14 * i - 1) (of_nat (2 * ?m) - 2) = gather 7 (2 * i) p + push_bit (7 * (2 * i)) (of_nat ?m)"
    using shift_two [OF i, of ?m] by (simp add: r)
  note g = gather_two_bytes [of "2 * i" p]
  have sign: "sint (ucast (of_nat (2 * ?m) :: 32 word) :: 16 word) \<ge> 0 \<longleftrightarrow> \<not> (continues p (2 * i) \<and> continues p (2 * i + 1))"
    using two_bytes_sign [OF two_bytes_less] two_bytes_small [of ?q] by (simp add: q)
  show ?thesis
    unfolding big_varint_loop.simps DecodeTwoBytes_eq prod.case u s Let_def sign g q
    by (auto simp: add.commute [of 14] simp del: gather.simps big_varint_loop.simps)
qed

lemma varint_read_at:
  assumes "\<And>k. k < n \<Longrightarrow> continues p k" "\<not> continues p n" "n < m"
  shows "varint_read m p = Some (n + 1, gather 7 (n + 1) p)"
  using varint_lengthI [of "n + 1" m p] assms by (simp add: varint_read_def del: gather.simps)

lemma big_varint_rest:
  assumes "1 \<le> i" "i \<le> 5" "\<And>k. k < 2 * i \<Longrightarrow> continues p k"
  shows "big_varint_loop [i..<5] p (gather 7 (2 * i) p + push_bit (14 * i) 1) = varint_read 10 p"
  using assms
proof (induction "5 - i" arbitrary: i)
  case 0
  then have "varint_length 10 p = None" unfolding varint_length_None by simp
  then show ?case using 0 by (simp add: varint_read_def del: gather.simps)
next
  case (Suc d)
  then have i: "i < 5" "[i..<5] = i # [Suc i..<5]" by (simp_all add: upt_conv_Cons)
  have one: "\<not> continues p (2 * i) \<Longrightarrow> varint_read 10 p = Some (2 * i + 1, gather 7 (2 * i + 1) p)"
    using i(1) Suc.prems(3) by (intro varint_read_at) simp_all
  have before: "continues p (2 * i) \<Longrightarrow> k < 2 * i + 1 \<Longrightarrow> continues p k" for k
    using Suc.prems(3) [of k] by (auto simp: less_Suc_eq)
  have two: "continues p (2 * i) \<Longrightarrow> \<not> continues p (2 * i + 1) \<Longrightarrow> varint_read 10 p = Some (2 * i + 2, gather 7 (2 * i + 2) p)"
    using varint_read_at [of "2 * i + 1" p 10] before i(1) by (simp del: gather.simps)
  have more: "big_varint_loop [Suc i..<5] p (gather 7 (2 * Suc i) p + push_bit (14 * Suc i) 1) = varint_read 10 p"
    if "continues p (2 * i)" "continues p (2 * i + 1)"
  proof (rule Suc.hyps(1))
    show "continues p k" if "k < 2 * Suc i" for k
      using before [of k] that \<open>continues p (2 * i)\<close> \<open>continues p (2 * i + 1)\<close> by (auto simp: less_Suc_eq)
  qed (use Suc i in auto)
  show ?case
    unfolding i(2) big_varint_step [OF refl Suc.prems(1)] using one two more by (simp del: gather.simps big_varint_loop.simps)
qed

theorem ParseBigVarint_read: "ParseBigVarint p = varint_read 10 p"
proof -
  have "unat (of_nat (two_bytes p) :: 32 word) = two_bytes p" "unat (of_nat (2 * two_bytes p) :: 32 word) = 2 * two_bytes p"
    using two_bytes_less [of p] by (intro unat_of_nat_32; simp)+
  then have half: "ucast (drop_bit 1 (of_nat (2 * two_bytes p) :: 32 word)) = (of_nat (two_bytes p) :: 64 word)"
  proof -
    have "unat (drop_bit 1 (of_nat (2 * two_bytes p) :: 32 word)) = two_bytes p"
      using \<open>unat (of_nat (2 * two_bytes p) :: 32 word) = 2 * two_bytes p\<close>
      unfolding unat_drop_bit_eq by (simp only:) (simp add: drop_bit_eq_div)
    then show ?thesis by (metis of_nat_unat)
  qed
  have a: "ahead 0 p = p" "gather 7 0 p = 0" by (simp_all add: ahead_def)
  have g: "of_nat (two_bytes p) =
     (if \<not> continues p 0 then gather 7 1 p
      else if \<not> continues p 1 then gather 7 2 p
      else gather 7 (2 * 1) p + push_bit (14 * 1) 1)"
    using gather_two_bytes [of 0 p]
    by (simp only: a add_0_left mult_0_right mult_1_right push_bit_0_id id_apply)
  have one: "\<not> continues p 0 \<Longrightarrow> varint_read 10 p = Some (1, gather 7 1 p)"
    using varint_read_at [of 0 p 10] by simp
  have two: "continues p 0 \<Longrightarrow> \<not> continues p 1 \<Longrightarrow> varint_read 10 p = Some (2, gather 7 2 p)"
    using varint_read_at [of 1 p 10] by (simp del: gather.simps add: numeral_2_eq_2 [symmetric])
  have more: "continues p 0 \<Longrightarrow> continues p 1 \<Longrightarrow>
      big_varint_loop [1..<5] p (gather 7 (2 * 1) p + push_bit (14 * 1) 1) = varint_read 10 p"
    by (rule big_varint_rest) (auto simp: less_2_cases_iff)
  show ?thesis
    unfolding ParseBigVarint_def DecodeTwoBytes_eq prod.case half Let_def two_bytes_sign [OF two_bytes_less] two_bytes_small g
    using one two more by (simp del: gather.simps big_varint_loop.simps upt_conv_Cons)
qed

subsection \<open>Reading what was written\<close>

text \<open>The bytes \<open>s\<close> lie at \<open>p\<close>.\<close>

definition holds :: "memory \<Rightarrow> string \<Rightarrow> bool" where
  "holds p s \<longleftrightarrow> (\<forall>k < length s. p k = of_nat (of_char (s ! k)))"

lemma holds_Cons: "holds p (c # s) \<longleftrightarrow> p 0 = of_nat (of_char c) \<and> holds (ahead 1 p) s"
  by (auto simp: holds_def nth_Cons split: nat.splits)

lemma gather_front: "gather 7 (Suc n) p = take_bit 7 (ucast (p 0)) + push_bit 7 (gather 7 n (ahead 1 p))"
proof (induction n)
  case (Suc n)
  have "gather 7 (Suc (Suc n)) p = gather 7 (Suc n) p + push_bit (7 * Suc n) (take_bit 7 (ucast (p (Suc n))))"
    by (rule gather_add)
  then show ?case
    unfolding Suc.IH gather_add [of n "ahead 1 p"] by (simp add: push_bit_add del: gather.simps)
qed (simp add: gather_add del: gather.simps(2))

lemma take_varint_stored:
  assumes "holds p s" "take_varint k s = Some (n, r)"
  shows "\<exists>j < k. length s = Suc j + length r \<and> (\<forall>i < j. continues p i) \<and> \<not> continues p j \<and>
    gather 7 (Suc j) p = of_nat n"
  using assms
proof (induction k arbitrary: s p n)
  case (Suc k)
  then obtain c cs where s: "s = c # cs" by (cases s) auto
  let ?b = "of_char c :: nat"
  have p: "p 0 = of_nat ?b" "holds (ahead 1 p) cs" using Suc.prems(1) by (simp_all add: s holds_Cons)
  have u: "unat (p 0) = ?b" unfolding p(1) using nat_of_char_less_256 [of c] by (simp add: unsigned_of_nat take_bit_nat_eq_self)
  show ?case
  proof (cases "?b < 128")
    case True
    then have "n = ?b" "r = cs" using Suc.prems(2) by (simp_all add: s)
    then show ?thesis
      using True u by (intro exI [of _ 0]) (simp add: s continues_le low_seven gather_add del: gather.simps(2))
  next
    case False
    then obtain v where v: "take_varint k cs = Some (v, r)" "n = ?b - 128 + 128 * v"
      using Suc.prems(2) by (auto simp: s Let_def)
    obtain j where j: "j < k" "length cs = Suc j + length r" "\<forall>i < j. continues (ahead 1 p) i" "\<not> continues (ahead 1 p) j"
      "gather 7 (Suc j) (ahead 1 p) = of_nat v"
      using Suc.IH [OF p(2) v(1)] by blast
    have q: "continues (ahead 1 p) k = continues p (Suc k)" for k by (simp add: continues_def)
    have c: "continues p i" if "i < Suc j" for i
      using that False u j(3) unfolding q by (cases i) (auto simp: continues_le)
    have "b < 256 \<Longrightarrow> \<not> b < 128 \<Longrightarrow> b mod 128 = b - 128" for b :: nat by (simp add: le_mod_geq)
    then have b: "?b mod 128 = ?b - 128" using False nat_of_char_less_256 by blast
    have "gather 7 (Suc (Suc j)) p = of_nat (?b - 128) + push_bit 7 (of_nat v)"
      unfolding gather_front [of "Suc j"] low_seven u j(5) b ..
    also have "\<dots> = of_nat n"
      unfolding v(2) of_nat_add of_nat_mult push_bit_eq_mult by (simp add: mult.commute del: of_nat_diff)
    finally have "gather 7 (Suc (Suc j)) p = of_nat n" .
    moreover have "Suc j < Suc k" "length s = Suc (Suc j) + length r" using j(1,2) by (simp_all add: s)
    moreover have "\<not> continues p (Suc j)" using j(4) unfolding q .
    ultimately show ?thesis using c by blast
  qed
qed simp

text \<open>The decoder over strings reads what the inline routines read in memory.\<close>

lemma varint_read_take:
  assumes "holds p s" "take_varint k s = Some (n, r)"
  shows "varint_read k p = Some (length s - length r, of_nat n)"
proof -
  obtain j where "j < k" "length s = Suc j + length r" "\<forall>i < j. continues p i" "\<not> continues p j"
    "gather 7 (Suc j) p = of_nat n"
    using take_varint_stored [OF assms] by blast
  then show ?thesis using varint_read_at [of j p k] by (simp del: gather.simps)
qed

lemma varint_read_stored:
  assumes "holds p (varint n)" "length (varint n) \<le> m"
  shows "varint_read m p = Some (length (varint n), of_nat n)"
  using varint_read_take [OF assms(1), of m n "[]"] take_varint_varint [OF assms(2), of "[]"] by simp

subsection \<open>All ten bytes at once\<close>

text \<open>
  The routines for 64-bit ARM. \<open>ValueBarrier\<close> only keeps the compiler from reordering and returns
  its first argument.
\<close>

definition CountTrailingZeroesNonzero64 :: "64 word \<Rightarrow> nat" where
  "CountTrailingZeroesNonzero64 x =
     (let x = x AND (NOT x + 1);
          c = 63;
          c = (if x AND 0x00000000FFFFFFFF \<noteq> 0 then c - 32 else c);
          c = (if x AND 0x0000FFFF0000FFFF \<noteq> 0 then c - 16 else c);
          c = (if x AND 0x00FF00FF00FF00FF \<noteq> 0 then c - 8 else c);
          c = (if x AND 0x0F0F0F0F0F0F0F0F \<noteq> 0 then c - 4 else c);
          c = (if x AND 0x3333333333333333 \<noteq> 0 then c - 2 else c);
          c = (if x AND 0x5555555555555555 \<noteq> 0 then c - 1 else c)
      in c)"

definition CountTrailingZeroes :: "64 word \<Rightarrow> nat" where
  "CountTrailingZeroes x = (if x = 0 then 64 else CountTrailingZeroesNonzero64 x)"

definition countr_zero :: "64 word \<Rightarrow> nat" where
  "countr_zero x = CountTrailingZeroes x"

definition Ubfx7 :: "64 word \<Rightarrow> nat \<Rightarrow> 64 word" where
  "Ubfx7 data start = drop_bit start data AND 0x7f"

definition ExtractAndMergeTwoChunks :: "64 word \<Rightarrow> nat \<Rightarrow> 64 word" where
  "ExtractAndMergeTwoChunks data first_byte =
     (let first = Ubfx7 data (first_byte * 8);
          second = Ubfx7 data ((first_byte + 1) * 8)
      in first OR push_bit 7 second)"

text \<open>\<open>sp_p\<close> is how far the pointer moves.\<close>

record SlowPathEncodedInfo =
  sp_p :: nat
  sp_last8 :: "64 word"
  sp_valid_bits :: nat
  sp_valid_chunk_bits :: nat
  sp_masked_cont_bits :: "64 word"

definition ComputeLengthAndUpdateP :: "memory \<Rightarrow> SlowPathEncodedInfo" where
  "ComputeLengthAndUpdateP p =
     (let last8 = UnalignedLoad 8 (ahead 2 p);
          masked = 0x8080808080808080 AND NOT last8;
          valid_bits = countr_zero masked;
          set_continuation_bits = valid_bits div 8
      in \<lparr>sp_p = set_continuation_bits + 3, sp_last8 = last8, sp_valid_bits = valid_bits,
          sp_valid_chunk_bits = valid_bits - set_continuation_bits, sp_masked_cont_bits = masked\<rparr>)"

definition VarintParseSlowArm64 :: "memory \<Rightarrow> 64 word \<Rightarrow> (nat \<times> 64 word) option" where
  "VarintParseSlowArm64 p first8 =
     (let info = ComputeLengthAndUpdateP p;
          merged_01 = ExtractAndMergeTwoChunks first8 0;
          merged_23 = ExtractAndMergeTwoChunks first8 2;
          merged_45 = ExtractAndMergeTwoChunks first8 4;
          result = merged_01 OR push_bit (2 * 7) merged_23 OR push_bit (4 * 7) merged_45;
          result_mask = push_bit (sp_valid_chunk_bits info) 0xffffffffffffc000
      in if sp_masked_cont_bits info = 0 then None
         else
           let result =
             (if sp_valid_bits info AND 0x20 \<noteq> 0
              then let merged_67 = ExtractAndMergeTwoChunks first8 6;
                       merged_89 = ExtractAndMergeTwoChunks (sp_last8 info) 6
                   in result OR push_bit (6 * 7) merged_67 OR push_bit (8 * 7) merged_89
              else result)
           in Some (sp_p info, result AND NOT result_mask))"

definition VarintParseSlowArm32 :: "memory \<Rightarrow> 64 word \<Rightarrow> (nat \<times> 32 word) option" where
  "VarintParseSlowArm32 p first8 =
     (let info = ComputeLengthAndUpdateP p;
          merged_12 = ExtractAndMergeTwoChunks first8 1;
          merged_34 = ExtractAndMergeTwoChunks first8 3;
          result = Ubfx7 first8 0;
          result = result OR push_bit (1 * 7) merged_12;
          result = result OR push_bit (3 * 7) merged_34;
          result_mask = push_bit (sp_valid_chunk_bits info) 0xffffffffffffc000;
          result = result AND NOT result_mask
      in if sp_masked_cont_bits info = 0 then None else Some (sp_p info, ucast result))"

text \<open>\<open>VarintParse\<close> for both widths; the slow path is the argument.\<close>

definition VarintParse_arm :: "(memory \<Rightarrow> 64 word \<Rightarrow> (nat \<times> 'w::len word) option) \<Rightarrow> memory \<Rightarrow> (nat \<times> 'w word) option" where
  "VarintParse_arm slow p =
     (let first8 = UnalignedLoad 8 p in
      if first8 AND 0x80 = 0 then Some (1, ucast (ucast first8 :: 8 word))
      else if first8 AND 0x8000 = 0
      then let chunk1 = Ubfx7 first8 0; chunk2 = Ubfx7 first8 8 in Some (2, ucast (chunk1 OR push_bit 7 chunk2))
      else slow p first8)"

lemma block_masks:
  "list_all (\<lambda>n. bit (0x00000000FFFFFFFF :: int) n = (n mod 64 < 32) \<and> bit (0x0000FFFF0000FFFF :: int) n = (n mod 32 < 16) \<and>
     bit (0x00FF00FF00FF00FF :: int) n = (n mod 16 < 8) \<and> bit (0x0F0F0F0F0F0F0F0F :: int) n = (n mod 8 < 4) \<and>
     bit (0x3333333333333333 :: int) n = (n mod 4 < 2) \<and> bit (0x5555555555555555 :: int) n = (n mod 2 < 1)) [0..<64]"
  by code_simp

lemma lowest_bit:
  assumes "bit x n" "\<And>k. k < n \<Longrightarrow> \<not> bit x k"
  shows "x AND (NOT x + 1) = push_bit n (1 :: 64 word)"
proof -
  define y where "y = drop_bit n x"
  have x: "x = push_bit n y"
  proof (rule bit_word_eqI)
    fix k assume "k < LENGTH(64)"
    then show "bit x k = bit (push_bit n y) k"
      using assms(2) [of k] by (cases "k < n") (auto simp: y_def bit_simps)
  qed
  have y: "bit y 0" using assms(1) by (simp add: y_def bit_drop_bit_eq)
  have d: "NOT y AND 1 = 0" using y by (intro bit_word_eqI) (auto simp: bit_and_iff bit_not_iff bit_1_iff)
  have s: "NOT y + 1 = NOT y OR 1" by (rule disjunctive_add_eq_or [OF d])
  have o: "y AND (NOT y + 1) = 1"
    unfolding s by (rule bit_word_eqI) (use y in \<open>auto simp: bit_and_iff bit_or_iff bit_not_iff bit_1_iff\<close>)
  have "NOT x + 1 = push_bit n (NOT y + 1)"
    by (simp add: x not_eq_complement push_bit_eq_mult)
  then have "x AND (NOT x + 1) = push_bit n (y AND (NOT y + 1))" unfolding push_bit_and by (simp only: x [symmetric])
  then show ?thesis by (simp only: o)
qed

definition halvings :: "bool \<Rightarrow> bool \<Rightarrow> bool \<Rightarrow> bool \<Rightarrow> bool \<Rightarrow> bool \<Rightarrow> nat" where
  "halvings b32 b16 b8 b4 b2 b1 =
     63 - (if b32 then 32 else 0) - (if b16 then 16 else 0) - (if b8 then 8 else 0)
        - (if b4 then 4 else 0) - (if b2 then 2 else 0) - (if b1 then 1 else 0)"

lemma drop_if: "(if b then c - k else c) = c - (if b then k else 0)" for c k :: nat
  by simp

lemma CountTrailingZeroesNonzero64_lowest:
  assumes "bit x n" "\<And>k. k < n \<Longrightarrow> \<not> bit x k"
  shows "CountTrailingZeroesNonzero64 x = n"
proof -
  have n: "n < 64" using bit_imp_le_length [OF assms(1)] by simp
  have l: "x AND (NOT x + 1) = push_bit n 1" by (rule lowest_bit) (rule assms; assumption?)+
  have m: "push_bit n 1 AND numeral m \<noteq> (0 :: 64 word) \<longleftrightarrow> bit (numeral m :: int) n" for m
    using and_exp_eq_0_iff_not_bit [of "numeral m :: 64 word" n] n
    by (simp add: and.commute [of "2 ^ n"])
  have c: "list_all (\<lambda>n. halvings (n mod 64 < 32) (n mod 32 < 16) (n mod 16 < 8) (n mod 8 < 4) (n mod 4 < 2) (n mod 2 < 1) = n)
      [0..<64 :: nat]"
    by code_simp
  have "n \<in> set [0..<64]" using n by simp
  note bits = block_masks [unfolded list_all_iff, rule_format, OF this] c [unfolded list_all_iff, rule_format, OF this]
  show ?thesis
    unfolding CountTrailingZeroesNonzero64_def Let_def drop_if l m
    using bits unfolding halvings_def by (simp only: simp_thms)
qed
lemma bit_load: "bit (UnalignedLoad 8 p) j \<longleftrightarrow> j < 64 \<and> bit (p (j div 8)) (j mod 8)"
  by (simp add: UnalignedLoad_def bit_gather)

lemma bit_Ubfx7: "bit (Ubfx7 d s) j \<longleftrightarrow> j < 7 \<and> bit d (s + j)"
proof -
  have m: "(0x7f :: 64 word) = mask 7" by (simp add: mask_eq_exp_minus_1)
  show ?thesis unfolding Ubfx7_def m bit_and_iff bit_mask_iff by (auto simp: bit_drop_bit_eq)
qed

lemma two_chunks: "b \<le> 6 \<Longrightarrow> ExtractAndMergeTwoChunks (UnalignedLoad 8 p) b = gather 7 2 (ahead b p)"
proof (rule bit_word_eqI)
  fix j
  assume b: "b \<le> 6" and "j < LENGTH(64)"
  have e: "(b * 8 + i) div 8 = b + i div 8" "(b * 8 + i) mod 8 = i mod 8" for b i :: nat
    by (simp_all add: add.commute)
  have "bit (ExtractAndMergeTwoChunks (UnalignedLoad 8 p) b) j \<longleftrightarrow>
      j < 7 \<and> bit (p b) j \<or> 7 \<le> j \<and> j - 7 < 7 \<and> bit (p (b + 1)) (j - 7)"
    using b e [of b j] e [of "b + 1" "j - 7"] \<open>j < LENGTH(64)\<close>
    by (auto simp: ExtractAndMergeTwoChunks_def bit_or_iff bit_push_bit_iff bit_Ubfx7 bit_load)
  moreover have "7 \<le> j \<Longrightarrow> j - 7 < 7 \<Longrightarrow> j div 7 = 1 \<and> j mod 7 = j - 7" using place [of 7 1 j] by simp
  ultimately show "bit (ExtractAndMergeTwoChunks (UnalignedLoad 8 p) b) j = bit (gather 7 2 (ahead b p)) j"
    using b by (cases "j < 7") (auto simp: bit_gather simp del: gather.simps)
qed

lemma gather_append: "gather 7 (m + n) p = gather 7 m p OR push_bit (7 * m) (gather 7 n (ahead m p))"
proof (induction n)
  case (Suc n)
  have "push_bit (7 * (m + n)) x = push_bit (7 * m) (push_bit (7 * n) x)" for x :: "64 word"
    by (simp add: distrib_left)
  then show ?case using Suc by (simp add: push_bit_or or.assoc)
qed simp

lemma bit_result_mask:
  assumes "1 \<le> k"
  shows "bit (push_bit (7 * (k - 1)) 0xffffffffffffc000 :: 64 word) j \<longleftrightarrow> j < 64 \<and> 7 * (k + 1) \<le> j"
proof -
  have m: "(0xffffffffffffc000 :: 64 word) = NOT (mask 14)" by (simp add: mask_eq_exp_minus_1)
  have "14 \<le> j - 7 * (k - 1) \<longleftrightarrow> 7 * (k + 1) \<le> j" "7 * (k + 1) \<le> j \<Longrightarrow> 7 * (k - 1) \<le> j"
    using assms by auto
  then show ?thesis unfolding m bit_push_bit_iff bit_not_iff bit_mask_iff by auto
qed

lemma cut:
  assumes "1 \<le> k" "k + 1 \<le> n"
  shows "gather 7 n p AND NOT (push_bit (7 * (k - 1)) 0xffffffffffffc000) = gather 7 (k + 1) p"
proof (rule bit_word_eqI)
  fix j assume "j < LENGTH(64)"
  then show "bit (gather 7 n p AND NOT (push_bit (7 * (k - 1)) 0xffffffffffffc000)) j = bit (gather 7 (k + 1) p) j"
    unfolding bit_and_iff bit_not_iff bit_result_mask [OF assms(1)] using assms by (auto simp: bit_gather simp del: gather.simps)
qed

lemma bit_masked:
  "bit (0x8080808080808080 AND NOT (UnalignedLoad 8 (ahead 2 p))) j \<longleftrightarrow>
     j < 64 \<and> j mod 8 = 7 \<and> \<not> continues p (2 + j div 8)"
proof -
  have "list_all (\<lambda>j. bit (0x8080808080808080 :: int) j = (j mod 8 = 7)) [0..<64]" by code_simp
  then have "j < 64 \<Longrightarrow> bit (0x8080808080808080 :: int) j = (j mod 8 = 7)" by (simp add: list_all_iff)
  then show ?thesis by (auto simp: bit_and_iff bit_not_iff bit_load continues_def)
qed

lemma last_byte:
  assumes "2 \<le> k" "k \<le> 9" "\<not> continues p k" "\<forall>i < k. continues p i"
  shows "countr_zero (0x8080808080808080 AND NOT (UnalignedLoad 8 (ahead 2 p))) = 8 * (k - 2) + 7"
    "0x8080808080808080 AND NOT (UnalignedLoad 8 (ahead 2 p)) \<noteq> 0"
proof -
  let ?m = "0x8080808080808080 AND NOT (UnalignedLoad 8 (ahead 2 p))"
  have "2 + (8 * (k - 2) + 7) div 8 = k" "8 * (k - 2) + 7 < 64" using assms(1,2) by simp_all
  then have b: "bit ?m (8 * (k - 2) + 7)" using assms(3) by (simp only: bit_masked) simp
  have "\<not> bit ?m j" if "j < 8 * (k - 2) + 7" for j
  proof
    assume "bit ?m j"
    then have j: "j mod 8 = 7" "\<not> continues p (2 + j div 8)" by (simp_all add: bit_masked)
    then have "j div 8 < k - 2" using that by (metis add_less_cancel_right div_mult_mod_eq mult.commute mult_less_cancel1)
    then show False using assms(4) j(2) by simp
  qed
  with b have "CountTrailingZeroesNonzero64 ?m = 8 * (k - 2) + 7" by (rule CountTrailingZeroesNonzero64_lowest)
  moreover show "?m \<noteq> 0" using b by auto
  ultimately show "countr_zero ?m = 8 * (k - 2) + 7" by (simp add: countr_zero_def CountTrailingZeroes_def)
qed

lemma ComputeLength:
  assumes "2 \<le> k" "k \<le> 9" "\<not> continues p k" "\<forall>i < k. continues p i"
  shows "sp_p (ComputeLengthAndUpdateP p) = k + 1" "sp_valid_bits (ComputeLengthAndUpdateP p) = 8 * (k - 2) + 7"
    "sp_valid_chunk_bits (ComputeLengthAndUpdateP p) = 7 * (k - 1)" "sp_masked_cont_bits (ComputeLengthAndUpdateP p) \<noteq> 0"
  using last_byte [OF assms] assms(1) by (auto simp: ComputeLengthAndUpdateP_def Let_def)

lemma ComputeLength_none:
  assumes "\<forall>i < 10. continues p i"
  shows "sp_masked_cont_bits (ComputeLengthAndUpdateP p) = 0"
proof -
  have "0x8080808080808080 AND NOT (UnalignedLoad 8 (ahead 2 p)) = 0"
    by (rule bit_word_eqI) (use assms in \<open>auto simp: bit_masked\<close>)
  then show ?thesis by (simp add: ComputeLengthAndUpdateP_def Let_def)
qed

lemma slow_bits: "2 \<le> k \<Longrightarrow> k \<le> 9 \<Longrightarrow> 8 * (k - 2) + 7 AND 0x20 \<noteq> 0 \<longleftrightarrow> 6 \<le> k" for k :: nat
proof -
  have "list_all (\<lambda>k. (8 * (k - 2) + 7 AND 0x20 \<noteq> 0) = (6 \<le> k)) [2..<10 :: nat]" by code_simp
  then have l: "\<forall>k \<in> set [2..<10 :: nat]. (8 * (k - 2) + 7 AND 0x20 \<noteq> 0) = (6 \<le> k)" unfolding list_all_iff .
  assume "2 \<le> k" "k \<le> 9"
  then have "k \<in> set [2..<10]" unfolding set_upt atLeastLessThan_iff by linarith
  with l show ?thesis by blast
qed

lemma chunks_together:
  "gather 7 2 (ahead 0 p) OR push_bit (2 * 7) (gather 7 2 (ahead 2 p)) OR push_bit (4 * 7) (gather 7 2 (ahead 4 p)) = gather 7 6 p"
  "gather 7 6 p OR push_bit (6 * 7) (gather 7 2 (ahead 6 p)) OR push_bit (8 * 7) (gather 7 2 (ahead 6 (ahead 2 p))) = gather 7 10 p"
  "gather 7 1 p OR push_bit (1 * 7) (gather 7 2 (ahead 1 p)) OR push_bit (3 * 7) (gather 7 2 (ahead 3 p)) = gather 7 5 p"
proof -
  have a: "ahead 0 p = p" "ahead 6 (ahead 2 p) = ahead 8 p" by (simp_all add: ahead_def fun_eq_iff)
  have g: "gather 7 3 p = gather 7 1 p OR push_bit (7 * 1) (gather 7 2 (ahead 1 p))"
    using gather_append [of 1 2 p] by (simp only: one_plus_numeral) (simp del: gather.simps)
  show "gather 7 2 (ahead 0 p) OR push_bit (2 * 7) (gather 7 2 (ahead 2 p)) OR push_bit (4 * 7) (gather 7 2 (ahead 4 p)) = gather 7 6 p"
    using gather_append [of 2 2 p] gather_append [of 4 2 p] unfolding a by (simp add: or.assoc del: gather.simps)
  show "gather 7 6 p OR push_bit (6 * 7) (gather 7 2 (ahead 6 p)) OR push_bit (8 * 7) (gather 7 2 (ahead 6 (ahead 2 p))) = gather 7 10 p"
    using gather_append [of 6 2 p] gather_append [of 8 2 p] unfolding a by (simp add: or.assoc del: gather.simps)
  show "gather 7 1 p OR push_bit (1 * 7) (gather 7 2 (ahead 1 p)) OR push_bit (3 * 7) (gather 7 2 (ahead 3 p)) = gather 7 5 p"
    using g gather_append [of 3 2 p] by (simp add: or.assoc del: gather.simps)
qed

text \<open>Where the varint that begins with two bytes that continue ends, if it does.\<close>

lemma long_varint:
  assumes "continues p 0" "continues p 1"
  obtains (stops) k where "2 \<le> k" "k \<le> 9" "\<not> continues p k" "\<forall>i < k. continues p i"
      "varint_read 10 p = Some (k + 1, gather 7 (k + 1) p)"
  | (endless) "\<forall>i < 10. continues p i" "varint_read 10 p = None"
proof (cases "varint_length 10 p")
  case None
  then show ?thesis using endless by (simp add: varint_length_None varint_read_def)
next
  case (Some n)
  note d = varint_length_SomeD [OF Some]
  have "n - 1 \<noteq> 0" "n - 1 \<noteq> 1" using d(3) assms by metis+
  then have "2 \<le> n - 1" "n - 1 \<le> 9" "n - 1 + 1 = n" using d(1,2) by auto
  then show ?thesis using stops [of "n - 1"] d(3,4) Some by (simp add: varint_read_def del: gather.simps)
qed

lemma VarintParseSlowArm64_read:
  assumes "continues p 0" "continues p 1"
  shows "VarintParseSlowArm64 p (UnalignedLoad 8 p) = varint_read 10 p"
  using assms
proof (cases rule: long_varint)
  case endless
  then show ?thesis using ComputeLength_none [of p] by (simp add: VarintParseSlowArm64_def Let_def)
next
  case (stops k)
  have l: "sp_last8 (ComputeLengthAndUpdateP p) = UnalignedLoad 8 (ahead 2 p)"
    by (simp add: ComputeLengthAndUpdateP_def Let_def)
  have cuts: "gather 7 10 p AND NOT (push_bit (7 * (k - 1)) 0xffffffffffffc000) = gather 7 (k + 1) p"
    "\<not> 6 \<le> k \<Longrightarrow> gather 7 6 p AND NOT (push_bit (7 * (k - 1)) 0xffffffffffffc000) = gather 7 (k + 1) p"
    using stops(1,2) by (intro cut; simp)+
  note c = ComputeLength [OF stops(1-4)]
  show ?thesis
    unfolding VarintParseSlowArm64_def Let_def l c slow_bits [OF stops(1,2)] stops(5)
    using c(4) cuts by (simp add: two_chunks chunks_together [simplified] del: gather.simps)
qed

lemma VarintParseSlowArm32_read:
  assumes "continues p 0" "continues p 1"
  shows "VarintParseSlowArm32 p (UnalignedLoad 8 p) = map_option (\<lambda>(n, v). (n, ucast v)) (varint_read 10 p)"
  using assms
proof (cases rule: long_varint)
  case endless
  then show ?thesis using ComputeLength_none [of p] by (simp add: VarintParseSlowArm32_def Let_def)
next
  case (stops k)
  have u: "Ubfx7 (UnalignedLoad 8 p) 0 = gather 7 1 p"
    by (rule bit_word_eqI) (auto simp: bit_Ubfx7 bit_load bit_gather simp del: gather.simps)
  have "bit (gather 7 5 p AND NOT (push_bit (7 * (k - 1)) 0xffffffffffffc000)) j = bit (gather 7 (k + 1) p) j" if "j < 32" for j
    unfolding bit_and_iff bit_not_iff bit_result_mask [OF order_trans [OF one_le_numeral stops(1)]]
    using that stops(1) by (auto simp: bit_gather simp del: gather.simps)
  then have m: "ucast (gather 7 5 p AND NOT (push_bit (7 * (k - 1)) 0xffffffffffffc000)) = (ucast (gather 7 (k + 1) p) :: 32 word)"
    by (intro bit_word_eqI) (simp add: bit_unsigned_iff)
  note c = ComputeLength [OF stops(1-4)]
  show ?thesis
    unfolding VarintParseSlowArm32_def Let_def c u stops(5)
    using c(4) m [folded chunks_together(3)] by (simp add: two_chunks or.assoc del: gather.simps)
qed

lemma first_bytes:
  "UnalignedLoad 8 p AND 0x80 = 0 \<longleftrightarrow> \<not> continues p 0" "UnalignedLoad 8 p AND 0x8000 = 0 \<longleftrightarrow> \<not> continues p 1"
  "ucast (UnalignedLoad 8 p) = p 0"
  using and_exp_eq_0_iff_not_bit [of "UnalignedLoad 8 p" 7] and_exp_eq_0_iff_not_bit [of "UnalignedLoad 8 p" 15]
  by (auto simp: bit_load continues_def intro!: bit_word_eqI simp: bit_unsigned_iff)

lemma VarintParse_arm_fast:
  assumes slow: "continues p 0 \<Longrightarrow> continues p 1 \<Longrightarrow>
      slow p (UnalignedLoad 8 p) = map_option (\<lambda>(n, v). (n, ucast v)) (varint_read 10 p)"
  shows "VarintParse_arm slow p = map_option (\<lambda>(n, v). (n, ucast v :: 'w::len word)) (varint_read 10 p)"
proof -
  have one: "varint_read 10 p = Some (1, gather 7 1 p)" "ucast (gather 7 1 p) = (ucast (p 0) :: 'w word)" if "\<not> continues p 0"
  proof -
    show "varint_read 10 p = Some (1, gather 7 1 p)" using varint_read_at [of 0 p 10] that by (simp del: gather.simps)
    have "gather 7 1 p = ucast (p 0)" using tag_bits_end [OF that] by (simp add: tag_bits_def)
    then show "ucast (gather 7 1 p) = (ucast (p 0) :: 'w word)"
      by (intro bit_word_eqI) (auto simp: bit_unsigned_iff dest: bit_byte)
  qed
  have two: "varint_read 10 p = Some (2, gather 7 2 p)" if "continues p 0" "\<not> continues p 1"
    using varint_read_at [of 1 p 10] that by (simp add: numeral_2_eq_2 [symmetric] del: gather.simps)
  have m: "Ubfx7 (UnalignedLoad 8 p) 0 OR push_bit 7 (Ubfx7 (UnalignedLoad 8 p) 8) = gather 7 2 p"
    using two_chunks [of 0 p] by (simp add: ExtractAndMergeTwoChunks_def ahead_def del: gather.simps)
  show ?thesis
    unfolding VarintParse_arm_def Let_def first_bytes m using one two slow by (auto simp del: gather.simps)
qed

theorem VarintParse_arm_read:
  "VarintParse_arm VarintParseSlowArm64 p = varint_read 10 p"
  "VarintParse_arm VarintParseSlowArm32 p = map_option (\<lambda>(n, v). (n, ucast v)) (varint_read 10 p)"
proof -
  have "map_option (\<lambda>(n, v). (n, ucast v)) r = r" for r :: "(nat \<times> 64 word) option" by (cases r) auto
  then show "VarintParse_arm VarintParseSlowArm64 p = varint_read 10 p"
    using VarintParse_arm_fast [of p VarintParseSlowArm64] VarintParseSlowArm64_read [of p] by simp
  show "VarintParse_arm VarintParseSlowArm32 p = map_option (\<lambda>(n, v). (n, ucast v)) (varint_read 10 p)"
    by (rule VarintParse_arm_fast) (rule VarintParseSlowArm32_read)
qed

subsection \<open>The short cuts before the calls into the library\<close>

text \<open>
  \<open>ReadTag\<close>, \<open>ReadSize\<close> and the portable \<open>VarintParse\<close> read one or two bytes and leave longer
  varints to routines of the compiled library, which are arguments here: they get the pointer
  and what has been read so far.
\<close>

definition ReadTag :: "(memory \<Rightarrow> 32 word \<Rightarrow> (nat \<times> 32 word) option) \<Rightarrow> memory \<Rightarrow> (nat \<times> 32 word) option" where
  "ReadTag ReadTagFallback p =
     (let res = ucast (p 0) in
      if res < 128 then Some (1, res)
      else let second = ucast (p 1);
               res = res + push_bit 7 (second - 1)
           in if second < 128 then Some (2, res) else ReadTagFallback p res)"

definition ReadSize :: "(memory \<Rightarrow> 32 word \<Rightarrow> (nat \<times> 32 word) option) \<Rightarrow> memory \<Rightarrow> (nat \<times> 32 word) option" where
  "ReadSize ReadSizeFallback p =
     (let res = ucast (p 0) in if res < 128 then Some (1, res) else ReadSizeFallback p res)"

definition VarintParse :: "(memory \<Rightarrow> 32 word \<Rightarrow> (nat \<times> 'w::len word) option) \<Rightarrow> memory \<Rightarrow> (nat \<times> 'w word) option" where
  "VarintParse VarintParseSlow p =
     (let res = ucast (p 0) in if res AND 0x80 = 0 then Some (1, ucast res) else VarintParseSlow p res)"

text \<open>What the two bytes and the library's part together must give.\<close>

definition read_tag :: "memory \<Rightarrow> (nat \<times> 32 word) option" where
  "read_tag p = map_option (\<lambda>(n, v). (n, ucast v)) (varint_read 5 p)"

definition read_size :: "memory \<Rightarrow> (nat \<times> 32 word) option" where
  "read_size p =
     (case varint_read 5 p of
        None \<Rightarrow> None | Some (n, v) \<Rightarrow> if unat v \<le> max_size then Some (n, ucast v) else None)"

definition read_narrow :: "memory \<Rightarrow> (nat \<times> 32 word) option" where
  "read_narrow p = map_option (\<lambda>(n, v). (n, ucast v)) (varint_read 10 p)"

lemma byte_32: "ucast (b :: 8 word) < (128 :: 32 word) \<longleftrightarrow> unat b < 128" "ucast b AND (0x80 :: 32 word) = 0 \<longleftrightarrow> \<not> bit b 7"
proof -
  have "unat (ucast b :: 32 word) = unat b"
    using unat_byte [of b] by (simp add: unsigned_ucast_eq take_bit_nat_eq_self)
  then show "ucast b < (128 :: 32 word) \<longleftrightarrow> unat b < 128" by (simp add: word_less_nat_alt)
  show "ucast b AND (0x80 :: 32 word) = 0 \<longleftrightarrow> \<not> bit b 7"
    using and_exp_eq_0_iff_not_bit [of "ucast b :: 32 word" 7] by (simp add: bit_unsigned_iff)
qed

lemma one_byte:
  assumes "\<not> continues p 0" "0 < m"
  shows "varint_read m p = Some (1, ucast (p 0))"
  using varint_read_at [of 0 p m] assms tag_bits_end [OF assms(1)] by (simp add: tag_bits_def)

lemma narrow_byte: "ucast (ucast (b :: 8 word) :: 64 word) = (ucast b :: 'w::len word)"
  by (rule bit_word_eqI) (auto simp: bit_unsigned_iff dest: bit_byte)

lemma two_byte_tag:
  assumes "continues p 0"
  shows "ucast (p 0) + push_bit 7 (ucast (p 1) - 1) = (of_nat (two_bytes p) :: 32 word)"
    "\<not> continues p 1 \<Longrightarrow> read_tag p = Some (2, of_nat (two_bytes p))"
proof -
  obtain a where a: "unat (p 0) = 128 + a" using assms le_Suc_ex unfolding continues_le by blast
  have u: "ucast (p k) = (of_nat (unat (p k)) :: 32 word)" for k by simp
  show "ucast (p 0) + push_bit 7 (ucast (p 1) - 1) = (of_nat (two_bytes p) :: 32 word)"
    unfolding u push_bit_eq_mult using assms by (simp add: two_bytes_def a algebra_simps)
  assume n: "\<not> continues p 1"
  have "of_nat (two_bytes p) = gather 7 2 p"
    using gather_two_bytes [of 0 p] assms n by (simp add: ahead_def numeral_2_eq_2 [symmetric] del: gather.simps(2))
  then have "ucast (gather 7 2 p) = (of_nat (two_bytes p) :: 32 word)"
    using two_bytes_less [of p] by (simp add: word_unat_eq_iff unsigned_of_nat unsigned_ucast_eq flip: \<open>of_nat (two_bytes p) = gather 7 2 p\<close>)
  moreover have "varint_read 5 p = Some (2, gather 7 2 p)"
    using varint_read_at [of 1 p 5] assms n by (simp add: numeral_2_eq_2 [symmetric] del: gather.simps)
  ultimately show "read_tag p = Some (2, of_nat (two_bytes p))" by (simp add: read_tag_def)
qed

locale varint_library =
  fixes ReadTagFallback ReadSizeFallback VarintParseSlow32 :: "memory \<Rightarrow> 32 word \<Rightarrow> (nat \<times> 32 word) option"
    and VarintParseSlow64 :: "memory \<Rightarrow> 32 word \<Rightarrow> (nat \<times> 64 word) option"
  assumes tag_rest: "continues p 0 \<Longrightarrow> continues p 1 \<Longrightarrow> ReadTagFallback p (of_nat (two_bytes p)) = read_tag p"
    and size_rest: "continues p 0 \<Longrightarrow> ReadSizeFallback p (ucast (p 0)) = read_size p"
    and slow32: "continues p 0 \<Longrightarrow> VarintParseSlow32 p (ucast (p 0)) = read_narrow p"
    and slow64: "continues p 0 \<Longrightarrow> VarintParseSlow64 p (ucast (p 0)) = varint_read 10 p"
begin

lemma ReadTag_read: "ReadTag ReadTagFallback p = read_tag p"
proof -
  have "\<not> continues p 0 \<Longrightarrow> read_tag p = Some (1, ucast (p 0))"
    using one_byte [of p 5] by (simp add: read_tag_def narrow_byte)
  then show ?thesis
    unfolding ReadTag_def Let_def byte_32
    using two_byte_tag [of p] tag_rest [of p]
    by (cases "continues p 0"; cases "continues p 1") (simp_all add: continues_le not_le [symmetric])
qed

lemma ReadSize_read: "ReadSize ReadSizeFallback p = read_size p"
proof (cases "continues p 0")
  case True
  then show ?thesis using size_rest [OF True] by (simp add: ReadSize_def Let_def byte_32 continues_le)
next
  case False
  then have "unat (p 0) < 128" by (simp add: continues_le)
  then have "unat (ucast (p 0) :: 64 word) \<le> max_size"
    by (simp add: unsigned_ucast_eq take_bit_nat_eq_self max_size_def)
  then show ?thesis
    using False one_byte [OF False, of 5] \<open>unat (p 0) < 128\<close>
    by (simp add: ReadSize_def read_size_def Let_def byte_32 narrow_byte)
qed

lemma VarintParse_read:
  "VarintParse VarintParseSlow64 p = varint_read 10 p" "VarintParse VarintParseSlow32 p = read_narrow p"
proof -
  have n: "\<not> continues p 0 \<Longrightarrow> varint_read 10 p = Some (1, ucast (p 0))" using one_byte by simp
  then have "\<not> continues p 0 \<Longrightarrow> read_narrow p = Some (1, ucast (p 0))" by (simp add: read_narrow_def narrow_byte)
  moreover have w: "ucast (ucast b :: 32 word) = (ucast b :: 'w::len word)" for b :: "8 word"
    by (rule bit_word_eqI) (auto simp: bit_unsigned_iff dest: bit_byte)
  ultimately show "VarintParse VarintParseSlow64 p = varint_read 10 p" "VarintParse VarintParseSlow32 p = read_narrow p"
    unfolding VarintParse_def Let_def byte_32 continues_def [of p 0, simplified, symmetric] w
    using n slow32 [of p] slow64 [of p] by simp_all
qed

end

text \<open>The inline routines can stand for the library's.\<close>

definition inline_size :: "memory \<Rightarrow> 32 word \<Rightarrow> (nat \<times> 32 word) option" where
  "inline_size p first =
     (case ReadTagInlined p of
        None \<Rightarrow> None | Some _ \<Rightarrow>
          (case ParseBigVarint p of None \<Rightarrow> None | Some (n, v) \<Rightarrow> if unat v \<le> max_size then Some (n, ucast v) else None))"

lemma varint_read_more: "varint_read m p = Some r \<Longrightarrow> m \<le> m' \<Longrightarrow> varint_read m' p = Some r"
proof -
  assume r: "varint_read m p = Some r" and m: "m \<le> m'"
  then obtain n where n: "varint_length m p = Some n" "r = (n, gather 7 n p)" by (auto simp: varint_read_def)
  note d = varint_length_SomeD [OF n(1)]
  have "varint_length m' p = Some n" by (rule varint_lengthI) (use d m in auto)
  then show "varint_read m' p = Some r" using n(2) by (simp add: varint_read_def)
qed

interpretation inlined: varint_library "\<lambda>p _. ReadTagInlined p" inline_size
    "\<lambda>p _. VarintParse_arm VarintParseSlowArm32 p" "\<lambda>p _. ParseBigVarint p"
proof unfold_locales
  fix p :: memory
  show "inline_size p (ucast (p 0)) = read_size p"
    using varint_read_more [of 5 p _ 10]
    by (cases "varint_read 5 p")
      (auto simp: inline_size_def read_size_def ReadTagInlined_read ParseBigVarint_read split: option.splits)
qed (simp_all add: ReadTagInlined_read ParseBigVarint_read VarintParse_arm_read read_tag_def read_narrow_def)

end
