(* ===== verification/VarintShuffle.thy ===== *)
theory VarintShuffle
  imports VarintParse
begin

text \<open>
  \<open>varint_shuffle.h\<close>: parsing a varint with sign extension. Every byte, extended with its
  continuation bit above and with ones below, is anded into the result; the sign of a partial
  result says whether the varint goes on. Partial results are 64-bit words, tested by their sign;
  the result is the number of bytes, \<open>None\<close> for the null pointer, and \<open>res1\<close>.
\<close>

definition VarintShlByte :: "nat \<Rightarrow> 8 word \<Rightarrow> 64 word \<Rightarrow> 64 word" where
  "VarintShlByte n byte ones = push_bit (n * 7) (scast byte) OR drop_bit (64 - n * 7) ones"

definition VarintShlAnd :: "nat \<Rightarrow> 8 word \<Rightarrow> 64 word \<Rightarrow> 64 word \<Rightarrow> bool \<times> 64 word" where
  "VarintShlAnd n byte ones res = (let res = res AND VarintShlByte n byte ones in (sint res \<ge> 0, res))"

definition VarintShl :: "nat \<Rightarrow> 8 word \<Rightarrow> 64 word \<Rightarrow> bool \<times> 64 word" where
  "VarintShl n byte ones = (let res = VarintShlByte n byte ones in (sint res \<ge> 0, res))"

text \<open>The labels, with the number of bytes read so far.\<close>

definition done1 :: "nat \<Rightarrow> 64 word \<Rightarrow> 64 word \<Rightarrow> nat option \<times> 64 word" where
  "done1 p res1 res2 = (Some p, res1 AND res2)"

definition done2 :: "nat \<Rightarrow> 64 word \<Rightarrow> 64 word \<Rightarrow> 64 word \<Rightarrow> nat option \<times> 64 word" where
  "done2 p res1 res2 res3 = done1 p res1 (res2 AND res3)"

text \<open>The tenth byte, and the bytes of an overlong 32-bit varint before it.\<close>

definition last_of_ten :: "bool \<Rightarrow> memory \<Rightarrow> 64 word \<Rightarrow> 64 word \<Rightarrow> 64 word \<Rightarrow> nat option \<times> 64 word" where
  "last_of_ten is64 p res1 res2 res3 =
     (if p 9 = 1 then done2 10 res1 res2 res3
      else if p 9 AND 0x80 \<noteq> 0 then (None, res1)
      else if is64 \<and> p 9 AND 1 = 0 then done2 10 res1 res2 (res3 XOR push_bit (64 - 1) 1)
      else done2 10 res1 res2 res3)"

fun overlong :: "nat \<Rightarrow> nat list \<Rightarrow> memory \<Rightarrow> 64 word \<Rightarrow> 64 word \<Rightarrow> 64 word \<Rightarrow> nat option \<times> 64 word" where
  "overlong limit [] p res1 res2 res3 = last_of_ten False p res1 res2 res3"
| "overlong limit (k # ks) p res1 res2 res3 =
     (if p k AND 0x80 = 0 then done2 (k + 1) res1 res2 res3
      else if limit \<le> k + 1 then done2 (k + 1) res1 res2 res3
      else overlong limit ks p res1 res2 res3)"

definition ShiftMixParseVarint :: "bool \<Rightarrow> nat \<Rightarrow> memory \<Rightarrow> nat option \<times> 64 word" where
  "ShiftMixParseVarint is64 limit p =
     (let res1 = scast (p 0) in
      if sint res1 \<ge> 0 then (Some 1, res1) else if limit \<le> 1 then (Some 1, res1)
      else case VarintShl 1 (p 1) res1 of (d, res2) \<Rightarrow>
      if d then done1 2 res1 res2 else if limit \<le> 2 then done1 2 res1 res2
      else case VarintShl 2 (p 2) res1 of (d, res3) \<Rightarrow>
      if d then done2 3 res1 res2 res3 else if limit \<le> 3 then done2 3 res1 res2 res3
      else case VarintShlAnd 3 (p 3) res1 res2 of (d, res2) \<Rightarrow>
      if d then done2 4 res1 res2 res3 else if limit \<le> 4 then done2 4 res1 res2 res3
      else case VarintShlAnd 4 (p 4) res1 res3 of (d, res3) \<Rightarrow>
      if d then done2 5 res1 res2 res3 else if limit \<le> 5 then done2 5 res1 res2 res3
      else if \<not> is64 then overlong limit [5, 6, 7, 8] p res1 res2 res3
      else case VarintShlAnd 5 (p 5) res1 res2 of (d, res2) \<Rightarrow>
      if d then done2 6 res1 res2 res3 else if limit \<le> 6 then done2 6 res1 res2 res3
      else case VarintShlAnd 6 (p 6) res1 res3 of (d, res3) \<Rightarrow>
      if d then done2 7 res1 res2 res3 else if limit \<le> 7 then done2 7 res1 res2 res3
      else case VarintShlAnd 7 (p 7) res1 res2 of (d, res2) \<Rightarrow>
      if d then done2 8 res1 res2 res3 else if limit \<le> 8 then done2 8 res1 res2 res3
      else case VarintShlAnd 8 (p 8) res1 res3 of (d, res3) \<Rightarrow>
      if d then done2 9 res1 res2 res3 else if limit \<le> 9 then done2 9 res1 res2 res3
      else last_of_ten True p res1 res2 res3)"

subsection \<open>What the bytes contribute\<close>

lemma nonneg: "sint (w :: 64 word) \<ge> 0 \<longleftrightarrow> \<not> bit w 63"
  using signed_take_bit_nonnegative_iff [of 63 "uint w"] by (simp add: sint_uint bit_uint_iff)

lemma bit_scast_byte: "bit (scast (b :: 8 word) :: 64 word) j \<longleftrightarrow> j < 64 \<and> (if j < 7 then bit b j else bit b 7)"
proof (cases "j < 7")
  case False
  then have "min j 7 = 7" by simp
  then show ?thesis using False by (auto simp: bit_simps)
qed (auto simp: bit_simps min_def)

definition chunk :: "memory \<Rightarrow> nat \<Rightarrow> 64 word" where
  "chunk p k = (if k = 0 then scast (p 0) else VarintShlByte k (p k) (scast (p 0)))"

lemma bit_chunk:
  assumes "continues p 0" "k \<le> 8" "j < 64"
  shows "bit (chunk p k) j \<longleftrightarrow> (if j < 7 * k then True else if j - 7 * k < 7 then bit (p k) (j - 7 * k) else continues p k)"
proof (cases "k = 0")
  case True
  then show ?thesis using assms by (simp add: chunk_def bit_scast_byte continues_def)
next
  case False
  have low: "bit (drop_bit (64 - k * 7) (scast (p 0) :: 64 word)) j \<longleftrightarrow> j < 7 * k"
    using assms by (auto simp: bit_drop_bit_eq bit_scast_byte continues_def)
  have "bit (push_bit (k * 7) (scast (p k) :: 64 word)) j \<longleftrightarrow>
      7 * k \<le> j \<and> (if j - 7 * k < 7 then bit (p k) (j - 7 * k) else continues p k)"
    using assms(3) by (auto simp: bit_push_bit_iff bit_scast_byte continues_def mult.commute)
  then show ?thesis unfolding chunk_def VarintShlByte_def using False low by (auto simp: bit_or_iff)
qed

lemma chunk_sign: "continues p 0 \<Longrightarrow> k \<le> 8 \<Longrightarrow> bit (chunk p k) 63 \<longleftrightarrow> continues p k"
proof -
  assume c: "continues p 0" "k \<le> 8"
  then have "\<not> 63 < 7 * k" "\<not> 63 - 7 * k < 7" by linarith+
  then show ?thesis using bit_chunk [of p k 63] c by simp
qed

text \<open>The first \<open>m + 1\<close> bytes together.\<close>

primrec mixed :: "memory \<Rightarrow> nat \<Rightarrow> 64 word" where
  "mixed p 0 = chunk p 0"
| "mixed p (Suc m) = mixed p m AND chunk p (Suc m)"

lemma bit_mixed:
  assumes "m \<le> 8" "j < 64" "\<forall>i < m. continues p i" "continues p 0"
  shows "bit (mixed p m) j \<longleftrightarrow> (if j < 7 * (m + 1) then bit (p (j div 7)) (j mod 7) else continues p m)"
  using assms(1,3)
proof (induction m)
  case 0
  then show ?case using bit_chunk [OF assms(4) _ assms(2), of 0] by simp
next
  case (Suc m)
  have IH: "bit (mixed p m) j \<longleftrightarrow> (if j < 7 * (m + 1) then bit (p (j div 7)) (j mod 7) else True)"
    using Suc by simp
  have "7 * (m + 1) \<le> j \<Longrightarrow> j - 7 * (m + 1) < 7 \<Longrightarrow> j div 7 = Suc m \<and> j mod 7 = j - 7 * (m + 1)"
    using place [of 7 "Suc m" j] by simp
  then show ?case
    using IH bit_chunk [OF assms(4) Suc.prems(1) assms(2)] by (auto simp: bit_and_iff)
qed

lemma mixed_end:
  assumes "m \<le> 8" "\<forall>i < m. continues p i" "\<not> continues p m" "0 < m"
  shows "mixed p m = gather 7 (m + 1) p"
proof (rule bit_word_eqI)
  fix j assume "j < LENGTH(64)"
  moreover have "continues p 0" using assms(2,4) by simp
  ultimately show "bit (mixed p m) j = bit (gather 7 (m + 1) p) j"
    using bit_mixed [OF assms(1) _ assms(2)] assms(3) by (simp add: bit_gather del: gather.simps)
qed

lemma mixed_sign: "m \<le> 8 \<Longrightarrow> \<forall>i \<le> m. continues p i \<Longrightarrow> bit (mixed p m) 63"
  using bit_mixed [of m 63 p] by (cases "63 < 7 * (m + 1)") auto

lemma mixed_narrow:
  assumes "4 \<le> m" "m \<le> 9" "\<forall>i < m. continues p i"
  shows "(ucast (mixed p 4) :: 32 word) = ucast (gather 7 (m + 1) p)"
proof (rule bit_word_eqI)
  fix j assume "j < LENGTH(32)"
  then show "bit (ucast (mixed p 4) :: 32 word) j = bit (ucast (gather 7 (m + 1) p) :: 32 word) j"
    using bit_mixed [of 4 j p] assms by (simp add: bit_unsigned_iff bit_gather del: gather.simps)
qed

subsection \<open>The parse\<close>

lemma mixed_unfold:
  "mixed p 1 = chunk p 0 AND chunk p 1" "mixed p 2 = mixed p 1 AND chunk p 2" "mixed p 3 = mixed p 2 AND chunk p 3"
  "mixed p 4 = mixed p 3 AND chunk p 4" "mixed p 5 = mixed p 4 AND chunk p 5" "mixed p 6 = mixed p 5 AND chunk p 6"
  "mixed p 7 = mixed p 6 AND chunk p 7" "mixed p 8 = mixed p 7 AND chunk p 8"
  by (simp_all add: eval_nat_numeral)

lemma shuffle_steps:
  assumes "continues p 0"
  shows "ShiftMixParseVarint is64 limit p =
    (if limit \<le> 1 then (Some 1, chunk p 0)
     else if \<not> continues p 1 \<or> limit \<le> 2 then (Some 2, mixed p 1)
     else if \<not> continues p 2 \<or> limit \<le> 3 then (Some 3, mixed p 2)
     else if \<not> continues p 3 \<or> limit \<le> 4 then (Some 4, mixed p 3)
     else if \<not> continues p 4 \<or> limit \<le> 5 then (Some 5, mixed p 4)
     else if \<not> is64 then overlong limit [5, 6, 7, 8] p (chunk p 0) (chunk p 1 AND chunk p 3) (chunk p 2 AND chunk p 4)
     else if \<not> continues p 5 \<or> limit \<le> 6 then (Some 6, mixed p 5)
     else if \<not> continues p 6 \<or> limit \<le> 7 then (Some 7, mixed p 6)
     else if \<not> continues p 7 \<or> limit \<le> 8 then (Some 8, mixed p 7)
     else if \<not> continues p 8 \<or> limit \<le> 9 then (Some 9, mixed p 8)
     else last_of_ten True p (chunk p 0) (((chunk p 1 AND chunk p 3) AND chunk p 5) AND chunk p 7)
       (((chunk p 2 AND chunk p 4) AND chunk p 6) AND chunk p 8))"
proof -
  have z: "scast (p 0) = chunk p 0" by (simp add: chunk_def)
  have v: "0 < k \<Longrightarrow> VarintShlByte k (p k) (chunk p 0) = chunk p k" for k by (simp add: chunk_def)
  have vs: "VarintShlByte 1 (p 1) (chunk p 0) = chunk p 1" "VarintShlByte 2 (p 2) (chunk p 0) = chunk p 2"
    "VarintShlByte 3 (p 3) (chunk p 0) = chunk p 3" "VarintShlByte 4 (p 4) (chunk p 0) = chunk p 4"
    "VarintShlByte 5 (p 5) (chunk p 0) = chunk p 5" "VarintShlByte 6 (p 6) (chunk p 0) = chunk p 6"
    "VarintShlByte 7 (p 7) (chunk p 0) = chunk p 7" "VarintShlByte 8 (p 8) (chunk p 0) = chunk p 8"
    by (rule v; simp)+
  have "sint (chunk p k) \<ge> 0 \<longleftrightarrow> \<not> continues p k" if "k \<le> 8" for k
    using chunk_sign [OF assms that] by (simp add: nonneg)
  then have sign: "sint (chunk p 0) \<ge> 0 \<longleftrightarrow> False" "sint (chunk p 1) \<ge> 0 \<longleftrightarrow> \<not> continues p 1"
    "sint (chunk p 2) \<ge> 0 \<longleftrightarrow> \<not> continues p 2" "sint (chunk p 3) \<ge> 0 \<longleftrightarrow> \<not> continues p 3"
    "sint (chunk p 4) \<ge> 0 \<longleftrightarrow> \<not> continues p 4" "sint (chunk p 5) \<ge> 0 \<longleftrightarrow> \<not> continues p 5"
    "sint (chunk p 6) \<ge> 0 \<longleftrightarrow> \<not> continues p 6" "sint (chunk p 7) \<ge> 0 \<longleftrightarrow> \<not> continues p 7"
    "sint (chunk p 8) \<ge> 0 \<longleftrightarrow> \<not> continues p 8"
    using assms by simp_all
  have both: "sint (a AND b :: 64 word) \<ge> 0 \<longleftrightarrow> sint a \<ge> 0 \<or> sint b \<ge> 0" for a b
    by (simp add: nonneg bit_and_iff)
  have merge: "(if d then X else if l then X else R) = (if d \<or> l then X else R)" for d l and X R :: "nat option \<times> 64 word"
    by simp
  show ?thesis
    unfolding ShiftMixParseVarint_def z VarintShl_def VarintShlAnd_def done1_def done2_def Let_def prod.case vs both sign merge
      mixed_unfold
    by (simp only: if_False and.assoc and.commute and.left_commute mixed.simps(1)) (intro if_cong refl; blast)
qed

text \<open>The tenth byte.\<close>

lemma last_of_ten_64:
  assumes "\<forall>i < 9. continues p i"
  shows "last_of_ten True p (chunk p 0) (((chunk p 1 AND chunk p 3) AND chunk p 5) AND chunk p 7)
       (((chunk p 2 AND chunk p 4) AND chunk p 6) AND chunk p 8) =
     (if continues p 9 then (None, scast (p 0)) else (Some 10, gather 7 10 p))"
proof -
  let ?odd = "((chunk p 1 AND chunk p 3) AND chunk p 5) AND chunk p 7"
  let ?even = "((chunk p 2 AND chunk p 4) AND chunk p 6) AND chunk p 8"
  have c0: "continues p 0" using assms by simp
  have all: "chunk p 0 AND (?odd AND ?even) = mixed p 8"
    unfolding mixed_unfold by (simp only: and.assoc and.commute and.left_commute mixed.simps(1))
  have bits: "bit (chunk p 0 AND (?odd AND ?even)) j \<longleftrightarrow> (if j < 63 then bit (p (j div 7)) (j mod 7) else True)" if "j < 64" for j
    unfolding all using bit_mixed [of 8 j p] that assms by (simp add: less_Suc_eq_le)
  have ten: "bit (gather 7 10 p) j \<longleftrightarrow> (if j < 63 then bit (p (j div 7)) (j mod 7) else bit (p 9) 0)" if "j < 64" for j
  proof (cases "j = 63")
    case True
    then show ?thesis by (simp add: bit_gather del: gather.simps)
  next
    case False
    then have "j < 63" using that by simp
    then show ?thesis by (simp add: bit_gather del: gather.simps)
  qed
  have high: "p 9 AND 0x80 \<noteq> 0 \<longleftrightarrow> continues p 9" "p 9 AND 1 = 0 \<longleftrightarrow> \<not> bit (p 9) 0"
    using and_exp_eq_0_iff_not_bit [of "p 9" 7] and_exp_eq_0_iff_not_bit [of "p 9" 0] by (simp_all add: continues_def)
  have one: "p 9 = 1 \<Longrightarrow> \<not> continues p 9 \<and> bit (p 9) 0" by (simp add: continues_def)
  have flip: "bit (chunk p 0 AND (?odd AND (?even XOR push_bit 63 1))) j \<longleftrightarrow> bit (chunk p 0 AND (?odd AND ?even)) j \<and> j \<noteq> 63"
    if "j < 64" for j
  proof -
    have t: "bit (push_bit 63 (1 :: 64 word)) j \<longleftrightarrow> j = 63" using that unfolding bit_push_bit_iff bit_1_iff by auto
    have "bit (chunk p 8) 63" "bit (chunk p 6) 63" "bit (chunk p 4) 63" "bit (chunk p 2) 63"
      using chunk_sign [OF c0] assms by simp_all
    then show ?thesis unfolding bit_and_iff bit_xor_iff t by auto
  qed
  have n: "n < LENGTH(64) \<Longrightarrow> n < 64" for n by simp
  have set: "chunk p 0 AND (?odd AND ?even) = gather 7 10 p" if "bit (p 9) 0"
    by (rule bit_word_eqI) (use that in \<open>simp only: bits [OF n] ten [OF n] cong: if_cong\<close>)
  have clear: "chunk p 0 AND (?odd AND (?even XOR push_bit 63 1)) = gather 7 10 p" if "\<not> bit (p 9) 0"
    by (rule bit_word_eqI) (use that in \<open>simp only: flip [OF n] bits [OF n] ten [OF n], auto\<close>)
  have z: "scast (p 0) = chunk p 0" by (simp add: chunk_def)
  show ?thesis
    unfolding last_of_ten_def done2_def done1_def z high using one set clear by (simp split del: if_split) auto
qed

lemma overlong_steps:
  "overlong limit [5, 6, 7, 8] p res1 res2 res3 =
    (if \<not> continues p 5 \<or> limit \<le> 6 then done2 6 res1 res2 res3
     else if \<not> continues p 6 \<or> limit \<le> 7 then done2 7 res1 res2 res3
     else if \<not> continues p 7 \<or> limit \<le> 8 then done2 8 res1 res2 res3
     else if \<not> continues p 8 \<or> limit \<le> 9 then done2 9 res1 res2 res3
     else if continues p 9 then (None, res1) else done2 10 res1 res2 res3)"
proof -
  have h: "p k AND 0x80 = 0 \<longleftrightarrow> \<not> continues p k" for k
    using and_exp_eq_0_iff_not_bit [of "p k" 7] by (simp add: continues_def)
  have one: "p 9 = 1 \<Longrightarrow> \<not> continues p 9" by (simp add: continues_def)
  show ?thesis using one by (simp add: last_of_ten_def h)
qed

lemma narrow_all:
  assumes "continues p 0"
  shows "done2 k (chunk p 0) (chunk p 1 AND chunk p 3) (chunk p 2 AND chunk p 4) = (Some k, mixed p 4)"
  unfolding done2_def done1_def mixed_unfold by (simp only: and.assoc and.commute and.left_commute mixed.simps(1))

text \<open>The first of ten bytes without the continuation bit, if there is one.\<close>

lemma ten_bytes:
  obtains (stops) m where "m < 10" "\<not> continues p m" "\<forall>i < m. continues p i" "varint_read 10 p = Some (m + 1, gather 7 (m + 1) p)"
  | (endless) "\<forall>i < 10. continues p i" "varint_read 10 p = None"
proof (cases "varint_length 10 p")
  case None
  then show ?thesis using endless by (simp add: varint_length_None varint_read_def)
next
  case (Some n)
  note d = varint_length_SomeD [OF Some]
  then have "n - 1 < 10" "n - 1 + 1 = n" by auto
  then show ?thesis using stops [of "n - 1"] d(3,4) Some by (simp add: varint_read_def del: gather.simps)
qed

lemma small_cases: "m < 10 \<Longrightarrow> m = 0 \<or> m = 1 \<or> m = 2 \<or> m = 3 \<or> m = 4 \<or> m = 5 \<or> m = 6 \<or> m = 7 \<or> m = 8 \<or> m = 9" for m :: nat
  by presburger

lemma ShiftMix_first:
  assumes "\<not> continues p 0"
  shows "ShiftMixParseVarint is64 limit p = (Some 1, gather 7 1 p)"
proof -
  have "(scast (p 0) :: 64 word) = gather 7 1 p"
    using assms by (intro bit_word_eqI) (auto simp: bit_scast_byte bit_gather continues_def simp del: gather.simps)
  moreover have "sint (scast (p 0) :: 64 word) \<ge> 0"
    using assms by (simp add: nonneg bit_scast_byte continues_def)
  ultimately show ?thesis by (simp add: ShiftMixParseVarint_def Let_def)
qed

lemma ShiftMix_wide:
  "ShiftMixParseVarint True 10 p =
     (case varint_read 10 p of None \<Rightarrow> (None, scast (p 0)) | Some (n, v) \<Rightarrow> (Some n, v))"
proof (cases "continues p 0")
  case False
  then show ?thesis using one_byte [of p 10] ShiftMix_first [OF False] varint_read_at [of 0 p 10] by simp
next
  case True
  show ?thesis
  proof (cases rule: ten_bytes [of p])
    case endless
    then show ?thesis using shuffle_steps [OF True, of True 10] last_of_ten_64 [of p] by simp
  next
    case (stops m)
    have "0 < m" using stops(2) True by (cases m) auto
    then have e: "m \<le> 8 \<Longrightarrow> mixed p m = gather 7 (m + 1) p" using mixed_end stops(2,3) by simp
    show ?thesis
      using small_cases [OF stops(1)] \<open>0 < m\<close> stops(2-4) e last_of_ten_64 [of p] shuffle_steps [OF True, of True 10]
      by (elim disjE) (simp_all del: gather.simps mixed.simps)
  qed
qed

lemma ShiftMix_narrow:
  "map_prod id ucast (ShiftMixParseVarint False 10 p) =
     (case varint_read 10 p of None \<Rightarrow> (None, ucast (scast (p 0) :: 64 word)) | Some (n, v) \<Rightarrow> (Some n, ucast v :: 32 word))"
proof (cases "continues p 0")
  case False
  then show ?thesis using one_byte [of p 10] ShiftMix_first [OF False] varint_read_at [of 0 p 10] by simp
next
  case True
  note steps = shuffle_steps [OF True, of False 10] overlong_steps [of 10 p] narrow_all [OF True]
  show ?thesis
  proof (cases rule: ten_bytes [of p])
    case endless
    then show ?thesis using steps by (simp add: chunk_def del: overlong.simps)
  next
    case (stops m)
    have "0 < m" using stops(2) True by (cases m) auto
    then have e: "m \<le> 8 \<Longrightarrow> mixed p m = gather 7 (m + 1) p" using mixed_end stops(2,3) by simp
    have n: "4 \<le> m \<Longrightarrow> (ucast (mixed p 4) :: 32 word) = ucast (gather 7 (m + 1) p)"
      using mixed_narrow stops(1,3) by simp
    show ?thesis
      using small_cases [OF stops(1)] \<open>0 < m\<close> stops(2-4) e n steps
      by (elim disjE) (simp_all del: gather.simps mixed.simps overlong.simps)
  qed
qed

text \<open>With a limit below ten the result is the varint, if it is short enough, or the limit and a negative
  number; the assumption handed to the compiler (\<open>res1 < 0\<close>) is true.\<close>

lemma ShiftMix_limit:
  assumes "0 < limit" "limit < 10" "\<forall>i < limit. continues p i"
  shows "fst (ShiftMixParseVarint is64 limit p) = Some limit \<and> \<not> sint (snd (ShiftMixParseVarint is64 limit p)) \<ge> 0"
proof -
  have c0: "continues p 0" using assms(1,3) by simp
  have neg: "\<not> sint (mixed p m) \<ge> 0" if "m < limit" "m \<le> 8" for m
    using mixed_sign [OF that(2)] that(1) assms(3) by (simp add: nonneg)
  note steps = shuffle_steps [OF c0, of is64 limit] overlong_steps [of limit p] narrow_all [OF c0]
  show ?thesis
    using small_cases [OF assms(2)] assms(1,3) neg [of 0] neg [of 1] neg [of 2] neg [of 3] neg [of 4] neg [of 5] neg [of 6]
      neg [of 7] neg [of 8] steps
    by (elim disjE) (simp_all del: mixed.simps(2) overlong.simps)
qed

end
