(* ===== verification/PointerField.thy ===== *)
theory PointerField
  imports RepeatedField "HOL-Library.Monad_Syntax"
begin

text \<open>
  \<open>RepeatedPtrFieldBase\<close> of \<open>repeated_ptr_field.h\<close> with its pointers: the elements are objects of
  their own, a field of one element keeps the pointer in place of the array, removed elements
  stay allocated behind the ones in use. Objects live in an explicit store. A read through a
  null, dangling or uninitialised pointer, and a call that violates an \<open>ABSL_DCHECK\<close>, is \<open>None\<close>.
  The routines that are compiled into the library (\<open>InternalExtend\<close>, \<open>CloseGap\<close>) are parameters.
\<close>

subsection \<open>Objects\<close>

type_synonym ptr = nat
type_synonym arena = "nat option"

text \<open>Every address from \<open>hp_next\<close> on is free. An object has a value and the arena that owns it.\<close>

record 'm heap =
  hp_next :: ptr
  hp_obj :: "ptr \<Rightarrow> ('m \<times> arena) option"

definition new_object :: "arena \<Rightarrow> 'm \<Rightarrow> 'm heap \<Rightarrow> ptr \<times> 'm heap" where
  "new_object a m h = (hp_next h, h\<lparr>hp_next := hp_next h + 1, hp_obj := (hp_obj h)(hp_next h \<mapsto> (m, a))\<rparr>)"

definition wf_heap :: "'m heap \<Rightarrow> bool" where
  "wf_heap h \<longleftrightarrow> (\<forall>p. hp_obj h p \<noteq> None \<longrightarrow> p < hp_next h)"

text \<open>
  \<open>GenericTypeHandler\<close>: what is done with elements, given the operations of their class. \<open>cls_view\<close> is what
  can be seen of a message: the generated \<open>Clear\<close> leaves the cached size as it was.
\<close>

record 'm message_class =
  cls_view :: "'m \<Rightarrow> 'm"
  cls_default :: 'm
  cls_Clear :: "'m \<Rightarrow> 'm"
  cls_MergeFrom :: "'m \<Rightarrow> 'm \<Rightarrow> 'm"

definition handler_GetArena :: "ptr \<Rightarrow> 'm heap \<Rightarrow> arena option" where
  "handler_GetArena value h = map_option snd (hp_obj h value)"

definition handler_New :: "'m message_class \<Rightarrow> arena \<Rightarrow> 'm heap \<Rightarrow> ptr \<times> 'm heap" where
  "handler_New C a h = new_object a (cls_default C) h"

definition handler_NewFromPrototype :: "'m message_class \<Rightarrow> ptr \<Rightarrow> arena \<Rightarrow> 'm heap \<Rightarrow> ptr \<times> 'm heap" where
  "handler_NewFromPrototype C prototype a h = handler_New C a h"

definition handler_Delete :: "ptr \<Rightarrow> arena \<Rightarrow> 'm heap \<Rightarrow> 'm heap option" where
  "handler_Delete value a h =
     (if a \<noteq> None then Some h
      else if hp_obj h value = None then None
      else Some (h\<lparr>hp_obj := (hp_obj h)(value := None)\<rparr>))"

definition handler_Clear :: "'m message_class \<Rightarrow> ptr \<Rightarrow> 'm heap \<Rightarrow> 'm heap option" where
  "handler_Clear C value h =
     (case hp_obj h value of
        None \<Rightarrow> None
      | Some (m, a) \<Rightarrow> Some (h\<lparr>hp_obj := (hp_obj h)(value \<mapsto> (cls_Clear C m, a))\<rparr>))"

definition handler_Merge :: "'m message_class \<Rightarrow> ptr \<Rightarrow> ptr \<Rightarrow> 'm heap \<Rightarrow> 'm heap option" where
  "handler_Merge C from to h =
     (case (hp_obj h from, hp_obj h to) of
        (Some (m, _), Some (n, a)) \<Rightarrow> Some (h\<lparr>hp_obj := (hp_obj h)(to \<mapsto> (cls_MergeFrom C n m, a))\<rparr>)
      | _ \<Rightarrow> None)"

subsection \<open>The field\<close>

text \<open>
  \<open>tagged_rep_or_elem_\<close> is null or a pointer to an element, or a tagged pointer to a \<open>Rep\<close>, whose
  array has a slot for each of the capacity; slots that were never written are \<open>None\<close>.
\<close>

record Rep =
  rep_allocated_size :: nat
  rep_elements :: "ptr option list"

datatype tagged = Elem "ptr option" | Tagged Rep

record RepeatedPtrFieldBase =
  tagged_rep_or_elem :: tagged
  current_size :: nat
  capacity_proxy :: nat
  arena :: arena

definition kSSOCapacity :: nat where
  "kSSOCapacity = 1"

definition new_field :: "arena \<Rightarrow> RepeatedPtrFieldBase" where
  "new_field a = \<lparr>tagged_rep_or_elem = Elem None, current_size = 0, capacity_proxy = 0, arena = a\<rparr>"

definition using_sso :: "RepeatedPtrFieldBase \<Rightarrow> bool" where
  "using_sso f = (case tagged_rep_or_elem f of Elem _ \<Rightarrow> True | Tagged _ \<Rightarrow> False)"

definition Capacity :: "RepeatedPtrFieldBase \<Rightarrow> nat" where
  "Capacity f = capacity_proxy f + kSSOCapacity"

definition allocated_size :: "RepeatedPtrFieldBase \<Rightarrow> nat" where
  "allocated_size f =
     (case tagged_rep_or_elem f of Elem p \<Rightarrow> (if p \<noteq> None then 1 else 0) | Tagged r \<Rightarrow> rep_allocated_size r)"

definition elements :: "RepeatedPtrFieldBase \<Rightarrow> ptr option list" where
  "elements f = (case tagged_rep_or_elem f of Elem p \<Rightarrow> [p] | Tagged r \<Rightarrow> rep_elements r)"

definition element_at :: "nat \<Rightarrow> RepeatedPtrFieldBase \<Rightarrow> ptr option" where
  "element_at i f = (if i < length (elements f) then elements f ! i else None)"

definition set_element :: "nat \<Rightarrow> ptr option \<Rightarrow> RepeatedPtrFieldBase \<Rightarrow> RepeatedPtrFieldBase" where
  "set_element i p f =
     (case tagged_rep_or_elem f of
        Elem _ \<Rightarrow> f\<lparr>tagged_rep_or_elem := Elem p\<rparr>
      | Tagged r \<Rightarrow> f\<lparr>tagged_rep_or_elem := Tagged (r\<lparr>rep_elements := (rep_elements r)[i := p]\<rparr>)\<rparr>)"

definition set_allocated :: "nat \<Rightarrow> RepeatedPtrFieldBase \<Rightarrow> RepeatedPtrFieldBase" where
  "set_allocated n f =
     (case tagged_rep_or_elem f of
        Elem _ \<Rightarrow> f
      | Tagged r \<Rightarrow> f\<lparr>tagged_rep_or_elem := Tagged (r\<lparr>rep_allocated_size := n\<rparr>)\<rparr>)"

definition ExchangeCurrentSize :: "nat \<Rightarrow> RepeatedPtrFieldBase \<Rightarrow> nat \<times> RepeatedPtrFieldBase" where
  "ExchangeCurrentSize n f = (current_size f, f\<lparr>current_size := n\<rparr>)"

definition SizeAtCapacity :: "RepeatedPtrFieldBase \<Rightarrow> bool" where
  "SizeAtCapacity f \<longleftrightarrow> current_size f \<ge> Capacity f"

definition AllocatedSizeAtCapacity :: "RepeatedPtrFieldBase \<Rightarrow> bool" where
  "AllocatedSizeAtCapacity f \<longleftrightarrow>
     (case tagged_rep_or_elem f of Elem p \<Rightarrow> p \<noteq> None | Tagged r \<Rightarrow> rep_allocated_size r \<ge> Capacity f)"

definition NeedsDestroy :: "RepeatedPtrFieldBase \<Rightarrow> bool" where
  "NeedsDestroy f \<longleftrightarrow> tagged_rep_or_elem f \<noteq> Elem None"

definition ClearedCount :: "RepeatedPtrFieldBase \<Rightarrow> nat" where
  "ClearedCount f = allocated_size f - current_size f"

definition PrepareForParse :: "RepeatedPtrFieldBase \<Rightarrow> bool" where
  "PrepareForParse f \<longleftrightarrow> allocated_size f = current_size f"

subsection \<open>Operations\<close>

definition check :: "bool \<Rightarrow> unit option" where
  "check b = (if b then Some () else None)"

definition field_Get :: "nat \<Rightarrow> RepeatedPtrFieldBase \<Rightarrow> 'm heap \<Rightarrow> 'm option" where
  "field_Get index f h =
     do { check (index < current_size f); p \<leftarrow> element_at index f; v \<leftarrow> hp_obj h p; Some (fst v) }"

definition field_Mutable :: "nat \<Rightarrow> RepeatedPtrFieldBase \<Rightarrow> ptr option" where
  "field_Mutable index f = do { check (index < current_size f); element_at index f }"

text \<open>\<open>AddInternal\<close>: the pointer to the new element. \<open>InternalExtend\<close> returns a pointer to the slot
  behind the last element, which is the slot at the current size.\<close>

definition AddInternal ::
  "(nat \<Rightarrow> RepeatedPtrFieldBase \<Rightarrow> RepeatedPtrFieldBase) \<Rightarrow> 'm message_class \<Rightarrow>
     RepeatedPtrFieldBase \<Rightarrow> 'm heap \<Rightarrow> (ptr \<times> RepeatedPtrFieldBase \<times> 'm heap) option" where
  "AddInternal InternalExtend C f h =
     (case tagged_rep_or_elem f of
        Elem None \<Rightarrow>
          let (_, f) = ExchangeCurrentSize 1 f; (p, h) = handler_New C (arena f) h
          in Some (p, f\<lparr>tagged_rep_or_elem := Elem (Some p)\<rparr>, h)
      | Elem (Some e) \<Rightarrow>
          if current_size f = 0 then let (_, f) = ExchangeCurrentSize 1 f in Some (e, f, h)
          else let f = InternalExtend 1 f; (p, h) = handler_New C (arena f) h;
                   f = set_allocated 2 (set_element (current_size f) (Some p) f);
                   (_, f) = ExchangeCurrentSize 2 f
               in Some (p, f, h)
      | Tagged _ \<Rightarrow>
          if \<not> SizeAtCapacity f \<and> current_size f \<noteq> allocated_size f
          then let (i, f) = ExchangeCurrentSize (current_size f + 1) f in do { p \<leftarrow> element_at i f; Some (p, f, h) }
          else let f = (if SizeAtCapacity f then InternalExtend 1 f else f);
                   f = set_allocated (allocated_size f + 1) f;
                   (i, f) = ExchangeCurrentSize (current_size f + 1) f;
                   (p, h) = handler_New C (arena f) h
               in Some (p, set_element i (Some p) f, h))"

definition AddFromCleared :: "RepeatedPtrFieldBase \<Rightarrow> ptr option \<times> RepeatedPtrFieldBase" where
  "AddFromCleared f =
     (if current_size f < allocated_size f
      then let (i, f) = ExchangeCurrentSize (current_size f + 1) f in (element_at i f, f)
      else (None, f))"

definition field_RemoveLast ::
  "'m message_class \<Rightarrow> RepeatedPtrFieldBase \<Rightarrow> 'm heap \<Rightarrow> (RepeatedPtrFieldBase \<times> 'm heap) option" where
  "field_RemoveLast C f h =
     do { check (current_size f > 0);
          let (_, f) = ExchangeCurrentSize (current_size f - 1) f;
          p \<leftarrow> element_at (current_size f) f;
          h \<leftarrow> handler_Clear C p h;
          Some (f, h) }"

text \<open>The loop over the elements in use; \<open>Clear\<close> does nothing to an empty field.\<close>

fun clear_each :: "'m message_class \<Rightarrow> ptr option list \<Rightarrow> 'm heap \<Rightarrow> 'm heap option" where
  "clear_each C [] h = Some h"
| "clear_each C (e # es) h = do { p \<leftarrow> e; h \<leftarrow> handler_Clear C p h; clear_each C es h }"

definition ClearNonEmpty ::
  "'m message_class \<Rightarrow> RepeatedPtrFieldBase \<Rightarrow> 'm heap \<Rightarrow> (RepeatedPtrFieldBase \<times> 'm heap) option" where
  "ClearNonEmpty C f h =
     do { h \<leftarrow> clear_each C (take (current_size f) (elements f)) h; Some (snd (ExchangeCurrentSize 0 f), h) }"

definition field_Clear ::
  "'m message_class \<Rightarrow> RepeatedPtrFieldBase \<Rightarrow> 'm heap \<Rightarrow> (RepeatedPtrFieldBase \<times> 'm heap) option" where
  "field_Clear C f h = (if current_size f > 0 then ClearNonEmpty C f h else Some (f, h))"

definition field_SwapElements :: "nat \<Rightarrow> nat \<Rightarrow> RepeatedPtrFieldBase \<Rightarrow> RepeatedPtrFieldBase option" where
  "field_SwapElements index1 index2 f =
     do { check (index1 < length (elements f) \<and> index2 < length (elements f));
          Some (set_element index2 (elements f ! index1) (set_element index1 (elements f ! index2) f)) }"

definition UnsafeArenaAddAllocated ::
  "(nat \<Rightarrow> RepeatedPtrFieldBase \<Rightarrow> RepeatedPtrFieldBase) \<Rightarrow> ptr \<Rightarrow>
     RepeatedPtrFieldBase \<Rightarrow> 'm heap \<Rightarrow> (RepeatedPtrFieldBase \<times> 'm heap) option" where
  "UnsafeArenaAddAllocated InternalExtend value f h =
     do { (f, h) \<leftarrow>
            (if SizeAtCapacity f then let f = InternalExtend 1 f in Some (set_allocated (allocated_size f + 1) f, h)
             else if AllocatedSizeAtCapacity f
             then do { p \<leftarrow> element_at (current_size f) f; h \<leftarrow> handler_Delete p (arena f) h; Some (f, h) }
             else if current_size f < allocated_size f
             then let f = set_element (allocated_size f) (element_at (current_size f) f) f
                  in Some (set_allocated (allocated_size f + 1) f, h)
             else Some (if \<not> using_sso f then set_allocated (allocated_size f + 1) f else f, h));
          let (i, f) = ExchangeCurrentSize (current_size f + 1) f;
          Some (set_element i (Some value) f, h) }"

definition AddAllocatedSlowWithCopy ::
  "(nat \<Rightarrow> RepeatedPtrFieldBase \<Rightarrow> RepeatedPtrFieldBase) \<Rightarrow> 'm message_class \<Rightarrow> ptr \<Rightarrow> arena \<Rightarrow> arena \<Rightarrow>
     RepeatedPtrFieldBase \<Rightarrow> 'm heap \<Rightarrow> (RepeatedPtrFieldBase \<times> 'm heap) option" where
  "AddAllocatedSlowWithCopy InternalExtend C value value_arena my_arena f h =
     do { (value, h) \<leftarrow>
            (if my_arena \<noteq> None \<and> value_arena = None
             then do { v \<leftarrow> hp_obj h value; Some (value, h\<lparr>hp_obj := (hp_obj h)(value \<mapsto> (fst v, my_arena))\<rparr>) }
             else if my_arena \<noteq> value_arena
             then let (p, h) = handler_NewFromPrototype C value my_arena h
                  in do { h \<leftarrow> handler_Merge C value p h; Some (p, h) }
             else Some (value, h));
          UnsafeArenaAddAllocated InternalExtend value f h }"

definition AddAllocated ::
  "(nat \<Rightarrow> RepeatedPtrFieldBase \<Rightarrow> RepeatedPtrFieldBase) \<Rightarrow> 'm message_class \<Rightarrow> ptr \<Rightarrow>
     RepeatedPtrFieldBase \<Rightarrow> 'm heap \<Rightarrow> (RepeatedPtrFieldBase \<times> 'm heap) option" where
  "AddAllocated InternalExtend C value f h =
     do { element_arena \<leftarrow> handler_GetArena value h;
          if arena f \<noteq> element_arena \<or> AllocatedSizeAtCapacity f
          then AddAllocatedSlowWithCopy InternalExtend C value element_arena (arena f) f h
          else
            let f = (if current_size f < allocated_size f
                     then set_element (allocated_size f) (element_at (current_size f) f) f else f);
                (i, f) = ExchangeCurrentSize (current_size f + 1) f;
                f = set_element i (Some value) f
            in Some (if \<not> using_sso f then set_allocated (allocated_size f + 1) f else f, h) }"

definition AddAllocatedForParse ::
  "(nat \<Rightarrow> RepeatedPtrFieldBase \<Rightarrow> RepeatedPtrFieldBase) \<Rightarrow> ptr \<Rightarrow> RepeatedPtrFieldBase \<Rightarrow> RepeatedPtrFieldBase option" where
  "AddAllocatedForParse InternalExtend value f =
     do { check (PrepareForParse f);
          let f =
            (if SizeAtCapacity f
             then let f = InternalExtend 1 f;
                      f = set_element (current_size f) (Some value) f
                  in set_allocated (allocated_size f + 1) f
             else if using_sso f then f\<lparr>tagged_rep_or_elem := Elem (Some value)\<rparr>
             else let f = set_element (current_size f) (Some value) f in set_allocated (allocated_size f + 1) f);
          Some (snd (ExchangeCurrentSize (current_size f + 1) f)) }"

definition UnsafeArenaReleaseLast :: "RepeatedPtrFieldBase \<Rightarrow> (ptr \<times> RepeatedPtrFieldBase) option" where
  "UnsafeArenaReleaseLast f =
     do { check (current_size f > 0);
          let (_, f) = ExchangeCurrentSize (current_size f - 1) f;
          p \<leftarrow> element_at (current_size f) f;
          if using_sso f then Some (p, f\<lparr>tagged_rep_or_elem := Elem None\<rparr>)
          else let f = set_allocated (allocated_size f - 1) f
               in Some (p, if current_size f < allocated_size f
                           then set_element (current_size f) (element_at (allocated_size f) f) f else f) }"

text \<open>\<open>copy\<close> makes the copy on the heap; \<open>DebugHardenForceCopyInRelease\<close> is constantly false.\<close>

definition field_copy :: "'m message_class \<Rightarrow> ptr \<Rightarrow> 'm heap \<Rightarrow> (ptr \<times> 'm heap) option" where
  "field_copy C value h =
     (let (p, h) = handler_NewFromPrototype C value None h in do { h \<leftarrow> handler_Merge C value p h; Some (p, h) })"

definition ReleaseLast ::
  "'m message_class \<Rightarrow> RepeatedPtrFieldBase \<Rightarrow> 'm heap \<Rightarrow> (ptr \<times> RepeatedPtrFieldBase \<times> 'm heap) option" where
  "ReleaseLast C f h =
     do { (p, f) \<leftarrow> UnsafeArenaReleaseLast f;
          if arena f = None then Some (p, f, h)
          else do { (q, h) \<leftarrow> field_copy C p h; Some (q, f, h) } }"

text \<open>Deleting a range of elements, and the destructor.\<close>

fun delete_each :: "ptr option list \<Rightarrow> arena \<Rightarrow> 'm heap \<Rightarrow> 'm heap option" where
  "delete_each [] a h = Some h"
| "delete_each (e # es) a h = do { p \<leftarrow> e; h \<leftarrow> handler_Delete p a h; delete_each es a h }"

definition UnsafeArenaExtractSubrange ::
  "(nat \<Rightarrow> nat \<Rightarrow> RepeatedPtrFieldBase \<Rightarrow> RepeatedPtrFieldBase) \<Rightarrow> nat \<Rightarrow> nat \<Rightarrow>
     RepeatedPtrFieldBase \<Rightarrow> (ptr option list \<times> RepeatedPtrFieldBase) option" where
  "UnsafeArenaExtractSubrange CloseGap start num f =
     do { check (start + num \<le> current_size f);
          Some (take num (drop start (elements f)), if num > 0 then CloseGap start num f else f) }"

definition DeleteSubrange ::
  "(nat \<Rightarrow> nat \<Rightarrow> RepeatedPtrFieldBase \<Rightarrow> RepeatedPtrFieldBase) \<Rightarrow> nat \<Rightarrow> nat \<Rightarrow>
     RepeatedPtrFieldBase \<Rightarrow> 'm heap \<Rightarrow> (RepeatedPtrFieldBase \<times> 'm heap) option" where
  "DeleteSubrange CloseGap start num f h =
     do { check (start + num \<le> current_size f);
          h \<leftarrow> delete_each (take num (drop start (elements f))) (arena f) h;
          (_, f) \<leftarrow> UnsafeArenaExtractSubrange CloseGap start num f;
          Some (f, h) }"

text \<open>Iterators are indices; \<open>erase\<close> returns the index of what follows.\<close>

definition erase ::
  "(nat \<Rightarrow> nat \<Rightarrow> RepeatedPtrFieldBase \<Rightarrow> RepeatedPtrFieldBase) \<Rightarrow> nat \<Rightarrow> nat \<Rightarrow>
     RepeatedPtrFieldBase \<Rightarrow> 'm heap \<Rightarrow> (nat \<times> RepeatedPtrFieldBase \<times> 'm heap) option" where
  "erase CloseGap first stop f h =
     do { (f, h) \<leftarrow> DeleteSubrange CloseGap first (stop - first) f h; Some (first, f, h) }"

fun copy_each :: "'m message_class \<Rightarrow> ptr option list \<Rightarrow> 'm heap \<Rightarrow> (ptr option list \<times> 'm heap) option" where
  "copy_each C [] h = Some ([], h)"
| "copy_each C (e # es) h =
     do { p \<leftarrow> e; (q, h) \<leftarrow> field_copy C p h; (qs, h) \<leftarrow> copy_each C es h; Some (Some q # qs, h) }"

definition ExtractSubrange ::
  "(nat \<Rightarrow> nat \<Rightarrow> RepeatedPtrFieldBase \<Rightarrow> RepeatedPtrFieldBase) \<Rightarrow> 'm message_class \<Rightarrow> nat \<Rightarrow> nat \<Rightarrow>
     RepeatedPtrFieldBase \<Rightarrow> 'm heap \<Rightarrow> (ptr option list \<times> RepeatedPtrFieldBase \<times> 'm heap) option" where
  "ExtractSubrange CloseGap C start num f h =
     do { check (start + num \<le> current_size f);
          if num = 0 then Some ([], f, h)
          else do { let extracted = take num (drop start (elements f));
                    (es, h) \<leftarrow> (if arena f \<noteq> None then copy_each C extracted h else Some (extracted, h));
                    Some (es, CloseGap start num f, h) } }"

definition Destroy :: "RepeatedPtrFieldBase \<Rightarrow> 'm heap \<Rightarrow> 'm heap option" where
  "Destroy f h =
     do { check (NeedsDestroy f);
          if arena f \<noteq> None then Some h else delete_each (take (allocated_size f) (elements f)) None h }"

definition InternalSwap :: "RepeatedPtrFieldBase \<Rightarrow> RepeatedPtrFieldBase \<Rightarrow> RepeatedPtrFieldBase \<times> RepeatedPtrFieldBase" where
  "InternalSwap this rhs = (rhs\<lparr>arena := arena this\<rparr>, this\<lparr>arena := arena rhs\<rparr>)"

subsection \<open>Layout\<close>

text \<open>The allocated elements of a field are the pointers \<open>ps\<close>; the elements in use come first.\<close>

definition lay :: "RepeatedPtrFieldBase \<Rightarrow> ptr list \<Rightarrow> bool" where
  "lay f ps \<longleftrightarrow> allocated_size f = length ps \<and> current_size f \<le> length ps \<and> length ps \<le> Capacity f \<and>
     length (elements f) = Capacity f \<and> take (length ps) (elements f) = map Some ps"

lemma layD:
  assumes "lay f ps"
  shows "allocated_size f = length ps" "current_size f \<le> length ps" "length ps \<le> Capacity f"
    "length (elements f) = Capacity f" "take (length ps) (elements f) = map Some ps"
  using assms by (simp_all add: lay_def)

lemma lay_take: "lay f ps \<Longrightarrow> n \<le> length ps \<Longrightarrow> take n (elements f) = map Some (take n ps)"
  by (metis layD(5) min.absorb1 take_map take_take)

lemma lay_at: "lay f ps \<Longrightarrow> i < length ps \<Longrightarrow> element_at i f = Some (ps ! i)"
proof -
  assume l: "lay f ps" and i: "i < length ps"
  then have "elements f ! i = map Some ps ! i" by (metis layD(5) nth_take)
  then show ?thesis using i layD(3,4) [OF l] by (simp add: element_at_def)
qed

lemma lay_Elem [simp]:
  "tagged_rep_or_elem f = Elem p \<Longrightarrow>
     lay f ps \<longleftrightarrow> capacity_proxy f = 0 \<and> ps = (case p of None \<Rightarrow> [] | Some x \<Rightarrow> [x]) \<and> current_size f \<le> length ps"
  by (auto simp: lay_def allocated_size_def elements_def Capacity_def kSSOCapacity_def split: option.splits)

lemma size_simps [simp]:
  "using_sso (f\<lparr>current_size := n\<rparr>) = using_sso f" "Capacity (f\<lparr>current_size := n\<rparr>) = Capacity f"
  "allocated_size (f\<lparr>current_size := n\<rparr>) = allocated_size f" "elements (f\<lparr>current_size := n\<rparr>) = elements f"
  "element_at i (f\<lparr>current_size := n\<rparr>) = element_at i f"
  by (simp_all add: using_sso_def Capacity_def allocated_size_def elements_def element_at_def)

lemma lay_resize: "lay f ps \<Longrightarrow> n \<le> length ps \<Longrightarrow> lay (f\<lparr>current_size := n\<rparr>) ps"
  by (simp add: lay_def)

lemma tagged_simps:
  assumes "tagged_rep_or_elem f = Tagged r"
  shows "\<not> using_sso f" "allocated_size f = rep_allocated_size r" "elements f = rep_elements r"
    "set_element i p f = f\<lparr>tagged_rep_or_elem := Tagged (r\<lparr>rep_elements := (rep_elements r)[i := p]\<rparr>)\<rparr>"
    "set_allocated n f = f\<lparr>tagged_rep_or_elem := Tagged (r\<lparr>rep_allocated_size := n\<rparr>)\<rparr>"
  by (simp_all add: assms using_sso_def allocated_size_def elements_def set_element_def set_allocated_def)

lemma not_sso: "\<not> using_sso f \<longleftrightarrow> (\<exists>r. tagged_rep_or_elem f = Tagged r)"
  by (cases "tagged_rep_or_elem f") (auto simp: using_sso_def)

text \<open>Outside the small representation the slots and the count change independently.\<close>

lemma set_simps [simp]:
  "current_size (set_element i p f) = current_size f" "arena (set_element i p f) = arena f"
  "Capacity (set_element i p f) = Capacity f" "using_sso (set_element i p f) = using_sso f"
  "current_size (set_allocated n f) = current_size f" "arena (set_allocated n f) = arena f"
  "Capacity (set_allocated n f) = Capacity f" "using_sso (set_allocated n f) = using_sso f"
  "elements (set_allocated n f) = elements f" "element_at i (set_allocated n f) = element_at i f"
  "\<not> using_sso f \<Longrightarrow> allocated_size (set_element i p f) = allocated_size f"
  "\<not> using_sso f \<Longrightarrow> elements (set_element i p f) = (elements f)[i := p]"
  "\<not> using_sso f \<Longrightarrow> allocated_size (set_allocated n f) = n"
  "set_element i p (f\<lparr>current_size := k\<rparr>) = (set_element i p f)\<lparr>current_size := k\<rparr>"
  "set_allocated n (f\<lparr>current_size := k\<rparr>) = (set_allocated n f)\<lparr>current_size := k\<rparr>"
  by (auto simp: set_element_def set_allocated_def Capacity_def using_sso_def allocated_size_def elements_def element_at_def
      split: tagged.splits)

lemma take_Suc_update: "n < length xs \<Longrightarrow> take (Suc n) (xs[n := x]) = take n xs @ [x]"
  by (simp add: take_Suc_conv_app_nth)

text \<open>Writing a pointer over an allocated element, or behind the last.\<close>

lemma lay_overwrite:
  assumes "lay f ps" "i < length ps" "\<not> using_sso f"
  shows "lay (set_element i (Some p) f) (ps[i := p])"
  using assms layD [OF assms(1)] by (simp add: lay_def take_update_swap map_update)

lemma lay_append:
  assumes "lay f ps" "length ps < Capacity f" "\<not> using_sso f"
  shows "lay (set_allocated (Suc (length ps)) (set_element (length ps) (Some p) f)) (ps @ [p])"
  using assms layD [OF assms(1)] by (simp add: lay_def take_Suc_update)

subsection \<open>The list a field stands for\<close>

text \<open>
  The objects of \<open>ps\<close> are pairwise different, all on the arena of the field, and hold \<open>xs\<close> followed by
  cleared elements.
\<close>

definition cls_blank :: "'m message_class \<Rightarrow> 'm" where
  "cls_blank C = cls_view C (cls_default C)"

definition see :: "'m message_class \<Rightarrow> 'm heap \<Rightarrow> ptr \<Rightarrow> ('m \<times> arena) option" where
  "see C h p = map_option (\<lambda>(m, a). (cls_view C m, a)) (hp_obj h p)"

lemma see_simps [simp]:
  "see C (h\<lparr>hp_obj := (hp_obj h)(p \<mapsto> (m, a))\<rparr>) q = (if q = p then Some (cls_view C m, a) else see C h q)"
  "see C (h\<lparr>hp_obj := (hp_obj h)(p := None)\<rparr>) q = (if q = p then None else see C h q)"
  by (simp_all add: see_def)

lemma see_at: "hp_obj h p = Some (m, a) \<Longrightarrow> see C h p = Some (cls_view C m, a)"
  by (simp add: see_def)

lemma see_same: "hp_obj h' p = hp_obj h p \<Longrightarrow> see C h' p = see C h p"
  by (simp add: see_def)

lemma see_object: "see C h p = Some (v, a) \<Longrightarrow> \<exists>m. hp_obj h p = Some (m, a) \<and> cls_view C m = v"
  by (auto simp: see_def)

definition owns :: "'m message_class \<Rightarrow> RepeatedPtrFieldBase \<Rightarrow> 'm heap \<Rightarrow> ptr list \<Rightarrow> 'm list \<Rightarrow> bool" where
  "owns C f h ps xs \<longleftrightarrow> lay f ps \<and> distinct ps \<and> wf_heap h \<and> length xs = current_size f \<and>
     map (see C h) ps = map (\<lambda>x. Some (x, arena f)) (xs @ replicate (length ps - length xs) (cls_blank C))"

definition represents :: "'m message_class \<Rightarrow> RepeatedPtrFieldBase \<Rightarrow> 'm heap \<Rightarrow> 'm list \<Rightarrow> bool" where
  "represents C f h xs \<longleftrightarrow> (\<exists>ps. owns C f h ps xs)"

lemma ownsD:
  assumes "owns C f h ps xs"
  shows "lay f ps" "distinct ps" "wf_heap h" "length xs = current_size f" "length xs \<le> length ps"
    "map (see C h) ps = map (\<lambda>x. Some (x, arena f)) (xs @ replicate (length ps - length xs) (cls_blank C))"
  using assms layD(2) [of f ps] by (auto simp: owns_def)

lemma owns_nth:
  assumes "owns C f h ps xs" "i < length ps"
  shows "see C h (ps ! i) = Some (if i < length xs then xs ! i else cls_blank C, arena f)"
proof -
  have "map (see C h) ps ! i = map (\<lambda>x. Some (x, arena f)) (xs @ replicate (length ps - length xs) (cls_blank C)) ! i"
    by (simp only: ownsD(6) [OF assms(1)])
  then show ?thesis using assms(2) ownsD(5) [OF assms(1)] by (simp add: nth_append)
qed

lemma ownsI:
  assumes "lay f ps" "distinct ps" "wf_heap h" "length xs = current_size f"
    and "\<And>i. i < length ps \<Longrightarrow> see C h (ps ! i) = Some (if i < length xs then xs ! i else cls_blank C, arena f)"
  shows "owns C f h ps xs"
  unfolding owns_def using assms layD(2) [OF assms(1)]
  by (auto intro!: nth_equalityI simp: nth_append)

lemma owns_allocated: "owns C f h ps xs \<Longrightarrow> p \<in> set ps \<Longrightarrow> \<exists>m. hp_obj h p = Some (m, arena f)"
  using owns_nth see_object by (fastforce simp: in_set_conv_nth)

lemma owns_fresh: "owns C f h ps xs \<Longrightarrow> hp_next h \<notin> set ps"
  using owns_allocated ownsD(3) unfolding wf_heap_def by fastforce

lemma new_object_simps:
  assumes "new_object a m h = (p, h')" "wf_heap h"
  shows "p = hp_next h" "wf_heap h'" "hp_obj h' = (hp_obj h)(p \<mapsto> (m, a))" "hp_obj h p = None"
proof -
  show p: "p = hp_next h" "wf_heap h'" "hp_obj h' = (hp_obj h)(p \<mapsto> (m, a))"
    using assms by (auto simp: new_object_def wf_heap_def less_Suc_eq)
  show "hp_obj h p = None" using assms(2) unfolding p(1) wf_heap_def by blast
qed

text \<open>Appending one object to a field without cleared elements, and taking a cleared element into use.\<close>

lemma owns_append:
  assumes "owns C f h ps xs" "current_size f = length ps" "v \<notin> set ps" "see C h' v = Some (m, arena f)" "wf_heap h'"
    "\<forall>q \<in> set ps. hp_obj h' q = hp_obj h q"
    "lay f' (ps @ [v])" "current_size f' = Suc (current_size f)" "arena f' = arena f"
  shows "owns C f' h' (ps @ [v]) (xs @ [m])"
proof (rule ownsI)
  note d = ownsD [OF assms(1)]
  show "lay f' (ps @ [v])" "wf_heap h'" by fact+
  show "distinct (ps @ [v])" using d(2) assms(3) by simp
  show "length (xs @ [m]) = current_size f'" using d(4) assms(8) by simp
  fix i assume "i < length (ps @ [v])"
  then show "see C h' ((ps @ [v]) ! i) = Some (if i < length (xs @ [m]) then (xs @ [m]) ! i else cls_blank C, arena f')"
    using owns_nth [OF assms(1), of i] d(4) assms(2,4,9) see_same [of h' "ps ! i" h C] assms(6)
    by (cases "i < length ps") (auto simp: nth_append)
qed

lemma owns_reuse:
  assumes "owns C f h ps xs" "current_size f < length ps"
  shows "owns C (f\<lparr>current_size := Suc (current_size f)\<rparr>) h ps (xs @ [cls_blank C])"
proof (rule ownsI)
  note d = ownsD [OF assms(1)]
  show "lay (f\<lparr>current_size := Suc (current_size f)\<rparr>) ps" using lay_resize [OF d(1)] assms(2) by simp
  show "distinct ps" "wf_heap h" using d by simp_all
  show "length (xs @ [cls_blank C]) = current_size (f\<lparr>current_size := Suc (current_size f)\<rparr>)" using d(4) by simp
  fix i assume "i < length ps"
  then show "see C h (ps ! i) = Some (if i < length (xs @ [cls_blank C]) then (xs @ [cls_blank C]) ! i else cls_blank C,
      arena (f\<lparr>current_size := Suc (current_size f)\<rparr>))"
    using owns_nth [OF assms(1), of i] by (auto simp: nth_append less_Suc_eq)
qed

lemma owns_new_field: "wf_heap h \<Longrightarrow> owns C (new_field a) h [] []"
  by (rule ownsI) (simp_all add: new_field_def)

subsection \<open>The library's part\<close>

text \<open>
  \<open>InternalExtend\<close> makes room for more pointers and keeps those that are there; \<open>CloseGap\<close> removes a range
  of pointers.
\<close>

locale field_library =
  fixes InternalExtend :: "nat \<Rightarrow> RepeatedPtrFieldBase \<Rightarrow> RepeatedPtrFieldBase"
    and CloseGap :: "nat \<Rightarrow> nat \<Rightarrow> RepeatedPtrFieldBase \<Rightarrow> RepeatedPtrFieldBase"
  assumes extended: "lay f ps \<Longrightarrow> 0 < n \<Longrightarrow>
      lay (InternalExtend n f) ps \<and> current_size (InternalExtend n f) = current_size f \<and>
      arena (InternalExtend n f) = arena f \<and> \<not> using_sso (InternalExtend n f) \<and>
      Capacity f + n \<le> Capacity (InternalExtend n f)"
    and closed: "lay f ps \<Longrightarrow> 0 < num \<Longrightarrow> start + num \<le> current_size f \<Longrightarrow>
      lay (CloseGap start num f) (take start ps @ drop (start + num) ps) \<and>
      current_size (CloseGap start num f) = current_size f - num \<and> arena (CloseGap start num f) = arena f"

text \<open>At least doubling, as it is documented, and moving what is behind the gap.\<close>

definition grow_twice :: "nat \<Rightarrow> RepeatedPtrFieldBase \<Rightarrow> RepeatedPtrFieldBase" where
  "grow_twice n f =
     (let c = max (2 * Capacity f) (Capacity f + n)
      in f\<lparr>tagged_rep_or_elem := Tagged \<lparr>rep_allocated_size = allocated_size f,
             rep_elements = elements f @ replicate (c - Capacity f) None\<rparr>, capacity_proxy := c - kSSOCapacity\<rparr>)"

definition move_down :: "nat \<Rightarrow> nat \<Rightarrow> RepeatedPtrFieldBase \<Rightarrow> RepeatedPtrFieldBase" where
  "move_down start num f =
     (case tagged_rep_or_elem f of
        Elem _ \<Rightarrow> f\<lparr>tagged_rep_or_elem := Elem None, current_size := current_size f - num\<rparr>
      | Tagged r \<Rightarrow>
          f\<lparr>tagged_rep_or_elem := Tagged \<lparr>rep_allocated_size = rep_allocated_size r - num,
              rep_elements = take start (rep_elements r) @ drop (start + num) (rep_elements r) @ replicate num None\<rparr>,
            current_size := current_size f - num\<rparr>)"

interpretation doubling: field_library grow_twice move_down
proof unfold_locales
  fix f ps and n :: nat
  assume l: "lay f ps" and n: "0 < n"
  show "lay (grow_twice n f) ps \<and> current_size (grow_twice n f) = current_size f \<and> arena (grow_twice n f) = arena f \<and>
      \<not> using_sso (grow_twice n f) \<and> Capacity f + n \<le> Capacity (grow_twice n f)"
    using layD [OF l] n
    by (auto simp: lay_def grow_twice_def Let_def using_sso_def allocated_size_def [of "f\<lparr>tagged_rep_or_elem := _, capacity_proxy := _\<rparr>"]
        elements_def [of "f\<lparr>tagged_rep_or_elem := _, capacity_proxy := _\<rparr>"] Capacity_def kSSOCapacity_def)
next
  fix f ps and num start :: nat
  assume l: "lay f ps" and n: "0 < num" "start + num \<le> current_size f"
  note d = layD [OF l]
  show "lay (move_down start num f) (take start ps @ drop (start + num) ps) \<and>
      current_size (move_down start num f) = current_size f - num \<and> arena (move_down start num f) = arena f"
  proof (cases "tagged_rep_or_elem f")
    case (Elem p)
    then show ?thesis using l n by (auto simp: move_down_def split: option.splits)
  next
    case (Tagged r)
    note t = tagged_simps [OF Tagged]
    have "rep_elements r = map Some ps @ drop (length ps) (rep_elements r)"
      using append_take_drop_id [of "length ps" "rep_elements r"] d(5) unfolding t(3) by simp
    then obtain rest where e: "rep_elements r = map Some ps @ rest" ..
    have c: "length ps + length rest = Capacity f" using d(4) by (simp add: t e)
    have s: "start + num \<le> length ps" "start \<le> length ps" using n(2) d(2) by simp_all
    have m: "take start (rep_elements r) @ drop (start + num) (rep_elements r) @ replicate num None =
        map Some (take start ps @ drop (start + num) ps) @ rest @ replicate num None"
      using s by (simp add: e take_map drop_map)
    have "lay (move_down start num f) (take start ps @ drop (start + num) ps)"
      unfolding lay_def move_down_def Tagged tagged.case m using s n d(1,2,3) c
      by (auto simp: allocated_size_def elements_def Capacity_def Tagged t simp del: map_append)
    then show ?thesis by (simp add: move_down_def Tagged)
  qed
qed

subsection \<open>What the operations do\<close>

lemma field_Get_owns: "owns C f h ps xs \<Longrightarrow> map_option (cls_view C) (field_Get i f h) = (if i < length xs then Some (xs ! i) else None)"
  using ownsD(4,5) [of C f h ps xs] lay_at [of f ps i] owns_nth [of C f h ps xs i] ownsD(1) [of C f h ps xs]
  by (auto simp: field_Get_def check_def see_def)

lemma field_Mutable_owns: "owns C f h ps xs \<Longrightarrow> i < length xs \<Longrightarrow> field_Mutable i f = Some (ps ! i)"
  using ownsD(4,5) [of C f h ps xs] lay_at [of f ps i] ownsD(1) [of C f h ps xs]
  by (auto simp: field_Mutable_def check_def)

text \<open>Writing through the pointer to an element changes that element and no other.\<close>

lemma owns_write:
  assumes "owns C f h ps xs" "i < length xs"
  shows "owns C f (h\<lparr>hp_obj := (hp_obj h)(ps ! i \<mapsto> (m, arena f))\<rparr>) ps (xs[i := cls_view C m])"
proof (rule ownsI)
  note d = ownsD [OF assms(1)]
  show "lay f ps" "distinct ps" "length (xs[i := cls_view C m]) = current_size f" using d by simp_all
  have "ps ! i \<in> set ps" using assms(2) d(5) by simp
  then have "ps ! i < hp_next h" using d(3) owns_allocated [OF assms(1)] unfolding wf_heap_def by blast
  then show "wf_heap (h\<lparr>hp_obj := (hp_obj h)(ps ! i \<mapsto> (m, arena f))\<rparr>)" using d(3) by (simp add: wf_heap_def)
  fix j assume j: "j < length ps"
  have "ps ! j = ps ! i \<longleftrightarrow> j = i" using d(2,5) assms(2) j by (simp add: nth_eq_iff_index_eq)
  then show "see C (h\<lparr>hp_obj := (hp_obj h)(ps ! i \<mapsto> (m, arena f))\<rparr>) (ps ! j) =
      Some (if j < length (xs[i := cls_view C m]) then xs[i := cls_view C m] ! j else cls_blank C, arena f)"
    using owns_nth [OF assms(1) j] assms(2) by (auto simp: nth_list_update)
qed

lemma field_SwapElements_owns:
  assumes "owns C f h ps xs" "i < length xs" "j < length xs"
  shows "\<exists>f'. field_SwapElements i j f = Some f' \<and> owns C f' h (ps[i := ps ! j, j := ps ! i]) (xs[i := xs ! j, j := xs ! i])"
proof (cases "using_sso f")
  case True
  then obtain p where p: "tagged_rep_or_elem f = Elem p" by (cases "tagged_rep_or_elem f") (auto simp: using_sso_def)
  note d = ownsD [OF assms(1)]
  have "length ps \<le> 1" using d(1) p by (auto split: option.splits)
  then have "i = 0" "j = 0" using assms(2,3) d(5) by simp_all
  moreover have "elements f = [p]" "set_element 0 p f = f" using p by (simp_all add: elements_def set_element_def)
  ultimately show ?thesis using assms(1) by (simp add: field_SwapElements_def check_def)
next
  case False
  note d = ownsD [OF assms(1)]
  have ij: "i < length ps" "j < length ps" using assms(2,3) d(5) by simp_all
  have e: "elements f ! i = Some (ps ! i)" "elements f ! j = Some (ps ! j)" "i < length (elements f)" "j < length (elements f)"
    using lay_at [OF d(1) ij(1)] lay_at [OF d(1) ij(2)] ij layD(3,4) [OF d(1)] by (simp_all add: element_at_def)
  let ?f = "set_element j (Some (ps ! i)) (set_element i (Some (ps ! j)) f)"
  have l: "lay ?f (ps[i := ps ! j, j := ps ! i])"
    using lay_overwrite [OF lay_overwrite [OF d(1) ij(1) False], of j] ij False by simp
  have "mset (ps[i := ps ! j, j := ps ! i]) = mset ps" using ij by (simp add: mset_swap)
  then have "distinct (ps[i := ps ! j, j := ps ! i])" using d(2) by (metis mset_eq_imp_distinct_iff)
  then have "owns C ?f h (ps[i := ps ! j, j := ps ! i]) (xs[i := xs ! j, j := xs ! i])"
    using l d(3,4) assms(2,3) ij owns_nth [OF assms(1)]
    by (intro ownsI) (auto simp: nth_list_update)
  then show ?thesis using e by (simp add: field_SwapElements_def check_def)
qed

text \<open>\<open>RemoveLast\<close> and \<open>Clear\<close> keep the objects and clear them.\<close>

lemma field_RemoveLast_owns:
  assumes "owns C f h ps xs" "xs \<noteq> []" and clear: "\<And>m. cls_view C (cls_Clear C m) = cls_blank C"
  shows "\<exists>f' h'. field_RemoveLast C f h = Some (f', h') \<and> owns C f' h' ps (butlast xs) \<and>
    (\<forall>q. q \<notin> set ps \<longrightarrow> hp_obj h' q = hp_obj h q)"
proof -
  note d = ownsD [OF assms(1)]
  let ?i = "length xs - 1"
  have "0 < length xs" using assms(2) by simp
  then have i: "?i < length xs" "?i < length ps" using d(5) by linarith+
  obtain m where m: "hp_obj h (ps ! ?i) = Some (m, arena f)" using see_object [OF owns_nth [OF assms(1) i(2)]] by blast
  let ?h = "h\<lparr>hp_obj := (hp_obj h)(ps ! ?i \<mapsto> (cls_Clear C m, arena f))\<rparr>"
  have w: "owns C f ?h ps (xs[?i := cls_blank C])" using owns_write [OF assms(1) i(1), of "cls_Clear C m"] clear by simp
  let ?f = "f\<lparr>current_size := ?i\<rparr>"
  have "field_RemoveLast C f h = Some (?f, ?h)"
    using d(4) i lay_at [OF d(1) i(2)] m assms(2)
    by (simp add: field_RemoveLast_def ExchangeCurrentSize_def check_def handler_Clear_def)
  moreover have "owns C ?f ?h ps (butlast xs)"
  proof (rule ownsI)
    show "lay ?f ps" using lay_resize [OF d(1)] i(2) by simp
    show "distinct ps" "wf_heap ?h" using ownsD [OF w] by simp_all
    show "length (butlast xs) = current_size ?f" by simp
    fix j assume "j < length ps"
    then show "see C ?h (ps ! j) = Some (if j < length (butlast xs) then butlast xs ! j else cls_blank C, arena ?f)"
      using owns_nth [OF w, of j] i by (auto simp: nth_butlast nth_list_update)
  qed
  moreover have "\<forall>q. q \<notin> set ps \<longrightarrow> hp_obj ?h q = hp_obj h q" using i(2) by auto
  ultimately show ?thesis by blast
qed

lemma clear_each_objects:
  assumes "\<forall>p \<in> set ps. hp_obj h p \<noteq> None" "distinct ps"
  shows "clear_each C (map Some ps) h =
    Some (h\<lparr>hp_obj := \<lambda>q. if q \<in> set ps then map_option (\<lambda>(m, a). (cls_Clear C m, a)) (hp_obj h q) else hp_obj h q\<rparr>)"
  using assms
proof (induction ps arbitrary: h)
  case (Cons p ps)
  then obtain m a where m: "hp_obj h p = Some (m, a)" by auto
  let ?h = "h\<lparr>hp_obj := (hp_obj h)(p \<mapsto> (cls_Clear C m, a))\<rparr>"
  have "\<forall>q \<in> set ps. hp_obj ?h q \<noteq> None" "distinct ps" using Cons.prems by auto
  note IH = Cons.IH [OF this]
  have "(\<lambda>q. if q \<in> set ps then map_option (\<lambda>(m, a). (cls_Clear C m, a)) (hp_obj ?h q) else hp_obj ?h q) =
      (\<lambda>q. if q \<in> set (p # ps) then map_option (\<lambda>(m, a). (cls_Clear C m, a)) (hp_obj h q) else hp_obj h q)"
    using Cons.prems(2) m by auto
  then show ?case using IH by (simp add: handler_Clear_def m)
qed simp

lemma field_Clear_owns:
  assumes "owns C f h ps xs" and clear: "\<And>m. cls_view C (cls_Clear C m) = cls_blank C"
  shows "\<exists>f' h'. field_Clear C f h = Some (f', h') \<and> owns C f' h' ps [] \<and> (\<forall>q. q \<notin> set ps \<longrightarrow> hp_obj h' q = hp_obj h q)"
proof (cases "current_size f = 0")
  case True
  then show ?thesis using assms(1) ownsD(4) [OF assms(1)] by (simp add: field_Clear_def)
next
  case False
  note d = ownsD [OF assms(1)]
  let ?ps = "take (current_size f) ps"
  let ?h = "h\<lparr>hp_obj := \<lambda>q. if q \<in> set ?ps then map_option (\<lambda>(m, a). (cls_Clear C m, a)) (hp_obj h q) else hp_obj h q\<rparr>"
  let ?f = "f\<lparr>current_size := 0\<rparr>"
  have "\<forall>p \<in> set ?ps. hp_obj h p \<noteq> None" "distinct ?ps"
    using owns_allocated [OF assms(1)] d(2) by (fastforce dest: in_set_takeD)+
  then have "field_Clear C f h = Some (?f, ?h)"
    using False clear_each_objects [of ?ps h C] lay_take [OF d(1)] layD(2) [OF d(1)]
    by (simp add: field_Clear_def ClearNonEmpty_def ExchangeCurrentSize_def)
  moreover have "owns C ?f ?h ps []"
  proof (rule ownsI)
    show "lay ?f ps" using lay_resize [OF d(1)] by simp
    show "distinct ps" by (rule d(2))
    show "wf_heap ?h" using d(3) by (auto simp: wf_heap_def)
    fix j assume j: "j < length ps"
    have "j < length xs \<Longrightarrow> ps ! j \<in> set ?ps" using j d(4) by (metis in_set_conv_nth length_take min_less_iff_conj nth_take)
    then show "see C ?h (ps ! j) = Some (if j < length [] then [] ! j else cls_blank C, arena ?f)"
      using owns_nth [OF assms(1) j] clear by (auto simp: see_def)
  qed simp
  moreover have "\<forall>q. q \<notin> set ps \<longrightarrow> hp_obj ?h q = hp_obj h q" by (auto dest: in_set_takeD)
  ultimately show ?thesis by blast
qed

text \<open>Deleting objects that are all there and all different.\<close>

lemma delete_each_objects:
  assumes "distinct ps" "\<forall>p \<in> set ps. hp_obj h p \<noteq> None"
  shows "delete_each (map Some ps) a h =
    Some (if a = None then h\<lparr>hp_obj := \<lambda>q. if q \<in> set ps then None else hp_obj h q\<rparr> else h)"
  using assms
proof (induction ps arbitrary: h)
  case (Cons p ps)
  let ?h = "h\<lparr>hp_obj := (hp_obj h)(p := None)\<rparr>"
  have "\<forall>q \<in> set ps. hp_obj ?h q \<noteq> None" using Cons.prems by auto
  moreover have "(\<lambda>q. if q \<in> set ps then None else hp_obj ?h q) = (\<lambda>q. if q \<in> set (p # ps) then None else hp_obj h q)" by auto
  ultimately show ?case
    using Cons.prems Cons.IH [of ?h] Cons.IH [of h] by (cases a) (auto simp: handler_Delete_def)
qed simp

text \<open>The destructor of a field that is not on an arena frees each of its objects once, and no other.\<close>

lemma Destroy_owns:
  assumes "owns C f h ps xs" "NeedsDestroy f" "arena f = None"
  shows "Destroy f h = Some (h\<lparr>hp_obj := \<lambda>q. if q \<in> set ps then None else hp_obj h q\<rparr>)"
proof -
  note d = ownsD [OF assms(1)]
  have "\<forall>p \<in> set ps. hp_obj h p \<noteq> None" using owns_allocated [OF assms(1)] by fastforce
  then show ?thesis
    using assms(2,3) delete_each_objects [OF d(2), of h None] layD(1,5) [OF d(1)] by (simp add: Destroy_def check_def)
qed

lemma owns_arena_irrelevant: "owns C f h ps xs \<Longrightarrow> current_size f = 0 \<longleftrightarrow> xs = []"
  using ownsD(4) by fastforce

lemma set_commute: "set_element i q (set_allocated n f) = set_allocated n (set_element i q f)"
  by (auto simp: set_element_def set_allocated_def split: tagged.splits)

lemma at_capacity_iff: "lay f ps \<Longrightarrow> AllocatedSizeAtCapacity f \<longleftrightarrow> length ps = Capacity f"
proof (cases "tagged_rep_or_elem f")
  case (Elem p)
  then show "lay f ps \<Longrightarrow> ?thesis" by (auto simp: AllocatedSizeAtCapacity_def Capacity_def kSSOCapacity_def split: option.splits)
next
  case (Tagged r)
  then show "lay f ps \<Longrightarrow> ?thesis"
    using layD(1,3) [of f ps] tagged_simps(2) [OF Tagged] by (auto simp: AllocatedSizeAtCapacity_def)
qed

lemma owns_handed:
  assumes "owns C f h ps xs" "see C h v = Some (m, arena f)" "v \<notin> set ps" "current_size f = length ps"
    and "lay g (ps @ [v])" "current_size g = Suc (current_size f)" "arena g = arena f"
  shows "owns C g h (ps @ [v]) (xs @ [m])"
  by (rule owns_append [OF assms(1,4,3) _ ownsD(3) [OF assms(1)] _ assms(5-7)]) (use assms(2) in auto)

text \<open>An object that is handed over is appended. Where all slots hold allocated elements, a cleared one is
  deleted for it; where some are free, the first cleared one moves to the end.\<close>

lemma add_replacing:
  assumes "owns C f h ps xs" "see C h v = Some (m, arena f)" "v \<notin> set ps"
    and replace: "\<not> SizeAtCapacity f" "AllocatedSizeAtCapacity f"
  shows "\<exists>f' h' ps'. UnsafeArenaAddAllocated X v f h = Some (f', h') \<and> owns C f' h' ps' (xs @ [m]) \<and>
    arena f' = arena f \<and> (\<forall>q. q \<notin> set ps \<longrightarrow> hp_obj h' q = hp_obj h q)"
proof -
  note d = ownsD [OF assms(1)] and l = layD [OF ownsD(1) [OF assms(1)]]
  let ?n = "current_size f"
  have n: "?n < length ps" "length ps = Capacity f" using replace at_capacity_iff [OF d(1)] by (simp_all add: SizeAtCapacity_def)
  let ?h = "if arena f = None then h\<lparr>hp_obj := (hp_obj h)(ps ! ?n := None)\<rparr> else h"
  let ?g = "(set_element ?n (Some v) f)\<lparr>current_size := Suc ?n\<rparr>"
  have "UnsafeArenaAddAllocated X v f h = Some (?g, ?h)"
    using replace lay_at [OF d(1) n(1)] see_object [OF owns_nth [OF assms(1) n(1)]]
    by (auto simp: UnsafeArenaAddAllocated_def ExchangeCurrentSize_def handler_Delete_def)
  moreover have "lay ?g (ps[?n := v])"
  proof (cases "tagged_rep_or_elem f")
    case (Elem p)
    then have "?n = 0" using d(1) n by (auto split: option.splits)
    then show ?thesis using d(1) n Elem by (auto simp: set_element_def split: option.splits)
  next
    case (Tagged r)
    then show ?thesis using lay_overwrite [OF d(1) n(1)] tagged_simps(1) [OF Tagged] n(1) by (intro lay_resize) simp_all
  qed
  then have "owns C ?g ?h (ps[?n := v]) (xs @ [m])"
  proof (rule ownsI)
    show "distinct (ps[?n := v])" using d(2) assms(3) by (simp add: distinct_list_update)
    show "wf_heap ?h" using d(3) by (simp add: wf_heap_def)
    show "length (xs @ [m]) = current_size ?g" using d(4) by simp
    fix j assume j: "j < length (ps[?n := v])"
    then have "ps ! j = ps ! ?n \<longleftrightarrow> j = ?n" "v \<noteq> ps ! j" "v \<noteq> ps ! ?n"
      using d(2) n(1) assms(3) by (auto simp: nth_eq_iff_index_eq)
    then show "see C ?h (ps[?n := v] ! j) =
        Some (if j < length (xs @ [m]) then (xs @ [m]) ! j else cls_blank C, arena ?g)"
      using j owns_nth [OF assms(1), of j] assms(2) d(4) n(1)
      by (auto simp: nth_list_update nth_append less_Suc_eq)
  qed
  moreover have "\<forall>q. q \<notin> set ps \<longrightarrow> hp_obj ?h q = hp_obj h q" using n(1) by auto
  ultimately show ?thesis by auto
qed

lemma add_shifting:
  assumes "owns C f h ps xs" "see C h v = Some (m, arena f)" "v \<notin> set ps"
    and shift: "\<not> SizeAtCapacity f" "\<not> AllocatedSizeAtCapacity f" "current_size f < length ps"
  shows "\<exists>f' h' ps'. UnsafeArenaAddAllocated X v f h = Some (f', h') \<and> owns C f' h' ps' (xs @ [m]) \<and>
    arena f' = arena f \<and> (\<forall>q. q \<notin> set ps \<longrightarrow> hp_obj h' q = hp_obj h q)"
proof -
  note d = ownsD [OF assms(1)] and l = layD [OF ownsD(1) [OF assms(1)]]
  let ?n = "current_size f"
  have r: "\<not> using_sso f" "length ps < Capacity f"
    using shift at_capacity_iff [OF d(1)] l(3) d(1) by (auto simp: using_sso_def AllocatedSizeAtCapacity_def split: tagged.splits option.splits)
  let ?q = "ps ! ?n"
  let ?g = "set_allocated (Suc (length ps)) (set_element (length ps) (Some ?q) f)"
  let ?f = "(set_element ?n (Some v) ?g)\<lparr>current_size := Suc ?n\<rparr>"
  let ?ps = "(ps @ [?q])[?n := v]"
  have "UnsafeArenaAddAllocated X v f h = Some (?f, h)"
    using shift r lay_at [OF d(1) shift(3)] l(1) by (simp add: UnsafeArenaAddAllocated_def ExchangeCurrentSize_def)
  moreover have "lay ?f ?ps"
    using lay_overwrite [OF lay_append [OF d(1) r(2,1)], of ?n ?q v] shift(3) r(1) by (intro lay_resize) simp_all
  then have "owns C ?f h ?ps (xs @ [m])"
  proof (rule ownsI)
    have "?ps = (ps[?n := v]) @ [?q]" using shift(3) by (simp add: list_update_append)
    moreover have "?q \<notin> set (ps[?n := v])"
      using d(2) shift(3) assms(3) by (metis distinct_list_update in_set_conv_nth length_list_update nth_eq_iff_index_eq
          nth_list_update_eq nth_list_update_neq nth_mem)
    ultimately show "distinct ?ps" using d(2) assms(3) by (simp add: distinct_list_update)
    show "wf_heap h" by (rule d(3))
    show "length (xs @ [m]) = current_size ?f" using d(4) by simp
    fix j assume j: "j < length ?ps"
    show "see C h (?ps ! j) = Some (if j < length (xs @ [m]) then (xs @ [m]) ! j else cls_blank C, arena ?f)"
    proof (cases "j = ?n")
      case True
      then show ?thesis using assms(2) d(4) shift(3) by (simp add: nth_append)
    next
      case False
      then have "?ps ! j = (if j = length ps then ps ! ?n else ps ! j)" using j by (simp add: nth_append)
      then show ?thesis
        using False j owns_nth [OF assms(1), of j] owns_nth [OF assms(1) shift(3)] d(4) shift(3)
        by (auto simp: nth_append less_Suc_eq)
    qed
  qed
  ultimately show ?thesis using r(1) by auto
qed

lemma add_behind:
  assumes "owns C f h ps xs" "see C h v = Some (m, arena f)" "v \<notin> set ps"
    and room: "\<not> SizeAtCapacity f" "\<not> AllocatedSizeAtCapacity f" "current_size f = length ps"
  shows "\<exists>f' h' ps'. UnsafeArenaAddAllocated X v f h = Some (f', h') \<and> owns C f' h' ps' (xs @ [m]) \<and>
    arena f' = arena f \<and> (\<forall>q. q \<notin> set ps \<longrightarrow> hp_obj h' q = hp_obj h q)"
proof -
  note d = ownsD [OF assms(1)] and l = layD [OF ownsD(1) [OF assms(1)]]
  let ?n = "current_size f"
  let ?g = "if \<not> using_sso f then set_allocated (Suc (length ps)) f else f"
  let ?f = "(set_element ?n (Some v) ?g)\<lparr>current_size := Suc ?n\<rparr>"
  have lt: "length ps < Capacity f" using room(2) at_capacity_iff [OF d(1)] l(3) by simp
  have "lay ?f (ps @ [v])"
  proof (cases "tagged_rep_or_elem f")
    case (Elem p)
    then show ?thesis using d(1) room lt
      by (auto simp: set_element_def using_sso_def Capacity_def kSSOCapacity_def split: option.splits)
  next
    case (Tagged r)
    have s: "\<not> using_sso f" by (rule tagged_simps(1) [OF Tagged])
    show ?thesis using lay_append [OF d(1) lt s, of v] room(3) s by (intro lay_resize) (simp_all add: set_commute)
  qed
  moreover have "UnsafeArenaAddAllocated X v f h = Some (?f, h)"
    using room l(1) by (simp add: UnsafeArenaAddAllocated_def ExchangeCurrentSize_def)
  ultimately show ?thesis using owns_handed [OF assms(1-3) room(3), of ?f] by auto
qed

text \<open>\<open>AddAllocated\<close> of an object on the arena of the field does what \<open>UnsafeArenaAddAllocated\<close> does.\<close>

lemma AddAllocated_same_arena:
  assumes "lay f ps" "hp_obj h v = Some (m, arena f)"
  shows "AddAllocated X C v f h = UnsafeArenaAddAllocated X v f h"
proof (cases "AllocatedSizeAtCapacity f")
  case True
  then show ?thesis
    using assms(2) by (auto simp: AddAllocated_def handler_GetArena_def AddAllocatedSlowWithCopy_def)
next
  case False
  note l = layD [OF assms(1)]
  have n: "\<not> SizeAtCapacity f"
    using False at_capacity_iff [OF assms(1)] l(2,3) by (auto simp: SizeAtCapacity_def)
  have s: "current_size f < allocated_size f \<Longrightarrow> \<not> using_sso f"
    using False by (auto simp: using_sso_def allocated_size_def AllocatedSizeAtCapacity_def split: tagged.splits option.splits if_splits)
  show ?thesis
    using False n s assms(2)
    by (auto simp: AddAllocated_def UnsafeArenaAddAllocated_def handler_GetArena_def ExchangeCurrentSize_def set_commute Let_def)
qed

lemma release_layout:
  assumes "lay f ps" "i < length ps" "i = current_size f - 1" "0 < current_size f"
  shows "\<exists>f'. UnsafeArenaReleaseLast f = Some (ps ! i, f') \<and> lay f' (swap_remove i ps) \<and> current_size f' = i \<and> arena f' = arena f"
proof (cases "tagged_rep_or_elem f")
  case (Elem p)
  then obtain q where "ps = [q]" "i = 0" "capacity_proxy f = 0" using assms(1,2) by (auto split: option.splits)
  moreover have "using_sso f" using Elem by (simp add: using_sso_def)
  ultimately show ?thesis
    using lay_at [OF assms(1,2)] assms(3,4)
    by (auto simp: UnsafeArenaReleaseLast_def check_def ExchangeCurrentSize_def swap_remove_def)
next
  case (Tagged r)
  note l = layD [OF assms(1)]
  have s: "\<not> using_sso f" by (rule tagged_simps(1) [OF Tagged])
  have last: "element_at (length ps - 1) f = Some (last ps)"
  proof -
    have "ps \<noteq> []" "length ps - 1 < length ps" using assms(2) by auto
    then show ?thesis using lay_at [OF assms(1)] by (simp add: last_conv_nth)
  qed
  have here: "(elements f)[i := Some (last ps)] = elements f" if "i = length ps - 1"
    using last that l(3,4) assms(2) by (simp add: element_at_def list_update_same_conv)
  let ?g = "(set_element i (Some (last ps)) (set_allocated (length ps - 1) f))\<lparr>current_size := i\<rparr>"
  have "take (length ps - 1) ((elements f)[i := Some (last ps)]) = map Some (swap_remove i ps)"
    using l(5) take_take [of "length ps - 1" "length ps" "(elements f)[i := Some (last ps)]"]
    by (simp add: take_update_swap swap_remove_def butlast_conv_take map_update take_map)
  then have "lay ?g (swap_remove i ps)"
    using l assms(2-4) s by (auto simp: lay_def set_commute)
  moreover have "UnsafeArenaReleaseLast f = Some (ps ! i, if i < length ps - 1 then ?g else (set_allocated (length ps - 1) f)\<lparr>current_size := i\<rparr>)"
    using lay_at [OF assms(1,2)] assms(3,4) s l(1) last
    by (simp add: UnsafeArenaReleaseLast_def check_def ExchangeCurrentSize_def)
  moreover have "lay ((set_allocated (length ps - 1) f)\<lparr>current_size := i\<rparr>) (swap_remove i ps)" if "\<not> i < length ps - 1"
  proof -
    have "i = length ps - 1" using that assms(2) by simp
    then show ?thesis using \<open>lay ?g (swap_remove i ps)\<close> here s by (simp add: lay_def set_commute)
  qed
  ultimately show ?thesis by (cases "i < length ps - 1") auto
qed

text \<open>The last element is handed out; the last cleared one takes its slot.\<close>

lemma UnsafeArenaReleaseLast_owns:
  assumes "owns C f h ps xs" "xs \<noteq> []"
  shows "\<exists>p f' ps'. UnsafeArenaReleaseLast f = Some (p, f') \<and> owns C f' h ps' (butlast xs) \<and> arena f' = arena f \<and>
    see C h p = Some (last xs, arena f) \<and> p \<in> set ps \<and> p \<notin> set ps' \<and> set ps' \<subseteq> set ps"
proof -
  note d = ownsD [OF assms(1)] and l = layD [OF ownsD(1) [OF assms(1)]]
  let ?i = "length xs - 1"
  have "0 < length xs" using assms(2) by simp
  then have i: "?i < length xs" "?i < length ps" "?i = current_size f - 1" using d(4,5) by linarith+
  have p: "element_at ?i f = Some (ps ! ?i)" by (rule lay_at [OF d(1) i(2)])
  have v: "see C h (ps ! ?i) = Some (last xs, arena f)"
    using owns_nth [OF assms(1) i(2)] i(1) assms(2) by (simp add: last_conv_nth)
  let ?ps = "swap_remove ?i ps"
  have ps: "distinct ?ps" "set ?ps = set ps - {ps ! ?i}"
    using distinct_swap_remove [OF d(2) i(2)] set_swap_remove [OF d(2) i(2)] by simp_all
  obtain f' where f': "UnsafeArenaReleaseLast f = Some (ps ! ?i, f')" "lay f' ?ps" "current_size f' = ?i" "arena f' = arena f"
    using release_layout [OF d(1) i(2,3)] \<open>0 < length xs\<close> d(4) by auto
  have "owns C f' h ?ps (butlast xs)"
  proof (rule ownsI [OF f'(2) ps(1) d(3)])
    show "length (butlast xs) = current_size f'" using f'(3) by simp
    fix j assume "j < length ?ps"
    then have j: "j < length ps - 1" by simp
    have "?ps ! j = (if j = ?i then ps ! (length ps - 1) else ps ! j)"
      using j last_conv_nth [of ps] by (cases "ps = []") (auto simp: swap_remove_def nth_butlast nth_list_update)
    then show "see C h (?ps ! j) = Some (if j < length (butlast xs) then butlast xs ! j else cls_blank C, arena f')"
      using owns_nth [OF assms(1), of j] owns_nth [OF assms(1), of "length ps - 1"] j i(1,2) f'(4)
      by (auto simp: nth_butlast)
  qed
  then show ?thesis using f' v ps(2) i(2) by auto
qed

lemma parts: "take start ps @ take num (drop start ps) @ drop (start + num) ps = ps"
  by (metis add.commute append_take_drop_id drop_drop)

lemma lay_range: "lay f ps \<Longrightarrow> start + num \<le> length ps \<Longrightarrow>
    take num (drop start (elements f)) = map Some (take num (drop start ps))"
  by (metis add_diff_cancel_left' drop_map drop_take lay_take)

text \<open>Objects elsewhere do not matter.\<close>

lemma owns_elsewhere:
  assumes "owns C f h ps xs" "\<forall>q \<in> set ps. hp_obj h' q = hp_obj h q" "wf_heap h'"
  shows "owns C f h' ps xs"
proof -
  have "map (see C h') ps = map (see C h) ps" using assms(2) see_same by (metis (mono_tags, lifting) map_cong)
  then show ?thesis using assms(1,3) by (simp only: owns_def simp_thms)
qed

context field_library
begin

lemma AddInternal_owns:
  assumes "owns C f h ps xs"
  shows "\<exists>p f' h' ps'. AddInternal InternalExtend C f h = Some (p, f', h') \<and>
    owns C f' h' ps' (xs @ [cls_blank C]) \<and> ps' ! length xs = p \<and> arena f' = arena f \<and>
    (\<forall>q. hp_obj h q \<noteq> None \<longrightarrow> hp_obj h' q = hp_obj h q)"
proof (cases "current_size f < length ps")
  case True
  note d = ownsD [OF assms]
  have "AddInternal InternalExtend C f h = Some (ps ! length xs, f\<lparr>current_size := Suc (current_size f)\<rparr>, h)"
  proof (cases "tagged_rep_or_elem f")
    case (Elem e)
    then show ?thesis
      using True d(1,4) by (auto simp: AddInternal_def ExchangeCurrentSize_def split: option.splits)
  next
    case (Tagged r)
    have "\<not> SizeAtCapacity f" "current_size f \<noteq> allocated_size f"
      using True layD [OF d(1)] by (simp_all add: SizeAtCapacity_def)
    then show ?thesis
      using Tagged lay_at [OF d(1) True] d(4) by (simp add: AddInternal_def ExchangeCurrentSize_def)
  qed
  with owns_reuse [OF assms True] show ?thesis by auto
next
  case False
  note d = ownsD [OF assms]
  then have full: "current_size f = length ps" using layD(2) [OF d(1)] False by simp
  obtain p h' where p: "handler_New C (arena f) h = (p, h')" by fastforce
  note n = new_object_simps [OF p [unfolded handler_New_def] d(3)]
  have fresh: "p \<notin> set ps" using owns_fresh [OF assms] n(1) by simp
  have append: "owns C f' h' (ps @ [p]) (xs @ [cls_blank C])"
    if "lay f' (ps @ [p])" "current_size f' = Suc (current_size f)" "arena f' = arena f" for f'
    by (rule owns_append [OF assms full fresh _ n(2) _ that]) (use n(3) fresh in \<open>auto simp: see_def cls_blank_def\<close>)
  have frame: "\<forall>q. hp_obj h q \<noteq> None \<longrightarrow> hp_obj h' q = hp_obj h q" using n(3,4) by auto
  have "\<exists>f'. AddInternal InternalExtend C f h = Some (p, f', h') \<and> lay f' (ps @ [p]) \<and>
      current_size f' = Suc (current_size f) \<and> arena f' = arena f"
  proof (cases "tagged_rep_or_elem f")
    case (Elem e)
    show ?thesis
    proof (cases e)
      case None
      then have "ps = []" "capacity_proxy f = 0" "current_size f = 0" using d(1) Elem full by simp_all
      then show ?thesis using Elem None p by (simp add: AddInternal_def ExchangeCurrentSize_def)
    next
      case (Some q)
      then have ps: "ps = [q]" "current_size f = 1" using d(1) Elem full by simp_all
      let ?g = "InternalExtend 1 f"
      note x = extended [OF d(1), of 1, simplified]
      have "lay (set_allocated (Suc (length ps)) (set_element (length ps) (Some p) ?g)) (ps @ [p])"
        using x layD(3) [OF d(1)] by (intro lay_append) auto
      then have "lay ((set_allocated 2 (set_element 1 (Some p) ?g))\<lparr>current_size := 2\<rparr>) (ps @ [p])"
        using ps by (intro lay_resize) (simp_all add: numeral_2_eq_2)
      then show ?thesis
        using Elem Some ps x p by (simp add: AddInternal_def ExchangeCurrentSize_def numeral_2_eq_2)
    qed
  next
    case (Tagged r)
    let ?g = "if SizeAtCapacity f then InternalExtend 1 f else f"
    note x = extended [OF d(1), of 1, simplified]
    have g: "lay ?g ps" "current_size ?g = current_size f" "arena ?g = arena f" "\<not> using_sso ?g" "length ps < Capacity ?g"
      using d(1) x tagged_simps(1) [OF Tagged] layD(3) [OF d(1)] full by (auto simp: SizeAtCapacity_def)
    let ?f = "(set_allocated (Suc (length ps)) (set_element (length ps) (Some p) ?g))\<lparr>current_size := Suc (length ps)\<rparr>"
    have l: "lay ?f (ps @ [p])" using lay_append [OF g(1,5,4)] by (intro lay_resize) simp_all
    have c: "set_element i q (set_allocated n k) = set_allocated n (set_element i q k)" for i q n k
      by (auto simp: set_element_def set_allocated_def split: tagged.splits)
    have "AddInternal InternalExtend C f h = Some (p, ?f, h')"
      using Tagged full g p layD(1) [OF g(1)] layD(1) [OF d(1)]
      by (simp add: AddInternal_def ExchangeCurrentSize_def Let_def c del: set_simps(3) split: prod.split)
    then show ?thesis using l g full by auto
  qed
  then obtain f' where f': "AddInternal InternalExtend C f h = Some (p, f', h')" "lay f' (ps @ [p])"
    "current_size f' = Suc (current_size f)" "arena f' = arena f" by blast
  have "(ps @ [p]) ! length xs = p" using d(4) full by simp
  then show ?thesis using f'(1,4) append [OF f'(2-4)] frame by blast
qed

lemma UnsafeArenaAddAllocated_owns:
  assumes "owns C f h ps xs" "see C h v = Some (m, arena f)" "v \<notin> set ps"
  shows "\<exists>f' h' ps'. UnsafeArenaAddAllocated InternalExtend v f h = Some (f', h') \<and> owns C f' h' ps' (xs @ [m]) \<and>
    arena f' = arena f \<and> (\<forall>q. q \<notin> set ps \<longrightarrow> hp_obj h' q = hp_obj h q)"
proof -
  note d = ownsD [OF assms(1)] and l = layD [OF ownsD(1) [OF assms(1)]]
  let ?n = "current_size f"
  consider (grow) "SizeAtCapacity f" | (replace) "\<not> SizeAtCapacity f" "AllocatedSizeAtCapacity f"
    | (shift) "\<not> SizeAtCapacity f" "\<not> AllocatedSizeAtCapacity f" "?n < length ps"
    | (room) "\<not> SizeAtCapacity f" "\<not> AllocatedSizeAtCapacity f" "?n = length ps"
    using l(2) by fastforce
  then show ?thesis
  proof cases
    case replace
    then show ?thesis by (rule add_replacing [OF assms])
  next
    case shift
    then show ?thesis by (rule add_shifting [OF assms])
  next
    case room
    then show ?thesis by (rule add_behind [OF assms])
  next
    case grow
    then have n: "?n = length ps" using l(2,3) by (simp add: SizeAtCapacity_def)
    note x = extended [OF d(1), of 1, simplified]
    let ?g = "(set_element ?n (Some v) (set_allocated (Suc (length ps)) (InternalExtend 1 f)))\<lparr>current_size := Suc ?n\<rparr>"
    have "lay ?g (ps @ [v])"
      unfolding set_commute n using x l(3) by (intro lay_resize lay_append) auto
    moreover have "UnsafeArenaAddAllocated InternalExtend v f h = Some (?g, h)"
      using grow x layD(1) [of "InternalExtend 1 f" ps] by (simp add: UnsafeArenaAddAllocated_def ExchangeCurrentSize_def)
    ultimately show ?thesis using owns_handed [OF assms n, of ?g] x by auto
  qed
qed

text \<open>A gap is closed: the pointers before and behind it stay.\<close>

lemma CloseGap_owns:
  assumes "owns C f h ps xs" "start + num \<le> length xs"
  shows "owns C (if num > 0 then CloseGap start num f else f) h
      (take start ps @ drop (start + num) ps) (take start xs @ drop (start + num) xs) \<and>
    arena (if num > 0 then CloseGap start num f else f) = arena f"
proof -
  note d = ownsD [OF assms(1)] and l = layD [OF ownsD(1) [OF assms(1)]]
  let ?ps = "take start ps @ drop (start + num) ps" and ?f = "if num > 0 then CloseGap start num f else f"
  have n: "start + num \<le> current_size f" "start + num \<le> length ps" using assms(2) d(4,5) by simp_all
  have f': "lay ?f ?ps" "current_size ?f = current_size f - num" "arena ?f = arena f"
    using closed [OF d(1) _ n(1)] d(1) by auto
  have "owns C ?f h ?ps (take start xs @ drop (start + num) xs)"
  proof (rule ownsI [OF f'(1)])
    have "distinct (take start ps @ take num (drop start ps) @ drop (start + num) ps)" using d(2) by (simp only: parts)
    then show "distinct ?ps" by auto
    show "wf_heap h" by (rule d(3))
    show "length (take start xs @ drop (start + num) xs) = current_size ?f" using f'(2) d(4) assms(2) by simp
    fix j assume j: "j < length ?ps"
    let ?k = "if j < start then j else j + num"
    have k: "?k < length ps" "?ps ! j = ps ! ?k" using j n(2) by (auto simp: nth_append min.absorb2 add.commute)
    then show "see C h (?ps ! j) = Some (if j < length (take start xs @ drop (start + num) xs)
        then (take start xs @ drop (start + num) xs) ! j else cls_blank C, arena ?f)"
      using owns_nth [OF assms(1) k(1)] f'(3) assms(2) by (auto simp: nth_append min_def add.commute)
  qed
  then show ?thesis using f'(3) by simp
qed

text \<open>A range is deleted, its objects with it when they are not on an arena; or it is handed out.\<close>

lemma DeleteSubrange_owns:
  assumes "owns C f h ps xs" "start + num \<le> length xs"
  shows "\<exists>f' h'. DeleteSubrange CloseGap start num f h = Some (f', h') \<and>
    owns C f' h' (take start ps @ drop (start + num) ps) (take start xs @ drop (start + num) xs) \<and> arena f' = arena f \<and>
    (\<forall>q. q \<notin> set (take num (drop start ps)) \<or> arena f \<noteq> None \<longrightarrow> hp_obj h' q = hp_obj h q)"
proof -
  note d = ownsD [OF assms(1)]
  let ?rs = "take num (drop start ps)" and ?ps = "take start ps @ drop (start + num) ps"
  let ?h = "if arena f = None then h\<lparr>hp_obj := \<lambda>q. if q \<in> set ?rs then None else hp_obj h q\<rparr> else h"
  let ?f = "if num > 0 then CloseGap start num f else f"
  have n: "start + num \<le> current_size f" "start + num \<le> length ps" using assms(2) d(4,5) by simp_all
  have "delete_each (map Some ?rs) (arena f) h = Some ?h"
    using d(2) owns_allocated [OF assms(1)]
    by (intro delete_each_objects) (fastforce dest!: in_set_takeD in_set_dropD)+
  then have r: "DeleteSubrange CloseGap start num f h = Some (?f, ?h)"
    using n(1) lay_range [OF d(1) n(2)] by (simp add: DeleteSubrange_def check_def UnsafeArenaExtractSubrange_def)
  have "distinct (take start ps @ ?rs @ drop (start + num) ps)" using d(2) by (simp only: parts)
  then have "owns C ?f ?h ?ps (take start xs @ drop (start + num) xs)"
    by (intro owns_elsewhere [OF CloseGap_owns [OF assms, THEN conjunct1]]) (use d(3) in \<open>auto simp: wf_heap_def\<close>)
  then show ?thesis using r CloseGap_owns [OF assms] by auto
qed

lemma ExtractSubrange_owns:
  assumes "owns C f h ps xs" "start + num \<le> length xs" "arena f = None" "0 < num"
  shows "ExtractSubrange CloseGap C start num f h = Some (map Some (take num (drop start ps)), CloseGap start num f, h)"
    "owns C (CloseGap start num f) h (take start ps @ drop (start + num) ps) (take start xs @ drop (start + num) xs)"
proof -
  note d = ownsD [OF assms(1)]
  have n: "start + num \<le> current_size f" "start + num \<le> length ps" using assms(2) d(4,5) by simp_all
  show "ExtractSubrange CloseGap C start num f h = Some (map Some (take num (drop start ps)), CloseGap start num f, h)"
    using n(1) lay_range [OF d(1) n(2)] assms(3,4) by (simp add: ExtractSubrange_def check_def)
  show "owns C (CloseGap start num f) h (take start ps @ drop (start + num) ps) (take start xs @ drop (start + num) xs)"
    using CloseGap_owns [OF assms(1,2)] assms(4) by simp
qed

end

subsection \<open>Sequences of operations\<close>

text \<open>What a program does with a field: elements are added, written through \<open>Mutable\<close>, swapped, removed.\<close>

datatype 'm field_op =
  OpAdd | OpWrite nat 'm | OpSwap nat nat | OpRemoveLast | OpClear | OpDelete nat nat | OpHandOver 'm | OpRelease

definition write_object :: "ptr \<Rightarrow> 'm \<Rightarrow> 'm heap \<Rightarrow> 'm heap option" where
  "write_object p m h = do { v \<leftarrow> hp_obj h p; Some (h\<lparr>hp_obj := (hp_obj h)(p \<mapsto> (m, snd v))\<rparr>) }"

fun field_step ::
  "(nat \<Rightarrow> RepeatedPtrFieldBase \<Rightarrow> RepeatedPtrFieldBase) \<Rightarrow> (nat \<Rightarrow> nat \<Rightarrow> RepeatedPtrFieldBase \<Rightarrow> RepeatedPtrFieldBase) \<Rightarrow>
     'm message_class \<Rightarrow> 'm field_op \<Rightarrow> RepeatedPtrFieldBase \<times> 'm heap \<Rightarrow> (RepeatedPtrFieldBase \<times> 'm heap) option" where
  "field_step X G C OpAdd (f, h) = map_option snd (AddInternal X C f h)"
| "field_step X G C (OpWrite i m) (f, h) = do { p \<leftarrow> field_Mutable i f; h \<leftarrow> write_object p m h; Some (f, h) }"
| "field_step X G C (OpSwap i j) (f, h) = do { f \<leftarrow> field_SwapElements i j f; Some (f, h) }"
| "field_step X G C OpRemoveLast (f, h) = field_RemoveLast C f h"
| "field_step X G C OpClear (f, h) = field_Clear C f h"
| "field_step X G C (OpDelete start num) (f, h) = DeleteSubrange G start num f h"
| "field_step X G C (OpHandOver m) (f, h) = (case new_object (arena f) m h of (p, h) \<Rightarrow> AddAllocated X C p f h)"
| "field_step X G C OpRelease (f, h) = do { (p, f) \<leftarrow> UnsafeArenaReleaseLast f; Some (f, h) }"

text \<open>The same on lists.\<close>

fun list_step :: "'m \<Rightarrow> 'm field_op \<Rightarrow> 'm list \<Rightarrow> 'm list option" where
  "list_step d OpAdd xs = Some (Add d xs)"
| "list_step d (OpWrite i m) xs = Mutable i (\<lambda>_. m) xs"
| "list_step d (OpSwap i j) xs = SwapElements i j xs"
| "list_step d OpRemoveLast xs = RemoveLast xs"
| "list_step d OpClear xs = Some []"
| "list_step d (OpDelete start num) xs =
     (if start + num \<le> length xs then Some (take start xs @ drop (start + num) xs) else None)"
| "list_step d (OpHandOver m) xs = Some (xs @ [m])"
| "list_step d OpRelease xs = RemoveLast xs"

fun run_steps :: "('o \<Rightarrow> 's \<Rightarrow> 's option) \<Rightarrow> 'o list \<Rightarrow> 's \<Rightarrow> 's option" where
  "run_steps step [] s = Some s"
| "run_steps step (x # xs) s = Option.bind (step x s) (run_steps step xs)"

context field_library
begin

lemma field_step_simulates:
  assumes "represents C f h xs" "list_step (cls_blank C) (map_field_op (cls_view C) x) xs = Some ys" and clear: "\<And>m. cls_view C (cls_Clear C m) = cls_blank C"
  shows "\<exists>f' h'. field_step InternalExtend CloseGap C x (f, h) = Some (f', h') \<and> represents C f' h' ys"
proof -
  obtain ps where o: "owns C f h ps xs" using assms(1) by (auto simp: represents_def)
  note d = ownsD [OF o]
  show ?thesis
  proof (cases x)
    case OpAdd
    then show ?thesis using assms(2) AddInternal_owns [OF o] by (auto simp: represents_def Add_def)
  next
    case (OpWrite i m)
    then have i: "i < length xs" "ys = xs[i := cls_view C m]" using assms(2) by (auto simp: Mutable_def split: if_splits)
    then have "i < length ps" using d(5) by simp
    then have "write_object (ps ! i) m h = Some (h\<lparr>hp_obj := (hp_obj h)(ps ! i \<mapsto> (m, arena f))\<rparr>)"
      using see_object [OF owns_nth [OF o \<open>i < length ps\<close>]] by (auto simp: write_object_def)
    then show ?thesis
      using OpWrite i owns_write [OF o i(1)] field_Mutable_owns [OF o i(1)] by (auto simp: represents_def)
  next
    case (OpSwap i j)
    then have "i < length xs" "j < length xs" "ys = xs[i := xs ! j, j := xs ! i]"
      using assms(2) by (auto simp: SwapElements_def split: if_splits)
    then show ?thesis using OpSwap field_SwapElements_owns [OF o] by (fastforce simp: represents_def)
  next
    case OpRemoveLast
    then have "xs \<noteq> []" "ys = butlast xs" using assms(2) by (auto simp: RemoveLast_def split: if_splits)
    then show ?thesis using OpRemoveLast field_RemoveLast_owns [OF o _ clear] by (fastforce simp: represents_def)
  next
    case OpClear
    then show ?thesis using assms(2) field_Clear_owns [OF o clear] by (fastforce simp: represents_def)
  next
    case (OpDelete start num)
    then have "start + num \<le> length xs" "ys = take start xs @ drop (start + num) xs" using assms(2) by (auto split: if_splits)
    then show ?thesis using OpDelete DeleteSubrange_owns [OF o] by (fastforce simp: represents_def)
  next
    case (OpHandOver m)
    obtain p h' where p: "new_object (arena f) m h = (p, h')" by fastforce
    note n = new_object_simps [OF p d(3)]
    have fresh: "p \<notin> set ps" using owns_fresh [OF o] n(1) by simp
    have "owns C f h' ps xs" using n(3) fresh by (intro owns_elsewhere [OF o _ n(2)]) auto
    moreover have "hp_obj h' p = Some (m, arena f)" "see C h' p = Some (cls_view C m, arena f)" using n(3) by (simp_all add: see_def)
    ultimately show ?thesis
      using OpHandOver assms(2) p fresh UnsafeArenaAddAllocated_owns [of C f h' ps xs p "cls_view C m"] AddAllocated_same_arena [OF d(1), of h' p m]
      by (fastforce simp: represents_def)
  next
    case OpRelease
    then have "xs \<noteq> []" "ys = butlast xs" using assms(2) by (auto simp: RemoveLast_def split: if_splits)
    then show ?thesis using OpRelease UnsafeArenaReleaseLast_owns [OF o] by (fastforce simp: represents_def)
  qed
qed

lemma field_refines_list:
  assumes "represents C f h xs" "run_steps (list_step (cls_blank C)) (map (map_field_op (cls_view C)) ops) xs = Some ys" and "\<And>m. cls_view C (cls_Clear C m) = cls_blank C"
  shows "\<exists>f' h'. run_steps (field_step InternalExtend CloseGap C) ops (f, h) = Some (f', h') \<and> represents C f' h' ys"
  using assms(1,2)
proof (induction ops arbitrary: f h xs)
  case (Cons x ops)
  then obtain zs where z: "list_step (cls_blank C) (map_field_op (cls_view C) x) xs = Some zs"
      "run_steps (list_step (cls_blank C)) (map (map_field_op (cls_view C)) ops) zs = Some ys"
    by (auto simp: bind_eq_Some_conv)
  from field_step_simulates [OF Cons.prems(1) z(1) assms(3)] obtain f' h' where
    "field_step InternalExtend CloseGap C x (f, h) = Some (f', h')" "represents C f' h' zs" by blast
  with Cons.IH [OF this(2) z(2)] show ?case by simp
qed simp

end

end
