(* ===== verification/InputStream.thy ===== *)
theory InputStream
  imports VarintParse "HOL-Library.Monad_Syntax"
begin

text \<open>
  \<open>EpsCopyInputStream\<close> and \<open>ParseContext\<close> of \<open>parse_context.h\<close>: the input of a parse, one buffer at a time.
  The last 16 bytes before the end of what is in memory, the slop, are read from the next buffer, so a
  parse checks for the end once per field. A length prefix pushes a limit. Pointers are addresses;
  the signed arithmetic of limits is written out, and an overflow, like a violated \<open>ABSL_DCHECK\<close>, is
  \<open>None\<close>. Changing the buffer is compiled into the library and a parameter.
\<close>

subsection \<open>Addresses and 32-bit integers\<close>

type_synonym address = int

definition kSlopBytes :: int where
  "kSlopBytes = 16"

definition INT_MAX :: int where
  "INT_MAX = 2147483647"

definition int32 :: "int \<Rightarrow> int option" where
  "int32 x = (if - INT_MAX - 1 \<le> x \<and> x \<le> INT_MAX then Some x else None)"

definition cast_int :: "int \<Rightarrow> int" where
  "cast_int x = (x + 2147483648) mod 4294967296 - 2147483648"

definition assure :: "bool \<Rightarrow> unit option" where
  "assure b = (if b then Some () else None)"

lemma assure_simps [simp]: "assure True = Some ()" "assure False = None"
  by (simp_all add: assure_def)

lemma assure_eq_Some [simp]: "assure b = Some u \<longleftrightarrow> b"
  by (simp add: assure_def)

lemma int32_eq_Some [simp]: "int32 x = Some y \<longleftrightarrow> y = x \<and> - INT_MAX - 1 \<le> x \<and> x \<le> INT_MAX"
  by (auto simp: int32_def)

lemma int32_in: "- INT_MAX - 1 \<le> x \<Longrightarrow> x \<le> INT_MAX \<Longrightarrow> int32 x = Some x"
  by simp

lemma cast_int_id: "- INT_MAX - 1 \<le> x \<Longrightarrow> x \<le> INT_MAX \<Longrightarrow> cast_int x = x"
  unfolding cast_int_def INT_MAX_def by simp

definition at_address :: "memory \<Rightarrow> address \<Rightarrow> memory" where
  "at_address M p = (\<lambda>k. M (nat p + k))"

subsection \<open>The stream\<close>

text \<open>\<open>zcis_\<close> is the state of the stream the buffers come from; \<open>in_memory\<close> is the memory the pointers point into.\<close>

record 'z EpsCopyInputStream =
  limit_end :: address
  buffer_end :: address
  next_chunk :: "address option"
  in_size :: int
  in_limit :: int
  zcis :: 'z
  patch_buffer :: address
  aliasing :: "64 word"
  last_tag_minus_1 :: "32 word"
  overall_limit :: int
  in_memory :: memory

type_synonym ('z, 'a) stream = "('z, 'a) EpsCopyInputStream_scheme"

definition kNoAliasing :: "64 word" where "kNoAliasing = 0"
definition kOnPatch :: "64 word" where "kOnPatch = 1"
definition kNoDelta :: "64 word" where "kNoDelta = 2"

definition LastTag :: "('z, 'a) stream \<Rightarrow> 32 word" where
  "LastTag s = last_tag_minus_1 s + 1"

definition EndedAtLimit :: "('z, 'a) stream \<Rightarrow> bool" where
  "EndedAtLimit s \<longleftrightarrow> last_tag_minus_1 s = 0"

definition EndedAtEndOfStream :: "('z, 'a) stream \<Rightarrow> bool" where
  "EndedAtEndOfStream s \<longleftrightarrow> last_tag_minus_1 s = 1"

definition SetLastTag :: "32 word \<Rightarrow> ('z, 'a) stream \<Rightarrow> ('z, 'a) stream" where
  "SetLastTag tag s = s\<lparr>last_tag_minus_1 := tag - 1\<rparr>"

definition SetEndOfStream :: "('z, 'a) stream \<Rightarrow> ('z, 'a) stream" where
  "SetEndOfStream s = s\<lparr>last_tag_minus_1 := 1\<rparr>"

definition ConsumeEndGroup ::
  "32 word \<Rightarrow> ('z, 'a) stream \<Rightarrow> bool \<times> ('z, 'a) stream" where
  "ConsumeEndGroup start_tag s = (last_tag_minus_1 s = start_tag, s\<lparr>last_tag_minus_1 := 0\<rparr>)"

definition IsExceedingLimit :: "address \<Rightarrow> ('z, 'a) stream \<Rightarrow> bool" where
  "IsExceedingLimit ptr s \<longleftrightarrow> ptr > limit_end s \<and> (next_chunk s = None \<or> ptr - buffer_end s > in_limit s)"

definition AliasingEnabled :: "('z, 'a) stream \<Rightarrow> bool" where
  "AliasingEnabled s \<longleftrightarrow> aliasing s \<noteq> kNoAliasing"

definition BytesUntilLimit :: "address \<Rightarrow> ('z, 'a) stream \<Rightarrow> int option" where
  "BytesUntilLimit ptr s = int32 (in_limit s + cast_int (buffer_end s - ptr))"

definition MaximumReadSize :: "address \<Rightarrow> ('z, 'a) stream \<Rightarrow> int option" where
  "MaximumReadSize ptr s = int32 (cast_int (limit_end s - ptr) + kSlopBytes)"

definition DataAvailable :: "address \<Rightarrow> ('z, 'a) stream \<Rightarrow> bool" where
  "DataAvailable ptr s \<longleftrightarrow> ptr < limit_end s"

text \<open>The token of a limit is how much the limit that was there lies behind it.\<close>

definition PushLimit ::
  "address \<Rightarrow> int \<Rightarrow> ('z, 'a) stream \<Rightarrow> (int \<times> ('z, 'a) stream) option" where
  "PushLimit ptr limit s =
     do { assure (limit \<ge> 0 \<and> limit \<le> INT_MAX - kSlopBytes);
          limit \<leftarrow> int32 (limit + cast_int (ptr - buffer_end s));
          let old_limit = in_limit s;
          let s = s\<lparr>limit_end := buffer_end s + min 0 limit, in_limit := limit\<rparr>;
          token \<leftarrow> int32 (old_limit - limit);
          Some (token, s) }"

definition PopLimit ::
  "int \<Rightarrow> ('z, 'a) stream \<Rightarrow> (bool \<times> ('z, 'a) stream) option" where
  "PopLimit delta s =
     do { limit \<leftarrow> int32 (in_limit s + delta);
          let s = s\<lparr>in_limit := limit\<rparr>;
          if \<not> EndedAtLimit s then Some (False, s)
          else Some (True, s\<lparr>limit_end := buffer_end s + min 0 (in_limit s)\<rparr>) }"

subsection \<open>Sized data\<close>

text \<open>The bytes of memory from \<open>ptr\<close> on.\<close>

definition bytes_at :: "memory \<Rightarrow> address \<Rightarrow> int \<Rightarrow> string" where
  "bytes_at M ptr n = map (\<lambda>k. char_of (unat (M (nat ptr + k)))) [0..<nat n]"

definition in_reach :: "address \<Rightarrow> int \<Rightarrow> ('z, 'a) stream \<Rightarrow> bool" where
  "in_reach ptr n s \<longleftrightarrow> n \<le> buffer_end s + kSlopBytes - ptr"

text \<open>A null pointer is \<open>None\<close>. The fall-backs cross the end of the buffer.\<close>

definition Skip ::
  "(address \<Rightarrow> int \<Rightarrow> ('z, 'a) stream \<Rightarrow> (address option \<times> ('z, 'a) stream) option) \<Rightarrow>
     address \<Rightarrow> int \<Rightarrow> ('z, 'a) stream \<Rightarrow> (address option \<times> ('z, 'a) stream) option" where
  "Skip SkipFallback ptr n s =
     (if in_reach ptr n s then Some (Some (ptr + n), s) else SkipFallback ptr n s)"

definition ReadString ::
  "(address \<Rightarrow> int \<Rightarrow> string \<Rightarrow> ('z, 'a) stream \<Rightarrow> (address option \<times> string \<times> ('z, 'a) stream) option) \<Rightarrow>
     address \<Rightarrow> int \<Rightarrow> string \<Rightarrow> ('z, 'a) stream \<Rightarrow> (address option \<times> string \<times> ('z, 'a) stream) option" where
  "ReadString ReadStringFallback ptr n str s =
     (if in_reach ptr n s then Some (Some (ptr + n), bytes_at (in_memory s) ptr n, s)
      else ReadStringFallback ptr n str s)"

definition AppendString ::
  "(address \<Rightarrow> int \<Rightarrow> string \<Rightarrow> ('z, 'a) stream \<Rightarrow> (address option \<times> string \<times> ('z, 'a) stream) option) \<Rightarrow>
     address \<Rightarrow> int \<Rightarrow> string \<Rightarrow> ('z, 'a) stream \<Rightarrow> (address option \<times> string \<times> ('z, 'a) stream) option" where
  "AppendString AppendStringFallback ptr n str s =
     (if in_reach ptr n s then Some (Some (ptr + n), str @ bytes_at (in_memory s) ptr n, s)
      else AppendStringFallback ptr n str s)"

text \<open>
  \<open>AppendSize\<close> and \<open>AppendUntilEnd\<close> with an \<open>append\<close> that appends to a string; \<open>Next\<close> changes the buffer. The
  loops may run as long as there are buffers.
\<close>

partial_function (option) AppendSize ::
  "(('z, 'a) stream \<Rightarrow> (address option \<times> ('z, 'a) stream) option) \<Rightarrow>
     address \<Rightarrow> int \<Rightarrow> int \<Rightarrow> string \<Rightarrow> ('z, 'a) stream \<Rightarrow> (address option \<times> string \<times> ('z, 'a) stream) option" where
  "AppendSize Next ptr n chunk_size str s =
     do { assure (n > chunk_size);
          if next_chunk s = None then Some (None, str, s)
          else
            let str = str @ bytes_at (in_memory s) ptr chunk_size; n = n - chunk_size in
            if in_limit s \<le> kSlopBytes then Some (None, str, s)
            else do {
              (p, s) \<leftarrow> Next s;
              case p of
                None \<Rightarrow> Some (None, str, s)
              | Some ptr \<Rightarrow>
                  let ptr = ptr + kSlopBytes; chunk_size = cast_int (buffer_end s + kSlopBytes - ptr) in
                  if n > chunk_size then AppendSize Next ptr n chunk_size str s
                  else Some (Some (ptr + n), str @ bytes_at (in_memory s) ptr n, s) } }"

definition AppendSize_start ::
  "(('z, 'a) stream \<Rightarrow> (address option \<times> ('z, 'a) stream) option) \<Rightarrow>
     address \<Rightarrow> int \<Rightarrow> string \<Rightarrow> ('z, 'a) stream \<Rightarrow> (address option \<times> string \<times> ('z, 'a) stream) option" where
  "AppendSize_start Next ptr n str s =
     AppendSize Next ptr n (cast_int (buffer_end s + kSlopBytes - ptr)) str s"

partial_function (option) append_chunks ::
  "(('z, 'a) stream \<Rightarrow> (address option \<times> ('z, 'a) stream) option) \<Rightarrow>
     address \<Rightarrow> string \<Rightarrow> ('z, 'a) stream \<Rightarrow> (address option \<times> string \<times> ('z, 'a) stream) option" where
  "append_chunks Next ptr str s =
     (if in_limit s > kSlopBytes then
        let str = str @ bytes_at (in_memory s) ptr (buffer_end s + kSlopBytes - ptr) in
        do { (p, s) \<leftarrow> Next s;
             case p of
               None \<Rightarrow> Some (Some (limit_end s), str, s)
             | Some ptr \<Rightarrow> append_chunks Next (ptr + kSlopBytes) str s }
      else
        let stop = buffer_end s + in_limit s in
        do { assure (stop \<ge> ptr); Some (Some stop, str @ bytes_at (in_memory s) ptr (stop - ptr), s) })"

definition AppendUntilEnd ::
  "(('z, 'a) stream \<Rightarrow> (address option \<times> ('z, 'a) stream) option) \<Rightarrow>
     address \<Rightarrow> string \<Rightarrow> ('z, 'a) stream \<Rightarrow> (address option \<times> string \<times> ('z, 'a) stream) option" where
  "AppendUntilEnd Next ptr str s =
     (if ptr - buffer_end s > in_limit s then Some (None, str, s) else append_chunks Next ptr str s)"

subsection \<open>The end of a limit or of the stream\<close>

definition DoneWithCheck ::
  "(int \<Rightarrow> int \<Rightarrow> ('z, 'a) stream \<Rightarrow> (address option \<times> bool \<times> ('z, 'a) stream) option) \<Rightarrow>
     address \<Rightarrow> int \<Rightarrow> ('z, 'a) stream \<Rightarrow> (address option \<times> bool \<times> ('z, 'a) stream) option" where
  "DoneWithCheck DoneFallback ptr d s =
     (if ptr < limit_end s then Some (Some ptr, False, s)
      else
        let overrun = cast_int (ptr - buffer_end s) in
        do { assure (overrun \<le> kSlopBytes);
             if overrun = in_limit s
             then Some (if overrun > 0 \<and> next_chunk s = None then None else Some ptr, True, s)
             else DoneFallback overrun d s })"

definition store_bytes :: "memory \<Rightarrow> address \<Rightarrow> address \<Rightarrow> int \<Rightarrow> memory" where
  "store_bytes M target source n =
     (\<lambda>a. if target \<le> int a \<and> int a < target + n then M (nat (source + (int a - target))) else M a)"

text \<open>\<open>InitFrom\<close> of a view of memory, at \<open>data\<close> with a size; and of a stream with a limit.\<close>

definition InitFrom :: "address \<Rightarrow> int \<Rightarrow> ('z, 'a) stream \<Rightarrow> address \<times> ('z, 'a) stream" where
  "InitFrom data n s =
     (let s = s\<lparr>overall_limit := 0\<rparr> in
      if n > kSlopBytes then
        let s = s\<lparr>in_limit := kSlopBytes, limit_end := data + n - kSlopBytes, buffer_end := data + n - kSlopBytes,
                  next_chunk := Some (patch_buffer s)\<rparr>
        in (data, if aliasing s = kOnPatch then s\<lparr>aliasing := kNoDelta\<rparr> else s)
      else
        let s = (if n \<noteq> 0 then s\<lparr>in_memory := store_bytes (in_memory s) (patch_buffer s) data n\<rparr> else s);
            s = s\<lparr>in_limit := 0, limit_end := patch_buffer s + n, buffer_end := patch_buffer s + n, next_chunk := None\<rparr>
        in (patch_buffer s, if aliasing s = kOnPatch then s\<lparr>aliasing := of_int (data - patch_buffer s)\<rparr> else s))"

definition InitFrom_limited ::
  "(('z, 'a) stream \<Rightarrow> address \<times> ('z, 'a) stream) \<Rightarrow> int \<Rightarrow> ('z, 'a) stream \<Rightarrow> (address \<times> ('z, 'a) stream) option" where
  "InitFrom_limited InitFromStream limit s =
     (if limit = -1 then Some (InitFromStream s)
      else
        let (res, s) = InitFromStream (s\<lparr>overall_limit := limit\<rparr>) in
        do { limit \<leftarrow> int32 (limit - cast_int (buffer_end s - res));
             Some (res, s\<lparr>in_limit := limit, limit_end := buffer_end s + min 0 limit\<rparr>) })"

definition StreamNext ::
  "('z \<Rightarrow> (address \<times> int) option \<times> 'z) \<Rightarrow> ('z, 'a) stream \<Rightarrow> (address option \<times> ('z, 'a) stream) option" where
  "StreamNext zcis_Next s =
     (case zcis_Next (zcis s) of
        (None, z) \<Rightarrow> Some (None, s\<lparr>zcis := z\<rparr>)
      | (Some (data, n), z) \<Rightarrow>
          do { l \<leftarrow> int32 (overall_limit s - n);
               Some (Some data, s\<lparr>zcis := z, in_size := n, overall_limit := l\<rparr>) })"

definition StreamBackUp :: "(int \<Rightarrow> 'z \<Rightarrow> 'z) \<Rightarrow> int \<Rightarrow> ('z, 'a) stream \<Rightarrow> ('z, 'a) stream option" where
  "StreamBackUp zcis_BackUp back s =
     do { l \<leftarrow> int32 (overall_limit s + back); Some (s\<lparr>zcis := zcis_BackUp back (zcis s), overall_limit := l\<rparr>) }"

definition BackUp :: "(int \<Rightarrow> 'z \<Rightarrow> 'z) \<Rightarrow> address \<Rightarrow> ('z, 'a) stream \<Rightarrow> ('z, 'a) stream option" where
  "BackUp zcis_BackUp ptr s =
     do { assure (ptr \<le> buffer_end s + kSlopBytes);
          back \<leftarrow> (if next_chunk s = Some (patch_buffer s) then Some (cast_int (buffer_end s + kSlopBytes - ptr))
                    else int32 (in_size s + cast_int (buffer_end s - ptr)));
          if back > 0 then StreamBackUp zcis_BackUp back s else Some s }"

subsection \<open>The parse context\<close>

record 'z ParseContext = "'z EpsCopyInputStream" +
  depth :: int
  group_depth :: int

type_synonym ('z, 'b) parse_context = "('z, 'b) ParseContext_scheme"

definition TrackCorrectEnding :: "('z, 'b) parse_context \<Rightarrow> ('z, 'b) parse_context" where
  "TrackCorrectEnding c = c\<lparr>group_depth := 0\<rparr>"

definition Done ::
  "(int \<Rightarrow> int \<Rightarrow> ('z, 'b) parse_context \<Rightarrow> (address option \<times> bool \<times> ('z, 'b) parse_context) option) \<Rightarrow>
     address \<Rightarrow> ('z, 'b) parse_context \<Rightarrow> (address option \<times> bool \<times> ('z, 'b) parse_context) option" where
  "Done DoneFallback ptr c = DoneWithCheck DoneFallback ptr (group_depth c) c"

text \<open>\<open>ReadSize\<close> is given the bytes at the pointer; the size is an \<open>int\<close>.\<close>

type_synonym read_fallback = "memory \<Rightarrow> 32 word \<Rightarrow> (nat \<times> 32 word) option"

definition ReadSizeAndPushLimitAndDepthInlined ::
  "read_fallback \<Rightarrow> address \<Rightarrow> ('z, 'b) parse_context \<Rightarrow> ((address \<times> int) option \<times> ('z, 'b) parse_context) option" where
  "ReadSizeAndPushLimitAndDepthInlined ReadSizeFallback ptr c =
     (case ReadSize ReadSizeFallback (at_address (in_memory c) ptr) of
        None \<Rightarrow> Some (None, c)
      | Some (k, n) \<Rightarrow>
          if depth c \<le> 0 then Some (None, c)
          else do { (old_limit, c) \<leftarrow> PushLimit (ptr + int k) (sint n) c;
                    Some (Some (ptr + int k, old_limit), c\<lparr>depth := depth c - 1\<rparr>) })"

text \<open>A parser takes the pointer, what it parses into, and the context.\<close>

type_synonym ('m, 'c) parser = "address \<Rightarrow> 'm \<Rightarrow> 'c \<Rightarrow> (address option \<times> 'm \<times> 'c) option"

definition ParseLengthDelimitedInlined ::
  "read_fallback \<Rightarrow> ('m, ('z, 'b) parse_context) parser \<Rightarrow> ('m, ('z, 'b) parse_context) parser" where
  "ParseLengthDelimitedInlined ReadSizeFallback func ptr m c =
     do { (r, c) \<leftarrow> ReadSizeAndPushLimitAndDepthInlined ReadSizeFallback ptr c;
          case r of
            None \<Rightarrow> Some (None, m, c)
          | Some (ptr, old) \<Rightarrow>
              let old_depth = depth c in
              do { (p, m, c) \<leftarrow> func ptr m c;
                   assure (p \<noteq> None \<longrightarrow> old_depth = depth c);
                   (ok, c) \<leftarrow> PopLimit old (c\<lparr>depth := depth c + 1\<rparr>);
                   Some (if ok then p else None, m, c) } }"

definition ParseGroupInlined ::
  "32 word \<Rightarrow> ('m, ('z, 'b) parse_context) parser \<Rightarrow> ('m, ('z, 'b) parse_context) parser" where
  "ParseGroupInlined start_tag func ptr m c =
     (let c = c\<lparr>depth := depth c - 1\<rparr> in
      if depth c < 0 then Some (None, m, c)
      else
        do { g \<leftarrow> int32 (group_depth c + 1);
             let c = c\<lparr>group_depth := g\<rparr>;
             let old_depth = depth c; let old_group_depth = group_depth c;
             (p, m, c) \<leftarrow> func ptr m c;
             assure (p \<noteq> None \<longrightarrow> old_depth = depth c \<and> old_group_depth = group_depth c);
             let (ok, c) = ConsumeEndGroup start_tag (c\<lparr>group_depth := group_depth c - 1, depth := depth c + 1\<rparr>);
             Some (if ok then p else None, m, c) })"

text \<open>\<open>ParseGroup\<close> of a message is the same with the parser of the message.\<close>

definition ParseGroup ::
  "('m, ('z, 'b) parse_context) parser \<Rightarrow> 32 word \<Rightarrow> ('m, ('z, 'b) parse_context) parser" where
  "ParseGroup InternalParse tag ptr m c = ParseGroupInlined tag InternalParse ptr m c"

subsection \<open>The parse loop\<close>

text \<open>What a field parser does with the fields.\<close>

record ('m, 'c) field_parser =
  AddVarint :: "32 word \<Rightarrow> 64 word \<Rightarrow> 'm \<Rightarrow> 'm"
  AddFixed64 :: "32 word \<Rightarrow> 64 word \<Rightarrow> 'm \<Rightarrow> 'm"
  AddFixed32 :: "32 word \<Rightarrow> 64 word \<Rightarrow> 'm \<Rightarrow> 'm"
  delimited_parser :: "32 word \<Rightarrow> ('m, 'c) parser"
  group_parser :: "32 word \<Rightarrow> ('m, 'c) parser"

definition FieldParser ::
  "(memory \<Rightarrow> 32 word \<Rightarrow> (nat \<times> 64 word) option) \<Rightarrow> ('m, ('z, 'b) parse_context) field_parser \<Rightarrow> 32 word \<Rightarrow>
     ('m, ('z, 'b) parse_context) parser" where
  "FieldParser VarintParseSlow P tag ptr m c =
     (let number = drop_bit 3 tag; here = at_address (in_memory c) ptr in
      if number = 0 then Some (None, m, c)
      else if tag AND 7 = 0 then
        (case VarintParse VarintParseSlow here of
           None \<Rightarrow> Some (None, m, c)
         | Some (k, value) \<Rightarrow> Some (Some (ptr + int k), AddVarint P number value m, c))
      else if tag AND 7 = 1 then Some (Some (ptr + 8), AddFixed64 P number (UnalignedLoad 8 here) m, c)
      else if tag AND 7 = 2 then delimited_parser P number ptr m c
      else if tag AND 7 = 3 then group_parser P number ptr m c
      else if tag AND 7 = 4 then None
      else if tag AND 7 = 5 then Some (Some (ptr + 4), AddFixed32 P number (UnalignedLoad 4 here) m, c)
      else Some (None, m, c))"

partial_function (option) WireFormatParser ::
  "(int \<Rightarrow> int \<Rightarrow> ('z, 'b) parse_context \<Rightarrow> (address option \<times> bool \<times> ('z, 'b) parse_context) option) \<Rightarrow> read_fallback \<Rightarrow>
     (32 word \<Rightarrow> ('m, ('z, 'b) parse_context) parser) \<Rightarrow> ('m, ('z, 'b) parse_context) parser" where
  "WireFormatParser DoneFallback ReadTagFallback parse_field ptr m c =
     do { (p, done, c) \<leftarrow> Done DoneFallback ptr c;
          if done then Some (p, m, c)
          else case p of
            None \<Rightarrow> None
          | Some ptr \<Rightarrow>
              (case ReadTag ReadTagFallback (at_address (in_memory c) ptr) of
                 None \<Rightarrow> Some (None, m, c)
               | Some (k, tag) \<Rightarrow>
                   if tag = 0 \<or> tag AND 7 = 4 then Some (Some (ptr + int k), m, SetLastTag tag c)
                   else do { (p, m, c) \<leftarrow> parse_field tag (ptr + int k) m c;
                             case p of
                               None \<Rightarrow> Some (None, m, c)
                             | Some ptr \<Rightarrow> WireFormatParser DoneFallback ReadTagFallback parse_field ptr m c }) }"

lemma WireFormatParser_stop:
  "Done D ptr c = Some (q, True, c') \<Longrightarrow> WireFormatParser D R F ptr m c = Some (q, m, c')"
  by (subst WireFormatParser.simps) simp

lemma WireFormatParser_round:
  assumes "Done D ptr c = Some (Some p, False, c1)" "ReadTag R (at_address (in_memory c1) p) = Some (k, tag)"
    "tag \<noteq> 0" "tag AND 7 \<noteq> 4" "F tag (p + int k) m c1 = Some (Some v, m', c2)"
  shows "WireFormatParser D R F ptr m c = WireFormatParser D R F v m' c2"
  by (subst WireFormatParser.simps) (simp add: assms)

subsection \<open>Limits\<close>

definition limits_ok :: "('z, 'a) stream \<Rightarrow> bool" where
  "limits_ok s \<longleftrightarrow> limit_end s = buffer_end s + min 0 (in_limit s) \<and> - INT_MAX - 1 \<le> in_limit s"

text \<open>How far the limit is from a pointer.\<close>

definition until_limit :: "address \<Rightarrow> ('z, 'a) stream \<Rightarrow> int" where
  "until_limit ptr s = in_limit s + (buffer_end s - ptr)"

text \<open>A pointer into the buffer or its slop, at most the largest \<open>int\<close> before its end.\<close>

definition in_buffer :: "address \<Rightarrow> ('z, 'a) stream \<Rightarrow> bool" where
  "in_buffer ptr s \<longleftrightarrow> ptr \<le> buffer_end s + kSlopBytes \<and> buffer_end s - ptr \<le> INT_MAX"

text \<open>Pushing a limit does not overflow, and the token is negative exactly when the new limit lies behind the old.\<close>

lemma PushLimit_exact:
  assumes "in_buffer ptr s" "0 \<le> n" "n \<le> INT_MAX - kSlopBytes" "0 \<le> until_limit ptr s" "until_limit ptr s \<le> INT_MAX"
  shows "PushLimit ptr n s = Some (until_limit ptr s - n,
    s\<lparr>limit_end := buffer_end s + min 0 (n + (ptr - buffer_end s)), in_limit := n + (ptr - buffer_end s)\<rparr>)"
proof -
  have "cast_int (ptr - buffer_end s) = ptr - buffer_end s"
    using assms(1) by (intro cast_int_id) (auto simp: in_buffer_def kSlopBytes_def INT_MAX_def)
  moreover have "int32 (n + (ptr - buffer_end s)) = Some (n + (ptr - buffer_end s))"
    using assms(1-3) by (intro int32_in) (auto simp: in_buffer_def kSlopBytes_def INT_MAX_def)
  moreover have "int32 (in_limit s - (n + (ptr - buffer_end s))) = Some (until_limit ptr s - n)"
    using assms(2-5) by (auto simp: until_limit_def kSlopBytes_def INT_MAX_def)
  ultimately show ?thesis using assms(2,3) by (simp add: PushLimit_def int32_in)
qed

lemma PushLimit_SomeD:
  assumes "PushLimit ptr n s = Some (t, s')"
  shows "limits_ok s'" "t = in_limit s - in_limit s'" "0 \<le> n" "s' = s\<lparr>limit_end := limit_end s', in_limit := in_limit s'\<rparr>"
    "in_limit s' = n + cast_int (ptr - buffer_end s)"
  using assms by (auto simp: PushLimit_def limits_ok_def bind_eq_Some_conv Let_def)

lemma PopLimit_SomeD:
  assumes "PopLimit t s = Some (b, s')"
  shows "in_limit s' = in_limit s + t" "b \<longleftrightarrow> EndedAtLimit s" "b \<Longrightarrow> limits_ok s'"
    "s' = s\<lparr>limit_end := limit_end s', in_limit := in_limit s'\<rparr>"
  using assms by (auto simp: PopLimit_def limits_ok_def EndedAtLimit_def bind_eq_Some_conv Let_def split: if_splits)

lemma BytesUntilLimit_exact:
  assumes "in_buffer ptr s" "0 \<le> until_limit ptr s" "until_limit ptr s \<le> INT_MAX"
  shows "BytesUntilLimit ptr s = Some (until_limit ptr s)"
proof -
  have "cast_int (buffer_end s - ptr) = buffer_end s - ptr"
    using assms(1) by (intro cast_int_id) (auto simp: in_buffer_def kSlopBytes_def INT_MAX_def)
  then show ?thesis using assms(2,3) by (auto simp: BytesUntilLimit_def until_limit_def INT_MAX_def)
qed

lemma InitFrom_limits: "InitFrom data n s = (p, s') \<Longrightarrow> 0 \<le> n \<Longrightarrow> limits_ok s' \<and> until_limit p s' = n \<and> p \<le> buffer_end s'"
  by (auto simp: InitFrom_def limits_ok_def until_limit_def kSlopBytes_def INT_MAX_def Let_def split: if_splits)

subsection \<open>Fields are read exactly\<close>

text \<open>
  What is relied on of a change of the buffer: it is somewhere in the stream, told by a function of the context;
  it keeps the place of the limit, the depths and, when the limit is not reached, the place of the pointer; when
  it reports the end without an error, it is the end of the stream that was reached.
\<close>

definition same_place :: "(('z, 'b) parse_context \<Rightarrow> int) \<Rightarrow> ('z, 'b) parse_context \<Rightarrow> ('z, 'b) parse_context \<Rightarrow> bool" where
  "same_place pos c c' \<longleftrightarrow> pos c' + in_limit c' = pos c + in_limit c \<and> depth c' = depth c \<and> group_depth c' = group_depth c"

definition place :: "(('z, 'b) parse_context \<Rightarrow> int) \<Rightarrow> address \<Rightarrow> ('z, 'b) parse_context \<Rightarrow> int" where
  "place pos ptr c = pos c + (ptr - buffer_end c)"

text \<open>
  Between fields no tag is left over. A field parser, which starts at most a tag into the slop, is between fields
  again when it returns; a message parser that returns without a left-over tag is exactly at its limit. Neither
  leaves the slop.
\<close>

definition in_slop :: "int \<Rightarrow> address \<Rightarrow> ('z, 'b) parse_context \<Rightarrow> bool" where
  "in_slop n ptr c \<longleftrightarrow> ptr \<le> buffer_end c + n \<and> buffer_end c - ptr \<le> INT_MAX"

definition steady :: "(('z, 'b) parse_context \<Rightarrow> int) \<Rightarrow> ('m, ('z, 'b) parse_context) parser \<Rightarrow> bool" where
  "steady pos f \<longleftrightarrow>
     (\<forall>ptr m c p m' c'. f ptr m c = Some (Some p, m', c') \<and> limits_ok c \<and> EndedAtLimit c \<and> in_slop 5 ptr c \<longrightarrow>
        same_place pos c c' \<and> limits_ok c' \<and> EndedAtLimit c' \<and> in_slop kSlopBytes p c')"

definition exact :: "(('z, 'b) parse_context \<Rightarrow> int) \<Rightarrow> ('m, ('z, 'b) parse_context) parser \<Rightarrow> bool" where
  "exact pos f \<longleftrightarrow>
     (\<forall>ptr m c p m' c'. f ptr m c = Some (Some p, m', c') \<and> limits_ok c \<and> EndedAtLimit c \<and> in_slop kSlopBytes ptr c \<longrightarrow>
        same_place pos c c' \<and> limits_ok c' \<and> in_slop kSlopBytes p c' \<and> (EndedAtLimit c' \<longrightarrow> p - buffer_end c' = in_limit c'))"

locale buffer_change =
  fixes DoneFallback :: "int \<Rightarrow> int \<Rightarrow> ('z, 'b) parse_context \<Rightarrow> (address option \<times> bool \<times> ('z, 'b) parse_context) option"
    and pos :: "('z, 'b) parse_context \<Rightarrow> int"
  assumes pos_limits: "pos (c\<lparr>limit_end := e, in_limit := l\<rparr>) = pos c"
    and pos_depths: "pos (c\<lparr>depth := d\<rparr>) = pos c" "pos (c\<lparr>group_depth := d\<rparr>) = pos c" "pos (c\<lparr>last_tag_minus_1 := t\<rparr>) = pos c"
    and same: "DoneFallback overrun d c = Some (Some p, b, c') \<Longrightarrow> limits_ok c \<Longrightarrow> overrun \<le> kSlopBytes \<Longrightarrow>
      same_place pos c c' \<and> limits_ok c' \<and> in_slop kSlopBytes p c' \<and> place pos p c' = pos c + overrun"
    and further: "DoneFallback overrun d c = Some (q, False, c') \<Longrightarrow>
      \<exists>p. q = Some p \<and> p < limit_end c' \<and> last_tag_minus_1 c' = last_tag_minus_1 c"
    and over: "DoneFallback overrun d c = Some (Some p, True, c') \<Longrightarrow> EndedAtEndOfStream c'"
begin

lemma pos_limit: "pos (c\<lparr>in_limit := l\<rparr>) = pos c" "pos (c\<lparr>limit_end := e\<rparr>) = pos c"
  using pos_limits [where c = c and e = "limit_end c" and l = l] pos_limits [where c = c and e = e and l = "in_limit c"] by simp_all

lemmas pos_simps [simp] = pos_limits pos_limit pos_depths

lemma Done_same:
  assumes "Done DoneFallback ptr c = Some (q, b, c')" "limits_ok c" "in_slop kSlopBytes ptr c"
  shows "q = Some p \<Longrightarrow> same_place pos c c' \<and> limits_ok c' \<and> in_slop kSlopBytes p c' \<and> place pos p c' = place pos ptr c"
    "\<not> b \<Longrightarrow> \<exists>p. q = Some p \<and> p < limit_end c' \<and> last_tag_minus_1 c' = last_tag_minus_1 c"
    "q = Some p \<Longrightarrow> b \<Longrightarrow> EndedAtLimit c' \<Longrightarrow> p - buffer_end c' = in_limit c'"
proof -
  have i: "cast_int (ptr - buffer_end c) = ptr - buffer_end c" if "\<not> ptr < limit_end c"
    using that assms(2,3) by (intro cast_int_id) (auto simp: limits_ok_def in_slop_def kSlopBytes_def INT_MAX_def min_def split: if_splits)
  consider (inside) "ptr < limit_end c" "q = Some ptr" "\<not> b" "c' = c"
    | (limit) "ptr - buffer_end c = in_limit c" "q = Some ptr \<or> q = None" "b" "c' = c"
    | (flip) "DoneFallback (ptr - buffer_end c) (group_depth c) c = Some (q, b, c')"
  proof (cases "ptr < limit_end c")
    case True
    then show ?thesis by (intro inside) (use assms(1) in \<open>simp_all add: Done_def DoneWithCheck_def\<close>)
  next
    case False
    then have "(if ptr - buffer_end c = in_limit c
        then Some (if ptr - buffer_end c > 0 \<and> next_chunk c = None then None else Some ptr, True, c)
        else DoneFallback (ptr - buffer_end c) (group_depth c) c) = Some (q, b, c')"
      using assms(1) i [OF False] by (simp add: Done_def DoneWithCheck_def Let_def bind_eq_Some_conv)
    note d = this
    show ?thesis
    proof (cases "ptr - buffer_end c = in_limit c")
      case True
      then show ?thesis by (intro limit) (use d in \<open>simp_all split: if_splits\<close>)
    next
      case False
      then show ?thesis by (intro flip) (use d in simp)
    qed
  qed
  then have "(q = Some p \<longrightarrow> same_place pos c c' \<and> limits_ok c' \<and> in_slop kSlopBytes p c' \<and> place pos p c' = place pos ptr c) \<and>
    (\<not> b \<longrightarrow> (\<exists>p. q = Some p \<and> p < limit_end c' \<and> last_tag_minus_1 c' = last_tag_minus_1 c)) \<and>
    (q = Some p \<longrightarrow> b \<longrightarrow> EndedAtLimit c' \<longrightarrow> p - buffer_end c' = in_limit c')"
  proof cases
    case flip
    have "q = Some p \<Longrightarrow> b \<Longrightarrow> \<not> EndedAtLimit c'" using over flip by (auto simp: EndedAtLimit_def EndedAtEndOfStream_def)
    moreover have "q = Some p \<Longrightarrow> same_place pos c c' \<and> limits_ok c' \<and> in_slop kSlopBytes p c' \<and> place pos p c' = place pos ptr c"
      using same [of "ptr - buffer_end c" "group_depth c" c p b c'] flip assms(2,3) by (simp add: place_def in_slop_def)
    moreover have "\<not> b \<Longrightarrow> \<exists>p. q = Some p \<and> p < limit_end c' \<and> last_tag_minus_1 c' = last_tag_minus_1 c"
      using further flip by simp
    ultimately show ?thesis by blast
  qed (use assms(2,3) in \<open>auto simp: same_place_def\<close>)
  then show "q = Some p \<Longrightarrow> same_place pos c c' \<and> limits_ok c' \<and> in_slop kSlopBytes p c' \<and> place pos p c' = place pos ptr c"
    "\<not> b \<Longrightarrow> \<exists>p. q = Some p \<and> p < limit_end c' \<and> last_tag_minus_1 c' = last_tag_minus_1 c"
    "q = Some p \<Longrightarrow> b \<Longrightarrow> EndedAtLimit c' \<Longrightarrow> p - buffer_end c' = in_limit c'" by blast+
qed

end

lemma varint_read_bound: "varint_read m p = Some (k, v) \<Longrightarrow> 0 < k \<and> k \<le> m"
  using varint_length_SomeD [of m p] by (auto simp: varint_read_def)

lemma same_place_trans: "same_place pos c d \<Longrightarrow> same_place pos d e \<Longrightarrow> same_place pos c e"
  by (simp add: same_place_def)

locale parse_library =
  buffer_change DoneFallback pos + varint_library ReadTagFallback ReadSizeFallback VarintParseSlow32 VarintParseSlow64
  for DoneFallback :: "int \<Rightarrow> int \<Rightarrow> ('z, 'b) parse_context \<Rightarrow> (address option \<times> bool \<times> ('z, 'b) parse_context) option"
    and pos ReadTagFallback ReadSizeFallback VarintParseSlow32 VarintParseSlow64
begin

lemma FieldParser_steady:
  assumes "\<forall>n. steady pos (delimited_parser P n)" "\<forall>n. steady pos (group_parser P n)"
  shows "steady pos (FieldParser VarintParseSlow64 P tag)"
  unfolding steady_def
proof (intro allI impI, elim conjE)
  fix ptr m c p m' c'
  assume f: "FieldParser VarintParseSlow64 P tag ptr m c = Some (Some p, m', c')"
    and c: "limits_ok c" "EndedAtLimit c" "in_slop 5 ptr c"
  let ?n = "drop_bit 3 tag"
  consider (number) k where "c' = c" "p = ptr + int k" "k \<le> 10"
    | (delimited) "delimited_parser P ?n ptr m c = Some (Some p, m', c')"
    | (group) "group_parser P ?n ptr m c = Some (Some p, m', c')"
  proof -
    have "VarintParse VarintParseSlow64 q = Some (k, v) \<Longrightarrow> k \<le> 10" for q k v
      using varint_read_bound unfolding VarintParse_read by blast
    then show ?thesis
      using f number [of 8] number [of 4] number delimited group
      by (auto simp: FieldParser_def Let_def split: if_splits option.splits)
  qed
  then show "same_place pos c c' \<and> limits_ok c' \<and> EndedAtLimit c' \<and> in_slop kSlopBytes p c'"
  proof cases
    case number
    then show ?thesis using c by (simp add: same_place_def in_slop_def kSlopBytes_def)
  next
    case delimited
    then show ?thesis using assms(1) c unfolding steady_def by blast
  next
    case group
    then show ?thesis using assms(2) c unfolding steady_def by blast
  qed
qed

text \<open>One round of the loop.\<close>

lemma round_exact:
  assumes D: "Done DoneFallback ptr c = Some (q, b, c1)" and c: "limits_ok c" "EndedAtLimit c" "in_slop kSlopBytes ptr c"
    and more: "\<not> b" "q = Some p" and tag: "ReadTag ReadTagFallback M = Some (k, tag)"
  shows "same_place pos c c1" "limits_ok c1" "EndedAtLimit c1" "in_slop 5 (p + int k) c1"
proof -
  note d = Done_same [OF D c(1,3)]
  have "p < limit_end c1" "last_tag_minus_1 c1 = last_tag_minus_1 c" using d(2) [OF more(1)] more(2) by auto
  moreover show l: "same_place pos c c1" "limits_ok c1" using d(1) [OF more(2)] by simp_all
  moreover have "in_slop kSlopBytes p c1" using d(1) [OF more(2)] by simp
  moreover have "k \<le> 5" using tag varint_read_bound [of 5 M] by (auto simp: ReadTag_read read_tag_def)
  ultimately show "EndedAtLimit c1" "in_slop 5 (p + int k) c1"
    using c(2) by (auto simp: EndedAtLimit_def in_slop_def limits_ok_def)
qed

lemma WireFormatParser_exact:
  fixes F :: "32 word \<Rightarrow> ('m, ('z, 'b) parse_context) parser"
  assumes F: "\<forall>tag. steady pos (F tag)"
  shows "exact pos (WireFormatParser DoneFallback ReadTagFallback F)"
proof -
  let ?start = "\<lambda>ptr c. limits_ok c \<and> EndedAtLimit c \<and> in_slop kSlopBytes ptr c"
  let ?stop = "\<lambda>c p c'. same_place pos c c' \<and> limits_ok c' \<and> in_slop kSlopBytes p c' \<and> (EndedAtLimit c' \<longrightarrow> p - buffer_end c' = in_limit c')"
  have "D = DoneFallback \<longrightarrow> R = ReadTagFallback \<longrightarrow> G = F \<longrightarrow> ?start ptr c \<longrightarrow> (\<forall>p m' c'. r = (Some p, m', c') \<longrightarrow> ?stop c p c')"
    if "WireFormatParser D R G ptr m c = Some r" for D R G ptr m c r
  proof (rule WireFormatParser.raw_induct [where P = "\<lambda>D R G ptr m c r. D = DoneFallback \<longrightarrow> R = ReadTagFallback \<longrightarrow> G = F \<longrightarrow>
      ?start ptr c \<longrightarrow> (\<forall>p m' c'. r = (Some p, m', c') \<longrightarrow> ?stop c p c')", OF _ that], intro impI allI, elim conjE)
    fix loop D R G ptr and m :: 'm and c r p m' c'
    assume IH: "\<And>D R G ptr (m :: 'm) c r. loop D R G ptr m c = Some r \<Longrightarrow>
        D = DoneFallback \<longrightarrow> R = ReadTagFallback \<longrightarrow> G = F \<longrightarrow> ?start ptr c \<longrightarrow> (\<forall>p m' c'. r = (Some p, m', c') \<longrightarrow> ?stop c p c')"
      and body: "Done D ptr c \<bind>
        (\<lambda>(p, done, c). if done then Some (p, m, c)
          else case p of None \<Rightarrow> None | Some ptr \<Rightarrow>
              (case ReadTag R (at_address (in_memory c) ptr) of None \<Rightarrow> Some (None, m, c)
               | Some (k, tag) \<Rightarrow>
                   if tag = 0 \<or> tag AND 7 = 4 then Some (Some (ptr + int k), m, SetLastTag tag c)
                   else G tag (ptr + int k) m c \<bind>
                        (\<lambda>(p, m, c). case p of None \<Rightarrow> Some (None, m, c) | Some ptr \<Rightarrow> loop D R G ptr m c))) = Some r"
      and e: "D = DoneFallback" "R = ReadTagFallback" "G = F" "r = (Some p, m', c')"
      and c: "limits_ok c" "EndedAtLimit c" "in_slop kSlopBytes ptr c"
    obtain q b c1 where D: "Done DoneFallback ptr c = Some (q, b, c1)" using body e by (auto simp: bind_eq_Some_conv)
    note d = Done_same [OF D c(1,3)]
    show "?stop c p c'"
    proof (cases b)
      case True
      then show ?thesis using body D e d(1,3) by auto
    next
      case False
      then obtain u where u: "q = Some u" using d(2) by blast
      then obtain k tag where t: "ReadTag ReadTagFallback (at_address (in_memory c1) u) = Some (k, tag)"
        using body D e False by (auto split: option.splits)
      note s = round_exact [OF D c False u t]
      show ?thesis
      proof (cases "tag = 0 \<or> tag AND 7 = 4")
        case True
        then have "p = u + int k" "c' = SetLastTag tag c1" using body D e False u t by simp_all
        moreover have "tag - 1 \<noteq> 0" using True by auto
        ultimately show ?thesis
          using s by (simp add: same_place_def limits_ok_def in_slop_def SetLastTag_def EndedAtLimit_def kSlopBytes_def)
      next
        case more: False
        obtain v m2 c2 where f: "F tag (u + int k) m c1 = Some (Some v, m2, c2)" "loop D R G v m2 c2 = Some r"
          using body D e False u t more by (auto simp: bind_eq_Some_conv split: option.splits)
        then have c2: "same_place pos c1 c2" "limits_ok c2" "EndedAtLimit c2" "in_slop kSlopBytes v c2"
          using F s(2-4) unfolding steady_def by blast+
        have "?stop c2 p c'" using IH [OF f(2)] e c2(2-4) by blast
        then show ?thesis using same_place_trans s(1) c2(1) by blast
      qed
    qed
  qed
  then show ?thesis unfolding exact_def by blast
qed

text \<open>A length-delimited field: when it is read, the pointer is behind its prefix and its bytes, and the limit and
  the depth are as before.\<close>

lemma delimited_exact:
  assumes f: "exact pos f" and r: "ParseLengthDelimitedInlined ReadSizeFallback f ptr m c = Some (Some p, m', c')"
    and c: "limits_ok c" "EndedAtLimit c" "in_slop 5 ptr c"
  obtains k n where "read_size (at_address (in_memory c) ptr) = Some (k, n)" "place pos p c' = place pos ptr c + int k + sint n"
    "same_place pos c c'" "limits_ok c'" "EndedAtLimit c'" "in_slop kSlopBytes p c'" "0 < depth c"
proof -
  obtain k n where n: "read_size (at_address (in_memory c) ptr) = Some (k, n)" "0 < depth c"
    using r by (auto simp: ParseLengthDelimitedInlined_def ReadSizeAndPushLimitAndDepthInlined_def ReadSize_read
        bind_eq_Some_conv split: option.splits if_splits)
  then obtain t c1 c2 ok where
    p: "PushLimit (ptr + int k) (sint n) c = Some (t, c1)" and
    f1: "f (ptr + int k) m (c1\<lparr>depth := depth c1 - 1\<rparr>) = Some (Some p, m', c2)" "depth c1 - 1 = depth c2" and
    q: "PopLimit t (c2\<lparr>depth := depth c2 + 1\<rparr>) = Some (True, c')"
    using r by (auto simp: ParseLengthDelimitedInlined_def ReadSizeAndPushLimitAndDepthInlined_def ReadSize_read Let_def
        bind_eq_Some_conv split: option.splits if_splits)
  let ?d = "c1\<lparr>depth := depth c1 - 1\<rparr>"
  have k: "k \<le> 5" using n(1) varint_read_bound [of 5] by (auto simp: read_size_def split: option.splits if_splits)
  note u = PushLimit_SomeD [OF p] and v = PopLimit_SomeD [OF q]
  have b: "buffer_end c1 = buffer_end c" "depth c1 = depth c" "group_depth c1 = group_depth c"
    "last_tag_minus_1 c1 = last_tag_minus_1 c" "pos c1 = pos c"
    using pos_limits [where c = c and e = "limit_end c1" and l = "in_limit c1"] by (subst u(4); simp)+
  have w: "in_limit c1 = sint n + (ptr + int k - buffer_end c)"
    using u(5) cast_int_id [of "ptr + int k - buffer_end c"] k c(3) by (simp add: in_slop_def INT_MAX_def)
  have "limits_ok ?d" "EndedAtLimit ?d" "in_slop kSlopBytes (ptr + int k) ?d"
    using u(1) c k b by (simp_all add: limits_ok_def EndedAtLimit_def in_slop_def kSlopBytes_def)
  then have e: "same_place pos ?d c2" "in_slop kSlopBytes p c2" "EndedAtLimit c2 \<Longrightarrow> p - buffer_end c2 = in_limit c2"
    using f f1(1) unfolding exact_def by blast+
  have b': "buffer_end c' = buffer_end c2" "depth c' = depth c2 + 1" "group_depth c' = group_depth c2"
    "last_tag_minus_1 c' = last_tag_minus_1 c2" "pos c' = pos c2"
    by (subst v(4); simp)+
  have l: "EndedAtLimit c2" "limits_ok c'" using v(2,3) by (simp_all add: EndedAtLimit_def)
  have "place pos p c' = place pos ptr c + int k + sint n" "same_place pos c c'"
    using e(1) e(3) [OF l(1)] u(2) v(1) w b b' by (simp_all add: place_def same_place_def)
  then show ?thesis using that n l e(2) b' by (simp add: EndedAtLimit_def in_slop_def)
qed

lemma ParseLengthDelimited_steady: "exact pos f \<Longrightarrow> steady pos (ParseLengthDelimitedInlined ReadSizeFallback f)"
  unfolding steady_def by (metis delimited_exact)

lemma ParseGroup_steady:
  assumes f: "exact pos f"
  shows "steady pos (ParseGroupInlined tag f)"
  unfolding steady_def
proof (intro allI impI, elim conjE)
  fix ptr m c p m' c'
  assume r: "ParseGroupInlined tag f ptr m c = Some (Some p, m', c')"
    and c: "limits_ok c" "EndedAtLimit c" "in_slop 5 ptr c"
  let ?d = "c\<lparr>depth := depth c - 1, group_depth := group_depth c + 1\<rparr>"
  obtain c2 where f1: "f ptr m ?d = Some (Some p, m', c2)" "depth c - 1 = depth c2" "group_depth c + 1 = group_depth c2"
      "c' = c2\<lparr>group_depth := group_depth c2 - 1, depth := depth c2 + 1, last_tag_minus_1 := 0\<rparr>"
    using r by (auto simp: ParseGroupInlined_def ConsumeEndGroup_def Let_def bind_eq_Some_conv split: if_splits)
  have "limits_ok ?d" "EndedAtLimit ?d" "in_slop kSlopBytes ptr ?d"
    using c by (simp_all add: limits_ok_def EndedAtLimit_def in_slop_def kSlopBytes_def)
  then have "same_place pos ?d c2" "limits_ok c2" "in_slop kSlopBytes p c2"
    using f f1(1) unfolding exact_def by blast+
  then show "same_place pos c c' \<and> limits_ok c' \<and> EndedAtLimit c' \<and> in_slop kSlopBytes p c'"
    unfolding f1(4) by (simp add: same_place_def limits_ok_def EndedAtLimit_def in_slop_def)
qed

end

subsection \<open>A change of the buffer\<close>

text \<open>
  A view of \<open>n\<close> bytes that \<open>InitFrom\<close> was given: after the first buffer its slop is parsed from the patch buffer,
  after that there is no more.
\<close>

definition view_pos :: "int \<Rightarrow> ('z, 'b) parse_context \<Rightarrow> int" where
  "view_pos n c = (if next_chunk c = None then n else n - kSlopBytes)"

definition to_patch_buffer :: "('z, 'b) parse_context \<Rightarrow> ('z, 'b) parse_context" where
  "to_patch_buffer c =
     c\<lparr>in_memory := store_bytes (in_memory c) (patch_buffer c) (buffer_end c) kSlopBytes, next_chunk := None,
       buffer_end := patch_buffer c + kSlopBytes, in_limit := in_limit c - kSlopBytes,
       limit_end := patch_buffer c + kSlopBytes + min 0 (in_limit c - kSlopBytes)\<rparr>"

definition view_DoneFallback ::
  "int \<Rightarrow> int \<Rightarrow> ('z, 'b) parse_context \<Rightarrow> (address option \<times> bool \<times> ('z, 'b) parse_context) option" where
  "view_DoneFallback overrun d c =
     (if overrun < 0 \<or> overrun \<ge> in_limit c then Some (None, True, c)
      else if next_chunk c = None
      then if overrun = 0 then Some (Some (buffer_end c), True, SetEndOfStream c) else Some (None, True, c)
      else
        let c = to_patch_buffer c in
        if overrun < kSlopBytes then Some (Some (patch_buffer c + overrun), False, c)
        else Some (Some (buffer_end c), True, SetEndOfStream c))"

interpretation viewed: parse_library view_DoneFallback "view_pos n" "\<lambda>p _. ReadTagInlined p" inline_size
    "\<lambda>p _. VarintParse_arm VarintParseSlowArm32 p" "\<lambda>p _. ParseBigVarint p" for n :: int
proof (intro parse_library.intro inlined.varint_library_axioms buffer_change.intro)
  fix overrun d p b and c c' :: "('z, 'b) parse_context"
  assume r: "view_DoneFallback overrun d c = Some (Some p, b, c')" and c: "limits_ok c" "overrun \<le> kSlopBytes"
  then show "same_place (view_pos n) c c' \<and> limits_ok c' \<and> in_slop kSlopBytes p c' \<and> place (view_pos n) p c' = view_pos n c + overrun"
    by (auto simp: view_DoneFallback_def to_patch_buffer_def SetEndOfStream_def same_place_def limits_ok_def in_slop_def
        place_def view_pos_def kSlopBytes_def INT_MAX_def Let_def split: if_splits)
next
  fix overrun d q and c c' :: "('z, 'b) parse_context"
  assume "view_DoneFallback overrun d c = Some (q, False, c')"
  then show "\<exists>p. q = Some p \<and> p < limit_end c' \<and> last_tag_minus_1 c' = last_tag_minus_1 c"
    by (auto simp: view_DoneFallback_def to_patch_buffer_def SetEndOfStream_def kSlopBytes_def Let_def split: if_splits)
next
  fix overrun d p and c c' :: "('z, 'b) parse_context"
  assume "view_DoneFallback overrun d c = Some (Some p, True, c')"
  then show "EndedAtEndOfStream c'"
    by (auto simp: view_DoneFallback_def SetEndOfStream_def EndedAtEndOfStream_def Let_def split: if_splits)
qed (simp_all add: view_pos_def)

text \<open>\<open>InitFrom\<close> starts at the beginning of the view.\<close>

lemma InitFrom_place:
  "InitFrom data n c = (p, c') \<Longrightarrow> 0 \<le> n \<Longrightarrow> n \<le> INT_MAX \<Longrightarrow> place (view_pos n) p c' = 0 \<and> limits_ok c' \<and> in_slop 0 p c'"
  by (auto simp: InitFrom_def place_def view_pos_def limits_ok_def in_slop_def kSlopBytes_def INT_MAX_def Let_def split: if_splits)

end
