(* ===== verification/ScalarFields.thy ===== *)
theory ScalarFields
  imports InputStream
begin

text \<open>
  Fields of numbers: the writers of \<open>wire_format_lite.h\<close> and \<open>coded_stream.h\<close> behind them, the sizes that are computed
  before writing, and what \<open>FieldParser\<close> reads. Signed integers are words read by \<open>sint\<close>; a writer is
  the bytes it appends. Floating point, which is copied bit by bit, is left out.
\<close>

subsection \<open>Leading zeros of 64 bits\<close>

text \<open>\<open>CountLeadingZeroes64\<close>, the portable branch.\<close>

definition CountLeadingZeroes64 :: "64 word \<Rightarrow> nat" where
  "CountLeadingZeroes64 x =
     (case clz_halve 4 (clz_halve 8 (clz_halve 16 (clz_halve 32 (60, x)))) of (zeroes, y) \<Rightarrow>
        clz_table ! unat y + zeroes)"

definition CountLeadingZeroes16 :: "16 word \<Rightarrow> nat" where
  "CountLeadingZeroes16 x = countl_zero (ucast x) - 16"

lemma CountLeadingZeroes64_correct: "leading_zeros 64 (unat x) (CountLeadingZeroes64 x)"
proof -
  have "unat x < 2 ^ 64" using unsigned_less [of x] by simp
  then have "clz_inv 64 (unat x) (32 + 32) (60, x)" by (simp add: clz_inv_def)
  then have "clz_inv 64 (unat x) (16 + 16) (clz_halve 32 (60, x))"
    using clz_inv_halve by fastforce
  then have "clz_inv 64 (unat x) (8 + 8) (clz_halve 16 (clz_halve 32 (60, x)))"
    using clz_inv_halve by fastforce
  then have "clz_inv 64 (unat x) (4 + 4) (clz_halve 8 (clz_halve 16 (clz_halve 32 (60, x))))"
    using clz_inv_halve by fastforce
  then have "clz_inv 64 (unat x) 4 (clz_halve 4 (clz_halve 8 (clz_halve 16 (clz_halve 32 (60, x)))))"
    using clz_inv_halve by fastforce
  then show ?thesis
    using leading_zeros_table by (auto simp: clz_inv_def CountLeadingZeroes64_def add.commute split: prod.splits)
qed

lemma CountLeadingZeroes16_correct: "leading_zeros 16 (unat x) (CountLeadingZeroes16 x)"
proof -
  have x: "unat x < 2 ^ 16" using unsigned_less [of x] by simp
  then have u: "unat (ucast x :: 32 word) = unat x" by (simp add: unsigned_ucast_eq take_bit_nat_eq_self)
  have c: "leading_zeros 32 (unat x) (countl_zero (ucast x))" using countl_zero_correct [of "ucast x"] unfolding u .
  then have "16 \<le> countl_zero (ucast x :: 32 word)" using leading_zeros_less [OF c, of 16] x by simp
  then show ?thesis using c x by (auto simp: leading_zeros_def CountLeadingZeroes16_def Suc_diff_le)
qed

subsection \<open>Varints of 64 bits\<close>

function UnsafeVarint64 :: "64 word \<Rightarrow> string" where
  "UnsafeVarint64 value =
     (if value \<ge> 0x80
      then char_of (unat (value OR 0x80)) # UnsafeVarint64 (drop_bit 7 value)
      else [char_of (unat value)])"
  by pat_completeness auto

termination UnsafeVarint64
proof (relation "measure unat")
  fix v :: "64 word"
  assume "v \<ge> 0x80"
  then have "128 \<le> unat v" by (simp add: word_le_nat_alt)
  then show "(drop_bit 7 v, v) \<in> measure unat" by (simp only: in_measure unat_drop_bit_div) simp
qed simp

declare UnsafeVarint64.simps [simp del]

lemma UnsafeVarint64_varint: "UnsafeVarint64 v = varint (unat v)"
proof (induction v rule: UnsafeVarint64.induct)
  case (1 v)
  show ?case
  proof (cases "v \<ge> 0x80")
    case True
    have "char_of (unat (v OR 0x80)) = (char_of (128 + unat v mod 128) :: char)"
      using or_128_mod_256 [of "unat v"] char_of_mod_256 [of "unat v OR 128"]
      by (simp add: unsigned_or_eq)
    moreover have "UnsafeVarint64 (drop_bit 7 v) = varint (unat v div 128)"
      using 1 True unat_drop_bit_div [of 7 v] by simp
    moreover have "128 \<le> unat v" using True by (simp add: word_le_nat_alt)
    ultimately show ?thesis using True UnsafeVarint64.simps [of v] varint.simps [of "unat v"] by simp
  next
    case False
    then have "\<not> 128 \<le> unat v" by (simp add: word_le_nat_alt)
    then show ?thesis using False UnsafeVarint64.simps [of v] varint.simps [of "unat v"] by simp
  qed
qed

lemma length_varint_le: "length (varint n) \<le> Suc k \<longleftrightarrow> n < 2 ^ (7 * Suc k)"
proof (induction k arbitrary: n)
  case 0
  have "varint (n div 128) \<noteq> []" by (subst varint.simps) simp
  then show ?case by (simp add: varint.simps [of n])
next
  case (Suc k)
  have "(2 :: nat) ^ (7 * Suc (Suc k)) = 128 * 2 ^ (7 * Suc k)" by (simp add: power_add)
  moreover have "n < 128 * m \<longleftrightarrow> n div 128 < m" for m
    by (simp add: div_less_iff_less_mult mult.commute)
  moreover have "128 \<le> (128 :: nat) * 2 ^ (7 * Suc k)" by simp
  ultimately show ?case using Suc.IH [of "n div 128"] by (simp add: varint.simps [of n])
qed

lemma length_varint_64: "n < 2 ^ 64 \<Longrightarrow> length (varint n) \<le> 10"
proof -
  assume "n < 2 ^ 64"
  then have "n < 2 ^ (7 * Suc 9)" by simp
  then show ?thesis using length_varint_le [of n 9] by simp
qed

text \<open>\<open>CodedOutputStream::VarintSize64\<close> and its variants, in both compilations.\<close>

definition VarintSize64 :: "64 word \<Rightarrow> nat" where
  "VarintSize64 value =
     (let log2value = (64 - 1) - CountLeadingZeroes64 (value OR 0x1) in (log2value * 9 + (64 + 9)) div 64)"

definition VarintSize64_lzcnt :: "64 word \<Rightarrow> nat" where
  "VarintSize64_lzcnt value = (let clz = CountLeadingZeroes64 value in ((64 * 9 + 64) - clz * 9) div 64)"

definition VarintSize64PlusOne :: "64 word \<Rightarrow> nat" where
  "VarintSize64PlusOne value =
     (let log2value = (64 - 1) - CountLeadingZeroes64 (value OR 0x1) in (log2value * 9 + (64 + 9) + 64) div 64)"

definition VarintSize32PlusOne :: "32 word \<Rightarrow> nat" where
  "VarintSize32PlusOne value =
     (let log2value = (32 - 1) - countl_zero (value OR 0x1) in (log2value * 9 + (64 + 9) + 64) div 64)"

definition VarintSize32SignExtended :: "32 word \<Rightarrow> nat" where
  "VarintSize32SignExtended value = VarintSize64 (scast value)"

definition VarintSize32SignExtendedPlusOne :: "32 word \<Rightarrow> nat" where
  "VarintSize32SignExtendedPlusOne value = VarintSize64PlusOne (scast value)"

lemma size_formula64:
  assumes "z \<le> 64" "0 < k" "k \<le> 10"
  shows "(64 * 9 + 64 - z * 9) div 64 \<le> k \<longleftrightarrow> 64 - 7 * k \<le> (z :: nat)"
proof -
  have "\<forall>z \<in> set [0..<65]. \<forall>k \<in> set [1..<11]. ((64 * 9 + 64 - z * 9) div 64 \<le> k) = (64 - 7 * k \<le> (z :: nat))"
    by code_simp
  then show ?thesis using assms by simp
qed

lemma same_bounds:
  assumes "a \<le> 10" "b \<le> 10" "0 < a" "0 < b" "\<And>k. 0 < k \<Longrightarrow> k \<le> 10 \<Longrightarrow> a \<le> k \<longleftrightarrow> b \<le> (k :: nat)"
  shows "a = b"
  using assms(1-4) assms(5) [of a] assms(5) [of b] by simp

lemma length_by_zeros:
  assumes "leading_zeros 64 n z" "n < 2 ^ 64"
  shows "(64 * 9 + 64 - z * 9) div 64 = length (varint n)"
proof (rule same_bounds)
  have z: "z \<le> 64" using assms(1) by (simp add: leading_zeros_def)
  show "(64 * 9 + 64 - z * 9) div 64 \<le> 10" "0 < (64 * 9 + 64 - z * 9) div 64" using z by auto
  show "length (varint n) \<le> 10" by (rule length_varint_64 [OF assms(2)])
  show "0 < length (varint n)" by (subst varint.simps) simp
  fix k :: nat
  assume k: "0 < k" "k \<le> 10"
  then obtain j where j: "k = Suc j" by (cases k) auto
  have "length (varint n) \<le> k \<longleftrightarrow> n < 2 ^ (7 * k)" unfolding j by (rule length_varint_le)
  also have "\<dots> \<longleftrightarrow> 64 - 7 * k \<le> z"
  proof (cases "k = 10")
    case True
    have "n < 2 ^ 70" using assms(2) by simp
    then show ?thesis using True by simp
  next
    case False
    then show ?thesis using leading_zeros_less [OF assms(1), of "7 * k"] k by simp
  qed
  finally show "(64 * 9 + 64 - z * 9) div 64 \<le> k \<longleftrightarrow> length (varint n) \<le> k"
    using size_formula64 [OF z k] by simp
qed

lemma VarintSize64_lzcnt_length: "VarintSize64_lzcnt v = length (UnsafeVarint64 v)"
  using length_by_zeros [OF CountLeadingZeroes64_correct] unsigned_less [of v]
  by (simp add: VarintSize64_lzcnt_def Let_def UnsafeVarint64_varint)

lemma VarintSize64_length: "VarintSize64 v = length (UnsafeVarint64 v)"
proof -
  define m where "m = (unat v OR 1)"
  have e: "m < 2 ^ k \<longleftrightarrow> unat v < 2 ^ k" if "0 < k" for k
    using or_1_less [OF that] by (simp only: m_def)
  have n: "unat v < 2 ^ 64" "m < 2 ^ 64" using unsigned_less [of v] e [of 64] by simp_all
  have nz: "m \<noteq> 0" unfolding m_def or_one_eq by (cases "even (unat v)") (auto elim: oddE)
  have L: "leading_zeros 64 m (CountLeadingZeroes64 (v OR 1))"
    using CountLeadingZeroes64_correct [of "v OR 1"] by (simp add: m_def unsigned_or_eq)
  have z: "CountLeadingZeroes64 (v OR 1) < 64" using L nz unfolding leading_zeros_def by blast
  have "length (varint m) \<le> Suc j \<longleftrightarrow> length (varint (unat v)) \<le> Suc j" for j
    using e [of "7 * Suc j"] by (simp only: length_varint_le) simp
  then have "length (varint m) = length (varint (unat v))"
    by (intro same_bounds length_varint_64 n) (subst varint.simps, simp, subst varint.simps, simp, metis Suc_pred')
  moreover have "(63 - z) * 9 + 73 = 64 * 9 + 64 - z * 9" if "z < 64" for z :: nat using that by simp
  ultimately show ?thesis
    using length_by_zeros [OF L n(2)] z by (simp add: VarintSize64_def Let_def UnsafeVarint64_varint)
qed

lemma PlusOne [simp]:
  "VarintSize64PlusOne v = VarintSize64 v + 1" "VarintSize32PlusOne w = VarintSize32 w + 1"
  "VarintSize32SignExtendedPlusOne w = VarintSize32SignExtended w + 1"
  by (simp_all add: VarintSize64PlusOne_def VarintSize64_def VarintSize32PlusOne_def VarintSize32_def
      VarintSize32SignExtendedPlusOne_def VarintSize32SignExtended_def Let_def)

subsection \<open>Zig-zag\<close>

text \<open>Signed numbers of small magnitude become small unsigned ones. The shift to the right keeps the sign.\<close>

definition ZigZagEncode32 :: "32 word \<Rightarrow> 32 word" where
  "ZigZagEncode32 n = push_bit 1 n XOR signed_drop_bit 31 n"

definition ZigZagDecode32 :: "32 word \<Rightarrow> 32 word" where
  "ZigZagDecode32 n = drop_bit 1 n XOR (NOT (n AND 1) + 1)"

definition ZigZagEncode64 :: "64 word \<Rightarrow> 64 word" where
  "ZigZagEncode64 n = push_bit 1 n XOR signed_drop_bit 63 n"

definition ZigZagDecode64 :: "64 word \<Rightarrow> 64 word" where
  "ZigZagDecode64 n = drop_bit 1 n XOR (NOT (n AND 1) + 1)"

lemma low_bit_mask: "NOT (n AND 1) + 1 = (if bit n 0 then - 1 else 0)" for n :: "'w::len word"
  by (cases "bit n 0") (simp_all add: and_one_eq bit_0 odd_iff_mod_2_eq_one even_iff_mod_2_eq_zero flip: minus_eq_not_plus_1)

lemma bit_zig_zag:
  "bit (push_bit 1 n XOR signed_drop_bit (LENGTH('w) - 1) n) i \<longleftrightarrow>
     i < LENGTH('w) \<and> ((0 < i \<and> bit n (i - 1)) \<noteq> bit n (LENGTH('w) - 1))"
  "bit (drop_bit 1 n XOR (NOT (n AND 1) + 1)) i \<longleftrightarrow> i < LENGTH('w) \<and> (bit n (Suc i) \<noteq> bit n 0)" for n :: "'w::len word"
proof -
  have "bit (push_bit 1 n) i \<longleftrightarrow> 1 \<le> i \<and> i < LENGTH('w) \<and> bit n (i - 1)"
    unfolding bit_push_bit_iff by auto
  moreover have "bit (signed_drop_bit (LENGTH('w) - 1) n) i \<longleftrightarrow> bit n (LENGTH('w) - 1)" if "i < LENGTH('w)"
    unfolding bit_signed_drop_bit_iff using that by (cases i) simp_all
  moreover have "\<not> bit (signed_drop_bit (LENGTH('w) - 1) n) i" if "\<not> i < LENGTH('w)"
    using that bit_imp_le_length by blast
  ultimately show "bit (push_bit 1 n XOR signed_drop_bit (LENGTH('w) - 1) n) i \<longleftrightarrow>
     i < LENGTH('w) \<and> ((0 < i \<and> bit n (i - 1)) \<noteq> bit n (LENGTH('w) - 1))"
    unfolding bit_xor_iff Suc_le_eq One_nat_def by blast
  show "bit (drop_bit 1 n XOR (NOT (n AND 1) + 1)) i \<longleftrightarrow> i < LENGTH('w) \<and> (bit n (Suc i) \<noteq> bit n 0)"
    unfolding low_bit_mask using bit_imp_le_length [of n "Suc i"] by (auto simp: bit_xor_iff bit_drop_bit_eq)
qed

lemma zig_zag:
  fixes n :: "'w::len word"
  defines "e \<equiv> \<lambda>n :: 'w word. push_bit 1 n XOR signed_drop_bit (LENGTH('w) - 1) n"
    and "d \<equiv> \<lambda>n :: 'w word. drop_bit 1 n XOR (NOT (n AND 1) + 1)"
  shows "d (e n) = n" "e (d n) = n"
proof -
  have e: "bit (e m) i \<longleftrightarrow> i < LENGTH('w) \<and> ((0 < i \<and> bit m (i - 1)) \<noteq> bit m (LENGTH('w) - 1))" for m i
    unfolding e_def by (rule bit_zig_zag)
  have d: "bit (d m) i \<longleftrightarrow> i < LENGTH('w) \<and> (bit m (Suc i) \<noteq> bit m 0)" for m i
    unfolding d_def by (rule bit_zig_zag)
  have last: "Suc (LENGTH('w) - 1) = LENGTH('w)" by simp
  show "d (e n) = n"
  proof (rule bit_word_eqI)
    fix i assume i: "i < LENGTH('w)"
    show "bit (d (e n)) i = bit n i"
    proof (cases "Suc i = LENGTH('w)")
      case True
      then have "i = LENGTH('w) - 1" by simp
      then show ?thesis using last by (simp add: d e)
    qed (use i in \<open>auto simp: d e\<close>)
  qed
  show "e (d n) = n"
  proof (rule bit_word_eqI)
    fix i assume "i < LENGTH('w)"
    moreover have "bit n (Suc (LENGTH('w) - 1)) = False" unfolding last by simp
    ultimately show "bit (e (d n)) i = bit n i" by (cases i) (auto simp: d e simp del: Suc_diff_1)
  qed
qed

lemma word_lengths: "LENGTH(32) - 1 = 31" "LENGTH(64) - 1 = 63"
  by simp_all

lemma ZigZag [simp]:
  "ZigZagDecode32 (ZigZagEncode32 m) = m" "ZigZagEncode32 (ZigZagDecode32 m) = m"
  "ZigZagDecode64 (ZigZagEncode64 n) = n" "ZigZagEncode64 (ZigZagDecode64 n) = n"
  unfolding ZigZagEncode32_def ZigZagDecode32_def ZigZagEncode64_def ZigZagDecode64_def
  by (rule zig_zag [where 'w = 32, unfolded word_lengths] zig_zag [where 'w = 64, unfolded word_lengths])+

subsection \<open>Tags\<close>

datatype WireType = WIRETYPE_VARINT | WIRETYPE_FIXED64 | WIRETYPE_DELIMITED | WIRETYPE_START_GROUP | WIRETYPE_END_GROUP | WIRETYPE_FIXED32

definition wire_type :: "WireType \<Rightarrow> 32 word" where
  "wire_type t =
     (case t of WIRETYPE_VARINT \<Rightarrow> 0 | WIRETYPE_FIXED64 \<Rightarrow> 1 | WIRETYPE_DELIMITED \<Rightarrow> 2 | WIRETYPE_START_GROUP \<Rightarrow> 3
      | WIRETYPE_END_GROUP \<Rightarrow> 4 | WIRETYPE_FIXED32 \<Rightarrow> 5)"

definition kTagTypeBits :: nat where "kTagTypeBits = 3"

definition kTagTypeMask :: "32 word" where "kTagTypeMask = push_bit kTagTypeBits 1 - 1"

definition MakeTag :: "32 word \<Rightarrow> WireType \<Rightarrow> 32 word" where
  "MakeTag field_number t = push_bit 3 field_number OR wire_type t"

definition GetTagWireType :: "32 word \<Rightarrow> 32 word" where
  "GetTagWireType tag = tag AND kTagTypeMask"

definition GetTagFieldNumber :: "32 word \<Rightarrow> 32 word" where
  "GetTagFieldNumber tag = drop_bit kTagTypeBits tag"

definition field_TagSize :: "32 word \<Rightarrow> bool \<Rightarrow> nat" where
  "field_TagSize field_number is_group =
     (let result = VarintSize32 (push_bit kTagTypeBits field_number) in if is_group then result * 2 else result)"

subsection \<open>Writing\<close>

definition WriteVarint32ToArray :: "32 word \<Rightarrow> string" where
  "WriteVarint32ToArray value = UnsafeVarint value"

definition WriteVarint64ToArray :: "64 word \<Rightarrow> string" where
  "WriteVarint64ToArray value = UnsafeVarint64 value"

definition WriteVarint32SignExtendedToArray :: "32 word \<Rightarrow> string" where
  "WriteVarint32SignExtendedToArray value = WriteVarint64ToArray (scast value)"

definition WriteLittleEndian32ToArray :: "32 word \<Rightarrow> string" where
  "WriteLittleEndian32ToArray value =
     map (\<lambda>v. char_of (unat (ucast v :: 8 word))) [value, drop_bit 8 value, drop_bit 16 value, drop_bit 24 value]"

definition WriteLittleEndian64ToArray :: "64 word \<Rightarrow> string" where
  "WriteLittleEndian64ToArray value =
     (let part0 = ucast value; part1 = ucast (drop_bit 32 value)
      in WriteLittleEndian32ToArray part0 @ WriteLittleEndian32ToArray part1)"

definition WriteTagToArray :: "32 word \<Rightarrow> WireType \<Rightarrow> string" where
  "WriteTagToArray field_number t = WriteVarint32ToArray (MakeTag field_number t)"

text \<open>Values without a tag.\<close>

definition WriteInt32NoTagToArray :: "32 word \<Rightarrow> string" where
  "WriteInt32NoTagToArray value = WriteVarint32SignExtendedToArray value"

definition WriteInt64NoTagToArray :: "64 word \<Rightarrow> string" where
  "WriteInt64NoTagToArray value = WriteVarint64ToArray value"

definition WriteUInt32NoTagToArray :: "32 word \<Rightarrow> string" where
  "WriteUInt32NoTagToArray value = WriteVarint32ToArray value"

definition WriteUInt64NoTagToArray :: "64 word \<Rightarrow> string" where
  "WriteUInt64NoTagToArray value = WriteVarint64ToArray value"

definition WriteSInt32NoTagToArray :: "32 word \<Rightarrow> string" where
  "WriteSInt32NoTagToArray value = WriteVarint32ToArray (ZigZagEncode32 value)"

definition WriteSInt64NoTagToArray :: "64 word \<Rightarrow> string" where
  "WriteSInt64NoTagToArray value = WriteVarint64ToArray (ZigZagEncode64 value)"

definition WriteFixed32NoTagToArray :: "32 word \<Rightarrow> string" where
  "WriteFixed32NoTagToArray value = WriteLittleEndian32ToArray value"

definition WriteFixed64NoTagToArray :: "64 word \<Rightarrow> string" where
  "WriteFixed64NoTagToArray value = WriteLittleEndian64ToArray value"

definition WriteSFixed32NoTagToArray :: "32 word \<Rightarrow> string" where
  "WriteSFixed32NoTagToArray value = WriteLittleEndian32ToArray value"

definition WriteSFixed64NoTagToArray :: "64 word \<Rightarrow> string" where
  "WriteSFixed64NoTagToArray value = WriteLittleEndian64ToArray value"

definition WriteBoolNoTagToArray :: "bool \<Rightarrow> string" where
  "WriteBoolNoTagToArray value = WriteVarint32ToArray (if value then 1 else 0)"

definition WriteEnumNoTagToArray :: "32 word \<Rightarrow> string" where
  "WriteEnumNoTagToArray value = WriteVarint32SignExtendedToArray value"

text \<open>Fields of one value.\<close>

definition WriteInt32ToArray :: "32 word \<Rightarrow> 32 word \<Rightarrow> string" where
  "WriteInt32ToArray field_number value = WriteTagToArray field_number WIRETYPE_VARINT @ WriteInt32NoTagToArray value"

definition WriteInt64ToArray :: "32 word \<Rightarrow> 64 word \<Rightarrow> string" where
  "WriteInt64ToArray field_number value = WriteTagToArray field_number WIRETYPE_VARINT @ WriteInt64NoTagToArray value"

definition WriteUInt32ToArray :: "32 word \<Rightarrow> 32 word \<Rightarrow> string" where
  "WriteUInt32ToArray field_number value = WriteTagToArray field_number WIRETYPE_VARINT @ WriteUInt32NoTagToArray value"

definition WriteUInt64ToArray :: "32 word \<Rightarrow> 64 word \<Rightarrow> string" where
  "WriteUInt64ToArray field_number value = WriteTagToArray field_number WIRETYPE_VARINT @ WriteUInt64NoTagToArray value"

definition WriteSInt32ToArray :: "32 word \<Rightarrow> 32 word \<Rightarrow> string" where
  "WriteSInt32ToArray field_number value = WriteTagToArray field_number WIRETYPE_VARINT @ WriteSInt32NoTagToArray value"

definition WriteSInt64ToArray :: "32 word \<Rightarrow> 64 word \<Rightarrow> string" where
  "WriteSInt64ToArray field_number value = WriteTagToArray field_number WIRETYPE_VARINT @ WriteSInt64NoTagToArray value"

definition WriteFixed32ToArray :: "32 word \<Rightarrow> 32 word \<Rightarrow> string" where
  "WriteFixed32ToArray field_number value = WriteTagToArray field_number WIRETYPE_FIXED32 @ WriteFixed32NoTagToArray value"

definition WriteFixed64ToArray :: "32 word \<Rightarrow> 64 word \<Rightarrow> string" where
  "WriteFixed64ToArray field_number value = WriteTagToArray field_number WIRETYPE_FIXED64 @ WriteFixed64NoTagToArray value"

definition WriteSFixed32ToArray :: "32 word \<Rightarrow> 32 word \<Rightarrow> string" where
  "WriteSFixed32ToArray field_number value = WriteTagToArray field_number WIRETYPE_FIXED32 @ WriteSFixed32NoTagToArray value"

definition WriteSFixed64ToArray :: "32 word \<Rightarrow> 64 word \<Rightarrow> string" where
  "WriteSFixed64ToArray field_number value = WriteTagToArray field_number WIRETYPE_FIXED64 @ WriteSFixed64NoTagToArray value"

definition WriteBoolToArray :: "32 word \<Rightarrow> bool \<Rightarrow> string" where
  "WriteBoolToArray field_number value = WriteTagToArray field_number WIRETYPE_VARINT @ WriteBoolNoTagToArray value"

definition WriteEnumToArray :: "32 word \<Rightarrow> 32 word \<Rightarrow> string" where
  "WriteEnumToArray field_number value = WriteTagToArray field_number WIRETYPE_VARINT @ WriteEnumNoTagToArray value"

text \<open>Repeated fields, one field for each value or the values alone; the latter must have one.\<close>

fun WritePrimitiveToArray :: "32 word \<Rightarrow> (32 word \<Rightarrow> 'a \<Rightarrow> string) \<Rightarrow> 'a list \<Rightarrow> string" where
  "WritePrimitiveToArray field_number Writer [] = []"
| "WritePrimitiveToArray field_number Writer (v # vs) = Writer field_number v @ WritePrimitiveToArray field_number Writer vs"

fun WritePrimitiveNoTagToArray :: "('a \<Rightarrow> string) \<Rightarrow> 'a list \<Rightarrow> string option" where
  "WritePrimitiveNoTagToArray Writer [] = None"
| "WritePrimitiveNoTagToArray Writer [v] = Some (Writer v)"
| "WritePrimitiveNoTagToArray Writer (v # vs) = map_option ((@) (Writer v)) (WritePrimitiveNoTagToArray Writer vs)"

subsection \<open>Sizes\<close>

definition Int32Size :: "32 word \<Rightarrow> nat" where
  "Int32Size value = VarintSize32SignExtended value"

definition Int32SizePlusOne :: "32 word \<Rightarrow> nat" where
  "Int32SizePlusOne value = VarintSize32SignExtendedPlusOne value"

definition Int64Size :: "64 word \<Rightarrow> nat" where
  "Int64Size value = VarintSize64 value"

definition Int64SizePlusOne :: "64 word \<Rightarrow> nat" where
  "Int64SizePlusOne value = VarintSize64PlusOne value"

definition UInt32Size :: "32 word \<Rightarrow> nat" where
  "UInt32Size value = VarintSize32 value"

definition UInt32SizePlusOne :: "32 word \<Rightarrow> nat" where
  "UInt32SizePlusOne value = VarintSize32PlusOne value"

definition UInt64Size :: "64 word \<Rightarrow> nat" where
  "UInt64Size value = VarintSize64 value"

definition UInt64SizePlusOne :: "64 word \<Rightarrow> nat" where
  "UInt64SizePlusOne value = VarintSize64PlusOne value"

definition SInt32Size :: "32 word \<Rightarrow> nat" where
  "SInt32Size value = VarintSize32 (ZigZagEncode32 value)"

definition SInt32SizePlusOne :: "32 word \<Rightarrow> nat" where
  "SInt32SizePlusOne value = VarintSize32PlusOne (ZigZagEncode32 value)"

definition SInt64Size :: "64 word \<Rightarrow> nat" where
  "SInt64Size value = VarintSize64 (ZigZagEncode64 value)"

definition SInt64SizePlusOne :: "64 word \<Rightarrow> nat" where
  "SInt64SizePlusOne value = VarintSize64PlusOne (ZigZagEncode64 value)"

definition EnumSize :: "32 word \<Rightarrow> nat" where
  "EnumSize value = VarintSize32SignExtended value"

definition EnumSizePlusOne :: "32 word \<Rightarrow> nat" where
  "EnumSizePlusOne value = VarintSize32SignExtendedPlusOne value"

subsection \<open>Reading what was written\<close>

text \<open>The readers of varints, over the bytes at the pointer: how far it moves, and the value. The narrow ones cast.\<close>

definition ReadVarint64 :: "(memory \<Rightarrow> 32 word \<Rightarrow> (nat \<times> 64 word) option) \<Rightarrow> memory \<Rightarrow> (nat \<times> 64 word) option" where
  "ReadVarint64 VarintParseSlow p = VarintParse VarintParseSlow p"

definition ReadVarint32 :: "read_fallback \<Rightarrow> memory \<Rightarrow> (nat \<times> 32 word) option" where
  "ReadVarint32 VarintParseSlow p = VarintParse VarintParseSlow p"

definition ReadVarintZigZag64 :: "(memory \<Rightarrow> 32 word \<Rightarrow> (nat \<times> 64 word) option) \<Rightarrow> memory \<Rightarrow> (nat \<times> 64 word) option" where
  "ReadVarintZigZag64 VarintParseSlow p = map_option (\<lambda>(k, tmp). (k, ZigZagDecode64 tmp)) (VarintParse VarintParseSlow p)"

definition ReadVarintZigZag32 :: "(memory \<Rightarrow> 32 word \<Rightarrow> (nat \<times> 64 word) option) \<Rightarrow> memory \<Rightarrow> (nat \<times> 32 word) option" where
  "ReadVarintZigZag32 VarintParseSlow p = map_option (\<lambda>(k, tmp). (k, ZigZagDecode32 (ucast tmp))) (VarintParse VarintParseSlow p)"

text \<open>All kinds of scalar fields together: how they are written, their size, their wire type, and the bits on the wire.\<close>

datatype scalar =
  Int32 "32 word" | Int64 "64 word" | UInt32 "32 word" | UInt64 "64 word" | SInt32 "32 word" | SInt64 "64 word"
  | Fixed32 "32 word" | Fixed64 "64 word" | SFixed32 "32 word" | SFixed64 "64 word" | Boolean bool | Enum "32 word"

definition write_scalar :: "32 word \<Rightarrow> scalar \<Rightarrow> string" where
  "write_scalar n s =
     (case s of
        Int32 v \<Rightarrow> WriteInt32ToArray n v
      | Int64 v \<Rightarrow> WriteInt64ToArray n v
      | UInt32 v \<Rightarrow> WriteUInt32ToArray n v
      | UInt64 v \<Rightarrow> WriteUInt64ToArray n v
      | SInt32 v \<Rightarrow> WriteSInt32ToArray n v
      | SInt64 v \<Rightarrow> WriteSInt64ToArray n v
      | Fixed32 v \<Rightarrow> WriteFixed32ToArray n v
      | Fixed64 v \<Rightarrow> WriteFixed64ToArray n v
      | SFixed32 v \<Rightarrow> WriteSFixed32ToArray n v
      | SFixed64 v \<Rightarrow> WriteSFixed64ToArray n v
      | Boolean v \<Rightarrow> WriteBoolToArray n v
      | Enum v \<Rightarrow> WriteEnumToArray n v)"

definition scalar_size :: "scalar \<Rightarrow> nat" where
  "scalar_size s =
     (case s of
        Int32 v \<Rightarrow> Int32Size v
      | Int64 v \<Rightarrow> Int64Size v
      | UInt32 v \<Rightarrow> UInt32Size v
      | UInt64 v \<Rightarrow> UInt64Size v
      | SInt32 v \<Rightarrow> SInt32Size v
      | SInt64 v \<Rightarrow> SInt64Size v
      | Fixed32 v \<Rightarrow> 4
      | Fixed64 v \<Rightarrow> 8
      | SFixed32 v \<Rightarrow> 4
      | SFixed64 v \<Rightarrow> 8
      | Boolean v \<Rightarrow> 1
      | Enum v \<Rightarrow> EnumSize v)"

definition on_the_wire :: "scalar \<Rightarrow> 64 word" where
  "on_the_wire s =
     (case s of
        Int32 v \<Rightarrow> scast v
      | Int64 v \<Rightarrow> v
      | UInt32 v \<Rightarrow> ucast v
      | UInt64 v \<Rightarrow> v
      | SInt32 v \<Rightarrow> ucast (ZigZagEncode32 v)
      | SInt64 v \<Rightarrow> ZigZagEncode64 v
      | Fixed32 v \<Rightarrow> ucast v
      | Fixed64 v \<Rightarrow> v
      | SFixed32 v \<Rightarrow> ucast v
      | SFixed64 v \<Rightarrow> v
      | Boolean v \<Rightarrow> (if v then 1 else 0)
      | Enum v \<Rightarrow> scast v)"

text \<open>What a reader of a field of that kind makes of the bits.\<close>

definition off_the_wire :: "scalar \<Rightarrow> 64 word \<Rightarrow> scalar" where
  "off_the_wire s w =
     (case s of
        Int32 _ \<Rightarrow> Int32 (ucast w)
      | Int64 _ \<Rightarrow> Int64 (w)
      | UInt32 _ \<Rightarrow> UInt32 (ucast w)
      | UInt64 _ \<Rightarrow> UInt64 (w)
      | SInt32 _ \<Rightarrow> SInt32 (ZigZagDecode32 (ucast w))
      | SInt64 _ \<Rightarrow> SInt64 (ZigZagDecode64 w)
      | Fixed32 _ \<Rightarrow> Fixed32 (ucast w)
      | Fixed64 _ \<Rightarrow> Fixed64 (w)
      | SFixed32 _ \<Rightarrow> SFixed32 (ucast w)
      | SFixed64 _ \<Rightarrow> SFixed64 (w)
      | Boolean _ \<Rightarrow> Boolean (w \<noteq> 0)
      | Enum _ \<Rightarrow> Enum (ucast w))"

definition add_scalar :: "('m, 'c) field_parser \<Rightarrow> 32 word \<Rightarrow> scalar \<Rightarrow> 'm \<Rightarrow> 'm" where
  "add_scalar P n s =
     (case s of
        Fixed32 _ \<Rightarrow> AddFixed32 P n (on_the_wire s) | SFixed32 _ \<Rightarrow> AddFixed32 P n (on_the_wire s)
      | Fixed64 _ \<Rightarrow> AddFixed64 P n (on_the_wire s) | SFixed64 _ \<Rightarrow> AddFixed64 P n (on_the_wire s)
      | _ \<Rightarrow> AddVarint P n (on_the_wire s))"

lemma casts: "ucast (scast v :: 64 word) = v" "ucast (ucast v :: 64 word) = v" for v :: "32 word"
proof -
  have "min n 31 = n" if "n < 32" for n :: nat using that by simp
  then show "ucast (scast v :: 64 word) = v" by (intro bit_word_eqI) (simp add: bit_simps)
  show "ucast (ucast v :: 64 word) = v" by (rule bit_word_eqI) (simp add: bit_simps)
qed

lemma off_on_the_wire: "off_the_wire s (on_the_wire s) = s"
  by (cases s) (simp_all add: off_the_wire_def on_the_wire_def casts)

lemma holds_append: "holds p (s @ t) \<longleftrightarrow> holds p s \<and> holds (ahead (length s) p) t"
proof -
  have "k < length s + length t \<longleftrightarrow> k < length s \<or> (\<exists>j < length t. k = length s + j)" for k
    by (metis le_add_diff_inverse nat_add_left_cancel_less not_less trans_less_add1)
  then show ?thesis by (auto simp: holds_def nth_append)
qed

lemma ahead_ahead: "ahead i (ahead j p) = ahead (j + i) p"
  by (simp add: ahead_def add.assoc)

lemma bytes_at_holds: "holds (at_address M p) s \<Longrightarrow> bytes_at M p (int (length s)) = s"
  by (intro nth_equalityI) (simp_all add: bytes_at_def holds_def at_address_def unat_of_nat)

lemma varint_read_written:
  assumes "holds p (varint n @ rest)" "length (varint n) \<le> m"
  shows "varint_read m p = Some (length (varint n), of_nat n)"
  using varint_read_take [OF assms(1), of m n rest] take_varint_varint [OF assms(2), of rest] by simp

text \<open>The bytes of a word, lowest first.\<close>

definition le_bytes :: "nat \<Rightarrow> 'w::len word \<Rightarrow> string" where
  "le_bytes n v = map (\<lambda>k. char_of (unat (ucast (drop_bit (8 * k) v) :: 8 word))) [0..<n]"

lemma WriteLittleEndian_bytes:
  "WriteLittleEndian32ToArray v = le_bytes 4 v" "WriteLittleEndian64ToArray w = le_bytes 8 w"
proof -
  have u: "[0..<4] = [0, 1, 2, 3]" "[0..<8] = [0, 1, 2, 3, 4, 5, 6, 7]" by (simp_all add: upt_rec)
  show v: "WriteLittleEndian32ToArray v = le_bytes 4 v" for v by (simp add: WriteLittleEndian32ToArray_def le_bytes_def u)
  have "(ucast (drop_bit k (ucast (drop_bit l w) :: 32 word)) :: 8 word) = ucast (drop_bit (l + k) w)" if "k \<le> 24" for k l
    by (rule bit_word_eqI) (use that in \<open>auto simp: bit_unsigned_iff bit_drop_bit_eq ac_simps\<close>)
  from this [of _ 0] this [of _ 32] this [of 0 32] this [of 0 0]
  show "WriteLittleEndian64ToArray w = le_bytes 8 w"
    by (simp add: WriteLittleEndian64ToArray_def v le_bytes_def u)
qed

lemma le_bytes_byte:
  assumes "holds p (le_bytes n v @ rest)" "k < n"
  shows "p k = ucast (drop_bit (8 * k) v)"
proof -
  have "p k = of_nat (of_char (char_of (unat (ucast (drop_bit (8 * k) v) :: 8 word)) :: char) :: nat)"
    using assms by (simp add: holds_append) (simp add: holds_def le_bytes_def)
  moreover have "unat (b :: 8 word) < 256" for b using unsigned_less [of b] by simp
  ultimately show ?thesis by simp
qed

lemma load_le_bytes:
  fixes v :: "'w::len word"
  assumes "holds p (le_bytes n v @ rest)" "8 * n = LENGTH('w)" "n \<le> 8"
  shows "UnalignedLoad n p = ucast v"
  unfolding UnalignedLoad_def
proof (rule bit_word_eqI)
  fix j assume "j < LENGTH(64)"
  moreover have "bit (p (j div 8)) (j mod 8) = bit v j" if "j < 8 * n"
    using le_bytes_byte [OF assms(1), of "j div 8"] that
    by (simp add: bit_unsigned_iff bit_drop_bit_eq less_mult_imp_div_less mult.commute)
  ultimately show "bit (gather 8 n p) j = bit (ucast v :: 64 word) j"
    using bit_imp_le_length [of v j] assms(2) by (auto simp: bit_gather bit_unsigned_iff simp del: gather.simps)
qed

lemma load_written:
  "holds p (WriteLittleEndian32ToArray v @ rest) \<Longrightarrow> UnalignedLoad 4 p = ucast v"
  "holds p (WriteLittleEndian64ToArray w @ rest) \<Longrightarrow> UnalignedLoad 8 p = w"
  using load_le_bytes [of p 4 v rest] load_le_bytes [of p 8 w rest] unfolding WriteLittleEndian_bytes by simp_all

text \<open>The size is the number of bytes of the value.\<close>

definition payload :: "scalar \<Rightarrow> string" where
  "payload s =
     (case s of
        Fixed32 v \<Rightarrow> WriteLittleEndian32ToArray v | SFixed32 v \<Rightarrow> WriteLittleEndian32ToArray v
      | Fixed64 v \<Rightarrow> WriteLittleEndian64ToArray v | SFixed64 v \<Rightarrow> WriteLittleEndian64ToArray v
      | _ \<Rightarrow> varint (unat (on_the_wire s)))"

definition scalar_type :: "scalar \<Rightarrow> WireType" where
  "scalar_type s =
     (case s of
        Fixed32 _ \<Rightarrow> WIRETYPE_FIXED32 | SFixed32 _ \<Rightarrow> WIRETYPE_FIXED32
      | Fixed64 _ \<Rightarrow> WIRETYPE_FIXED64 | SFixed64 _ \<Rightarrow> WIRETYPE_FIXED64 | _ \<Rightarrow> WIRETYPE_VARINT)"

lemmas writers =
  WriteInt32ToArray_def WriteInt64ToArray_def WriteUInt32ToArray_def WriteUInt64ToArray_def WriteSInt32ToArray_def
  WriteSInt64ToArray_def WriteFixed32ToArray_def WriteFixed64ToArray_def WriteSFixed32ToArray_def WriteSFixed64ToArray_def
  WriteBoolToArray_def WriteEnumToArray_def
  WriteInt32NoTagToArray_def WriteInt64NoTagToArray_def WriteUInt32NoTagToArray_def WriteUInt64NoTagToArray_def
  WriteSInt32NoTagToArray_def WriteSInt64NoTagToArray_def WriteFixed32NoTagToArray_def WriteFixed64NoTagToArray_def
  WriteSFixed32NoTagToArray_def WriteSFixed64NoTagToArray_def WriteBoolNoTagToArray_def WriteEnumNoTagToArray_def

lemmas sizes =
  Int32Size_def Int64Size_def UInt32Size_def UInt64Size_def SInt32Size_def SInt64Size_def EnumSize_def

lemma unat_ucast_64: "unat (ucast (v :: 32 word) :: 64 word) = unat v"
  using unat_32 [of v] by (simp add: unsigned_ucast_eq take_bit_nat_eq_self)

lemma write_scalar_payload: "write_scalar n s = WriteTagToArray n (scalar_type s) @ payload s"
  by (cases s)
    (simp_all add: write_scalar_def writers payload_def scalar_type_def on_the_wire_def WriteVarint32SignExtendedToArray_def
      WriteVarint32ToArray_def WriteVarint64ToArray_def UnsafeVarint_varint UnsafeVarint64_varint unat_ucast_64)

lemma scalar_size_payload: "scalar_size s = length (payload s)"
  by (cases s)
    (simp_all add: scalar_size_def sizes payload_def on_the_wire_def VarintSize32SignExtended_def VarintSize64_length
      VarintSize32_length UnsafeVarint_varint UnsafeVarint64_varint unat_ucast_64 WriteLittleEndian_bytes le_bytes_def varint.simps)

subsection \<open>A field that was written is read\<close>

lemma wire_type_less: "wire_type t < 8"
  by (cases t) (simp_all add: wire_type_def)

lemma MakeTag_parts:
  assumes "n < 2 ^ 29"
  shows "GetTagFieldNumber (MakeTag n t) = n" "GetTagWireType (MakeTag n t) = wire_type t"
proof -
  have b: "j < k" if "bit v j" "unat v < 2 ^ k" for v :: "32 word" and j k
  proof -
    have "odd (unat v div 2 ^ j)" using that(1) bit_imp_le_length [of v j] by (simp flip: bit_iff_odd add: bit_unsigned_iff)
    then have "2 ^ j \<le> unat v" by (metis div_less dvd_0_right not_le)
    then have "(2 :: nat) ^ j < 2 ^ k" using that(2) by (rule le_less_trans)
    then show ?thesis by simp
  qed
  have t: "bit (wire_type t) j \<Longrightarrow> j < 3" and n: "bit n j \<Longrightarrow> j < 29" for j
    using b [of "wire_type t" j 3] b [of n j 29] wire_type_less [of t] assms by (simp_all add: word_less_nat_alt)
  show "GetTagFieldNumber (MakeTag n t) = n"
    by (rule bit_word_eqI)
      (auto simp: GetTagFieldNumber_def MakeTag_def kTagTypeBits_def bit_drop_bit_eq bit_or_iff bit_push_bit_iff dest: t n)
  have m: "kTagTypeMask = mask 3" by (simp add: kTagTypeMask_def kTagTypeBits_def mask_eq_decr_exp)
  have k: "bit kTagTypeMask j \<longleftrightarrow> j < 3" for j unfolding m bit_mask_iff by auto
  show "GetTagWireType (MakeTag n t) = wire_type t"
  proof (rule bit_word_eqI)
    fix j
    show "bit (GetTagWireType (MakeTag n t)) j \<longleftrightarrow> bit (wire_type t) j"
      using t [of j] by (auto simp: GetTagWireType_def MakeTag_def bit_and_iff bit_or_iff bit_push_bit_iff k)
  qed
qed

lemma MakeTag_tests:
  assumes "n < 2 ^ 29"
  shows "drop_bit 3 (MakeTag n t) = n" "MakeTag n t AND 7 = wire_type t"
  using MakeTag_parts [OF assms, of t]
  by (simp_all add: GetTagFieldNumber_def GetTagWireType_def kTagTypeBits_def kTagTypeMask_def)

lemma at_address_add: "0 \<le> ptr \<Longrightarrow> at_address M (ptr + int k) = ahead k (at_address M ptr)"
  by (simp add: at_address_def ahead_def fun_eq_iff nat_add_distrib add.assoc)

context varint_library
begin

lemma tag_written:
  assumes "holds p (WriteTagToArray n t @ rest)"
  shows "ReadTag ReadTagFallback p = Some (length (WriteTagToArray n t), MakeTag n t)"
proof -
  let ?n = "unat (MakeTag n t)"
  have "length (varint ?n) \<le> 5" by (rule length_varint_32 [OF unat_32])
  then have "varint_read 5 p = Some (length (varint ?n), of_nat ?n)"
    using assms varint_read_written [of p ?n rest 5] by (simp add: WriteTagToArray_def WriteVarint32ToArray_def UnsafeVarint_varint)
  moreover have "ucast (of_nat ?n :: 64 word) = MakeTag n t" using casts(2) [of "MakeTag n t"] by simp
  ultimately show ?thesis
    by (simp add: ReadTag_read read_tag_def WriteTagToArray_def WriteVarint32ToArray_def UnsafeVarint_varint)
qed

lemma size_written:
  assumes "holds p (varint n @ rest)" "n \<le> max_size"
  shows "ReadSize ReadSizeFallback p = Some (length (varint n), of_nat n)"
proof -
  have n: "n < 2 ^ 32" using assms(2) by (simp add: max_size_def)
  then have "length (varint n) \<le> 5" by (rule length_varint_32)
  then have "varint_read 5 p = Some (length (varint n), of_nat n)" using varint_read_written [OF assms(1)] by simp
  moreover have "unat (of_nat n :: 64 word) = n" "ucast (of_nat n :: 64 word) = (of_nat n :: 32 word)"
  proof -
    show u: "unat (of_nat n :: 64 word) = n" using n by (simp add: unsigned_of_nat take_bit_nat_eq_self)
    have "ucast (ucast (of_nat n :: 32 word) :: 64 word) = (of_nat n :: 32 word)" by (rule casts)
    moreover have "ucast (of_nat n :: 32 word) = (of_nat n :: 64 word)"
      using unat_of_nat_32 [OF n] by (metis of_nat_unat)
    ultimately show "ucast (of_nat n :: 64 word) = (of_nat n :: 32 word)" by simp
  qed
  ultimately show ?thesis using assms(2) by (simp add: ReadSize_read read_size_def)
qed

lemma value_written:
  assumes "holds p (payload s @ rest)"
  shows "scalar_type s = WIRETYPE_VARINT \<Longrightarrow> VarintParse VarintParseSlow64 p = Some (length (payload s), on_the_wire s)"
    "scalar_type s = WIRETYPE_FIXED32 \<Longrightarrow> UnalignedLoad 4 p = on_the_wire s \<and> length (payload s) = 4"
    "scalar_type s = WIRETYPE_FIXED64 \<Longrightarrow> UnalignedLoad 8 p = on_the_wire s \<and> length (payload s) = 8"
proof -
  have v: "length (varint (unat w)) \<le> 10" for w :: "64 word"
    using length_varint_64 [of "unat w"] unsigned_less [of w] by simp
  have "VarintParse VarintParseSlow64 p = Some (length (varint (unat (on_the_wire s))), on_the_wire s)"
    if "payload s = varint (unat (on_the_wire s))"
    using varint_read_written [of p "unat (on_the_wire s)" rest 10] assms v that by (simp add: VarintParse_read)
  then show "scalar_type s = WIRETYPE_VARINT \<Longrightarrow> VarintParse VarintParseSlow64 p = Some (length (payload s), on_the_wire s)"
    by (cases s) (simp_all add: scalar_type_def payload_def)
  show "scalar_type s = WIRETYPE_FIXED32 \<Longrightarrow> UnalignedLoad 4 p = on_the_wire s \<and> length (payload s) = 4"
    "scalar_type s = WIRETYPE_FIXED64 \<Longrightarrow> UnalignedLoad 8 p = on_the_wire s \<and> length (payload s) = 8"
    using assms load_written [of p _ rest]
    by (cases s; simp add: scalar_type_def payload_def on_the_wire_def; simp add: WriteLittleEndian_bytes le_bytes_def)+
qed

lemma scalar_field_read:
  assumes "holds (at_address (in_memory c) ptr) (write_scalar n s @ rest)" "0 \<le> ptr" "n \<noteq> 0" "n < 2 ^ 29"
  shows "ReadTag ReadTagFallback (at_address (in_memory c) ptr) =
      Some (length (WriteTagToArray n (scalar_type s)), MakeTag n (scalar_type s))"
    "FieldParser VarintParseSlow64 P (MakeTag n (scalar_type s)) (ptr + int (length (WriteTagToArray n (scalar_type s)))) m c =
      Some (Some (ptr + int (length (write_scalar n s))), add_scalar P n s m, c)"
proof -
  let ?t = "WriteTagToArray n (scalar_type s)" and ?M = "at_address (in_memory c) ptr"
  have h: "holds ?M (?t @ payload s @ rest)" using assms(1) by (simp add: write_scalar_payload)
  show "ReadTag ReadTagFallback ?M = Some (length ?t, MakeTag n (scalar_type s))" by (rule tag_written [OF h])
  have w: "scalar_type s = WIRETYPE_VARINT \<or> scalar_type s = WIRETYPE_FIXED32 \<or> scalar_type s = WIRETYPE_FIXED64"
    by (cases s) (simp_all add: scalar_type_def)
  have "holds (ahead (length ?t) ?M) (payload s @ rest)" using h unfolding holds_append [of ?M ?t] by simp
  note v = value_written [OF this]
  have a: "add_scalar P n s = (if scalar_type s = WIRETYPE_VARINT then AddVarint P n (on_the_wire s)
      else if scalar_type s = WIRETYPE_FIXED32 then AddFixed32 P n (on_the_wire s) else AddFixed64 P n (on_the_wire s))"
    by (cases s) (simp_all add: add_scalar_def scalar_type_def)
  show "FieldParser VarintParseSlow64 P (MakeTag n (scalar_type s)) (ptr + int (length ?t)) m c =
      Some (Some (ptr + int (length (write_scalar n s))), add_scalar P n s m, c)"
    using w v assms(3)
    by (elim disjE)
      (simp_all add: FieldParser_def MakeTag_tests [OF assms(4)] at_address_add [OF assms(2)] a wire_type_def Let_def write_scalar_payload)
qed

end

text \<open>The size of the tag, twice for a group, which has a start and an end.\<close>

lemma field_TagSize_tags:
  assumes "n < 2 ^ 29"
  shows "field_TagSize n is_group = (if is_group then 2 else 1) * length (WriteTagToArray n t)"
proof -
  have m: "unat n < 2 ^ 29" using assms by (simp add: word_less_nat_alt)
  have "unat (MakeTag n t) div 2 ^ 3 = unat n"
    using MakeTag_tests(1) [OF assms, of t] unat_drop_bit_div [of 3 "MakeTag n t"] by simp
  moreover have "unat (push_bit 3 n) div 2 ^ 3 = unat n"
    using m by (simp add: push_bit_eq_mult unat_word_ariths mult.commute)
  moreover have "x < 2 ^ (7 * Suc k) \<longleftrightarrow> x div 2 ^ 3 < 2 ^ (7 * k + 4)" for x k :: nat
    by (simp add: div_less_iff_less_mult power_add ac_simps)
  ultimately have "length (varint (unat (MakeTag n t))) \<le> Suc k \<longleftrightarrow> length (varint (unat (push_bit 3 n))) \<le> Suc k" for k
    by (simp only: length_varint_le)
  then have "length (varint (unat (MakeTag n t))) = length (varint (unat (push_bit 3 n)))"
    by (metis Suc_pred' le_antisym length_greater_0_conv list.distinct(1) order_refl varint.simps)
  then show ?thesis
    by (simp add: field_TagSize_def kTagTypeBits_def VarintSize32_length WriteTagToArray_def WriteVarint32ToArray_def UnsafeVarint_varint)
qed

subsection \<open>Packed fields\<close>

text \<open>
  The elements of a packed field follow its tag and its size; there is at least one. \<open>encode\<close> and
  \<open>UnsafeVarint\<close> at its type together are \<open>put\<close>.
\<close>

fun put_each :: "('a \<Rightarrow> string) \<Rightarrow> 'a list \<Rightarrow> string option" where
  "put_each put [] = None"
| "put_each put [v] = Some (put v)"
| "put_each put (v # vs) = map_option ((@) (put v)) (put_each put vs)"

definition WriteVarintPacked :: "32 word \<Rightarrow> 'a list \<Rightarrow> 32 word \<Rightarrow> ('a \<Rightarrow> string) \<Rightarrow> string option" where
  "WriteVarintPacked num r sz put = map_option ((@) (WriteLengthDelim num sz)) (put_each put r)"

definition Encode32 :: "32 word \<Rightarrow> 32 word" where "Encode32 v = v"

definition Encode64 :: "64 word \<Rightarrow> 64 word" where "Encode64 v = v"

definition WriteInt32Packed :: "32 word \<Rightarrow> 32 word list \<Rightarrow> 32 word \<Rightarrow> string option" where
  "WriteInt32Packed num r sz = WriteVarintPacked num r sz (\<lambda>v. UnsafeVarint64 (Encode64 (scast v)))"

definition WriteUInt32Packed :: "32 word \<Rightarrow> 32 word list \<Rightarrow> 32 word \<Rightarrow> string option" where
  "WriteUInt32Packed num r sz = WriteVarintPacked num r sz (\<lambda>v. UnsafeVarint (Encode32 v))"

definition WriteSInt32Packed :: "32 word \<Rightarrow> 32 word list \<Rightarrow> 32 word \<Rightarrow> string option" where
  "WriteSInt32Packed num r sz = WriteVarintPacked num r sz (\<lambda>v. UnsafeVarint (ZigZagEncode32 v))"

definition WriteInt64Packed :: "32 word \<Rightarrow> 64 word list \<Rightarrow> 32 word \<Rightarrow> string option" where
  "WriteInt64Packed num r sz = WriteVarintPacked num r sz (\<lambda>v. UnsafeVarint64 (Encode64 v))"

definition WriteUInt64Packed :: "32 word \<Rightarrow> 64 word list \<Rightarrow> 32 word \<Rightarrow> string option" where
  "WriteUInt64Packed num r sz = WriteVarintPacked num r sz (\<lambda>v. UnsafeVarint64 (Encode64 v))"

definition WriteSInt64Packed :: "32 word \<Rightarrow> 64 word list \<Rightarrow> 32 word \<Rightarrow> string option" where
  "WriteSInt64Packed num r sz = WriteVarintPacked num r sz (\<lambda>v. UnsafeVarint64 (ZigZagEncode64 v))"

definition WriteEnumPacked :: "32 word \<Rightarrow> 32 word list \<Rightarrow> 32 word \<Rightarrow> string option" where
  "WriteEnumPacked num r sz = WriteVarintPacked num r sz (\<lambda>v. UnsafeVarint64 (Encode64 (scast v)))"

text \<open>Reading: \<open>out\<close> collects what is added.\<close>

partial_function (option) ReadPackedVarintArray ::
  "(memory \<Rightarrow> 32 word \<Rightarrow> (nat \<times> 64 word) option) \<Rightarrow> memory \<Rightarrow> address \<Rightarrow> address \<Rightarrow> 64 word list \<Rightarrow>
     (address option \<times> 64 word list) option" where
  "ReadPackedVarintArray VarintParseSlow M ptr stop out =
     (if ptr < stop
      then case VarintParse VarintParseSlow (at_address M ptr) of
             None \<Rightarrow> Some (None, out)
           | Some (k, v) \<Rightarrow> ReadPackedVarintArray VarintParseSlow M (ptr + int k) stop (out @ [v])
      else Some (Some ptr, out))"

lemma put_each_concat: "put_each put vs = (if vs = [] then None else Some (concat (map put vs)))"
  by (induction put vs rule: put_each.induct) simp_all

context varint_library
begin

text \<open>It ends on every memory, since a varint has at least one byte.\<close>

lemma ReadPacked_returns: "\<exists>r. ReadPackedVarintArray VarintParseSlow64 M ptr stop out = Some r"
proof (induction "nat (stop - ptr)" arbitrary: ptr out rule: less_induct)
  case less
  show ?case
  proof (cases "ptr < stop")
    case True
    show ?thesis
    proof (cases "VarintParse VarintParseSlow64 (at_address M ptr)")
      case (Some kv)
      obtain k v where kv: "kv = (k, v)" by fastforce
      then have "0 < k" using Some varint_read_bound [of 10 _ k v] by (simp add: VarintParse_read)
      then have "nat (stop - (ptr + int k)) < nat (stop - ptr)" using True by simp
      then show ?thesis
        using less [of "ptr + int k" "out @ [v]"] True Some kv by (simp add: ReadPackedVarintArray.simps [of _ _ ptr])
    qed (simp add: ReadPackedVarintArray.simps [of _ _ ptr])
  qed (simp add: ReadPackedVarintArray.simps [of _ _ ptr])
qed

text \<open>What was written is read.\<close>

lemma ReadPacked_written:
  assumes "holds (at_address M ptr) (concat (map (\<lambda>v. varint (unat v)) vs) @ rest)" "0 \<le> ptr"
  shows "ReadPackedVarintArray VarintParseSlow64 M ptr (ptr + int (length (concat (map (\<lambda>v. varint (unat v)) vs)))) out =
    Some (Some (ptr + int (length (concat (map (\<lambda>v. varint (unat v)) vs)))), out @ vs)"
  using assms
proof (induction vs arbitrary: ptr out)
  case (Cons v vs)
  let ?b = "varint (unat v)" and ?c = "concat (map (\<lambda>v. varint (unat v)) vs)"
  have h: "holds (at_address M ptr) (?b @ ?c @ rest)" using Cons.prems(1) by simp
  have "length ?b \<le> 10" using length_varint_64 [of "unat v"] unsigned_less [of v] by simp
  then have r: "VarintParse VarintParseSlow64 (at_address M ptr) = Some (length ?b, v)"
    using varint_read_written [OF h, of 10] by (simp add: VarintParse_read)
  have "0 < length ?b" by (subst varint.simps) simp
  then have p: "0 < int (length ?b) + int (length ?c)" by linarith
  have "holds (at_address M (ptr + int (length ?b))) (?c @ rest)"
    using h holds_append [of "at_address M ptr" ?b] by (simp add: at_address_add [OF Cons.prems(2)])
  from Cons.IH [OF this, of "out @ [v]"] show ?case
    using Cons.prems(2) p by (subst ReadPackedVarintArray.simps) (simp add: r add.assoc)
qed (simp add: ReadPackedVarintArray.simps)

end

end
