(* ===== verification/OutputStream.thy ===== *)
theory OutputStream
  imports ScalarFields
begin

text \<open>
  \<open>EpsCopyOutputStream\<close> and \<open>CodedOutputStream\<close> of \<open>io/coded_stream.h\<close>: output through buffers, each with 16
  bytes of slop behind its end, so that a writer asks for space once and then writes without looking.
  A pointer is an address, and a byte written behind the slop is \<open>None\<close>. What is compiled into the library
  (changing the buffer and what must look at it) is a record of functions whose contract is the locale
  \<open>output_stream\<close>. The bytes of \<open>WireFormat\<close> and \<open>ScalarFields\<close> are what arrives.
\<close>

subsection \<open>The stream\<close>

text \<open>\<open>out_buffer\<close> is the address of the member \<open>buffer_\<close>; both classes call their slop \<open>kSlopBytes\<close>.\<close>

record 'z EpsCopyOutputStream =
  out_end :: address
  out_buffer_end :: "address option"
  out_buffer :: address
  out_stream :: "'z option"
  had_error :: bool
  aliasing_enabled :: bool
  is_deterministic :: bool
  skip_check_consistency :: bool
  out_memory :: memory

type_synonym 'z serializer = "address \<Rightarrow> 'z EpsCopyOutputStream \<Rightarrow> (address \<times> 'z EpsCopyOutputStream) option"

definition new_out_stream :: "address \<Rightarrow> memory \<Rightarrow> 'z \<Rightarrow> bool \<Rightarrow> address \<times> 'z EpsCopyOutputStream" where
  "new_out_stream buffer M stream deterministic =
     (buffer,
      \<lparr>out_end = buffer, out_buffer_end = Some buffer, out_buffer = buffer, out_stream = Some stream, had_error = False,
       aliasing_enabled = False, is_deterministic = deterministic, skip_check_consistency = False, out_memory = M\<rparr>)"

definition new_out_array :: "address \<Rightarrow> memory \<Rightarrow> address \<Rightarrow> int \<Rightarrow> bool \<Rightarrow> 'z EpsCopyOutputStream" where
  "new_out_array buffer M data n deterministic =
     \<lparr>out_end = data + n, out_buffer_end = None, out_buffer = buffer, out_stream = None, had_error = False,
      aliasing_enabled = False, is_deterministic = deterministic, skip_check_consistency = False, out_memory = M\<rparr>"

definition SetInitialBuffer :: "address \<Rightarrow> int \<Rightarrow> 'z EpsCopyOutputStream \<Rightarrow> address \<times> 'z EpsCopyOutputStream" where
  "SetInitialBuffer data n s =
     (if n > kSlopBytes
      then (data, s\<lparr>out_end := data + n - kSlopBytes, out_buffer_end := None\<rparr>)
      else (out_buffer s, s\<lparr>out_end := out_buffer s + n, out_buffer_end := Some data\<rparr>))"

definition new_out_eager ::
  "address \<Rightarrow> memory \<Rightarrow> address \<Rightarrow> int \<Rightarrow> 'z \<Rightarrow> bool \<Rightarrow> address \<times> 'z EpsCopyOutputStream" where
  "new_out_eager buffer M data n stream deterministic =
     SetInitialBuffer data n (snd (new_out_stream buffer M stream deterministic))"

definition GetSize :: "address \<Rightarrow> 'z EpsCopyOutputStream \<Rightarrow> int option" where
  "GetSize ptr s = do { assure (ptr \<le> out_end s + kSlopBytes); Some (out_end s + kSlopBytes - ptr) }"

definition Error :: "'z EpsCopyOutputStream \<Rightarrow> address \<times> 'z EpsCopyOutputStream" where
  "Error s = (out_buffer s, s\<lparr>had_error := True, out_end := out_buffer s + kSlopBytes\<rparr>)"

definition HadError :: "'z EpsCopyOutputStream \<Rightarrow> bool" where
  "HadError s = had_error s"

definition SetSerializationDeterministic :: "bool \<Rightarrow> 'z EpsCopyOutputStream \<Rightarrow> 'z EpsCopyOutputStream" where
  "SetSerializationDeterministic b s = s\<lparr>is_deterministic := b\<rparr>"

definition IsSerializationDeterministic :: "'z EpsCopyOutputStream \<Rightarrow> bool" where
  "IsSerializationDeterministic s = is_deterministic s"

text \<open>A store through the pointer; the slop is the last that may be written. \<open>memcpy\<close> is a sequence of stores.\<close>

definition put_byte :: "8 word \<Rightarrow> 'z serializer" where
  "put_byte b ptr s =
     do { assure (ptr < out_end s + kSlopBytes); Some (ptr + 1, s\<lparr>out_memory := (out_memory s)(nat ptr := b)\<rparr>) }"

fun put_bytes :: "string \<Rightarrow> 'z serializer" where
  "put_bytes [] ptr s = Some (ptr, s)"
| "put_bytes (c # cs) ptr s = do { (ptr, s) \<leftarrow> put_byte (of_char c) ptr s; put_bytes cs ptr s }"

partial_function (option) UnsafeVarint_to :: "'w::len word \<Rightarrow> 'z serializer" where
  "UnsafeVarint_to v ptr s =
     (if v \<ge> 0x80 then do { (ptr, s) \<leftarrow> put_byte (ucast (v OR 0x80)) ptr s; UnsafeVarint_to (drop_bit 7 v) ptr s }
      else put_byte (ucast v) ptr s)"

definition WriteTag_to :: "32 word \<Rightarrow> 32 word \<Rightarrow> 'z serializer" where
  "WriteTag_to num wt ptr s = do { assure (ptr < out_end s); UnsafeVarint_to (push_bit 3 num OR wt) ptr s }"

definition WriteLengthDelim_to :: "32 word \<Rightarrow> 32 word \<Rightarrow> 'z serializer" where
  "WriteLengthDelim_to num sz ptr s = do { (ptr, s) \<leftarrow> WriteTag_to num 2 ptr s; UnsafeVarint_to sz ptr s }"

subsection \<open>Writers\<close>

text \<open>The routines of the library behind them. A cord is not used by the messages of the program.\<close>

record 'z output_library =
  EnsureSpaceFallback :: "'z serializer"
  WriteRawFallback :: "string \<Rightarrow> 'z serializer"
  WriteAliasedRaw :: "string \<Rightarrow> 'z serializer"
  WriteStringMaybeAliasedOutline :: "32 word \<Rightarrow> string \<Rightarrow> 'z serializer"
  WriteStringOutline :: "32 word \<Rightarrow> string \<Rightarrow> 'z serializer"

definition EnsureSpace :: "'z output_library \<Rightarrow> 'z serializer" where
  "EnsureSpace L ptr s = (if ptr \<ge> out_end s then EnsureSpaceFallback L ptr s else Some (ptr, s))"

definition WriteRaw :: "'z output_library \<Rightarrow> string \<Rightarrow> 'z serializer" where
  "WriteRaw L data ptr s =
     (if out_end s - ptr < int (length data) then WriteRawFallback L data ptr s else put_bytes data ptr s)"

definition WriteRawMaybeAliased :: "'z output_library \<Rightarrow> string \<Rightarrow> 'z serializer" where
  "WriteRawMaybeAliased L data ptr s =
     (if aliasing_enabled s then WriteAliasedRaw L data ptr s else WriteRaw L data ptr s)"

definition WriteStringMaybeAliased_to :: "'z output_library \<Rightarrow> 32 word \<Rightarrow> string \<Rightarrow> 'z serializer" where
  "WriteStringMaybeAliased_to L num str ptr s =
     (let n = int (length str) in
      if n \<ge> 128 \<or> out_end s - ptr + 16 - int (TagSize (push_bit 3 num)) - 1 < n
      then WriteStringMaybeAliasedOutline L num str ptr s
      else do { (ptr, s) \<leftarrow> UnsafeVarint_to (push_bit 3 num OR 2) ptr s;
                (ptr, s) \<leftarrow> put_byte (of_int n) ptr s;
                put_bytes str ptr s })"

definition WriteBytesMaybeAliased :: "'z output_library \<Rightarrow> 32 word \<Rightarrow> string \<Rightarrow> 'z serializer" where
  "WriteBytesMaybeAliased L num str = WriteStringMaybeAliased_to L num str"

definition WriteString_to :: "'z output_library \<Rightarrow> 32 word \<Rightarrow> string \<Rightarrow> 'z serializer" where
  "WriteString_to L num str ptr s =
     (let n = int (length str) in
      if n \<ge> 128 \<or> out_end s - ptr + 16 - int (TagSize (push_bit 3 num)) - 1 < n
      then WriteStringOutline L num str ptr s
      else do { (ptr, s) \<leftarrow> UnsafeVarint_to (push_bit 3 num OR 2) ptr s;
                (ptr, s) \<leftarrow> put_byte (of_int n) ptr s;
                put_bytes str ptr s })"

definition WriteBytes :: "'z output_library \<Rightarrow> 32 word \<Rightarrow> string \<Rightarrow> 'z serializer" where
  "WriteBytes L num str = WriteString_to L num str"

text \<open>Packed fields. The loop runs at least once; without an element it reads past the array, which is \<open>None\<close>.\<close>

fun put_each_to :: "'z output_library \<Rightarrow> ('a \<Rightarrow> 'w::len word) \<Rightarrow> 'a list \<Rightarrow> 'z serializer" where
  "put_each_to L encode [] ptr s = None"
| "put_each_to L encode (v # vs) ptr s =
     do { (ptr, s) \<leftarrow> EnsureSpace L ptr s;
          (ptr, s) \<leftarrow> UnsafeVarint_to (encode v) ptr s;
          if vs = [] then Some (ptr, s) else put_each_to L encode vs ptr s }"

definition WriteVarintPacked_to ::
  "'z output_library \<Rightarrow> 32 word \<Rightarrow> 'a list \<Rightarrow> 32 word \<Rightarrow> ('a \<Rightarrow> 'w::len word) \<Rightarrow> 'z serializer" where
  "WriteVarintPacked_to L num r sz encode ptr s =
     do { (ptr, s) \<leftarrow> EnsureSpace L ptr s;
          (ptr, s) \<leftarrow> WriteLengthDelim_to num sz ptr s;
          put_each_to L encode r ptr s }"

text \<open>
  Fixed-width elements of \<open>w\<close> bytes each are written as they lie in memory, on a little-endian machine; \<open>bytes\<close> are
  the bytes of one element.
\<close>

definition WriteRawLittleEndian :: "'z output_library \<Rightarrow> string \<Rightarrow> 'z serializer" where
  "WriteRawLittleEndian L data = WriteRaw L data"

definition WriteFixedPacked ::
  "'z output_library \<Rightarrow> 32 word \<Rightarrow> nat \<Rightarrow> ('a \<Rightarrow> string) \<Rightarrow> 'a list \<Rightarrow> 'z serializer" where
  "WriteFixedPacked L num w bytes r ptr s =
     do { (ptr, s) \<leftarrow> EnsureSpace L ptr s;
          (ptr, s) \<leftarrow> WriteLengthDelim_to num (of_nat (length r * w)) ptr s;
          WriteRawLittleEndian L (concat (map bytes r)) ptr s }"

subsection \<open>\<open>CodedOutputStream\<close>\<close>

record 'z CodedOutputStream =
  impl :: "'z EpsCopyOutputStream"
  cur :: address
  start_count :: int

definition Cur :: "'z CodedOutputStream \<Rightarrow> address" where
  "Cur c = cur c"

definition SetCur :: "address \<Rightarrow> 'z CodedOutputStream \<Rightarrow> 'z CodedOutputStream" where
  "SetCur ptr c = c\<lparr>cur := ptr\<rparr>"

text \<open>A call on \<open>impl_\<close> with \<open>cur_\<close> whose result becomes \<open>cur_\<close>.\<close>

definition on_impl :: "'z serializer \<Rightarrow> 'z CodedOutputStream \<Rightarrow> 'z CodedOutputStream option" where
  "on_impl f c = map_option (\<lambda>(p, s). c\<lparr>impl := s, cur := p\<rparr>) (f (cur c) (impl c))"

text \<open>The constructors: \<open>zcos_Next\<close> of the stream gives a first buffer, \<open>zcos_ByteCount\<close> what it already has.\<close>

definition InitEagerly ::
  "('z \<Rightarrow> (address \<times> int) option \<times> 'z) \<Rightarrow> 'z CodedOutputStream \<Rightarrow> 'z CodedOutputStream option" where
  "InitEagerly zcos_Next c =
     (case out_stream (impl c) of
        None \<Rightarrow> None
      | Some z \<Rightarrow>
          (case zcos_Next z of
             (Some (data, n), z) \<Rightarrow>
               let c = c\<lparr>impl := (impl c)\<lparr>out_stream := Some z\<rparr>\<rparr> in
               if n > 0 then (let (p, s) = SetInitialBuffer data n (impl c) in Some (c\<lparr>impl := s, cur := p\<rparr>)) else Some c
           | (None, z) \<Rightarrow> Some (c\<lparr>impl := (impl c)\<lparr>out_stream := Some z\<rparr>\<rparr>)))"

definition new_coded ::
  "('z \<Rightarrow> (address \<times> int) option \<times> 'z) \<Rightarrow> ('z \<Rightarrow> int) \<Rightarrow> bool \<Rightarrow> address \<Rightarrow> memory \<Rightarrow> 'z \<Rightarrow> bool \<Rightarrow>
     'z CodedOutputStream option" where
  "new_coded zcos_Next zcos_ByteCount default_deterministic buffer M stream eager_init =
     (let (p, s) = new_out_stream buffer M stream default_deterministic;
          c = \<lparr>impl = s, cur = p, start_count = zcos_ByteCount stream\<rparr>
      in if eager_init then InitEagerly zcos_Next c else Some c)"

definition coded_HadError :: "('z serializer) \<Rightarrow> 'z CodedOutputStream \<Rightarrow> (bool \<times> 'z CodedOutputStream) option" where
  "coded_HadError FlushAndResetBuffer c =
     do { c \<leftarrow> on_impl FlushAndResetBuffer c; Some (HadError (impl c), c) }"

definition coded_ByteCount :: "(address \<Rightarrow> 'z EpsCopyOutputStream \<Rightarrow> int) \<Rightarrow> 'z CodedOutputStream \<Rightarrow> int" where
  "coded_ByteCount ByteCount c = cast_int (ByteCount (cur c) (impl c) - start_count c)"

definition coded_WriteRaw :: "'z output_library \<Rightarrow> string \<Rightarrow> 'z CodedOutputStream \<Rightarrow> 'z CodedOutputStream option" where
  "coded_WriteRaw L data = on_impl (WriteRaw L data)"

definition coded_WriteRawMaybeAliased ::
  "'z output_library \<Rightarrow> string \<Rightarrow> 'z CodedOutputStream \<Rightarrow> 'z CodedOutputStream option" where
  "coded_WriteRawMaybeAliased L data = on_impl (WriteRawMaybeAliased L data)"

definition coded_WriteString :: "'z output_library \<Rightarrow> string \<Rightarrow> 'z CodedOutputStream \<Rightarrow> 'z CodedOutputStream option" where
  "coded_WriteString L str = coded_WriteRaw L str"

definition WriteVarint32 :: "'z output_library \<Rightarrow> 32 word \<Rightarrow> 'z CodedOutputStream \<Rightarrow> 'z CodedOutputStream option" where
  "WriteVarint32 L v c = do { c \<leftarrow> on_impl (EnsureSpace L) c; on_impl (UnsafeVarint_to v) c }"

definition WriteVarint64 :: "'z output_library \<Rightarrow> 64 word \<Rightarrow> 'z CodedOutputStream \<Rightarrow> 'z CodedOutputStream option" where
  "WriteVarint64 L v c = do { c \<leftarrow> on_impl (EnsureSpace L) c; on_impl (UnsafeVarint_to v) c }"

definition WriteVarint32SignExtended ::
  "'z output_library \<Rightarrow> 32 word \<Rightarrow> 'z CodedOutputStream \<Rightarrow> 'z CodedOutputStream option" where
  "WriteVarint32SignExtended L v = WriteVarint64 L (scast v)"

definition coded_WriteTag :: "'z output_library \<Rightarrow> 32 word \<Rightarrow> 'z CodedOutputStream \<Rightarrow> 'z CodedOutputStream option" where
  "coded_WriteTag L v = WriteVarint32 L v"

definition WriteLittleEndian16ToArray :: "16 word \<Rightarrow> string" where
  "WriteLittleEndian16ToArray v = map (\<lambda>b. char_of (unat b)) [ucast v :: 8 word, ucast (drop_bit 8 v)]"

definition WriteLittleEndian16 :: "'z output_library \<Rightarrow> 16 word \<Rightarrow> 'z CodedOutputStream \<Rightarrow> 'z CodedOutputStream option" where
  "WriteLittleEndian16 L v c = do { c \<leftarrow> on_impl (EnsureSpace L) c; on_impl (put_bytes (WriteLittleEndian16ToArray v)) c }"

definition WriteLittleEndian32 :: "'z output_library \<Rightarrow> 32 word \<Rightarrow> 'z CodedOutputStream \<Rightarrow> 'z CodedOutputStream option" where
  "WriteLittleEndian32 L v c = do { c \<leftarrow> on_impl (EnsureSpace L) c; on_impl (put_bytes (WriteLittleEndian32ToArray v)) c }"

definition WriteLittleEndian64 :: "'z output_library \<Rightarrow> 64 word \<Rightarrow> 'z CodedOutputStream \<Rightarrow> 'z CodedOutputStream option" where
  "WriteLittleEndian64 L v c = do { c \<leftarrow> on_impl (EnsureSpace L) c; on_impl (put_bytes (WriteLittleEndian64ToArray v)) c }"

subsection \<open>What arrives\<close>

text \<open>
  A view of a stream: where the current buffer begins, what has left it, and when the stream is usable.
  \<open>written\<close> is all that was written up to a pointer.
\<close>

record 'z out_view =
  view_begin :: "'z EpsCopyOutputStream \<Rightarrow> address"
  view_sent :: "'z EpsCopyOutputStream \<Rightarrow> string"
  view_valid :: "'z EpsCopyOutputStream \<Rightarrow> bool"

definition in_out_buffer :: "'z out_view \<Rightarrow> address \<Rightarrow> 'z EpsCopyOutputStream \<Rightarrow> bool" where
  "in_out_buffer V ptr s \<longleftrightarrow>
     view_valid V s \<and> 0 \<le> view_begin V s \<and> view_begin V s \<le> ptr \<and> ptr \<le> out_end s + kSlopBytes"

definition written :: "'z out_view \<Rightarrow> address \<Rightarrow> 'z EpsCopyOutputStream \<Rightarrow> string" where
  "written V ptr s = view_sent V s @ bytes_at (out_memory s) (view_begin V s) (ptr - view_begin V s)"

text \<open>A step of a serializer that appends bytes, unless there was an error; and a serializer all of whose steps do.\<close>

definition appends :: "'z out_view \<Rightarrow> string \<Rightarrow> address \<times> 'z EpsCopyOutputStream \<Rightarrow> address \<times> 'z EpsCopyOutputStream \<Rightarrow> bool" where
  "appends V bs before after \<longleftrightarrow>
     (case (before, after) of ((ptr, s), (ptr', s')) \<Rightarrow>
        in_out_buffer V ptr' s' \<and> (\<not> had_error s' \<longrightarrow> \<not> had_error s \<and> written V ptr' s' = written V ptr s @ bs))"

definition writes :: "'z out_view \<Rightarrow> 'z serializer \<Rightarrow> string \<Rightarrow> bool" where
  "writes V f bs \<longleftrightarrow> (\<forall>ptr s. in_out_buffer V ptr s \<longrightarrow> (\<exists>r. f ptr s = Some r \<and> appends V bs (ptr, s) r))"

lemma appends_trans: "appends V a x y \<Longrightarrow> appends V b y z \<Longrightarrow> appends V (a @ b) x z"
  by (cases x; cases y; cases z) (simp add: appends_def)

lemma appends_refl: "in_out_buffer V ptr s \<Longrightarrow> appends V [] (ptr, s) (ptr, s)"
  by (simp add: appends_def)

lemma appends_in_buffer: "appends V a x (p, s) \<Longrightarrow> in_out_buffer V p s"
  by (cases x) (simp add: appends_def)

lemma writes_nothing: "writes V (\<lambda>p s. Some (p, s)) []"
  by (simp add: writes_def appends_refl)

lemma writes_append:
  assumes "writes V f a" "writes V g b"
  shows "writes V (\<lambda>ptr s. do { (ptr, s) \<leftarrow> f ptr s; g ptr s }) (a @ b)"
  unfolding writes_def
proof (intro allI impI)
  fix ptr s assume i: "in_out_buffer V ptr s"
  obtain p1 s1 where f: "f ptr s = Some (p1, s1)" "appends V a (ptr, s) (p1, s1)"
    using assms(1) i unfolding writes_def by (metis surj_pair)
  obtain r where g: "g p1 s1 = Some r" "appends V b (p1, s1) r"
    using assms(2) appends_in_buffer [OF f(2)] unfolding writes_def by metis
  have "(do { (ptr, s) \<leftarrow> f ptr s; g ptr s }) = Some r" using f(1) g(1) by simp
  then show "\<exists>r. (do { (ptr, s) \<leftarrow> f ptr s; g ptr s }) = Some r \<and> appends V (a @ b) (ptr, s) r"
    using appends_trans [OF f(2) g(2)] by blast
qed

lemma bytes_at_store:
  assumes "0 \<le> a" "a \<le> p"
  shows "bytes_at (M(nat p := b)) a (p + 1 - a) = bytes_at M a (p - a) @ [char_of (unat b)]"
proof -
  obtain k where p: "p = a + int k" using assms(2) by (metis zle_iff_zadd)
  have "nat (p + 1 - a) = Suc k" "nat (p - a) = k" "nat p = nat a + k" using assms(1) p by (simp_all add: nat_add_distrib)
  then show ?thesis by (auto simp: bytes_at_def)
qed

lemma char_byte: "char_of (unat (of_char c :: 8 word)) = c"
  by (subst of_nat_of_char [symmetric]) (simp add: unat_of_nat)

text \<open>The loop stores the bytes of the varint.\<close>

lemma put_bytes_append: "put_bytes (a @ b) ptr s = do { (ptr, s) \<leftarrow> put_bytes a ptr s; put_bytes b ptr s }"
proof (induction a arbitrary: ptr s)
  case (Cons c cs)
  show ?case by (cases "put_byte (of_char c) ptr s") (auto simp: Cons.IH split: prod.splits)
qed simp

lemma put_bytes_single [simp]: "put_byte b ptr s \<bind> (\<lambda>(x, y). put_bytes [] x y) = put_byte b ptr s"
  by (cases "put_byte b ptr s") auto

lemma byte_char: "of_char (char_of (unat v) :: char) = (ucast v :: 8 word)" for v :: "'w::len word"
  by (subst of_nat_of_char [symmetric])
    (simp add: word_unat_eq_iff unat_of_nat unsigned_ucast_eq take_bit_eq_mod)

lemma UnsafeVarint_to_put:
  "UnsafeVarint_to v = put_bytes (UnsafeVarint v)" "UnsafeVarint_to w = put_bytes (UnsafeVarint64 w)"
proof -
  show "UnsafeVarint_to v = put_bytes (UnsafeVarint v)"
  proof (induction v rule: UnsafeVarint.induct)
    case (1 v)
    show ?case
      by (intro ext, subst UnsafeVarint_to.simps, subst UnsafeVarint.simps) (simp add: 1 byte_char)
  qed
  show "UnsafeVarint_to w = put_bytes (UnsafeVarint64 w)"
  proof (induction w rule: UnsafeVarint64.induct)
    case (1 w)
    show ?case
      by (intro ext, subst UnsafeVarint_to.simps, subst UnsafeVarint64.simps) (simp add: 1 byte_char)
  qed
qed

lemma length_UnsafeVarint: "length (UnsafeVarint v) \<le> 5" "length (UnsafeVarint64 w) \<le> 10"
proof -
  have "unat v < 2 ^ 32" "unat w < 2 ^ 64" using unsigned_less [of v] unsigned_less [of w] by simp_all
  then show "length (UnsafeVarint v) \<le> 5" "length (UnsafeVarint64 w) \<le> 10"
    using length_varint_le [of "unat v" 4] length_varint_le [of "unat w" 9]
    by (simp_all add: UnsafeVarint_varint UnsafeVarint64_varint)
qed

lemma TagSize_length: "TagSize t = length (UnsafeVarint t)"
  by (simp add: TagSize_def UnsafeVarint_varint length_varint [OF unat_32] word_less_nat_alt)

lemma TagSize_tag:
  assumes "num < 2 ^ 29"
  shows "length (UnsafeVarint (push_bit 3 num OR 2)) = TagSize (push_bit 3 num)"
  using field_TagSize_tags [OF assms, of False WIRETYPE_DELIMITED]
  by (simp add: field_TagSize_def VarintSize32_length TagSize_length
      WriteTagToArray_def WriteVarint32ToArray_def MakeTag_def kTagTypeBits_def wire_type_def)

lemma WriteString_short:
  "length str < 128 \<Longrightarrow> WriteString num str = UnsafeVarint (push_bit 3 num OR 2) @ [char_of (length str)] @ str"
  by (simp add: WriteString_def WriteLengthDelim_def WriteTag_def WIRETYPE_LENGTH_DELIMITED_def UnsafeVarint_varint
      unat_of_nat_32 varint.simps [of "length str"])

subsection \<open>The contract of the library\<close>

text \<open>
  A store into the buffer changes nothing that was sent; a fall-back keeps all that was written unless it
  reports an error, and makes room in any case.
\<close>

locale output_stream =
  fixes L :: "'z output_library" and V :: "'z out_view"
  assumes store: "view_valid V s \<Longrightarrow> view_begin V s \<le> a \<Longrightarrow> a < out_end s + kSlopBytes \<Longrightarrow>
      view_valid V (s\<lparr>out_memory := (out_memory s)(nat a := b)\<rparr>) \<and>
      view_begin V (s\<lparr>out_memory := (out_memory s)(nat a := b)\<rparr>) = view_begin V s \<and>
      view_sent V (s\<lparr>out_memory := (out_memory s)(nat a := b)\<rparr>) = view_sent V s"
    and space: "in_out_buffer V ptr s \<Longrightarrow>
      \<exists>p s'. EnsureSpaceFallback L ptr s = Some (p, s') \<and> p < out_end s' \<and> appends V [] (ptr, s) (p, s')"
    and raw: "length data < 2 ^ 31 \<Longrightarrow> writes V (WriteRawFallback L data) data"
    and aliased: "length data < 2 ^ 31 \<Longrightarrow> writes V (WriteAliasedRaw L data) data"
    and outline: "length str < 2 ^ 31 \<Longrightarrow>
      writes V (WriteStringMaybeAliasedOutline L num str) (WriteString num str)"
      "length str < 2 ^ 31 \<Longrightarrow> writes V (WriteStringOutline L num str) (WriteString num str)"
begin

lemma put_byte_appends:
  assumes "in_out_buffer V ptr s" "ptr < out_end s + kSlopBytes"
  obtains s' where "put_byte b ptr s = Some (ptr + 1, s')" "appends V [char_of (unat b)] (ptr, s) (ptr + 1, s')" "out_end s' = out_end s"
proof -
  let ?s = "s\<lparr>out_memory := (out_memory s)(nat ptr := b)\<rparr>"
  have i: "view_valid V s" "0 \<le> view_begin V s" "view_begin V s \<le> ptr" using assms(1) by (simp_all add: in_out_buffer_def)
  note f = store [OF i(1,3) assms(2), of b]
  have "written V (ptr + 1) ?s = written V ptr s @ [char_of (unat b)]"
    using f i(2,3) by (simp add: written_def bytes_at_store)
  moreover have "in_out_buffer V (ptr + 1) ?s" using f i assms(2) by (simp add: in_out_buffer_def)
  ultimately have "appends V [char_of (unat b)] (ptr, s) (ptr + 1, ?s)" by (simp add: appends_def)
  then show ?thesis using that assms(2) by (simp add: put_byte_def)
qed

lemma put_bytes_appends:
  assumes "in_out_buffer V ptr s" "ptr + int (length bs) \<le> out_end s + kSlopBytes"
  obtains s' where "put_bytes bs ptr s = Some (ptr + int (length bs), s')" "appends V bs (ptr, s) (ptr + int (length bs), s')"
    "out_end s' = out_end s"
proof -
  have "\<exists>s'. put_bytes bs ptr s = Some (ptr + int (length bs), s') \<and> appends V bs (ptr, s) (ptr + int (length bs), s') \<and>
      out_end s' = out_end s"
    using assms
  proof (induction bs arbitrary: ptr s)
    case Nil
    then show ?case by (simp add: appends_refl)
  next
    case (Cons c cs)
    obtain s1 where s1: "put_byte (of_char c) ptr s = Some (ptr + 1, s1)" "appends V [c] (ptr, s) (ptr + 1, s1)"
        "out_end s1 = out_end s"
      using put_byte_appends [OF Cons.prems(1), of "of_char c"] Cons.prems(2) unfolding char_byte by force
    obtain s2 where s2: "put_bytes cs (ptr + 1) s1 = Some (ptr + 1 + int (length cs), s2)"
        "appends V cs (ptr + 1, s1) (ptr + 1 + int (length cs), s2)" "out_end s2 = out_end s1"
      using Cons.IH [OF appends_in_buffer [OF s1(2)]] Cons.prems(2) s1(3) by force
    have "appends V (c # cs) (ptr, s) (ptr + 1 + int (length cs), s2)" using appends_trans [OF s1(2) s2(2)] by simp
    then show ?case using s1 s2 by (simp add: ac_simps)
  qed
  then show ?thesis using that by blast
qed

text \<open>After asking for space the 16 bytes of the slop can be written.\<close>

lemma EnsureSpace_appends:
  assumes "in_out_buffer V ptr s"
  obtains p s' where "EnsureSpace L ptr s = Some (p, s')" "p < out_end s'" "appends V [] (ptr, s) (p, s')"
proof (cases "ptr \<ge> out_end s")
  case True
  then show ?thesis using that space [OF assms] by (auto simp: EnsureSpace_def)
next
  case False
  then show ?thesis using that appends_refl [OF assms] by (simp add: EnsureSpace_def)
qed

text \<open>Whatever stores a few bytes when there is space for them writes them once space is made.\<close>

lemma writes_with_space:
  assumes f: "\<And>p s. p < out_end s \<Longrightarrow> f p s = put_bytes bs p s" and "length bs \<le> 16"
  shows "writes V (\<lambda>ptr s. do { (ptr, s) \<leftarrow> EnsureSpace L ptr s; f ptr s }) bs"
  unfolding writes_def
proof (intro allI impI)
  fix ptr s assume "in_out_buffer V ptr s"
  then obtain p s' where e: "EnsureSpace L ptr s = Some (p, s')" "p < out_end s'" "appends V [] (ptr, s) (p, s')"
    by (rule EnsureSpace_appends)
  have "p + int (length bs) \<le> out_end s' + kSlopBytes" using e(2) assms(2) by (simp add: kSlopBytes_def)
  from put_bytes_appends [OF appends_in_buffer [OF e(3)] this] obtain s2 where
    b: "put_bytes bs p s' = Some (p + int (length bs), s2)" "appends V bs (p, s') (p + int (length bs), s2)" by blast
  then show "\<exists>r. (do { (ptr, s) \<leftarrow> EnsureSpace L ptr s; f ptr s }) = Some r \<and> appends V bs (ptr, s) r"
    using e f [OF e(2)] appends_trans [OF e(3) b(2)] by auto
qed

lemma WriteRaw_writes:
  assumes "length data < 2 ^ 31"
  shows "writes V (WriteRaw L data) data"
  unfolding writes_def
proof (intro allI impI)
  fix ptr s assume i: "in_out_buffer V ptr s"
  show "\<exists>r. WriteRaw L data ptr s = Some r \<and> appends V data (ptr, s) r"
  proof (cases "out_end s - ptr < int (length data)")
    case True
    then show ?thesis using raw [OF assms] i by (simp add: WriteRaw_def writes_def)
  next
    case False
    then have "ptr + int (length data) \<le> out_end s + kSlopBytes" by (simp add: kSlopBytes_def)
    from put_bytes_appends [OF i this] show ?thesis using False by (metis WriteRaw_def)
  qed
qed

lemma WriteRawMaybeAliased_writes:
  assumes "length data < 2 ^ 31"
  shows "writes V (WriteRawMaybeAliased L data) data"
  using WriteRaw_writes [OF assms] aliased [OF assms] unfolding writes_def WriteRawMaybeAliased_def by simp

text \<open>A string that is written in place fits: tag, a length of one byte, and its bytes.\<close>

lemma in_place_writes:
  assumes i: "in_out_buffer V ptr s" and n: "length str < 128" "num < 2 ^ 29"
    "int (length str) \<le> out_end s - ptr + 16 - int (TagSize (push_bit 3 num)) - 1"
  shows "\<exists>r. (do { (ptr, s) \<leftarrow> UnsafeVarint_to (push_bit 3 num OR 2 :: 32 word) ptr s;
                  (ptr, s) \<leftarrow> put_byte (of_int (int (length str))) ptr s; put_bytes str ptr s }) = Some r \<and>
    appends V (WriteString num str) (ptr, s) r"
proof -
  let ?bs = "UnsafeVarint (push_bit 3 num OR 2) @ [char_of (length str)] @ str"
  have l: "length (UnsafeVarint (push_bit 3 num OR 2)) = TagSize (push_bit 3 num)" by (rule TagSize_tag [OF n(2)])
  have w: "WriteString num str = ?bs" using WriteString_short [OF n(1)] .
  have b: "of_char (char_of (length str) :: char) = (of_int (int (length str)) :: 8 word)"
    using n(1) by (subst of_nat_of_char [symmetric]) simp
  have "ptr + int (length ?bs) \<le> out_end s + kSlopBytes" using n(3) l by (simp add: kSlopBytes_def)
  from put_bytes_appends [OF i this] obtain s' where
    r: "put_bytes ?bs ptr s = Some (ptr + int (length ?bs), s')" "appends V ?bs (ptr, s) (ptr + int (length ?bs), s')" by blast
  have "put_bytes ?bs ptr s = (do { (ptr, s) \<leftarrow> UnsafeVarint_to (push_bit 3 num OR 2 :: 32 word) ptr s;
      (ptr, s) \<leftarrow> put_byte (of_int (int (length str))) ptr s; put_bytes str ptr s })"
    unfolding put_bytes_append UnsafeVarint_to_put by (simp add: b)
  then show ?thesis using r w by metis
qed

lemma WriteString_writes:
  assumes "length str < 2 ^ 31" "num < 2 ^ 29"
  shows "writes V (WriteString_to L num str) (WriteString num str)"
    "writes V (WriteStringMaybeAliased_to L num str) (WriteString num str)"
proof -
  have "\<exists>r. (if int (length str) \<ge> 128 \<or> out_end s - ptr + 16 - int (TagSize (push_bit 3 num)) - 1 < int (length str)
          then slow ptr s
          else do { (ptr, s) \<leftarrow> UnsafeVarint_to (push_bit 3 num OR 2 :: 32 word) ptr s;
                    (ptr, s) \<leftarrow> put_byte (of_int (int (length str))) ptr s; put_bytes str ptr s }) = Some r \<and>
      appends V (WriteString num str) (ptr, s) r"
    if "writes V slow (WriteString num str)" "in_out_buffer V ptr s" for slow ptr s
  proof (cases "int (length str) \<ge> 128 \<or> out_end s - ptr + 16 - int (TagSize (push_bit 3 num)) - 1 < int (length str)")
    case True
    then show ?thesis using that unfolding writes_def by simp
  next
    case False
    then show ?thesis using in_place_writes [OF that(2) _ assms(2), of str] by simp
  qed
  from this [OF outline(1) [OF assms(1)]] this [OF outline(2) [OF assms(1)]]
  show "writes V (WriteString_to L num str) (WriteString num str)"
    "writes V (WriteStringMaybeAliased_to L num str) (WriteString num str)"
    unfolding writes_def WriteString_to_def WriteStringMaybeAliased_to_def Let_def by blast+
qed

text \<open>Varints and packed fields.\<close>

lemma varint_writes:
  "writes V (\<lambda>ptr s. do { (ptr, s) \<leftarrow> EnsureSpace L ptr s; UnsafeVarint_to v ptr s }) (UnsafeVarint v)"
  "writes V (\<lambda>ptr s. do { (ptr, s) \<leftarrow> EnsureSpace L ptr s; UnsafeVarint_to w ptr s }) (UnsafeVarint64 w)"
  using length_UnsafeVarint(1) [of v] length_UnsafeVarint(2) [of w]
  by (intro writes_with_space; simp add: UnsafeVarint_to_put)+

lemma WriteLengthDelim_writes:
  "writes V (\<lambda>ptr s. do { (ptr, s) \<leftarrow> EnsureSpace L ptr s; WriteLengthDelim_to num sz ptr s }) (WriteLengthDelim num sz)"
proof (rule writes_with_space)
  show "WriteLengthDelim_to num sz p s = put_bytes (WriteLengthDelim num sz) p s" if "p < out_end s" for p s
    using that by (simp add: WriteLengthDelim_to_def WriteTag_to_def WriteLengthDelim_def WriteTag_def UnsafeVarint_to_put
        put_bytes_append WIRETYPE_LENGTH_DELIMITED_def)
  show "length (WriteLengthDelim num sz) \<le> 16"
    using length_UnsafeVarint(1) [of "push_bit 3 num OR 2"] length_UnsafeVarint(1) [of sz]
    by (simp add: WriteLengthDelim_def WriteTag_def WIRETYPE_LENGTH_DELIMITED_def)
qed

lemma put_each_writes:
  assumes "\<And>v. writes V (\<lambda>ptr s. do { (ptr, s) \<leftarrow> EnsureSpace L ptr s; UnsafeVarint_to (encode v) ptr s }) (put v)" "vs \<noteq> []"
  shows "writes V (put_each_to L encode vs) (concat (map put vs))"
  using assms(2)
proof (induction vs)
  case (Cons v vs)
  show ?case
  proof (cases "vs = []")
    case True
    then show ?thesis using assms(1) [of v] by (simp add: writes_def split_def)
  next
    case False
    then show ?thesis using writes_append [OF assms(1) [of v] Cons.IH [OF False]] by (simp add: writes_def split_def)
  qed
qed simp

lemma WriteVarintPacked_writes:
  assumes "\<And>v. writes V (\<lambda>ptr s. do { (ptr, s) \<leftarrow> EnsureSpace L ptr s; UnsafeVarint_to (encode v) ptr s }) (put v)"
    "WriteVarintPacked num r sz put = Some bs"
  shows "writes V (WriteVarintPacked_to L num r sz encode) bs"
proof -
  have r: "r \<noteq> []" "bs = WriteLengthDelim num sz @ concat (map put r)"
    using assms(2) by (auto simp: WriteVarintPacked_def put_each_concat split: if_splits)
  show ?thesis
    using writes_append [OF WriteLengthDelim_writes put_each_writes [OF assms(1) r(1)], of num sz] r(2)
    by (simp add: writes_def WriteVarintPacked_to_def split_def)
qed

lemma WriteFixedPacked_writes:
  assumes "\<And>v. length (bytes v) = w" "length r * w < 2 ^ 31"
  shows "writes V (WriteFixedPacked L num w bytes r) (WriteLengthDelim num (of_nat (length r * w)) @ concat (map bytes r))"
proof -
  have "length (concat (map bytes r)) = length r * w" using assms(1) by (simp add: length_concat o_def sum_list_triv)
  then have "length (concat (map bytes r)) < 2 ^ 31" using assms(2) by simp
  from writes_append [OF WriteLengthDelim_writes WriteRaw_writes [OF this], of num "of_nat (length r * w)"]
  show ?thesis by (simp add: writes_def WriteFixedPacked_def WriteRawLittleEndian_def split_def)
qed

text \<open>Little-endian numbers.\<close>

lemma little_endian_writes:
  "length bs \<le> 16 \<Longrightarrow> writes V (\<lambda>ptr s. do { (ptr, s) \<leftarrow> EnsureSpace L ptr s; put_bytes bs ptr s }) bs"
  by (rule writes_with_space) simp_all

end

subsection \<open>Calls of \<open>CodedOutputStream\<close>\<close>

definition coded_appends :: "'z out_view \<Rightarrow> string \<Rightarrow> ('z CodedOutputStream \<Rightarrow> 'z CodedOutputStream option) \<Rightarrow> bool" where
  "coded_appends V bs call \<longleftrightarrow>
     (\<forall>c. in_out_buffer V (cur c) (impl c) \<longrightarrow>
        (\<exists>c'. call c = Some c' \<and> start_count c' = start_count c \<and> appends V bs (cur c, impl c) (cur c', impl c')))"

lemma on_impl_appends: "writes V f bs \<Longrightarrow> coded_appends V bs (on_impl f)"
  unfolding writes_def coded_appends_def on_impl_def by fastforce

lemma on_impl_seq:
  "do { c \<leftarrow> on_impl f c; on_impl g c } = on_impl (\<lambda>ptr s. do { (ptr, s) \<leftarrow> f ptr s; g ptr s }) c"
  by (cases "f (cur c) (impl c)") (auto simp: on_impl_def option.map_comp o_def split_def)

lemma coded_appends_seq:
  fixes V :: "'z out_view"
  assumes "coded_appends V a f" "coded_appends V b g"
  shows "coded_appends V (a @ b) (\<lambda>c. do { c \<leftarrow> f c; g c })"
  unfolding coded_appends_def
proof (intro allI impI)
  fix c :: "'z CodedOutputStream" assume i: "in_out_buffer V (cur c) (impl c)"
  obtain c1 where f: "f c = Some c1" "start_count c1 = start_count c" "appends V a (cur c, impl c) (cur c1, impl c1)"
    using assms(1) i unfolding coded_appends_def by blast
  obtain c2 where g: "g c1 = Some c2" "start_count c2 = start_count c1" "appends V b (cur c1, impl c1) (cur c2, impl c2)"
    using assms(2) appends_in_buffer [OF f(3)] unfolding coded_appends_def by blast
  show "\<exists>c'. (do { c \<leftarrow> f c; g c }) = Some c' \<and> start_count c' = start_count c \<and> appends V (a @ b) (cur c, impl c) (cur c', impl c')"
    using f g appends_trans [OF f(3) g(3)] by auto
qed

context output_stream
begin

lemma coded_calls_append:
  "coded_appends V (WriteVarint32ToArray v) (WriteVarint32 L v)"
  "coded_appends V (WriteVarint64ToArray w) (WriteVarint64 L w)"
  "coded_appends V (WriteVarint32SignExtendedToArray v) (WriteVarint32SignExtended L v)"
  "coded_appends V (WriteVarint32ToArray v) (coded_WriteTag L v)"
  "coded_appends V (WriteLittleEndian16ToArray h) (WriteLittleEndian16 L h)"
  "coded_appends V (WriteLittleEndian32ToArray v) (WriteLittleEndian32 L v)"
  "coded_appends V (WriteLittleEndian64ToArray w) (WriteLittleEndian64 L w)"
  "length str < 2 ^ 31 \<Longrightarrow> coded_appends V str (coded_WriteString L str)"
  "length str < 2 ^ 31 \<Longrightarrow> coded_appends V str (coded_WriteRaw L str)"
  "length str < 2 ^ 31 \<Longrightarrow> coded_appends V str (coded_WriteRawMaybeAliased L str)"
proof -
  show v: "coded_appends V (WriteVarint32ToArray v) (WriteVarint32 L v)" for v
    unfolding WriteVarint32_def WriteVarint32ToArray_def on_impl_seq by (rule on_impl_appends [OF varint_writes(1)])
  show w: "coded_appends V (WriteVarint64ToArray w) (WriteVarint64 L w)" for w
    unfolding WriteVarint64_def WriteVarint64ToArray_def on_impl_seq by (rule on_impl_appends [OF varint_writes(2)])
  show "coded_appends V (WriteVarint32SignExtendedToArray v) (WriteVarint32SignExtended L v)"
    using w [of "scast v"]
    by (simp add: WriteVarint32SignExtended_def WriteVarint32SignExtendedToArray_def WriteVarint64ToArray_def)
  show "coded_appends V (WriteVarint32ToArray v) (coded_WriteTag L v)" using v by (simp add: coded_WriteTag_def)
  show "coded_appends V (WriteLittleEndian16ToArray h) (WriteLittleEndian16 L h)"
    unfolding WriteLittleEndian16_def on_impl_seq
    by (intro on_impl_appends little_endian_writes) (simp add: WriteLittleEndian16ToArray_def)
  show "coded_appends V (WriteLittleEndian32ToArray v) (WriteLittleEndian32 L v)"
    unfolding WriteLittleEndian32_def on_impl_seq
    by (intro on_impl_appends little_endian_writes) (simp add: WriteLittleEndian_bytes le_bytes_def)
  show "coded_appends V (WriteLittleEndian64ToArray w) (WriteLittleEndian64 L w)"
    unfolding WriteLittleEndian64_def on_impl_seq
    by (intro on_impl_appends little_endian_writes) (simp add: WriteLittleEndian_bytes le_bytes_def)
next
  assume l: "length str < 2 ^ 31"
  show "coded_appends V str (coded_WriteString L str)" "coded_appends V str (coded_WriteRaw L str)"
    using on_impl_appends [OF WriteRaw_writes [OF l]] by (simp_all add: coded_WriteString_def coded_WriteRaw_def)
  show "coded_appends V str (coded_WriteRawMaybeAliased L str)"
    using on_impl_appends [OF WriteRawMaybeAliased_writes [OF l]] by (simp add: coded_WriteRawMaybeAliased_def)
qed

end

subsection \<open>A sink of bounded capacity\<close>

text \<open>
  A stream that takes bytes until it is full. Every fall-back hands it what is in the patch buffer and what is to
  be written, and starts again at the patch buffer; when there is no room left it reports \<open>Error\<close>.
\<close>

type_synonym sink = "string \<times> nat"

definition sink_write :: "string \<Rightarrow> sink serializer" where
  "sink_write data ptr s =
     (case out_stream s of
        None \<Rightarrow> None
      | Some (taken, capacity) \<Rightarrow>
          let all = taken @ bytes_at (out_memory s) (out_buffer s) (ptr - out_buffer s) @ data in
          Some (if had_error s \<or> length all > capacity then Error s
                else (out_buffer s, s\<lparr>out_stream := Some (all, capacity), out_end := out_buffer s + kSlopBytes\<rparr>)))"

definition sink_library :: "sink output_library" where
  "sink_library =
     \<lparr>EnsureSpaceFallback = sink_write [], WriteRawFallback = sink_write, WriteAliasedRaw = sink_write,
      WriteStringMaybeAliasedOutline = \<lambda>num str. sink_write (WriteString num str),
      WriteStringOutline = \<lambda>num str. sink_write (WriteString num str)\<rparr>"

definition sink_view :: "sink out_view" where
  "sink_view =
     \<lparr>view_begin = out_buffer, view_sent = \<lambda>s. (case out_stream s of None \<Rightarrow> [] | Some (taken, _) \<Rightarrow> taken),
      view_valid = \<lambda>s. 0 \<le> out_buffer s \<and> out_stream s \<noteq> None\<rparr>"

lemma sink_write_writes:
  assumes "in_out_buffer sink_view ptr s"
  shows "\<exists>p s'. sink_write data ptr s = Some (p, s') \<and> p < out_end s' \<and> appends sink_view data (ptr, s) (p, s')"
  using assms
  by (auto simp: sink_write_def Error_def appends_def in_out_buffer_def sink_view_def written_def Let_def bytes_at_def
      kSlopBytes_def)

interpretation sunk: output_stream sink_library sink_view
  using sink_write_writes by unfold_locales (fastforce simp: sink_library_def writes_def sink_view_def)+

end
