(* ===== verification/MessageStream.thy ===== *)
theory MessageStream
  imports OutputStream XnMessages
begin

text \<open>
  The generated \<open>_InternalSerialize\<close> of the four messages on the stream they are given, pointer by pointer, and
  sequences of calls of \<open>CodedOutputStream\<close>. Writing a message inside a message and writing unknown fields are
  compiled into the library: the locale \<open>message_stream\<close> says what they write. The bytes are those of
  \<open>XnMessages\<close>, where a stream is just a string. \<open>VerifyUtf8String\<close> only logs.
\<close>

subsection \<open>Messages\<close>

definition string_field_to :: "'z output_library \<Rightarrow> 32 word \<Rightarrow> string \<Rightarrow> 'z serializer" where
  "string_field_to L num str ptr s = (if str \<noteq> [] then WriteStringMaybeAliased_to L num str ptr s else Some (ptr, s))"

definition unknown_fields_to :: "(string \<Rightarrow> 'z serializer) \<Rightarrow> string \<Rightarrow> 'z serializer" where
  "unknown_fields_to write_unknown u ptr s = (if u \<noteq> [] then write_unknown u ptr s else Some (ptr, s))"

definition QuestionAnswer_InternalSerialize_to ::
  "'z output_library \<Rightarrow> (string \<Rightarrow> 'z serializer) \<Rightarrow> QuestionAnswer \<Rightarrow> 'z serializer" where
  "QuestionAnswer_InternalSerialize_to L write_unknown m ptr s =
     do { (ptr, s) \<leftarrow> string_field_to L 1 (qa_question m) ptr s;
          (ptr, s) \<leftarrow> string_field_to L 2 (qa_answer m) ptr s;
          (ptr, s) \<leftarrow> string_field_to L 3 (qa_group m) ptr s;
          (ptr, s) \<leftarrow> string_field_to L 4 (qa_id m) ptr s;
          unknown_fields_to write_unknown (qa_unknown m) ptr s }"

definition QuestionAnswerGroup_InternalSerialize_to ::
  "'z output_library \<Rightarrow> (string \<Rightarrow> 'z serializer) \<Rightarrow> QuestionAnswerGroup \<Rightarrow> 'z serializer" where
  "QuestionAnswerGroup_InternalSerialize_to L write_unknown m ptr s =
     do { (ptr, s) \<leftarrow> string_field_to L 1 (qag_group m) ptr s;
          (ptr, s) \<leftarrow> string_field_to L 2 (qag_path m) ptr s;
          (ptr, s) \<leftarrow> string_field_to L 3 (qag_id m) ptr s;
          unknown_fields_to write_unknown (qag_unknown m) ptr s }"

text \<open>The loop over the items of a list; \<open>write_message\<close> is \<open>InternalWriteMessage\<close> with the serializer of an item.\<close>

type_synonym 'z message_writer = "32 word \<Rightarrow> 'z serializer \<Rightarrow> 32 word \<Rightarrow> 'z serializer"

fun items_to :: "'z message_writer \<Rightarrow> ('m \<Rightarrow> 'z serializer) \<Rightarrow> ('m \<Rightarrow> 32 word) \<Rightarrow> 'm list \<Rightarrow> 'z serializer" where
  "items_to write_message item cached [] ptr s = Some (ptr, s)"
| "items_to write_message item cached (i # items) ptr s =
     do { (ptr, s) \<leftarrow> write_message 1 (item i) (cached i) ptr s; items_to write_message item cached items ptr s }"

definition QuestionAnswerList_InternalSerialize_to ::
  "'z output_library \<Rightarrow> 'z message_writer \<Rightarrow> (string \<Rightarrow> 'z serializer) \<Rightarrow> QuestionAnswerList \<Rightarrow> 'z serializer" where
  "QuestionAnswerList_InternalSerialize_to L write_message write_unknown m ptr s =
     do { (ptr, s) \<leftarrow> items_to write_message (QuestionAnswer_InternalSerialize_to L write_unknown) qa_cached (qal_items m) ptr s;
          unknown_fields_to write_unknown (qal_unknown m) ptr s }"

definition QuestionAnswerGroupList_InternalSerialize_to ::
  "'z output_library \<Rightarrow> 'z message_writer \<Rightarrow> (string \<Rightarrow> 'z serializer) \<Rightarrow> QuestionAnswerGroupList \<Rightarrow> 'z serializer" where
  "QuestionAnswerGroupList_InternalSerialize_to L write_message write_unknown m ptr s =
     do { (ptr, s) \<leftarrow> items_to write_message (QuestionAnswerGroup_InternalSerialize_to L write_unknown) qag_cached (gl_items m) ptr s;
          unknown_fields_to write_unknown (gl_unknown m) ptr s }"

text \<open>Lengths are cast to \<open>int\<close>.\<close>

definition fits_int :: "string \<Rightarrow> bool" where
  "fits_int str \<longleftrightarrow> length str < 2 ^ 31"

definition qa_fits :: "QuestionAnswer \<Rightarrow> bool" where
  "qa_fits m \<longleftrightarrow> (\<forall>str \<in> {qa_question m, qa_answer m, qa_group m, qa_id m, qa_unknown m}. fits_int str)"

definition qag_fits :: "QuestionAnswerGroup \<Rightarrow> bool" where
  "qag_fits m \<longleftrightarrow> (\<forall>str \<in> {qag_group m, qag_path m, qag_id m, qag_unknown m}. fits_int str)"

locale message_stream = output_stream L V for L :: "'z output_library" and V +
  fixes write_message :: "'z message_writer" and write_unknown :: "string \<Rightarrow> 'z serializer"
  assumes nested: "writes V f bs \<Longrightarrow> writes V (write_message num f n) (InternalWriteMessage num bs n)"
    and unknown: "length u < 2 ^ 31 \<Longrightarrow> writes V (write_unknown u) u"
begin

lemma string_field_writes: "fits_int str \<Longrightarrow> num < 2 ^ 29 \<Longrightarrow> writes V (string_field_to L num str) (string_field num str)"
  using WriteString_writes(2) [of str num] writes_nothing [of V]
  by (cases "str = []") (simp_all add: string_field_def string_field_to_def [abs_def] fits_int_def)

lemma unknown_writes: "fits_int u \<Longrightarrow> writes V (unknown_fields_to write_unknown u) u"
  using unknown [of u] writes_nothing [of V] by (cases "u = []") (simp_all add: unknown_fields_to_def [abs_def] fits_int_def)

lemma QuestionAnswer_writes:
  assumes "qa_fits m"
  shows "writes V (QuestionAnswer_InternalSerialize_to L write_unknown m) (QuestionAnswer_InternalSerialize m)"
  unfolding QuestionAnswer_InternalSerialize_to_def [abs_def] QuestionAnswer_InternalSerialize_def
  using assms by (intro writes_append string_field_writes unknown_writes) (simp_all add: qa_fits_def)

lemma QuestionAnswerGroup_writes:
  assumes "qag_fits m"
  shows "writes V (QuestionAnswerGroup_InternalSerialize_to L write_unknown m) (QuestionAnswerGroup_InternalSerialize m)"
  unfolding QuestionAnswerGroup_InternalSerialize_to_def [abs_def] QuestionAnswerGroup_InternalSerialize_def
  using assms by (intro writes_append string_field_writes unknown_writes) (simp_all add: qag_fits_def)

lemma items_write:
  assumes "\<And>i. i \<in> set items \<Longrightarrow> writes V (item i) (bytes i)"
  shows "writes V (items_to write_message item cached items) (concat (map (\<lambda>i. InternalWriteMessage 1 (bytes i) (cached i)) items))"
  using assms
proof (induction items)
  case Nil
  then show ?case using writes_nothing [of V] by (simp add: writes_def)
next
  case (Cons i items)
  have "writes V (write_message 1 (item i) (cached i)) (InternalWriteMessage 1 (bytes i) (cached i))"
    using nested Cons.prems by simp
  moreover have "writes V (items_to write_message item cached items)
      (concat (map (\<lambda>i. InternalWriteMessage 1 (bytes i) (cached i)) items))"
    using Cons by simp
  ultimately have "writes V (\<lambda>ptr s. do { (ptr, s) \<leftarrow> write_message 1 (item i) (cached i) ptr s; items_to write_message item cached items ptr s })
      (InternalWriteMessage 1 (bytes i) (cached i) @ concat (map (\<lambda>i. InternalWriteMessage 1 (bytes i) (cached i)) items))"
    by (rule writes_append)
  then show ?case by (simp add: writes_def)
qed

lemma QuestionAnswerList_writes:
  assumes "\<forall>i \<in> set (qal_items m). qa_fits i" "fits_int (qal_unknown m)"
  shows "writes V (QuestionAnswerList_InternalSerialize_to L write_message write_unknown m) (QuestionAnswerList_InternalSerialize m)"
  unfolding QuestionAnswerList_InternalSerialize_to_def [abs_def] QuestionAnswerList_InternalSerialize_def
  using assms by (intro writes_append items_write QuestionAnswer_writes unknown_writes) simp_all

lemma QuestionAnswerGroupList_writes:
  assumes "\<forall>i \<in> set (gl_items m). qag_fits i" "fits_int (gl_unknown m)"
  shows "writes V (QuestionAnswerGroupList_InternalSerialize_to L write_message write_unknown m)
    (QuestionAnswerGroupList_InternalSerialize m)"
  unfolding QuestionAnswerGroupList_InternalSerialize_to_def [abs_def] QuestionAnswerGroupList_InternalSerialize_def
  using assms by (intro writes_append items_write QuestionAnswerGroup_writes unknown_writes) simp_all

end

text \<open>The sink of bounded capacity writes what is nested after its prefix.\<close>

definition sink_message :: "sink message_writer" where
  "sink_message num f n ptr s =
     do { (ptr, s) \<leftarrow> sink_write (WriteTag num WIRETYPE_LENGTH_DELIMITED @ UnsafeVarint n) ptr s; f ptr s }"

interpretation sunk_messages: message_stream sink_library sink_view sink_message sink_write
proof unfold_locales
  have w: "writes sink_view (sink_write data) data" for data
    using sink_write_writes unfolding writes_def by blast
  then show "writes sink_view (sink_write u) u" for u .
  show "writes sink_view (sink_message num f n) (InternalWriteMessage num bs n)" if "writes sink_view f bs" for f bs num n
    using writes_append [OF w [of "WriteTag num WIRETYPE_LENGTH_DELIMITED @ UnsafeVarint n"] that] by (simp add: InternalWriteMessage_def sink_message_def [abs_def])
qed

subsection \<open>Sequences of calls\<close>

datatype coded_call =
  PutVarint32 "32 word" | PutVarint64 "64 word" | PutSignExtended "32 word" | PutTag "32 word"
| PutFixed16 "16 word" | PutFixed32 "32 word" | PutFixed64 "64 word" | PutString string | PutRaw string | PutAliased string

fun perform_coded :: "'z output_library \<Rightarrow> coded_call \<Rightarrow> 'z CodedOutputStream \<Rightarrow> 'z CodedOutputStream option" where
  "perform_coded L (PutVarint32 v) = WriteVarint32 L v"
| "perform_coded L (PutVarint64 v) = WriteVarint64 L v"
| "perform_coded L (PutSignExtended v) = WriteVarint32SignExtended L v"
| "perform_coded L (PutTag v) = coded_WriteTag L v"
| "perform_coded L (PutFixed16 v) = WriteLittleEndian16 L v"
| "perform_coded L (PutFixed32 v) = WriteLittleEndian32 L v"
| "perform_coded L (PutFixed64 v) = WriteLittleEndian64 L v"
| "perform_coded L (PutString str) = coded_WriteString L str"
| "perform_coded L (PutRaw str) = coded_WriteRaw L str"
| "perform_coded L (PutAliased str) = coded_WriteRawMaybeAliased L str"

fun coded_bytes :: "coded_call \<Rightarrow> string" where
  "coded_bytes (PutVarint32 v) = WriteVarint32ToArray v"
| "coded_bytes (PutVarint64 v) = WriteVarint64ToArray v"
| "coded_bytes (PutSignExtended v) = WriteVarint32SignExtendedToArray v"
| "coded_bytes (PutTag v) = WriteVarint32ToArray v"
| "coded_bytes (PutFixed16 v) = WriteLittleEndian16ToArray v"
| "coded_bytes (PutFixed32 v) = WriteLittleEndian32ToArray v"
| "coded_bytes (PutFixed64 v) = WriteLittleEndian64ToArray v"
| "coded_bytes (PutString str) = str"
| "coded_bytes (PutRaw str) = str"
| "coded_bytes (PutAliased str) = str"

fun perform_all :: "'z output_library \<Rightarrow> coded_call list \<Rightarrow> 'z CodedOutputStream \<Rightarrow> 'z CodedOutputStream option" where
  "perform_all L [] c = Some c"
| "perform_all L (x # xs) c = do { c \<leftarrow> perform_coded L x c; perform_all L xs c }"

context output_stream
begin

lemma call_appends: "length (coded_bytes x) < 2 ^ 31 \<Longrightarrow> coded_appends V (coded_bytes x) (perform_coded L x)"
  by (cases x) (simp_all add: coded_calls_append)

lemma calls_append:
  "\<forall>x \<in> set xs. length (coded_bytes x) < 2 ^ 31 \<Longrightarrow>
     coded_appends V (concat (map coded_bytes xs)) (perform_all L xs)"
proof (induction xs)
  case Nil
  then show ?case by (simp add: coded_appends_def appends_refl)
next
  case (Cons x xs)
  have "coded_appends V (coded_bytes x @ concat (map coded_bytes xs))
      (\<lambda>c. do { c \<leftarrow> perform_coded L x c; perform_all L xs c })"
    using Cons by (intro coded_appends_seq call_appends) simp_all
  then show ?case by (simp add: coded_appends_def)
qed

end

end
