(* ===== verification/CodedInput.thy ===== *)
theory CodedInput
  imports MessageStream
begin

text \<open>
  \<open>CodedInputStream\<close> of \<open>io/coded_stream.h\<close>: numbers and tags read from a buffer, with fast paths for short varints
  and fall-backs, compiled into the library, that may fetch the next buffer. The locale \<open>coded_input\<close> states
  what a fall-back reads; a flat array interprets it.
\<close>

subsection \<open>The stream\<close>

record 'z CodedInputStream =
  ci_buffer :: address
  ci_buffer_end :: address
  ci_input :: "'z option"
  total_bytes_read :: int
  overflow_bytes :: int
  last_tag :: "32 word"
  legitimate_message_end :: bool
  ci_aliasing :: bool
  force_eager_parsing :: bool
  current_limit :: int
  buffer_size_after_limit :: int
  total_bytes_limit :: int
  recursion_budget :: int
  recursion_limit :: int
  extension_pool :: "address option"
  extension_factory :: "address option"
  ci_memory :: memory

text \<open>\<open>Refresh\<close> of a stream fetches its first buffer; an array has all of it.\<close>

definition new_coded_input ::
  "('z CodedInputStream \<Rightarrow> 'z CodedInputStream) \<Rightarrow> int \<Rightarrow> memory \<Rightarrow> 'z \<Rightarrow> 'z CodedInputStream" where
  "new_coded_input Refresh default_recursion_limit M input =
     Refresh \<lparr>ci_buffer = 0, ci_buffer_end = 0, ci_input = Some input, total_bytes_read = 0, overflow_bytes = 0, last_tag = 0,
       legitimate_message_end = False, ci_aliasing = False, force_eager_parsing = False, current_limit = INT_MAX,
       buffer_size_after_limit = 0, total_bytes_limit = INT_MAX, recursion_budget = default_recursion_limit,
       recursion_limit = default_recursion_limit, extension_pool = None, extension_factory = None, ci_memory = M\<rparr>"

definition new_flat_input :: "int \<Rightarrow> memory \<Rightarrow> address \<Rightarrow> int \<Rightarrow> 'z CodedInputStream" where
  "new_flat_input default_recursion_limit M buffer n =
     \<lparr>ci_buffer = buffer, ci_buffer_end = buffer + n, ci_input = None, total_bytes_read = n, overflow_bytes = 0, last_tag = 0,
      legitimate_message_end = False, ci_aliasing = False, force_eager_parsing = False, current_limit = n,
      buffer_size_after_limit = 0, total_bytes_limit = INT_MAX, recursion_budget = default_recursion_limit,
      recursion_limit = default_recursion_limit, extension_pool = None, extension_factory = None, ci_memory = M\<rparr>"

definition IsFlat :: "'z CodedInputStream \<Rightarrow> bool" where
  "IsFlat c \<longleftrightarrow> ci_input c = None"

definition BufferSize :: "'z CodedInputStream \<Rightarrow> int" where
  "BufferSize c = cast_int (ci_buffer_end c - ci_buffer c)"

definition Advance :: "int \<Rightarrow> 'z CodedInputStream \<Rightarrow> 'z CodedInputStream" where
  "Advance amount c = c\<lparr>ci_buffer := ci_buffer c + amount\<rparr>"

text \<open>A byte of the buffer.\<close>

definition byte_at :: "'z CodedInputStream \<Rightarrow> nat \<Rightarrow> 8 word" where
  "byte_at c k = at_address (ci_memory c) (ci_buffer c) k"

definition coded_Skip ::
  "(int \<Rightarrow> int \<Rightarrow> 'z CodedInputStream \<Rightarrow> bool \<times> 'z CodedInputStream) \<Rightarrow> int \<Rightarrow> 'z CodedInputStream \<Rightarrow>
     bool \<times> 'z CodedInputStream" where
  "coded_Skip SkipFallback n c =
     (if n < 0 then (False, c)
      else
        let original_buffer_size = BufferSize c in
        if n \<le> original_buffer_size then (True, Advance n c) else SkipFallback n original_buffer_size c)"

definition GetDirectBufferPointerInline :: "'z CodedInputStream \<Rightarrow> address \<times> int" where
  "GetDirectBufferPointerInline c = (ci_buffer c, cast_int (ci_buffer_end c - ci_buffer c))"

definition CurrentPosition :: "'z CodedInputStream \<Rightarrow> int option" where
  "CurrentPosition c = do { n \<leftarrow> int32 (BufferSize c + buffer_size_after_limit c); int32 (total_bytes_read c - n) }"

definition ExpectAtEnd :: "'z CodedInputStream \<Rightarrow> bool \<times> 'z CodedInputStream" where
  "ExpectAtEnd c =
     (if ci_buffer c = ci_buffer_end c \<and> (buffer_size_after_limit c \<noteq> 0 \<or> total_bytes_read c = current_limit c)
      then (True, c\<lparr>last_tag := 0, legitimate_message_end := True\<rparr>) else (False, c))"

definition LastTagWas :: "32 word \<Rightarrow> 'z CodedInputStream \<Rightarrow> bool" where
  "LastTagWas expected c \<longleftrightarrow> last_tag c = expected"

definition coded_SetLastTag :: "32 word \<Rightarrow> 'z CodedInputStream \<Rightarrow> 'z CodedInputStream" where
  "coded_SetLastTag tag c = c\<lparr>last_tag := tag\<rparr>"

definition ConsumedEntireMessage :: "'z CodedInputStream \<Rightarrow> bool" where
  "ConsumedEntireMessage c = legitimate_message_end c"

definition SetConsumed :: "'z CodedInputStream \<Rightarrow> 'z CodedInputStream" where
  "SetConsumed c = c\<lparr>legitimate_message_end := True\<rparr>"

subsection \<open>Depth of recursion\<close>

definition SetRecursionLimit :: "int \<Rightarrow> 'z CodedInputStream \<Rightarrow> 'z CodedInputStream option" where
  "SetRecursionLimit limit c =
     do { d \<leftarrow> int32 (limit - recursion_limit c);
          b \<leftarrow> int32 (recursion_budget c + d);
          Some (c\<lparr>recursion_budget := b, recursion_limit := limit\<rparr>) }"

definition RecursionBudget :: "'z CodedInputStream \<Rightarrow> int" where
  "RecursionBudget c = recursion_budget c"

definition IncrementRecursionDepth :: "'z CodedInputStream \<Rightarrow> (bool \<times> 'z CodedInputStream) option" where
  "IncrementRecursionDepth c =
     do { b \<leftarrow> int32 (recursion_budget c - 1); Some (b \<ge> 0, c\<lparr>recursion_budget := b\<rparr>) }"

definition DecrementRecursionDepth :: "'z CodedInputStream \<Rightarrow> 'z CodedInputStream" where
  "DecrementRecursionDepth c =
     (if recursion_budget c < recursion_limit c then c\<lparr>recursion_budget := recursion_budget c + 1\<rparr> else c)"

definition UnsafeDecrementRecursionDepth :: "'z CodedInputStream \<Rightarrow> 'z CodedInputStream option" where
  "UnsafeDecrementRecursionDepth c =
     do { assure (recursion_budget c < recursion_limit c); Some (c\<lparr>recursion_budget := recursion_budget c + 1\<rparr>) }"

definition SetExtensionRegistry :: "address option \<Rightarrow> address option \<Rightarrow> 'z CodedInputStream \<Rightarrow> 'z CodedInputStream" where
  "SetExtensionRegistry pool factory c = c\<lparr>extension_pool := pool, extension_factory := factory\<rparr>"

definition GetExtensionPool :: "'z CodedInputStream \<Rightarrow> address option" where
  "GetExtensionPool c = extension_pool c"

definition GetExtensionFactory :: "'z CodedInputStream \<Rightarrow> address option" where
  "GetExtensionFactory c = extension_factory c"

subsection \<open>Numbers\<close>

text \<open>The fall-backs. A result that is assigned to \<open>*value\<close> is returned with whether the read succeeded.\<close>

record 'z input_library =
  ReadVarint32Fallback :: "32 word \<Rightarrow> 'z CodedInputStream \<Rightarrow> int \<times> 'z CodedInputStream"
  ReadVarint64Fallback :: "'z CodedInputStream \<Rightarrow> (64 word \<times> bool) \<times> 'z CodedInputStream"
  ReadVarintSizeAsIntFallback :: "'z CodedInputStream \<Rightarrow> int \<times> 'z CodedInputStream"
  ReadLittleEndian16Fallback :: "'z CodedInputStream \<Rightarrow> (bool \<times> 16 word) \<times> 'z CodedInputStream"
  ReadLittleEndian32Fallback :: "'z CodedInputStream \<Rightarrow> (bool \<times> 32 word) \<times> 'z CodedInputStream"
  ReadLittleEndian64Fallback :: "'z CodedInputStream \<Rightarrow> (bool \<times> 64 word) \<times> 'z CodedInputStream"
  coded_ReadTagFallback :: "32 word \<Rightarrow> 'z CodedInputStream \<Rightarrow> 32 word \<times> 'z CodedInputStream"

definition coded_ReadVarint32 :: "'z input_library \<Rightarrow> 'z CodedInputStream \<Rightarrow> (bool \<times> 32 word) \<times> 'z CodedInputStream" where
  "coded_ReadVarint32 R c =
     (let some = ci_buffer c < ci_buffer_end c; v = (if some then ucast (byte_at c 0) else 0) in
      if some \<and> v < 0x80 then ((True, v), Advance 1 c)
      else case ReadVarint32Fallback R v c of (r, c) \<Rightarrow> ((r \<ge> 0, word_of_int r), c))"

definition coded_ReadVarint64 :: "'z input_library \<Rightarrow> 'z CodedInputStream \<Rightarrow> (bool \<times> 64 word) \<times> 'z CodedInputStream" where
  "coded_ReadVarint64 R c =
     (if ci_buffer c < ci_buffer_end c \<and> byte_at c 0 < 0x80 then ((True, ucast (byte_at c 0)), Advance 1 c)
      else case ReadVarint64Fallback R c of (p, c) \<Rightarrow> ((snd p, fst p), c))"

definition ReadVarintSizeAsInt :: "'z input_library \<Rightarrow> 'z CodedInputStream \<Rightarrow> (bool \<times> int) \<times> 'z CodedInputStream" where
  "ReadVarintSizeAsInt R c =
     (if ci_buffer c < ci_buffer_end c \<and> uint (byte_at c 0) < 0x80 then ((True, uint (byte_at c 0)), Advance 1 c)
      else case ReadVarintSizeAsIntFallback R c of (r, c) \<Rightarrow> ((r \<ge> 0, r), c))"

text \<open>The copy of the bytes in memory is what a little-endian machine calls the number.\<close>

definition ReadLittleEndian16FromArray :: "memory \<Rightarrow> address \<Rightarrow> 16 word \<times> address" where
  "ReadLittleEndian16FromArray M buffer = (ucast (UnalignedLoad 2 (at_address M buffer)), buffer + 2)"

definition ReadLittleEndian32FromArray :: "memory \<Rightarrow> address \<Rightarrow> 32 word \<times> address" where
  "ReadLittleEndian32FromArray M buffer = (ucast (UnalignedLoad 4 (at_address M buffer)), buffer + 4)"

definition ReadLittleEndian64FromArray :: "memory \<Rightarrow> address \<Rightarrow> 64 word \<times> address" where
  "ReadLittleEndian64FromArray M buffer = (UnalignedLoad 8 (at_address M buffer), buffer + 8)"

definition ReadLittleEndian16 :: "'z input_library \<Rightarrow> 'z CodedInputStream \<Rightarrow> (bool \<times> 16 word) \<times> 'z CodedInputStream" where
  "ReadLittleEndian16 R c =
     (if BufferSize c \<ge> 2
      then case ReadLittleEndian16FromArray (ci_memory c) (ci_buffer c) of (v, p) \<Rightarrow> ((True, v), c\<lparr>ci_buffer := p\<rparr>)
      else ReadLittleEndian16Fallback R c)"

definition ReadLittleEndian32 :: "'z input_library \<Rightarrow> 'z CodedInputStream \<Rightarrow> (bool \<times> 32 word) \<times> 'z CodedInputStream" where
  "ReadLittleEndian32 R c =
     (if BufferSize c \<ge> 4
      then case ReadLittleEndian32FromArray (ci_memory c) (ci_buffer c) of (v, p) \<Rightarrow> ((True, v), c\<lparr>ci_buffer := p\<rparr>)
      else ReadLittleEndian32Fallback R c)"

definition ReadLittleEndian64 :: "'z input_library \<Rightarrow> 'z CodedInputStream \<Rightarrow> (bool \<times> 64 word) \<times> 'z CodedInputStream" where
  "ReadLittleEndian64 R c =
     (if BufferSize c \<ge> 8
      then case ReadLittleEndian64FromArray (ci_memory c) (ci_buffer c) of (v, p) \<Rightarrow> ((True, v), c\<lparr>ci_buffer := p\<rparr>)
      else ReadLittleEndian64Fallback R c)"

subsection \<open>Tags\<close>

definition ReadTagNoLastTag :: "'z input_library \<Rightarrow> 'z CodedInputStream \<Rightarrow> 32 word \<times> 'z CodedInputStream" where
  "ReadTagNoLastTag R c =
     (let some = ci_buffer c < ci_buffer_end c; v = (if some then ucast (byte_at c 0) else 0) in
      if some \<and> v < 0x80 then (v, Advance 1 c) else coded_ReadTagFallback R v c)"

definition coded_ReadTag :: "'z input_library \<Rightarrow> 'z CodedInputStream \<Rightarrow> 32 word \<times> 'z CodedInputStream" where
  "coded_ReadTag R c = (case ReadTagNoLastTag R c of (tag, c) \<Rightarrow> (tag, c\<lparr>last_tag := tag\<rparr>))"

definition ReadTagWithCutoffNoLastTag ::
  "'z input_library \<Rightarrow> 32 word \<Rightarrow> 'z CodedInputStream \<Rightarrow> (32 word \<times> bool) \<times> 'z CodedInputStream" where
  "ReadTagWithCutoffNoLastTag R cutoff c =
     (let some = ci_buffer c < ci_buffer_end c;
          b0 = byte_at c 0; b1 = byte_at c 1;
          first_byte_or_zero = (if some then ucast b0 else 0) in
      if some \<and> sint b0 > 0
      then let tag = ucast b0 in ((tag, cutoff \<ge> 0x7F \<or> tag \<le> cutoff), Advance 1 c)
      else if some \<and> cutoff \<ge> 0x80 \<and> ci_buffer c + 1 < ci_buffer_end c \<and> (b0 AND NOT b1) \<ge> 0x80
      then let tag = 128 * ucast b1 + (ucast b0 - 0x80) in ((tag, cutoff \<ge> 0x3FFF \<or> tag \<le> cutoff), Advance 2 c)
      else case coded_ReadTagFallback R first_byte_or_zero c of (tag, c) \<Rightarrow> ((tag, tag - 1 < cutoff), c))"

definition ReadTagWithCutoff ::
  "'z input_library \<Rightarrow> 32 word \<Rightarrow> 'z CodedInputStream \<Rightarrow> (32 word \<times> bool) \<times> 'z CodedInputStream" where
  "ReadTagWithCutoff R cutoff c =
     (case ReadTagWithCutoffNoLastTag R cutoff c of (r, c) \<Rightarrow> (r, c\<lparr>last_tag := fst r\<rparr>))"

definition ExpectTag :: "32 word \<Rightarrow> 'z CodedInputStream \<Rightarrow> bool \<times> 'z CodedInputStream" where
  "ExpectTag expected c =
     (if expected < 2 ^ 7 then
        if ci_buffer c < ci_buffer_end c \<and> ucast (byte_at c 0) = expected then (True, Advance 1 c) else (False, c)
      else if expected < 2 ^ 14 then
        if BufferSize c \<ge> 2 \<and> byte_at c 0 = ucast (expected OR 0x80) \<and> byte_at c 1 = ucast (drop_bit 7 expected)
        then (True, Advance 2 c) else (False, c)
      else (False, c))"

definition ExpectTagFromArray :: "memory \<Rightarrow> address \<Rightarrow> 32 word \<Rightarrow> address option" where
  "ExpectTagFromArray M buffer expected =
     (let b = at_address M buffer in
      if expected < 2 ^ 7 then if ucast (b 0) = expected then Some (buffer + 1) else None
      else if expected < 2 ^ 14 then
        if b 0 = ucast (expected OR 0x80) \<and> b 1 = ucast (drop_bit 7 expected) then Some (buffer + 2) else None
      else None)"

subsection \<open>What is still to be read\<close>

text \<open>\<open>later\<close> is what a fall-back will fetch behind the buffer.\<close>

definition unread :: "('z CodedInputStream \<Rightarrow> string) \<Rightarrow> 'z CodedInputStream \<Rightarrow> string" where
  "unread later c = bytes_at (ci_memory c) (ci_buffer c) (ci_buffer_end c - ci_buffer c) @ later c"

definition readable :: "('z CodedInputStream \<Rightarrow> bool) \<Rightarrow> 'z CodedInputStream \<Rightarrow> bool" where
  "readable usable c \<longleftrightarrow>
     usable c \<and> 0 \<le> ci_buffer c \<and> ci_buffer c \<le> ci_buffer_end c \<and> ci_buffer_end c - ci_buffer c \<le> INT_MAX"

definition first_byte :: "'z CodedInputStream \<Rightarrow> 32 word" where
  "first_byte c = (if ci_buffer c < ci_buffer_end c then ucast (byte_at c 0) else 0)"

text \<open>Of a varint in at most \<open>k\<close> bytes a fall-back makes its number and goes on behind it.\<close>

locale coded_input =
  fixes R :: "'z input_library" and later :: "'z CodedInputStream \<Rightarrow> string" and usable :: "'z CodedInputStream \<Rightarrow> bool"
  assumes moved: "usable c \<Longrightarrow> usable (c\<lparr>ci_buffer := p, last_tag := t\<rparr>) \<and> later (c\<lparr>ci_buffer := p, last_tag := t\<rparr>) = later c"
    and tag: "readable usable c \<Longrightarrow> take_varint 5 (unread later c) = Some (n, rest) \<Longrightarrow> n < 2 ^ 32 \<Longrightarrow>
      \<exists>c'. coded_ReadTagFallback R (first_byte c) c = (of_nat n, c') \<and> readable usable c' \<and> unread later c' = rest"
    and varint32: "readable usable c \<Longrightarrow> take_varint 5 (unread later c) = Some (n, rest) \<Longrightarrow> n < 2 ^ 32 \<Longrightarrow>
      \<exists>c'. ReadVarint32Fallback R (first_byte c) c = (int n, c') \<and> readable usable c' \<and> unread later c' = rest"
    and varint64: "readable usable c \<Longrightarrow> take_varint 10 (unread later c) = Some (n, rest) \<Longrightarrow> n < 2 ^ 64 \<Longrightarrow>
      \<exists>c'. ReadVarint64Fallback R c = ((of_nat n, True), c') \<and> readable usable c' \<and> unread later c' = rest"
    and size_int: "readable usable c \<Longrightarrow> take_varint 5 (unread later c) = Some (n, rest) \<Longrightarrow> n < 2 ^ 31 \<Longrightarrow>
      \<exists>c'. ReadVarintSizeAsIntFallback R c = (int n, c') \<and> readable usable c' \<and> unread later c' = rest"
    and fixed16: "readable usable c \<Longrightarrow> unread later c = le_bytes 2 v @ rest \<Longrightarrow> BufferSize c < 2 \<Longrightarrow>
      \<exists>c'. ReadLittleEndian16Fallback R c = ((True, v), c') \<and> readable usable c' \<and> unread later c' = rest"
    and fixed32: "readable usable c \<Longrightarrow> unread later c = le_bytes 4 w @ rest \<Longrightarrow> BufferSize c < 4 \<Longrightarrow>
      \<exists>c'. ReadLittleEndian32Fallback R c = ((True, w), c') \<and> readable usable c' \<and> unread later c' = rest"
    and fixed64: "readable usable c \<Longrightarrow> unread later c = le_bytes 8 x @ rest \<Longrightarrow> BufferSize c < 8 \<Longrightarrow>
      \<exists>c'. ReadLittleEndian64Fallback R c = ((True, x), c') \<and> readable usable c' \<and> unread later c' = rest"

lemma holds_bytes_at: "holds (at_address M p) (bytes_at M p n)"
  using unat_byte by (simp add: holds_def bytes_at_def at_address_def)

lemma WriteLittleEndian16_bytes: "WriteLittleEndian16ToArray v = le_bytes 2 v"
  by (simp add: WriteLittleEndian16ToArray_def le_bytes_def numeral_2_eq_2)

lemma ucast_up_down: "ucast (ucast v :: 64 word) = v" "ucast (ucast w :: 64 word) = w" for v :: "16 word" and w :: "32 word"
  by (rule bit_word_eqI, simp add: bit_simps)+

lemma length_bytes_at: "length (bytes_at M p n) = nat n"
  by (simp add: bytes_at_def)

lemma bytes_at_split:
  assumes "0 \<le> p" "0 \<le> k" "k \<le> n"
  shows "bytes_at M p n = bytes_at M p k @ bytes_at M (p + k) (n - k)"
proof -
  obtain i j where k: "k = int i" "n = int i + int j" using assms(2,3) by (metis nonneg_int_cases zle_iff_zadd)
  have m: "nat (p + int i) = nat p + i" "nat (int i + int j) = i + j" "nat (int i + int j - int i) = j" using assms(1) by simp_all
  have "[0..<i + j] = [0..<i] @ map (\<lambda>x. x + i) [0..<j]" 
    using upt_add_eq_append [of 0 i j] map_add_upt [of i j] by (simp only: le0 add_0 add.commute [of j i])
  then show ?thesis unfolding bytes_at_def k m by (simp add: o_def ac_simps)
qed

context coded_input
begin

text \<open>Advancing within the buffer leaves what was stepped over.\<close>

lemma advance:
  assumes "readable usable c" "0 \<le> k" "ci_buffer c + k \<le> ci_buffer_end c"
  shows "readable usable (c\<lparr>ci_buffer := ci_buffer c + k\<rparr>)"
    "unread later c = bytes_at (ci_memory c) (ci_buffer c) k @ unread later (c\<lparr>ci_buffer := ci_buffer c + k\<rparr>)"
  using assms moved [where c = c and p = "ci_buffer c + k" and t = "last_tag c"] bytes_at_split [of "ci_buffer c" k "ci_buffer_end c - ci_buffer c" "ci_memory c"]
  by (simp_all add: readable_def unread_def algebra_simps)

lemma advance_one:
  assumes "readable usable c" "ci_buffer c < ci_buffer_end c"
  shows "readable usable (Advance 1 c)" "unread later c = char_of (unat (byte_at c 0)) # unread later (Advance 1 c)"
  using advance [OF assms(1), of 1] assms(2)
  by (simp_all add: Advance_def bytes_at_def byte_at_def at_address_def)

text \<open>A first byte below 128 is a varint by itself.\<close>

lemma short_varint:
  assumes "readable usable c" "ci_buffer c < ci_buffer_end c" "byte_at c 0 < 0x80" "take_varint k (unread later c) = Some (n, rest)"
  shows "n = unat (byte_at c 0)" "unread later (Advance 1 c) = rest"
proof -
  have "k \<noteq> 0" using assms(4) by (cases k) simp_all
  then obtain j where k: "k = Suc j" by (cases k) simp_all
  have "unat (byte_at c 0) < 128" using assms(3) by (simp add: word_less_nat_alt)
  then show "n = unat (byte_at c 0)" "unread later (Advance 1 c) = rest"
    using assms(4) unfolding advance_one(2) [OF assms(1,2)] k by (simp_all add: Let_def)
qed

lemma first_byte_some: "ci_buffer c < ci_buffer_end c \<Longrightarrow> first_byte c = ucast (byte_at c 0)"
  by (simp add: first_byte_def)

lemma ucast_less_128: "(ucast b < (0x80 :: 32 word)) = (b < 0x80)" for b :: "8 word"
  using unat_byte [of b] by (simp add: word_less_nat_alt unsigned_ucast_eq take_bit_nat_eq_self)

lemma ReadTagNoLastTag_reads:
  assumes "readable usable c" "take_varint 5 (unread later c) = Some (n, rest)" "n < 2 ^ 32"
  shows "\<exists>c'. ReadTagNoLastTag R c = (of_nat n, c') \<and> readable usable c' \<and> unread later c' = rest"
proof (cases "ci_buffer c < ci_buffer_end c \<and> byte_at c 0 < 0x80")
  case True
  then show ?thesis
    using advance_one(1) [OF assms(1)] short_varint [OF assms(1) _ _ assms(2)]
    by (simp add: ReadTagNoLastTag_def ucast_less_128)
next
  case False
  then have "ReadTagNoLastTag R c = coded_ReadTagFallback R (first_byte c) c"
    by (auto simp: ReadTagNoLastTag_def first_byte_def ucast_less_128 Let_def)
  then show ?thesis using tag [OF assms] by simp
qed

lemma coded_ReadVarint32_reads:
  assumes "readable usable c" "take_varint 5 (unread later c) = Some (n, rest)" "n < 2 ^ 32"
  shows "\<exists>c'. coded_ReadVarint32 R c = ((True, of_nat n), c') \<and> readable usable c' \<and> unread later c' = rest"
proof (cases "ci_buffer c < ci_buffer_end c \<and> byte_at c 0 < 0x80")
  case True
  then show ?thesis
    using advance_one(1) [OF assms(1)] short_varint [OF assms(1) _ _ assms(2)]
    by (simp add: coded_ReadVarint32_def ucast_less_128)
next
  case False
  then have "coded_ReadVarint32 R c = (case ReadVarint32Fallback R (first_byte c) c of (r, c) \<Rightarrow> ((r \<ge> 0, word_of_int r), c))"
    by (auto simp: coded_ReadVarint32_def first_byte_def ucast_less_128 Let_def)
  then show ?thesis using varint32 [OF assms] by auto
qed

lemma coded_ReadVarint64_reads:
  assumes "readable usable c" "take_varint 10 (unread later c) = Some (n, rest)" "n < 2 ^ 64"
  shows "\<exists>c'. coded_ReadVarint64 R c = ((True, of_nat n), c') \<and> readable usable c' \<and> unread later c' = rest"
  using advance_one(1) [OF assms(1)] short_varint [OF assms(1) _ _ assms(2)] varint64 [OF assms]
  by (auto simp: coded_ReadVarint64_def)

lemma ReadVarintSizeAsInt_reads:
  assumes "readable usable c" "take_varint 5 (unread later c) = Some (n, rest)" "n < 2 ^ 31"
  shows "\<exists>c'. ReadVarintSizeAsInt R c = ((True, int n), c') \<and> readable usable c' \<and> unread later c' = rest"
proof -
  have "(uint (byte_at c 0) < 0x80) = (byte_at c 0 < 0x80)" by (simp add: word_less_def)
  then show ?thesis
    using advance_one(1) [OF assms(1)] short_varint [OF assms(1) _ _ assms(2)] size_int [OF assms]
    by (auto simp: ReadVarintSizeAsInt_def)
qed

lemma fixed_in_buffer:
  fixes v :: "'w::len word"
  assumes "readable usable c" "unread later c = le_bytes k v @ rest" "BufferSize c \<ge> int k" "8 * k = LENGTH('w)" "k \<le> 8"
  shows "UnalignedLoad k (at_address (ci_memory c) (ci_buffer c)) = ucast v"
    "readable usable (c\<lparr>ci_buffer := ci_buffer c + int k\<rparr>)" "unread later (c\<lparr>ci_buffer := ci_buffer c + int k\<rparr>) = rest"
proof -
  have "BufferSize c = ci_buffer_end c - ci_buffer c"
    using assms(1) by (auto simp: BufferSize_def readable_def INT_MAX_def intro!: cast_int_id)
  then have k: "ci_buffer c + int k \<le> ci_buffer_end c" using assms(3) by simp
  note a = advance [OF assms(1) _ k]
  have "bytes_at (ci_memory c) (ci_buffer c) (int k) = le_bytes k v \<and>
      unread later (c\<lparr>ci_buffer := ci_buffer c + int k\<rparr>) = rest"
    using a(2) assms(2) by (simp add: append_eq_append_conv length_bytes_at le_bytes_def)
  then show "UnalignedLoad k (at_address (ci_memory c) (ci_buffer c)) = ucast v"
    "unread later (c\<lparr>ci_buffer := ci_buffer c + int k\<rparr>) = rest"
    using load_le_bytes [of "at_address (ci_memory c) (ci_buffer c)" k v "[]"] assms(4,5)
      holds_bytes_at [of "ci_memory c" "ci_buffer c" "int k"] by simp_all
  show "readable usable (c\<lparr>ci_buffer := ci_buffer c + int k\<rparr>)" using a(1) by simp
qed

lemma fixed_reads:
  assumes "readable usable c"
  shows "unread later c = le_bytes 2 v @ rest \<Longrightarrow>
      \<exists>c'. ReadLittleEndian16 R c = ((True, v), c') \<and> readable usable c' \<and> unread later c' = rest"
    "unread later c = le_bytes 4 w @ rest \<Longrightarrow>
      \<exists>c'. ReadLittleEndian32 R c = ((True, w), c') \<and> readable usable c' \<and> unread later c' = rest"
    "unread later c = le_bytes 8 x @ rest \<Longrightarrow>
      \<exists>c'. ReadLittleEndian64 R c = ((True, x), c') \<and> readable usable c' \<and> unread later c' = rest"
proof -
  show "\<exists>c'. ReadLittleEndian16 R c = ((True, v), c') \<and> readable usable c' \<and> unread later c' = rest"
    if "unread later c = le_bytes 2 v @ rest"
    using fixed_in_buffer [OF assms that] fixed16 [OF assms that]
    by (simp add: ReadLittleEndian16_def ReadLittleEndian16FromArray_def ucast_up_down)
  show "\<exists>c'. ReadLittleEndian32 R c = ((True, w), c') \<and> readable usable c' \<and> unread later c' = rest"
    if "unread later c = le_bytes 4 w @ rest"
    using fixed_in_buffer [OF assms that] fixed32 [OF assms that]
    by (simp add: ReadLittleEndian32_def ReadLittleEndian32FromArray_def ucast_up_down)
  show "\<exists>c'. ReadLittleEndian64 R c = ((True, x), c') \<and> readable usable c' \<and> unread later c' = rest"
    if "unread later c = le_bytes 8 x @ rest"
    using fixed_in_buffer [OF assms that] fixed64 [OF assms that]
    by (simp add: ReadLittleEndian64_def ReadLittleEndian64FromArray_def)
qed

end

subsection \<open>Reading what was written\<close>

text \<open>Numbers are read back by the routine of their kind.\<close>

fun read_coded :: "'z input_library \<Rightarrow> coded_call \<Rightarrow> 'z CodedInputStream \<Rightarrow> (coded_call \<times> 'z CodedInputStream) option" where
  "read_coded R (PutVarint32 _) c = (case coded_ReadVarint32 R c of ((ok, v), c) \<Rightarrow> if ok then Some (PutVarint32 v, c) else None)"
| "read_coded R (PutVarint64 _) c = (case coded_ReadVarint64 R c of ((ok, v), c) \<Rightarrow> if ok then Some (PutVarint64 v, c) else None)"
| "read_coded R (PutSignExtended _) c =
     (case coded_ReadVarint64 R c of ((ok, v), c) \<Rightarrow> if ok then Some (PutSignExtended (ucast v), c) else None)"
| "read_coded R (PutTag _) c = (case coded_ReadTag R c of (tag, c) \<Rightarrow> Some (PutTag tag, c))"
| "read_coded R (PutFixed16 _) c = (case ReadLittleEndian16 R c of ((ok, v), c) \<Rightarrow> if ok then Some (PutFixed16 v, c) else None)"
| "read_coded R (PutFixed32 _) c = (case ReadLittleEndian32 R c of ((ok, v), c) \<Rightarrow> if ok then Some (PutFixed32 v, c) else None)"
| "read_coded R (PutFixed64 _) c = (case ReadLittleEndian64 R c of ((ok, v), c) \<Rightarrow> if ok then Some (PutFixed64 v, c) else None)"
| "read_coded R _ c = None"

fun is_number :: "coded_call \<Rightarrow> bool" where
  "is_number (PutString _) = False"
| "is_number (PutRaw _) = False"
| "is_number (PutAliased _) = False"
| "is_number _ = True"

fun read_all :: "'z input_library \<Rightarrow> coded_call list \<Rightarrow> 'z CodedInputStream \<Rightarrow> (coded_call list \<times> 'z CodedInputStream) option" where
  "read_all R [] c = Some ([], c)"
| "read_all R (x # xs) c = do { (y, c) \<leftarrow> read_coded R x c; (ys, c) \<leftarrow> read_all R xs c; Some (y # ys, c) }"

lemma take_UnsafeVarint:
  "take_varint 5 (UnsafeVarint v @ rest) = Some (unat v, rest)" "take_varint 10 (UnsafeVarint64 w @ rest) = Some (unat w, rest)"
  using length_UnsafeVarint(1) [of v] length_UnsafeVarint(2) [of w]
  by (simp_all add: UnsafeVarint_varint UnsafeVarint64_varint take_varint_varint)

lemma ucast_scast_64: "ucast (scast v :: 64 word) = v" for v :: "32 word"
  by (rule bit_word_eqI) (simp add: bit_simps)

lemma short_call: "is_number x \<Longrightarrow> length (coded_bytes x) \<le> 10"
proof -
  have "length (UnsafeVarint v) \<le> 10" for v using length_UnsafeVarint(1) [of v] by simp
  then show "is_number x \<Longrightarrow> length (coded_bytes x) \<le> 10"
    using length_UnsafeVarint(2)
    by (cases x) (simp_all add: WriteVarint32ToArray_def WriteVarint64ToArray_def WriteVarint32SignExtendedToArray_def
        WriteLittleEndian16_bytes WriteLittleEndian_bytes le_bytes_def)
qed

context coded_input
begin

lemma read_coded_back:
  assumes "is_number x" "readable usable c" "unread later c = coded_bytes x @ rest"
  shows "\<exists>c'. read_coded R x c = Some (x, c') \<and> readable usable c' \<and> unread later c' = rest"
proof -
  have v: "\<exists>c'. coded_ReadVarint32 R c = ((True, v), c') \<and> readable usable c' \<and> unread later c' = rest"
    if "coded_bytes x = UnsafeVarint v" for v
    using coded_ReadVarint32_reads [OF assms(2), of "unat v" rest] that assms(3) take_UnsafeVarint(1) unat_32 [of v] by simp
  have t: "\<exists>c'. ReadTagNoLastTag R c = (v, c') \<and> readable usable c' \<and> unread later c' = rest"
    if "coded_bytes x = UnsafeVarint v" for v
    using ReadTagNoLastTag_reads [OF assms(2), of "unat v" rest] that assms(3) take_UnsafeVarint(1) unat_32 [of v] by simp
  have w: "\<exists>c'. coded_ReadVarint64 R c = ((True, w), c') \<and> readable usable c' \<and> unread later c' = rest"
    if "coded_bytes x = UnsafeVarint64 w" for w
  proof -
    have "unat w < 2 ^ 64" using unsigned_less [of w] by simp
    then show ?thesis
      using coded_ReadVarint64_reads [OF assms(2), of "unat w" rest] that assms(3) take_UnsafeVarint(2) by simp
  qed
  have l: "readable usable (c\<lparr>last_tag := n\<rparr>) \<and> unread later (c\<lparr>last_tag := n\<rparr>) = unread later c" if "readable usable c" for c n
    using that moved [where c = c and p = "ci_buffer c" and t = n] by (simp add: readable_def unread_def)
  note f = fixed_reads [OF assms(2)]
  show ?thesis
  proof (cases x)
    case (PutVarint32 y) then show ?thesis using v [of y] by (auto simp: WriteVarint32ToArray_def)
  next
    case (PutVarint64 y) then show ?thesis using w [of y] by (auto simp: WriteVarint64ToArray_def)
  next
    case (PutSignExtended y)
    then show ?thesis using w [of "scast y"]
      by (auto simp: WriteVarint32SignExtendedToArray_def WriteVarint64ToArray_def ucast_scast_64)
  next
    case (PutTag y) then show ?thesis using t [of y] l by (fastforce simp: WriteVarint32ToArray_def coded_ReadTag_def)
  next
    case (PutFixed16 y) then show ?thesis using f(1) [of y rest] assms(3) by (auto simp: WriteLittleEndian16_bytes)
  next
    case (PutFixed32 y) then show ?thesis using f(2) [of y rest] assms(3) by (auto simp: WriteLittleEndian_bytes)
  next
    case (PutFixed64 y) then show ?thesis using f(3) [of y rest] assms(3) by (auto simp: WriteLittleEndian_bytes)
  qed (use assms(1) in simp_all)
qed

lemma read_all_back:
  assumes "\<forall>x \<in> set xs. is_number x" "readable usable c" "unread later c = concat (map coded_bytes xs) @ rest"
  shows "\<exists>c'. read_all R xs c = Some (xs, c') \<and> readable usable c' \<and> unread later c' = rest"
  using assms
proof (induction xs arbitrary: c)
  case (Cons x xs)
  then obtain c1 where c1: "read_coded R x c = Some (x, c1)" "readable usable c1" "unread later c1 = concat (map coded_bytes xs) @ rest"
    using read_coded_back [of x c "concat (map coded_bytes xs) @ rest"] by auto
  then show ?case using Cons.IH [OF _ c1(2,3)] Cons.prems(1) by auto
qed simp

end

subsection \<open>Tags read in different ways\<close>

lemma high_bit: "0x80 \<le> b \<longleftrightarrow> bit b 7" for b :: "8 word"
proof -
  have "unat b div 128 < 2" using unat_byte [of b] by (simp add: div_less_iff_less_mult)
  then have "128 \<le> unat b \<longleftrightarrow> odd (unat b div 128)" by (cases "unat b div 128 = 0") (auto simp: div_eq_0_iff)
  also have "odd (unat b div 128) \<longleftrightarrow> bit (unat b) 7" by (simp add: bit_iff_odd)
  also have "bit (unat b) 7 \<longleftrightarrow> bit b 7" by (simp add: bit_unsigned_iff)
  finally show ?thesis by (simp add: word_le_nat_alt)
qed

lemma positive_byte: "sint b > 0 \<longleftrightarrow> b \<noteq> 0 \<and> b < 0x80" for b :: "8 word"
proof -
  have "sint b \<ge> 0 \<longleftrightarrow> \<not> bit b 7" by (simp add: sint_uint signed_take_bit_nonnegative_iff bit_unsigned_iff)
  moreover have "sint b = 0 \<longleftrightarrow> b = 0" by (metis signed_0 signed_word_eqI)
  ultimately show ?thesis using high_bit [of b] by (metis less_le not_le)
qed

lemma take_varint_two:
  "128 \<le> (of_char c0 :: nat) \<Longrightarrow> of_char c1 < (128 :: nat) \<Longrightarrow>
     take_varint (Suc (Suc k)) (c0 # c1 # cs) = Some (of_char c0 - 128 + 128 * of_char c1, cs)"
  by simp

lemma below_cutoff: "t \<noteq> 0 \<Longrightarrow> (t - 1 < cutoff) = (t \<le> cutoff)" for t cutoff :: "'w::len word"
  by (cases "unat t") (auto simp: word_less_nat_alt word_le_nat_alt unat_minus_one unat_eq_zero)

context coded_input
begin

text \<open>The two bytes of a longer tag.\<close>

lemma advance_two:
  assumes "readable usable c" "ci_buffer c + 1 < ci_buffer_end c"
  shows "readable usable (Advance 2 c)"
    "unread later c = char_of (unat (byte_at c 0)) # char_of (unat (byte_at c 1)) # unread later (Advance 2 c)"
proof -
  have "[0..<2] = [0, 1]" by (simp add: numeral_2_eq_2)
  then show "readable usable (Advance 2 c)"
    "unread later c = char_of (unat (byte_at c 0)) # char_of (unat (byte_at c 1)) # unread later (Advance 2 c)"
    using advance [OF assms(1), of 2] assms(2) by (simp_all add: Advance_def bytes_at_def byte_at_def at_address_def)
qed

lemma two_bytes_of_tag:
  assumes "readable usable c" "ci_buffer c + 1 < ci_buffer_end c" "(byte_at c 0 AND NOT (byte_at c 1)) \<ge> 0x80"
    "take_varint 5 (unread later c) = Some (n, rest)"
  shows "128 * ucast (byte_at c 1) + (ucast (byte_at c 0) - 0x80) = (of_nat n :: 32 word)" "unread later (Advance 2 c) = rest" "n \<le> 0x3FFF"
proof -
  have "bit (byte_at c 0) 7" "\<not> bit (byte_at c 1) 7" using assms(3) by (simp_all add: high_bit bit_simps)
  then have b: "128 \<le> unat (byte_at c 0)" "unat (byte_at c 1) < 128"
    by (simp_all flip: high_bit add: word_le_nat_alt)
  then have n: "n = unat (byte_at c 0) - 128 + 128 * unat (byte_at c 1)" "unread later (Advance 2 c) = rest"
    using assms(4) b unat_byte take_varint_two [of "char_of (unat (byte_at c 0))" "char_of (unat (byte_at c 1))" 3]
    unfolding advance_two(2) [OF assms(1,2)] by simp_all
  show "unread later (Advance 2 c) = rest" by (rule n(2))
  show "n \<le> 0x3FFF" using n(1) b(2) unat_byte [of "byte_at c 0"] by simp
  have "(of_nat n :: 32 word) = of_nat (unat (byte_at c 0) - 128) + of_nat (128 * unat (byte_at c 1))" by (simp add: n(1))
  also have "of_nat (unat (byte_at c 0) - 128) = (of_nat (unat (byte_at c 0)) - 128 :: 32 word)" using b(1) by simp
  finally show "128 * ucast (byte_at c 1) + (ucast (byte_at c 0) - 0x80) = (of_nat n :: 32 word)"
    by simp
qed

lemma cutoff_agrees:
  assumes c: "readable usable c" and n: "take_varint 5 (unread later c) = Some (n, rest)" "n < 2 ^ 32"
  shows "\<exists>f c'. ReadTagWithCutoffNoLastTag R cutoff c = ((of_nat n, f), c') \<and> readable usable c' \<and> unread later c' = rest \<and>
    (n \<noteq> 0 \<longrightarrow> f = (of_nat n \<le> cutoff))"
proof -
  let ?some = "ci_buffer c < ci_buffer_end c" and ?b0 = "byte_at c 0" and ?b1 = "byte_at c 1"
  have t: "(of_nat n :: 32 word) = 0 \<longleftrightarrow> n = 0"
  proof
    assume "(of_nat n :: 32 word) = 0"
    then show "n = 0" using unat_of_nat_32 [OF n(2)] by simp
  qed simp
  consider (one) "?some" "sint ?b0 > 0"
    | (two) "?some" "\<not> sint ?b0 > 0" "cutoff \<ge> 0x80" "ci_buffer c + 1 < ci_buffer_end c" "(?b0 AND NOT ?b1) \<ge> 0x80"
    | (slow) "\<not> (?some \<and> sint ?b0 > 0)"
        "\<not> (?some \<and> cutoff \<ge> 0x80 \<and> ci_buffer c + 1 < ci_buffer_end c \<and> (?b0 AND NOT ?b1) \<ge> 0x80)"
    by blast
  then show ?thesis
  proof cases
    case one
    have b: "?b0 < 0x80" using one(2) by (simp add: positive_byte)
    note s = short_varint [OF c one(1) b n(1)]
    have "n \<le> 0x7F" using b s(1) by (simp add: word_less_nat_alt)
    then have "(of_nat n :: 32 word) \<le> 0x7F" by (simp add: word_le_nat_alt unat_of_nat_32)
    moreover have "(ucast ?b0 :: 32 word) = of_nat n" by (simp add: s(1))
    ultimately show ?thesis
      using one s(2) advance_one(1) [OF c one(1)]
      by (auto simp: ReadTagWithCutoffNoLastTag_def Let_def intro: order.trans)
  next
    case two
    note s = two_bytes_of_tag [OF c two(4,5) n(1)]
    have "(of_nat n :: 32 word) \<le> 0x3FFF" using s(3) by (simp add: word_le_nat_alt unat_of_nat_32)
    then show ?thesis
      using two s(1,2) advance_two(1) [OF c two(4)]
      by (auto simp: ReadTagWithCutoffNoLastTag_def Let_def intro: order.trans)
  next
    case slow
    then have "ReadTagWithCutoffNoLastTag R cutoff c =
        (case coded_ReadTagFallback R (first_byte c) c of (tag, c) \<Rightarrow> ((tag, tag - 1 < cutoff), c))"
      by (simp only: ReadTagWithCutoffNoLastTag_def first_byte_def Let_def if_False)
    then show ?thesis using tag [OF c n] t below_cutoff [of "of_nat n :: 32 word" cutoff] by auto
  qed
qed

end

text \<open>An expected tag of one or two bytes is found exactly when its varint lies in memory.\<close>

lemma holds_char: "of_nat (unat v mod 256) = (ucast v :: 8 word)" for v :: "'w::len word"
  by (simp add: word_unat_eq_iff unat_of_nat unsigned_ucast_eq take_bit_eq_mod)

lemma ExpectTagFromArray_holds:
  "ExpectTagFromArray M p e =
     (if e < 2 ^ 14 \<and> holds (at_address M p) (UnsafeVarint e) then Some (p + int (length (UnsafeVarint e))) else None)"
proof (cases "e < 2 ^ 7")
  case True
  then have "\<not> 0x80 \<le> e" by (simp add: not_le)
  then have u: "UnsafeVarint e = [char_of (unat e)]" by (subst UnsafeVarint.simps) simp
  have "unat e < 128" using True by (simp add: word_less_nat_alt)
  then have "(ucast b = e) = (b = ucast e)" for b :: "8 word"
    using unat_byte [of b] by (auto simp: word_unat_eq_iff unsigned_ucast_eq take_bit_nat_eq_self)
  moreover have "e < 2 ^ 14" using True by (simp add: word_less_nat_alt)
  ultimately show ?thesis using True by (simp add: ExpectTagFromArray_def u holds_def holds_char Let_def)
next
  case False
  have "UnsafeVarint e = [char_of (unat (e OR 0x80)), char_of (unat (drop_bit 7 e))]" if "e < 2 ^ 14"
  proof -
    have "unat (drop_bit 7 e) < 128"
      using that by (simp add: unat_drop_bit_div word_less_nat_alt div_less_iff_less_mult)
    then have "\<not> 0x80 \<le> drop_bit 7 e" by (simp add: word_le_nat_alt)
    then show ?thesis using False by (subst UnsafeVarint.simps, subst UnsafeVarint.simps) (simp add: not_less)
  qed
  moreover have "holds q [a, b] \<longleftrightarrow> q 0 = of_nat (of_char a) \<and> q 1 = of_nat (of_char b)" for q a b
    by (auto simp: holds_def less_Suc_eq)
  ultimately show ?thesis using False by (simp add: ExpectTagFromArray_def Let_def holds_char)
qed

lemma ExpectTag_array:
  assumes "readable usable c"
  shows "ExpectTag e c =
    (if ExpectTagFromArray (ci_memory c) (ci_buffer c) e \<noteq> None \<and> ci_buffer c + int (length (UnsafeVarint e)) \<le> ci_buffer_end c
     then (True, Advance (int (length (UnsafeVarint e))) c) else (False, c))"
proof -
  have b: "BufferSize c = ci_buffer_end c - ci_buffer c"
    using assms by (auto simp: BufferSize_def readable_def INT_MAX_def intro!: cast_int_id)
  have "length (UnsafeVarint e) = (if e < 2 ^ 7 then 1 else 2)" if "e < 2 ^ 14"
    using that by (simp add: TagSize_length [symmetric] TagSize_def)
  moreover have "e < 2 ^ 14" if "e < 2 ^ 7" using that by (simp add: word_less_nat_alt)
  ultimately show ?thesis
    by (cases "e < 2 ^ 7"; cases "e < 2 ^ 14")
      (auto simp: ExpectTag_def ExpectTagFromArray_def byte_at_def b Let_def)
qed

context coded_input
begin

lemma ExpectTag_reads:
  assumes c: "readable usable c" and e: "ExpectTag e c = (True, c')"
  shows "readable usable c'" "unread later c = UnsafeVarint e @ unread later c'"
proof -
  let ?n = "int (length (UnsafeVarint e))"
  have h: "holds (at_address (ci_memory c) (ci_buffer c)) (UnsafeVarint e)" "ci_buffer c + ?n \<le> ci_buffer_end c" "c' = Advance ?n c"
    using e unfolding ExpectTag_array [OF c] ExpectTagFromArray_holds by (auto split: if_splits)
  note a = advance [OF c _ h(2)]
  show "readable usable c'" using a(1) h(3) by (simp add: Advance_def)
  have "bytes_at (ci_memory c) (ci_buffer c) ?n = UnsafeVarint e"
    using h(1) by (rule bytes_at_holds)
  then show "unread later c = UnsafeVarint e @ unread later c'" using a(2) h(3) by (simp add: Advance_def)
qed

text \<open>So the tag that was expected is the tag that would have been read.\<close>

lemma ExpectTag_agrees:
  assumes "readable usable c" "ExpectTag e c = (True, c')"
  shows "\<exists>d. ReadTagNoLastTag R c = (e, d) \<and> readable usable d \<and> unread later d = unread later c'"
  using ReadTagNoLastTag_reads [OF assms(1), of "unat e" "unread later c'"] ExpectTag_reads [OF assms]
    take_UnsafeVarint(1) unat_32 [of e] by simp

end

subsection \<open>A flat array\<close>

definition flat_varint :: "nat \<Rightarrow> nat \<Rightarrow> 'z CodedInputStream \<Rightarrow> (nat \<times> 'z CodedInputStream) option" where
  "flat_varint k m c =
     (case take_varint k (bytes_at (ci_memory c) (ci_buffer c) (ci_buffer_end c - ci_buffer c)) of
        None \<Rightarrow> None
      | Some (n, rest) \<Rightarrow> if n < m then Some (n, c\<lparr>ci_buffer := ci_buffer_end c - int (length rest)\<rparr>) else None)"

definition flat_library :: "'z input_library" where
  "flat_library =
     \<lparr>ReadVarint32Fallback = \<lambda>_ c. (case flat_varint 5 (2 ^ 32) c of None \<Rightarrow> (- 1, c) | Some (n, c) \<Rightarrow> (int n, c)),
      ReadVarint64Fallback = \<lambda>c. (case flat_varint 10 (2 ^ 64) c of None \<Rightarrow> ((0, False), c) | Some (n, c) \<Rightarrow> ((of_nat n, True), c)),
      ReadVarintSizeAsIntFallback = \<lambda>c. (case flat_varint 5 (2 ^ 31) c of None \<Rightarrow> (- 1, c) | Some (n, c) \<Rightarrow> (int n, c)),
      ReadLittleEndian16Fallback = \<lambda>c. ((False, 0), c),
      ReadLittleEndian32Fallback = \<lambda>c. ((False, 0), c),
      ReadLittleEndian64Fallback = \<lambda>c. ((False, 0), c),
      coded_ReadTagFallback = \<lambda>_ c. (case flat_varint 5 (2 ^ 32) c of
          None \<Rightarrow> (0, c\<lparr>legitimate_message_end := ci_buffer c = ci_buffer_end c\<rparr>) | Some (n, c) \<Rightarrow> (of_nat n, c))\<rparr>"

lemma take_varint_suffix: "take_varint k s = Some (n, rest) \<Longrightarrow> \<exists>p. s = p @ rest"
proof (induction k s arbitrary: n rule: take_varint.induct)
  case (3 k c cs)
  then show ?case by (auto simp: Let_def split: if_splits) (metis append_Cons)
qed simp_all

lemma flat_varint_reads:
  assumes "readable IsFlat c" "take_varint k (unread (\<lambda>_. []) c) = Some (n, rest)" "n < m"
  shows "\<exists>c'. flat_varint k m c = Some (n, c') \<and> readable IsFlat c' \<and> unread (\<lambda>_. []) c' = rest"
proof -
  let ?b = "ci_buffer c" and ?e = "ci_buffer_end c"
  obtain p where p: "bytes_at (ci_memory c) ?b (?e - ?b) = p @ rest"
    using take_varint_suffix assms(2) by (fastforce simp: unread_def)
  have b: "0 \<le> ?b" "?b \<le> ?e" using assms(1) by (simp_all add: readable_def)
  have l: "?e - ?b = int (length p) + int (length rest)"
    using arg_cong [OF p, of length] b(2) by (simp add: length_bytes_at)
  have "bytes_at (ci_memory c) (?b + int (length p)) (?e - ?b - int (length p)) = rest"
    using p l bytes_at_split [OF b(1), of "int (length p)" "?e - ?b" "ci_memory c"]
    by (simp add: append_eq_append_conv length_bytes_at)
  moreover have "?b + int (length p) = ?e - int (length rest)" using l by simp
  ultimately have "unread (\<lambda>_. []) (c\<lparr>ci_buffer := ?e - int (length rest)\<rparr>) = rest"
    using l by (simp add: unread_def)
  moreover have "readable IsFlat (c\<lparr>ci_buffer := ?e - int (length rest)\<rparr>)"
    using assms(1) l by (auto simp: readable_def IsFlat_def)
  ultimately show ?thesis using assms(2,3) by (simp add: flat_varint_def unread_def)
qed

lemma flat_fixed:
  assumes "readable IsFlat c" "unread (\<lambda>_. []) c = le_bytes k v @ rest"
  shows "\<not> BufferSize c < int k"
proof -
  have "int (length (le_bytes k v @ rest)) = ci_buffer_end c - ci_buffer c"
    using assms(1) by (simp add: unread_def length_bytes_at readable_def flip: assms(2))
  moreover have "BufferSize c = ci_buffer_end c - ci_buffer c"
    using assms(1) by (auto simp: BufferSize_def readable_def INT_MAX_def intro!: cast_int_id)
  ultimately show ?thesis by (simp add: le_bytes_def)
qed

interpretation flat: coded_input flat_library "\<lambda>_. []" IsFlat
proof
  fix c :: "'z CodedInputStream" and n rest
  assume c: "readable IsFlat c"
  show "\<exists>c'. coded_ReadTagFallback flat_library (first_byte c) c = (of_nat n, c') \<and> readable IsFlat c' \<and> unread (\<lambda>_. []) c' = rest"
    if "take_varint 5 (unread (\<lambda>_. []) c) = Some (n, rest)" "n < 2 ^ 32"
    using flat_varint_reads [OF c that] by (auto simp: flat_library_def)
  show "\<exists>c'. ReadVarint32Fallback flat_library (first_byte c) c = (int n, c') \<and> readable IsFlat c' \<and> unread (\<lambda>_. []) c' = rest"
    if "take_varint 5 (unread (\<lambda>_. []) c) = Some (n, rest)" "n < 2 ^ 32"
    using flat_varint_reads [OF c that] by (auto simp: flat_library_def)
  show "\<exists>c'. ReadVarint64Fallback flat_library c = ((of_nat n, True), c') \<and> readable IsFlat c' \<and> unread (\<lambda>_. []) c' = rest"
    if "take_varint 10 (unread (\<lambda>_. []) c) = Some (n, rest)" "n < 2 ^ 64"
    using flat_varint_reads [OF c that] by (auto simp: flat_library_def)
  show "\<exists>c'. ReadVarintSizeAsIntFallback flat_library c = (int n, c') \<and> readable IsFlat c' \<and> unread (\<lambda>_. []) c' = rest"
    if "take_varint 5 (unread (\<lambda>_. []) c) = Some (n, rest)" "n < 2 ^ 31"
    using flat_varint_reads [OF c that] by (auto simp: flat_library_def)
qed (use flat_fixed in \<open>fastforce simp: IsFlat_def\<close>)+

text \<open>An array of given bytes, at address zero.\<close>

definition flat_of :: "string \<Rightarrow> 'z CodedInputStream" where
  "flat_of s = new_flat_input 100 (\<lambda>k. of_nat (of_char (s ! k))) 0 (int (length s))"

lemma flat_of:
  "int (length s) \<le> INT_MAX \<Longrightarrow> readable IsFlat (flat_of s)" "unread (\<lambda>_. []) (flat_of s) = s"
proof -
  have "holds (at_address (\<lambda>k. of_nat (of_char (s ! k))) 0) s" by (simp add: holds_def at_address_def)
  then show "unread (\<lambda>_. []) (flat_of s) = s"
    using bytes_at_holds by (simp add: unread_def flat_of_def new_flat_input_def)
qed (simp add: readable_def IsFlat_def flat_of_def new_flat_input_def)

end
