(* ===== verification/MemoryParse.thy ===== *)
theory MemoryParse
  imports ScalarFields MessageParser
begin

text \<open>
  The parse loop of \<open>parse_context.h\<close> on a view of memory: where it stands, which bytes are before it up to the
  limit and behind the limit, and that it reads fields and nested messages as they were written, across the
  change of the buffer. What is compiled, \<open>DoneFallback\<close> and the fall-backs of the readers, is a parameter with the
  contract \<open>memory_library\<close>; so are the clients of \<open>FieldParser\<close> that say what is done with a field.
\<close>

subsection \<open>Where a parse stands\<close>

text \<open>
  \<open>todo\<close> are the bytes up to the limit, \<open>beyond\<close> those behind it. The context is one that \<open>InitFrom\<close> was given a view:
  the patch buffer is the next chunk, or there is none, and no stream is behind it.
\<close>

definition stands :: "('z, 'b) parse_context \<Rightarrow> address \<Rightarrow> string \<Rightarrow> string \<Rightarrow> bool" where
  "stands c ptr todo beyond \<longleftrightarrow>
     limits_ok c \<and> EndedAtLimit c \<and> overall_limit c = 0 \<and> next_chunk c \<in> {None, Some (patch_buffer c)} \<and> 0 \<le> ptr \<and> 0 \<le> patch_buffer c \<and> int (length (todo @ beyond)) \<le> INT_MAX \<and>
     until_limit ptr c = int (length todo) \<and> holds (at_address (in_memory c) ptr) (todo @ beyond) \<and>
     (if next_chunk c = None then buffer_end c else buffer_end c + kSlopBytes) - ptr = int (length (todo @ beyond))"

definition reads_value :: "('m, ('z, 'b) parse_context) parser \<Rightarrow> nat \<Rightarrow> string \<Rightarrow> 'm \<Rightarrow> 'm \<Rightarrow> bool" where
  "reads_value f d bs m m' \<longleftrightarrow>
     (\<forall>c ptr todo beyond. stands c ptr (bs @ todo) beyond \<and> int d \<le> depth c \<longrightarrow>
        (\<exists>p c'. f ptr m c = Some (Some p, m', c') \<and> stands c' p todo beyond \<and> depth c' = depth c))"

definition reads_to_limit :: "('m, ('z, 'b) parse_context) parser \<Rightarrow> nat \<Rightarrow> string \<Rightarrow> 'm \<Rightarrow> 'm \<Rightarrow> bool" where
  "reads_to_limit f d bs m m' \<longleftrightarrow>
     (\<forall>c ptr beyond. stands c ptr bs beyond \<and> int d \<le> depth c \<longrightarrow>
        (\<exists>p c'. f ptr m c = Some (Some p, m', c') \<and> stands c' p [] beyond \<and> depth c' = depth c))"

lemma stands_step:
  assumes "stands c ptr (a @ todo) beyond"
  shows "stands c (ptr + int (length a)) todo beyond"
  using assms holds_append [of "at_address (in_memory c) ptr" a "todo @ beyond"]
  by (auto simp: stands_def until_limit_def at_address_add)

text \<open>The check for the end stops exactly at the limit; at the end of the first buffer it changes to the patch buffer.\<close>

lemma stands_patch:
  assumes s: "stands c ptr todo beyond" and n: "next_chunk c \<noteq> None" "buffer_end c \<le> ptr" "todo \<noteq> []"
  shows "stands (to_patch_buffer c) (patch_buffer c + (ptr - buffer_end c)) todo beyond"
proof -
  let ?t = "todo @ beyond"
  have l: "buffer_end c + 16 - ptr = int (length ?t)" "0 \<le> ptr" "0 \<le> patch_buffer c"
    using s n(1) by (simp_all add: stands_def kSlopBytes_def)
  have "at_address (in_memory (to_patch_buffer c)) (patch_buffer c + (ptr - buffer_end c)) k = at_address (in_memory c) ptr k"
    if "k < length ?t" for k
  proof -
    have "nat (patch_buffer c + (ptr - buffer_end c)) + k = nat (patch_buffer c + (ptr - buffer_end c) + int k)"
      "nat ptr + k = nat (buffer_end c + (patch_buffer c + (ptr - buffer_end c) + int k - patch_buffer c))"
      using l n(2) by (simp_all add: nat_add_distrib)
    then show ?thesis using l n(2) that by (simp add: at_address_def to_patch_buffer_def store_bytes_def kSlopBytes_def)
  qed
  moreover have "holds (at_address (in_memory c) ptr) ?t" using s by (simp add: stands_def)
  ultimately have "holds (at_address (in_memory (to_patch_buffer c)) (patch_buffer c + (ptr - buffer_end c))) ?t"
    by (simp add: holds_def)
  then show ?thesis
    using s n l by (auto simp: stands_def to_patch_buffer_def limits_ok_def EndedAtLimit_def until_limit_def kSlopBytes_def INT_MAX_def)
qed

text \<open>
  What is documented of \<open>DoneFallback\<close>: it advances to the next chunk and returns a pointer to the same logical place.
  Here that is said of a view, of a pointer at or behind \<open>limit_end_\<close> that is not at the limit.
\<close>

locale buffer_crossing =
  fixes DoneFallback :: "int \<Rightarrow> int \<Rightarrow> ('z, 'b) parse_context \<Rightarrow> (address option \<times> bool \<times> ('z, 'b) parse_context) option"
  assumes crosses: "stands c ptr todo beyond \<Longrightarrow> todo \<noteq> [] \<Longrightarrow> limit_end c \<le> ptr \<Longrightarrow>
    \<exists>p c'. DoneFallback (ptr - buffer_end c) d c = Some (Some p, False, c') \<and> stands c' p todo beyond \<and> depth c' = depth c"
begin

lemma Done_stands:
  assumes s: "stands c ptr todo beyond"
  shows "todo = [] \<Longrightarrow> Done DoneFallback ptr c = Some (Some ptr, True, c)"
    "todo \<noteq> [] \<Longrightarrow> \<exists>p c'. Done DoneFallback ptr c = Some (Some p, False, c') \<and> stands c' p todo beyond \<and> depth c' = depth c"
proof -
  have l: "limit_end c = buffer_end c + min 0 (in_limit c)" "in_limit c + (buffer_end c - ptr) = int (length todo)"
    "(if next_chunk c = None then buffer_end c else buffer_end c + 16) - ptr = int (length todo) + int (length beyond)"
    "int (length todo) + int (length beyond) \<le> INT_MAX"
    using s by (auto simp: stands_def limits_ok_def until_limit_def kSlopBytes_def split: if_splits)
  have o: "cast_int (ptr - buffer_end c) = ptr - buffer_end c" "ptr - buffer_end c \<le> 16"
    using l by (auto simp: INT_MAX_def intro!: cast_int_id split: if_splits)
  show "Done DoneFallback ptr c = Some (Some ptr, True, c)" if "todo = []"
    using that l o by (auto simp: Done_def DoneWithCheck_def kSlopBytes_def Let_def split: if_splits)
  show "\<exists>p c'. Done DoneFallback ptr c = Some (Some p, False, c') \<and> stands c' p todo beyond \<and> depth c' = depth c" if t: "todo \<noteq> []"
  proof (cases "ptr < limit_end c")
    case True
    then show ?thesis using s by (simp add: Done_def DoneWithCheck_def)
  next
    case False
    have "0 < int (length todo)" using t by simp
    then have "ptr - buffer_end c \<noteq> in_limit c" using l(2) by linarith
    then have "Done DoneFallback ptr c = DoneFallback (ptr - buffer_end c) (group_depth c) c"
      using False o by (simp add: Done_def DoneWithCheck_def kSlopBytes_def Let_def)
    then show ?thesis using crosses [OF s t] False by simp
  qed
qed

end

subsection \<open>Clients of the field parser\<close>

text \<open>
  What the loop needs of them: the client of a message of string fields puts a string it is given into the field of
  its tag in the parse table; the client of a list parses the message of field 1 by \<open>ParseLengthDelimitedInlined\<close>
  and adds it.
\<close>

definition reads_records ::
  "('m, ('z, 'b) parse_context) field_parser \<Rightarrow> (nat \<times> (string \<Rightarrow> 'm \<Rightarrow> 'm)) list \<Rightarrow> (string \<Rightarrow> bool) \<Rightarrow> bool" where
  "reads_records Q table u \<longleftrightarrow>
     (\<forall>t s m d. t \<in> fst ` set table \<and> u s \<and> length s \<le> max_size \<longrightarrow>
        reads_value (delimited_parser Q (of_nat (t div 8))) d (varint (length s) @ s) m (apply_record table (t, s) m))"

definition nested_field ::
  "read_fallback \<Rightarrow> ('i, ('z, 'b) parse_context) parser \<Rightarrow> 'i \<Rightarrow> ('i \<Rightarrow> 'm \<Rightarrow> 'm) \<Rightarrow> ('m, ('z, 'b) parse_context) parser" where
  "nested_field ReadSizeFallback item new add ptr m c =
     do { (p, i, c) \<leftarrow> ParseLengthDelimitedInlined ReadSizeFallback item ptr new c; Some (p, add i m, c) }"

subsection \<open>What the loop reads\<close>

lemma stands_holds: "stands c ptr (a @ todo) beyond \<Longrightarrow> holds (at_address (in_memory c) ptr) (a @ todo @ beyond)"
  by (simp add: stands_def)

lemma delimited_tag:
  assumes "t < 2 ^ 32"
  shows "(of_nat t :: 32 word) = 0 \<longleftrightarrow> t = 0" "drop_bit 3 (of_nat t :: 32 word) = of_nat (t div 8)"
    "unat (of_nat (t div 8) :: 32 word) = t div 8" "of_nat t AND (7 :: 32 word) = of_nat (t mod 8)"
proof -
  have t: "unat (of_nat t :: 32 word) = t" using assms by (rule unat_of_nat_32)
  show "(of_nat t :: 32 word) = 0 \<longleftrightarrow> t = 0" by (simp only: unat_eq_zero [symmetric] t)
  show d: "unat (of_nat (t div 8) :: 32 word) = t div 8" using assms by (intro unat_of_nat_32) (simp add: div_less_iff_less_mult)
  show "drop_bit 3 (of_nat t :: 32 word) = of_nat (t div 8)"
    unfolding word_unat_eq_iff unat_drop_bit_div t d by simp
  have "unat (of_nat (t mod 8) :: 32 word) = t mod 8" by (intro unat_of_nat_32) (simp add: order_less_trans [OF mod_less_divisor])
  moreover have "of_nat t AND (7 :: 32 word) = take_bit 3 (of_nat t)" by (simp add: take_bit_eq_mask mask_eq_exp_minus_1)
  moreover have "unat (take_bit 3 (of_nat t :: 32 word)) = t mod 8"
    by (simp only: unsigned_take_bit_eq t) (simp add: take_bit_eq_mod)
  ultimately show "of_nat t AND (7 :: 32 word) = of_nat (t mod 8)" by (metis word_unat_eq_iff)
qed

definition delimited_tags :: "(nat \<times> 'f) list \<Rightarrow> bool" where
  "delimited_tags table \<longleftrightarrow> (\<forall>t \<in> fst ` set table. 8 \<le> t \<and> t < 2 ^ 32 \<and> t mod 8 = 2)"

lemma delimited_tables: "delimited_tags QuestionAnswer_table" "delimited_tags QuestionAnswerGroup_table"
  by (simp_all add: delimited_tags_def QuestionAnswer_table_def QuestionAnswerGroup_table_def)

locale memory_library =
  buffer_crossing DoneFallback + varint_library ReadTagFallback ReadSizeFallback VarintParseSlow32 VarintParseSlow64
  for DoneFallback :: "int \<Rightarrow> int \<Rightarrow> ('z, 'b) parse_context \<Rightarrow> (address option \<times> bool \<times> ('z, 'b) parse_context) option"
    and ReadTagFallback ReadSizeFallback VarintParseSlow32 VarintParseSlow64
begin

lemma tag_reads:
  assumes "stands c ptr (varint t @ todo) beyond" "t < 2 ^ 32"
  shows "ReadTag ReadTagFallback (at_address (in_memory c) ptr) = Some (length (varint t), of_nat t)"
proof -
  have "varint_read 5 (at_address (in_memory c) ptr) = Some (length (varint t), of_nat t)"
    by (rule varint_read_written [OF stands_holds [OF assms(1)] length_varint_32 [OF assms(2)]])
  moreover have "ucast (of_nat t :: 64 word) = (of_nat t :: 32 word)" 
    using assms(2) by (simp add: word_unat_eq_iff unsigned_ucast_eq unsigned_of_nat take_bit_nat_eq_self)
  ultimately show ?thesis by (simp add: ReadTag_read read_tag_def)
qed

text \<open>A message of length-delimited fields: the loop reads them one after the other and stops at the limit.\<close>

lemma loop_reads:
  fixes P :: "('m, ('z, 'b) parse_context) field_parser"
  assumes "\<And>x m. x \<in> set xs \<Longrightarrow> 8 \<le> fst (rec x) \<and> fst (rec x) < 2 ^ 32 \<and> fst (rec x) mod 8 = 2 \<and>
    reads_value (delimited_parser P (of_nat (fst (rec x) div 8))) d (varint (length (snd (rec x))) @ snd (rec x)) m (g x m)"
  shows "reads_to_limit (WireFormatParser DoneFallback ReadTagFallback (FieldParser VarintParseSlow64 P)) d
    (record_bytes (map rec xs)) m (fold g xs m)"
  using assms
proof (induction xs arbitrary: m)
  case Nil
  have "WireFormatParser DoneFallback ReadTagFallback (FieldParser VarintParseSlow64 P) ptr m c = Some (Some ptr, m, c)"
    if "stands c ptr [] beyond" for c ptr beyond
    by (rule WireFormatParser_stop [OF Done_stands(1) [OF that]]) simp
  then show ?case unfolding reads_to_limit_def by fastforce
next
  case (Cons x xs)
  obtain t s where r: "rec x = (t, s)" by (cases "rec x")
  let ?F = "WireFormatParser DoneFallback ReadTagFallback (FieldParser VarintParseSlow64 P)"
  have t: "8 \<le> t" "t < 2 ^ 32" "t mod 8 = 2"
    and v: "reads_value (delimited_parser P (of_nat (t div 8))) d (varint (length s) @ s) m (g x m)"
    using Cons.prems [of x m] r by simp_all
  note w = delimited_tag [OF t(2)]
  have n: "(of_nat (t div 8) :: 32 word) \<noteq> 0"
  proof
    assume "(of_nat (t div 8) :: 32 word) = 0"
    then show False using w(3) t(1) by (simp add: div_greater_zero_iff)
  qed
  show ?case unfolding reads_to_limit_def
  proof (intro allI impI, elim conjE)
    fix c :: "('z, 'b) parse_context" and ptr beyond
    assume "stands c ptr (record_bytes (map rec (x # xs))) beyond" and d: "int d \<le> depth c"
    then have st: "stands c ptr (varint t @ (varint (length s) @ s) @ record_bytes (map rec xs)) beyond"
      by (simp add: r wire_record_def)
    have "varint t \<noteq> []" by (simp add: varint.simps [of t])
    then obtain p c1 where D: "Done DoneFallback ptr c = Some (Some p, False, c1)" "depth c1 = depth c"
      and s1: "stands c1 p (varint t @ (varint (length s) @ s) @ record_bytes (map rec xs)) beyond"
      using Done_stands(2) [OF st] by auto
    obtain q c2 where f: "delimited_parser P (of_nat (t div 8)) (p + int (length (varint t))) m c1 = Some (Some q, g x m, c2)"
      and s2: "stands c2 q (record_bytes (map rec xs)) beyond" "depth c2 = depth c1"
      using v stands_step [OF s1] d D(2) unfolding reads_value_def by (metis (no_types, lifting))
    have "?F ptr m c = ?F q (g x m) c2"
      by (rule WireFormatParser_round [OF D(1) tag_reads [OF s1 t(2)]])
        (use t w n f in \<open>simp_all add: FieldParser_def Let_def\<close>)
    moreover have "reads_to_limit ?F d (record_bytes (map rec xs)) (g x m) (fold g xs (g x m))"
      using Cons by simp
    ultimately show "\<exists>p c'. ?F ptr m c = Some (Some p, fold g (x # xs) m, c') \<and> stands c' p [] beyond \<and> depth c' = depth c"
      using s2 d D(2) unfolding reads_to_limit_def by fastforce
  qed
qed

text \<open>A nested message: its limit is pushed, read to, and popped again.\<close>

lemma delimited_reads:
  fixes f :: "('m, ('z, 'b) parse_context) parser"
  assumes f: "reads_to_limit f d bs m m'" and n: "length bs \<le> max_size"
  shows "reads_value (ParseLengthDelimitedInlined ReadSizeFallback f) (Suc d) (varint (length bs) @ bs) m m'"
  unfolding reads_value_def
proof (intro allI impI, elim conjE)
  fix c :: "('z, 'b) parse_context" and ptr todo beyond
  assume "stands c ptr ((varint (length bs) @ bs) @ todo) beyond" and d: "int (Suc d) \<le> depth c"
  then have st: "stands c ptr (varint (length bs) @ bs @ todo) beyond" by simp
  let ?p = "ptr + int (length (varint (length bs)))" and ?n = "int (length bs)"
  let ?l = "?n + (?p - buffer_end c)"
  let ?c1 = "c\<lparr>limit_end := buffer_end c + min 0 ?l, in_limit := ?l, depth := depth c - 1\<rparr>"
  have s1: "stands c ?p (bs @ todo) beyond" by (rule stands_step [OF st])
  have z: "ReadSize ReadSizeFallback (at_address (in_memory c) ptr) = Some (length (varint (length bs)), of_nat (length bs))"
    by (rule size_written [OF stands_holds [OF st] n])
  have m: "?n \<le> INT_MAX - kSlopBytes" "sint (of_nat (length bs) :: 32 word) = ?n"
    using n by (simp_all add: max_size_def INT_MAX_def kSlopBytes_def signed_of_nat signed_take_bit_int_eq_self)
  have u: "until_limit ?p c = ?n + int (length todo)" "until_limit ?p c \<le> INT_MAX" "in_buffer ?p c"
    using s1 by (auto simp: stands_def in_buffer_def kSlopBytes_def split: if_splits)
  then have "PushLimit ?p ?n c = Some (int (length todo), c\<lparr>limit_end := buffer_end c + min 0 ?l, in_limit := ?l\<rparr>)"
    using PushLimit_exact [OF u(3) _ m(1)] by simp
  then have push: "ReadSizeAndPushLimitAndDepthInlined ReadSizeFallback ptr c = Some (Some (?p, int (length todo)), ?c1)"
    using z m(2) d by (simp add: ReadSizeAndPushLimitAndDepthInlined_def)
  have "stands ?c1 ?p bs (todo @ beyond)"
    using s1 by (auto simp: stands_def limits_ok_def EndedAtLimit_def until_limit_def kSlopBytes_def INT_MAX_def split: if_splits)
  moreover have "int d \<le> depth ?c1" using d by simp
  ultimately obtain q c2 where
    r: "f ?p m ?c1 = Some (Some q, m', c2)" "stands c2 q [] (todo @ beyond)" "depth c2 = depth c - 1"
    using f unfolding reads_to_limit_def by fastforce
  let ?c3 = "c2\<lparr>depth := depth c, in_limit := in_limit c2 + int (length todo)\<rparr>"
  let ?c4 = "?c3\<lparr>limit_end := buffer_end c2 + min 0 (in_limit ?c3)\<rparr>"
  have "int32 (in_limit c2 + int (length todo)) = Some (in_limit c2 + int (length todo))"
    using r(2) by (intro int32_in) (auto simp: stands_def until_limit_def kSlopBytes_def INT_MAX_def split: if_splits)
  then have "PopLimit (int (length todo)) (c2\<lparr>depth := depth c2 + 1\<rparr>) = Some (True, ?c4)"
    using r(2,3) by (simp add: PopLimit_def stands_def EndedAtLimit_def Let_def int32_in)
  moreover have "stands ?c4 q todo beyond"
    using r(2) by (auto simp: stands_def limits_ok_def EndedAtLimit_def until_limit_def split: if_splits)
  ultimately show "\<exists>p c'. ParseLengthDelimitedInlined ReadSizeFallback f ptr m c = Some (Some p, m', c') \<and>
      stands c' p todo beyond \<and> depth c' = depth c"
    using push r(1,3) by (simp add: ParseLengthDelimitedInlined_def Let_def)
qed

text \<open>Messages of string fields, and lists of them.\<close>

lemma records_read:
  fixes Q :: "('m, ('z, 'b) parse_context) field_parser"
  assumes t: "delimited_tags table" and l: "length (record_bytes rs) \<le> max_size"
    and u: "\<And>r. r \<in> set rs \<Longrightarrow> fst r \<in> fst ` set table \<and> u (snd r)" and Q: "reads_records Q table u"
  shows "reads_to_limit (WireFormatParser DoneFallback ReadTagFallback (FieldParser VarintParseSlow64 Q)) d
    (record_bytes rs) m (fold (apply_record table) rs m)"
proof -
  have "8 \<le> fst r \<and> fst r < 2 ^ 32 \<and> fst r mod 8 = 2 \<and>
      reads_value (delimited_parser Q (of_nat (fst r div 8))) d (varint (length (snd r)) @ snd r) m (apply_record table r m)"
    if "r \<in> set rs" for r m
  proof -
    have "length (snd r) \<le> length (wire_record (fst r) (snd r))" by (simp add: wire_record_def)
    also have "\<dots> \<le> length (record_bytes rs)"
      using that by (induction rs) (auto simp: record_bytes_def)
    finally have "length (snd r) \<le> max_size" using l by simp
    then have "reads_value (delimited_parser Q (of_nat (fst r div 8))) d (varint (length (snd r)) @ snd r) m
        (apply_record table (fst r, snd r) m)"
      using Q u [OF that] unfolding reads_records_def by blast
    then show ?thesis using t u [OF that] by (auto simp: delimited_tags_def)
  qed
  from loop_reads [where rec = "\<lambda>r. r", OF this] show ?thesis by simp
qed

lemma lists_read:
  fixes Q :: "('i, ('z, 'b) parse_context) field_parser" and P :: "('m, ('z, 'b) parse_context) field_parser"
  assumes t: "delimited_tags table" and l: "length (questions_bytes rss) \<le> max_size"
    and u: "\<And>rs r. rs \<in> set rss \<Longrightarrow> r \<in> set rs \<Longrightarrow> fst r \<in> fst ` set table \<and> u (snd r)" and Q: "reads_records Q table u"
    and P: "delimited_parser P 1 =
      nested_field ReadSizeFallback (WireFormatParser DoneFallback ReadTagFallback (FieldParser VarintParseSlow64 Q)) new add"
  shows "reads_to_limit (WireFormatParser DoneFallback ReadTagFallback (FieldParser VarintParseSlow64 P)) 1
    (questions_bytes rss) m (fold (\<lambda>rs. add (fold (apply_record table) rs new)) rss m)"
proof -
  let ?item = "WireFormatParser DoneFallback ReadTagFallback (FieldParser VarintParseSlow64 Q)"
  have "reads_value (delimited_parser P 1) 1 (varint (length (record_bytes rs)) @ record_bytes rs) m
      (add (fold (apply_record table) rs new) m)" if "rs \<in> set rss" for rs and m :: 'm
  proof -
    have n: "length (record_bytes rs) \<le> max_size" using length_member_questions_bytes [OF that] l by simp
    have "reads_value (ParseLengthDelimitedInlined ReadSizeFallback ?item) (Suc 0)
        (varint (length (record_bytes rs)) @ record_bytes rs) new (fold (apply_record table) rs new)"
      by (rule delimited_reads [OF records_read [OF t n u [OF that] Q] n])
    then show ?thesis unfolding P reads_value_def nested_field_def by fastforce
  qed
  then show ?thesis
    unfolding questions_bytes_framed framed_records_def by (intro loop_reads) simp
qed

end

subsection \<open>A view of memory\<close>

text \<open>The constructor of \<open>ParseContext\<close> before \<open>InitFrom\<close>; \<open>buffer\<close> is the address of \<open>patch_buffer_\<close>.\<close>

definition new_context :: "int \<Rightarrow> bool \<Rightarrow> address \<Rightarrow> 'z \<Rightarrow> memory \<Rightarrow> 'z ParseContext" where
  "new_context recursion_depth enable_aliasing buffer z M =
     \<lparr>limit_end = 0, buffer_end = 0, next_chunk = None, in_size = 0, in_limit = 0, zcis = z, patch_buffer = buffer,
      aliasing = (if enable_aliasing then kOnPatch else kNoAliasing), last_tag_minus_1 = 0, overall_limit = INT_MAX,
      in_memory = M, depth = recursion_depth, group_depth = - INT_MAX - 1\<rparr>"

lemma InitFrom_stands:
  assumes "InitFrom data (int (length bs)) (new_context d a buffer z M) = (p, c)"
    and "holds (at_address M data) bs" "0 \<le> data" "0 \<le> buffer" "length bs \<le> max_size"
  shows "stands c p bs []" "depth c = d"
proof -
  let ?c = "new_context d a buffer z M"
  have h: "holds (at_address (store_bytes M buffer data (int (length bs))) buffer) bs"
  proof -
    have "at_address (store_bytes M buffer data (int (length bs))) buffer k = at_address M data k" if "k < length bs" for k
    proof -
      have "nat buffer + k = nat (buffer + int k)" "nat data + k = nat (data + int k)"
        using assms(3,4) by (simp_all add: nat_add_distrib)
      then show ?thesis using assms(4) that by (simp add: at_address_def store_bytes_def)
    qed
    then show ?thesis using assms(2) by (simp add: holds_def)
  qed
  show "stands c p bs []" "depth c = d"
    using assms h
    by (auto simp: InitFrom_def new_context_def stands_def limits_ok_def EndedAtLimit_def until_limit_def kSlopBytes_def
        INT_MAX_def max_size_def kOnPatch_def kNoAliasing_def Let_def holds_def split: if_splits)
qed

text \<open>Any library, any clients, any place in memory: a list that was written is read back, up to its end.\<close>

context memory_library
begin

lemma questions_read_in_memory:
  fixes P :: "(QuestionAnswerList, ('z, 'b) parse_context) field_parser"
  assumes Q: "reads_records Q QuestionAnswer_table u"
    and P: "delimited_parser P 1 = nested_field ReadSizeFallback
      (WireFormatParser DoneFallback ReadTagFallback (FieldParser VarintParseSlow64 Q)) QuestionAnswer_default
      (\<lambda>q n. n\<lparr>qal_items := qal_items n @ [q]\<rparr>)"
    and m: "\<forall>q \<in> set (qal_items m). qa_writable u q" "qal_unknown m = []"
      "length (fst (QuestionAnswerList_SerializeToOstream m)) \<le> max_size"
    and c: "stands c p (fst (QuestionAnswerList_SerializeToOstream m)) beyond" "1 \<le> depth c"
  shows "\<exists>q c'. WireFormatParser DoneFallback ReadTagFallback (FieldParser VarintParseSlow64 P) p QuestionAnswerList_default c =
      Some (Some q, QuestionAnswerList_default\<lparr>qal_items := map (\<lambda>q. q\<lparr>qa_cached := 0\<rparr>) (qal_items m)\<rparr>, c') \<and>
    EndedAtLimit c' \<and> until_limit q c' = 0 \<and> depth c' = depth c"
proof -
  let ?rss = "map qa_records (qal_items m)" and ?add = "\<lambda>q n. n\<lparr>qal_items := qal_items n @ [q]\<rparr>"
  note r = questions_as_records [OF m]
  have "reads_to_limit (WireFormatParser DoneFallback ReadTagFallback (FieldParser VarintParseSlow64 P)) 1
      (questions_bytes ?rss) QuestionAnswerList_default
      (fold (\<lambda>rs. ?add (fold (apply_record QuestionAnswer_table) rs QuestionAnswer_default)) ?rss QuestionAnswerList_default)"
    by (rule lists_read [OF delimited_tables(1) _ _ Q P]) (use m(3) r in auto)
  moreover have "fold (\<lambda>rs. ?add (fold (apply_record QuestionAnswer_table) rs QuestionAnswer_default)) ?rss QuestionAnswerList_default =
      QuestionAnswerList_default\<lparr>qal_items := map (\<lambda>q. q\<lparr>qa_cached := 0\<rparr>) (qal_items m)\<rparr>"
    unfolding fold_append_questions r(3) by (simp add: QuestionAnswerList_default_def)
  ultimately show ?thesis using c r(1) unfolding reads_to_limit_def stands_def by fastforce
qed

end

text \<open>A memory that holds a string at an address.\<close>

definition stored :: "nat \<Rightarrow> string \<Rightarrow> memory" where
  "stored a s = (\<lambda>k. if a \<le> k \<and> k < a + length s then of_nat (of_char (s ! (k - a))) else 0)"

lemma stored_holds: "holds (at_address (stored a s) (int a)) s"
  by (simp add: holds_def at_address_def stored_def)

subsection \<open>An example library and example clients\<close>

text \<open>
  To see that the contracts can hold together: \<open>view_DoneFallback\<close> changes to the patch buffer; the example client of
  a message takes a string out of the buffer, as \<open>ReadString\<close> does.
\<close>

interpretation crossed: memory_library view_DoneFallback "\<lambda>p _. ReadTagInlined p" inline_size
    "\<lambda>p _. VarintParse_arm VarintParseSlowArm32 p" "\<lambda>p _. ParseBigVarint p"
proof (intro memory_library.intro inlined.varint_library_axioms buffer_crossing.intro)
  fix c :: "('z, 'b) parse_context" and ptr todo beyond d
  assume s: "stands c ptr todo beyond" and t: "todo \<noteq> []" and e: "limit_end c \<le> ptr"
  have l: "limit_end c = buffer_end c + min 0 (in_limit c)" "in_limit c + (buffer_end c - ptr) = int (length todo)"
    "(if next_chunk c = None then buffer_end c else buffer_end c + 16) - ptr = int (length todo) + int (length beyond)"
    using s by (auto simp: stands_def limits_ok_def until_limit_def kSlopBytes_def split: if_splits)
  have p: "0 < int (length todo)" using t by simp
  then have b: "buffer_end c \<le> ptr" "ptr - buffer_end c < in_limit c" using e l(1,2) by linarith+
  have n: "next_chunk c \<noteq> None"
  proof
    assume "next_chunk c = None"
    then have "buffer_end c - ptr = int (length todo) + int (length beyond)" using l(3) by simp
    then show False using b(1) p by linarith
  qed
  have "buffer_end c + 16 - ptr = int (length todo) + int (length beyond)" using l(3) unfolding if_not_P [OF n] .
  then have "ptr - buffer_end c < 16" using p by linarith
  then have "view_DoneFallback (ptr - buffer_end c) d c =
      Some (Some (patch_buffer c + (ptr - buffer_end c)), False, to_patch_buffer c)"
    using b n by (auto simp: view_DoneFallback_def kSlopBytes_def Let_def to_patch_buffer_def)
  then show "\<exists>p c'. view_DoneFallback (ptr - buffer_end c) d c = Some (Some p, False, c') \<and> stands c' p todo beyond \<and> depth c' = depth c"
    using stands_patch [OF s n b(1) t] by (simp add: to_patch_buffer_def)
qed

definition example_string ::
  "read_fallback \<Rightarrow> (string \<Rightarrow> 'm \<Rightarrow> bool \<times> 'm) \<Rightarrow> ('m, ('z, 'b) parse_context) parser" where
  "example_string ReadSizeFallback set_field ptr m c =
     (case ReadSize ReadSizeFallback (at_address (in_memory c) ptr) of
        None \<Rightarrow> Some (None, m, c)
      | Some (k, n) \<Rightarrow>
          do { (p, s, c) \<leftarrow> ReadString (\<lambda>_ _ s c. Some (None, s, c)) (ptr + int k) (sint n) [] c;
               if p = None then Some (None, m, c)
               else case set_field s m of (ok, m) \<Rightarrow> Some (if ok then p else None, m, c) })"

definition example_client :: "(32 word \<Rightarrow> ('m, ('z, 'b) parse_context) parser) \<Rightarrow> ('m, ('z, 'b) parse_context) field_parser" where
  "example_client delimited =
     \<lparr>AddVarint = \<lambda>_ _ m. m, AddFixed64 = \<lambda>_ _ m. m, AddFixed32 = \<lambda>_ _ m. m, delimited_parser = delimited,
      group_parser = \<lambda>_ _ m c. Some (None, m, c)\<rparr>"

definition example_message ::
  "read_fallback \<Rightarrow> (string \<Rightarrow> bool) \<Rightarrow> (nat \<times> (string \<Rightarrow> 'm \<Rightarrow> 'm)) list \<Rightarrow> ('m, ('z, 'b) parse_context) field_parser" where
  "example_message ReadSizeFallback u table =
     example_client (\<lambda>num. example_string ReadSizeFallback
       (case map_of (string_table u table) (8 * unat num + 2) of None \<Rightarrow> \<lambda>_ m. (True, m) | Some set_field \<Rightarrow> set_field))"

context varint_library
begin

lemma example_string_reads:
  assumes "set_field s m = (True, m')" "length s \<le> max_size"
  shows "reads_value (example_string ReadSizeFallback set_field :: ('m, ('z, 'b) parse_context) parser) d (varint (length s) @ s) m m'"
  unfolding reads_value_def
proof (intro allI impI, elim conjE)
  fix c :: "('z, 'b) parse_context" and ptr todo beyond
  assume "stands c ptr ((varint (length s) @ s) @ todo) beyond"
  then have st: "stands c ptr (varint (length s) @ s @ todo) beyond" by simp
  let ?k = "int (length (varint (length s)))"
  have st1: "stands c (ptr + ?k) (s @ todo) beyond" by (rule stands_step [OF st])
  have z: "ReadSize ReadSizeFallback (at_address (in_memory c) ptr) = Some (length (varint (length s)), of_nat (length s))"
    by (rule size_written [OF stands_holds [OF st] assms(2)])
  have "holds (at_address (in_memory c) (ptr + ?k)) s"
    using stands_holds [OF st1] holds_append [of _ s] by blast
  then have b: "bytes_at (in_memory c) (ptr + ?k) (int (length s)) = s" by (rule bytes_at_holds)
  have n: "sint (of_nat (length s) :: 32 word) = int (length s)"
    using assms(2) by (simp add: max_size_def signed_of_nat signed_take_bit_int_eq_self)
  have "in_reach (ptr + ?k) (int (length s)) c"
    using st1 by (auto simp: stands_def in_reach_def kSlopBytes_def split: if_splits)
  then show "\<exists>p c'. example_string ReadSizeFallback set_field ptr m c = Some (Some p, m', c') \<and> stands c' p todo beyond \<and> depth c' = depth c"
    using stands_step [OF st1] z b n assms(1) by (simp add: example_string_def ReadString_def)
qed

lemma example_message_reads:
  assumes "delimited_tags table"
  shows "reads_records (example_message ReadSizeFallback u table :: ('m, ('z, 'b) parse_context) field_parser) table u"
  unfolding reads_records_def
proof (intro allI impI, elim conjE)
  fix t s d and m :: 'm
  assume a: "t \<in> fst ` set table" "u s" "length s \<le> max_size"
  then have t: "8 \<le> t" "t < 2 ^ 32" "t mod 8 = 2" using assms by (auto simp: delimited_tags_def)
  obtain f where f: "map_of table t = Some f" using a(1) by (cases "map_of table t") (auto simp: map_of_eq_None_iff)
  have e: "8 * unat (of_nat (t div 8) :: 32 word) + 2 = t"
    using t(3) delimited_tag(3) [OF t(2)] by (metis mult_div_mod_eq)
  show "reads_value (delimited_parser (example_message ReadSizeFallback u table :: ('m, ('z, 'b) parse_context) field_parser)
      (of_nat (t div 8))) d (varint (length s) @ s) m (apply_record table (t, s) m)"
    using a(2,3) unfolding example_message_def example_client_def field_parser.simps e map_of_string_table f
    by (intro example_string_reads) (simp_all add: apply_record_def f)
qed

end

end
