(* ===== verification/StringField.thy ===== *)
theory StringField
  imports InputStream
begin

text \<open>
  \<open>TaggedStringPtr\<close> and \<open>ArenaStringPtr\<close> of \<open>arenastring.h\<close>, which the generated messages keep their strings in:
  a pointer to a string object whose two lowest bits say who owns it. The messages of \<open>XnMessages\<close> hold
  strings as values; here the pointers are words over an explicit store of string objects. What is compiled
  into the library is a record of functions with its contract as the locale \<open>string_fields\<close>. What cannot allocate
  is an option: a null or dangling pointer and a violated \<open>ABSL_DCHECK\<close> are \<open>None\<close>. What can is an outcome:
  those are \<open>Undef\<close> there, and an allocation that fails throws.
\<close>

datatype alloc_error = bad_alloc

type_synonym 'a alloc_result = "(alloc_error, 'a) outcome"

definition on_return :: "('e, 'a) outcome \<Rightarrow> ('a \<Rightarrow> ('e, 'b) outcome) \<Rightarrow> ('e, 'b) outcome" where
  "on_return r f = (case r of Ret x \<Rightarrow> f x | Throw e \<Rightarrow> Throw e | Undef \<Rightarrow> Undef)"

definition defined :: "'a option \<Rightarrow> 'a alloc_result" where
  "defined r = (case r of Some x \<Rightarrow> Ret x | None \<Rightarrow> Undef)"

definition allocated :: "'a option \<Rightarrow> 'a alloc_result" where
  "allocated r = (case r of Some x \<Rightarrow> Ret x | None \<Rightarrow> Throw bad_alloc)"

text \<open>Nothing undefined, and what is returned is as it should be.\<close>

definition unless_thrown :: "('a \<Rightarrow> bool) \<Rightarrow> ('e, 'a) outcome \<Rightarrow> bool" where
  "unless_thrown P r \<longleftrightarrow> r \<noteq> Undef \<and> (\<forall>x. r = Ret x \<longrightarrow> P x)"

lemma outcome_simps [simp]:
  "on_return (Ret x) f = f x" "on_return (Throw er) f = Throw er" "on_return Undef f = Undef"
  "defined (Some x) = Ret x" "defined None = Undef" "allocated (Some x) = Ret x" "allocated None = Throw bad_alloc"
  "unless_thrown P (Ret x) \<longleftrightarrow> P x" "unless_thrown P (Throw er)" "\<not> unless_thrown P Undef"
  by (simp_all add: on_return_def defined_def allocated_def unless_thrown_def)

lemma unless_thrown_on_return:
  "unless_thrown Q r \<Longrightarrow> (\<And>x. Q x \<Longrightarrow> unless_thrown P (f x)) \<Longrightarrow> unless_thrown P (on_return r f)"
  by (cases r) auto

lemma unless_thrown_allocated: "(\<And>x. r = Some x \<Longrightarrow> unless_thrown P (f x)) \<Longrightarrow> unless_thrown P (on_return (allocated r) f)"
  by (cases r) auto

subsection \<open>\<open>TaggedStringPtr\<close>\<close>

type_synonym string_pointer = "64 word"
type_synonym tagged_string = "64 word"

datatype string_type = kDefault | kAllocated | kMutableArena | kFixedSizeArena

definition kArenaBit :: "64 word" where "kArenaBit = 1"
definition kMutableBit :: "64 word" where "kMutableBit = 2"
definition kMask :: "64 word" where "kMask = 3"

fun type_bits :: "string_type \<Rightarrow> 64 word" where
  "type_bits kDefault = 0"
| "type_bits kAllocated = kMutableBit"
| "type_bits kMutableArena = kArenaBit OR kMutableBit"
| "type_bits kFixedSizeArena = kArenaBit"

definition TagAs :: "string_type \<Rightarrow> string_pointer \<Rightarrow> tagged_string option" where
  "TagAs ty p = do { assure (p \<noteq> 0); assure (p AND kMask = 0); Some (p OR type_bits ty) }"

definition SetDefault :: "string_pointer \<Rightarrow> tagged_string option" where
  "SetDefault p = TagAs kDefault p"

definition SetAllocated :: "string_pointer \<Rightarrow> tagged_string option" where
  "SetAllocated p = TagAs kAllocated p"

definition SetFixedSizeArena :: "string_pointer \<Rightarrow> tagged_string option" where
  "SetFixedSizeArena p = TagAs kFixedSizeArena p"

definition SetMutableArena :: "string_pointer \<Rightarrow> tagged_string option" where
  "SetMutableArena p = TagAs kMutableArena p"

definition IsMutable :: "tagged_string \<Rightarrow> bool" where
  "IsMutable t \<longleftrightarrow> t AND kMutableBit \<noteq> 0"

definition IsDefault :: "tagged_string \<Rightarrow> bool" where
  "IsDefault t \<longleftrightarrow> t AND kMask = type_bits kDefault"

text \<open>Null is \<open>Some None\<close>; that the pointer is not null otherwise is assumed by the code.\<close>

definition GetIfAllocated :: "tagged_string \<Rightarrow> string_pointer option option" where
  "GetIfAllocated t =
     (let allocated = t XOR type_bits kAllocated in
      if allocated AND kMask \<noteq> 0 then Some None else do { assure (allocated \<noteq> 0); Some (Some allocated) })"

definition IsArena :: "tagged_string \<Rightarrow> bool" where
  "IsArena t \<longleftrightarrow> t AND kArenaBit \<noteq> 0"

definition IsFixedSizeArena :: "tagged_string \<Rightarrow> bool" where
  "IsFixedSizeArena t \<longleftrightarrow> t AND kMask = type_bits kFixedSizeArena"

definition tagged_Get :: "tagged_string \<Rightarrow> string_pointer" where
  "tagged_Get t = t AND NOT kMask"

definition IsNull :: "tagged_string \<Rightarrow> bool" where
  "IsNull t \<longleftrightarrow> t = 0"

subsection \<open>\<open>ArenaStringPtr\<close>\<close>

text \<open>An object is a string and the arena it lives on, if any. \<open>operator_new\<close> finds the place of a new object.\<close>

type_synonym string_heap = "string_pointer \<Rightarrow> (string \<times> nat option) option"

record string_library =
  operator_new :: "string_heap \<Rightarrow> string_pointer option"
  lib_Set :: "string \<Rightarrow> nat option \<Rightarrow> tagged_string \<Rightarrow> string_heap \<Rightarrow> (tagged_string \<times> string_heap) alloc_result"
  lib_Mutable :: "nat option \<Rightarrow> tagged_string \<Rightarrow> string_heap \<Rightarrow> (string_pointer \<times> tagged_string \<times> string_heap) alloc_result"
  lib_ClearToEmpty :: "tagged_string \<Rightarrow> string_heap \<Rightarrow> (tagged_string \<times> string_heap) alloc_result"
  lib_Destroy :: "tagged_string \<Rightarrow> string_heap \<Rightarrow> string_heap option"
  lib_ForceCopy :: "nat option \<Rightarrow> tagged_string \<Rightarrow> string_heap \<Rightarrow> (tagged_string \<times> string_heap) alloc_result"
  moved_from :: "string \<Rightarrow> string"

definition NewString ::
  "string_library \<Rightarrow> nat option \<Rightarrow> string \<Rightarrow> string_heap \<Rightarrow> (string_pointer \<times> tagged_string \<times> string_heap) alloc_result" where
  "NewString L a v h =
     on_return (allocated (operator_new L h)) (\<lambda>p.
       on_return (defined (if a = None then SetAllocated p else SetMutableArena p)) (\<lambda>t.
         Ret (p, t, h(p \<mapsto> (v, a)))))"

text \<open>The constructors; \<open>harden\<close> tells whether the build hardens defaults by copying them.\<close>

definition tagged_Copy ::
  "string_library \<Rightarrow> bool \<Rightarrow> nat option \<Rightarrow> tagged_string \<Rightarrow> string_heap \<Rightarrow> (tagged_string \<times> string_heap) alloc_result" where
  "tagged_Copy L harden a t h =
     (if harden then if IsNull t then Ret (t, h) else lib_ForceCopy L a t h
      else if IsDefault t then Ret (t, h) else lib_ForceCopy L a t h)"

definition new_string_field ::
  "string_library \<Rightarrow> bool \<Rightarrow> string_pointer \<Rightarrow> nat option \<Rightarrow> string_heap \<Rightarrow> (tagged_string \<times> string_heap) alloc_result" where
  "new_string_field L harden e a h = (if harden then lib_Set L [] a e h else Ret (e, h))"

definition copy_string_field ::
  "string_library \<Rightarrow> bool \<Rightarrow> nat option \<Rightarrow> tagged_string \<Rightarrow> string_heap \<Rightarrow> (tagged_string \<times> string_heap) alloc_result" where
  "copy_string_field L harden a rhs h = tagged_Copy L harden a rhs h"

definition InitDefault :: "string_pointer \<Rightarrow> tagged_string" where
  "InitDefault e = e"

definition InitExternal :: "string_pointer \<Rightarrow> tagged_string option" where
  "InitExternal str = SetDefault str"

text \<open>\<open>Own\<close> of an arena makes it the owner of the object.\<close>

definition InitAllocated :: "string_pointer \<Rightarrow> nat option \<Rightarrow> string_heap \<Rightarrow> (tagged_string \<times> string_heap) option" where
  "InitAllocated str a h =
     (if a \<noteq> None
      then do { t \<leftarrow> SetMutableArena str; (v, _) \<leftarrow> h str; Some (t, h(str \<mapsto> (v, a))) }
      else do { t \<leftarrow> SetAllocated str; Some (t, h) })"

definition Set_chars ::
  "string_library \<Rightarrow> string \<Rightarrow> nat option \<Rightarrow> tagged_string \<Rightarrow> string_heap \<Rightarrow> (tagged_string \<times> string_heap) alloc_result" where
  "Set_chars L s = lib_Set L (c_str s)"

definition Set_chars_n ::
  "string_library \<Rightarrow> string \<Rightarrow> nat \<Rightarrow> nat option \<Rightarrow> tagged_string \<Rightarrow> string_heap \<Rightarrow> (tagged_string \<times> string_heap) alloc_result" where
  "Set_chars_n L s n = lib_Set L (take n s)"

definition SetBytes ::
  "string_library \<Rightarrow> string \<Rightarrow> nat option \<Rightarrow> tagged_string \<Rightarrow> string_heap \<Rightarrow> (tagged_string \<times> string_heap) alloc_result" where
  "SetBytes L v = lib_Set L v"

definition field_Get_string :: "tagged_string \<Rightarrow> string_heap \<Rightarrow> string option" where
  "field_Get_string t h = map_option fst (h (tagged_Get t))"

definition UnsafeGetPointer :: "tagged_string \<Rightarrow> string_pointer" where
  "UnsafeGetPointer t = tagged_Get t"

definition UnsafeMutablePointer :: "tagged_string \<Rightarrow> string_pointer option" where
  "UnsafeMutablePointer t = do { assure (IsMutable t); assure (tagged_Get t \<noteq> 0); Some (tagged_Get t) }"

definition ClearNonDefaultToEmpty :: "tagged_string \<Rightarrow> string_heap \<Rightarrow> string_heap option" where
  "ClearNonDefaultToEmpty t h = do { (v, a) \<leftarrow> h (tagged_Get t); Some (h(tagged_Get t \<mapsto> ([], a))) }"

text \<open>
  A hardened swap moves both strings to new objects. What is left of a moved string is not specified; a heap
  object is deleted, an object on an arena stays. No string is of a fixed size here.
\<close>

definition harden_swapped ::
  "string_library \<Rightarrow> nat option \<Rightarrow> tagged_string \<Rightarrow> string_heap \<Rightarrow> (tagged_string \<times> string_heap) alloc_result" where
  "harden_swapped L a t h =
     (if IsDefault t then Ret (t, h)
      else
        let old_value = tagged_Get t in
        on_return (allocated (operator_new L h)) (\<lambda>new_value.
        on_return (defined (h old_value)) (\<lambda>(v, b).
        let h = h(old_value \<mapsto> (moved_from L v, b), new_value \<mapsto> (v, a)) in
        if a = None then on_return (defined (SetAllocated new_value)) (\<lambda>t. Ret (t, h(old_value := None)))
        else on_return (defined (SetMutableArena new_value)) (\<lambda>t. Ret (t, h)))))"

definition string_InternalSwap ::
  "string_library \<Rightarrow> bool \<Rightarrow> nat option \<Rightarrow> tagged_string \<Rightarrow> tagged_string \<Rightarrow> string_heap \<Rightarrow>
     (tagged_string \<times> tagged_string \<times> string_heap) alloc_result" where
  "string_InternalSwap L harden a rhs lhs h =
     (let (lhs, rhs) = (rhs, lhs) in
      if harden
      then on_return (harden_swapped L a lhs h) (\<lambda>(lhs, h).
           on_return (harden_swapped L a rhs h) (\<lambda>(rhs, h). Ret (rhs, lhs, h)))
      else Ret (rhs, lhs, h))"

subsection \<open>Tags\<close>

definition aligned :: "string_pointer \<Rightarrow> bool" where
  "aligned p \<longleftrightarrow> p \<noteq> 0 \<and> p AND kMask = 0"

lemma tag_bit: "bit kArenaBit i \<longleftrightarrow> i = 0" "bit kMutableBit i \<longleftrightarrow> i = 1" "bit kMask i \<longleftrightarrow> i = 0 \<or> i = 1"
proof -
  show "bit kArenaBit i \<longleftrightarrow> i = 0" by (simp add: kArenaBit_def bit_1_iff)
  have w: "(2 :: 64 word) = push_bit 1 1" "(3 :: 64 word) = mask 2" by (simp_all add: mask_eq_exp_minus_1)
  show "bit kMutableBit i \<longleftrightarrow> i = 1" unfolding kMutableBit_def w(1) by (auto simp: bit_simps)
  show "bit kMask i \<longleftrightarrow> i = 0 \<or> i = 1" unfolding kMask_def w(2) by (auto simp: bit_mask_iff)
qed

lemma tag_parts:
  assumes "p AND kMask = 0"
  shows "tagged_Get (p OR type_bits ty) = p" "(p OR type_bits ty) AND kMask = type_bits ty"
proof -
  have "\<not> bit (p AND kMask) 0" "\<not> bit (p AND kMask) 1" by (simp_all add: assms)
  then have p: "bit p i \<Longrightarrow> 0 < i \<and> i \<noteq> Suc 0" for i unfolding bit_and_iff tag_bit by (metis One_nat_def gr0I)
  show "tagged_Get (p OR type_bits ty) = p"
    by (cases ty; rule bit_word_eqI; auto simp: tagged_Get_def bit_and_iff
        bit_or_iff bit_not_iff tag_bit dest: p)
  show "(p OR type_bits ty) AND kMask = type_bits ty"
    by (cases ty; rule bit_word_eqI; auto simp: bit_and_iff bit_or_iff tag_bit dest: p)
qed

lemma tag_kinds:
  assumes "p AND kMask = 0"
  shows "IsDefault (p OR type_bits ty) \<longleftrightarrow> ty = kDefault"
    "IsMutable (p OR type_bits ty) \<longleftrightarrow> ty = kAllocated \<or> ty = kMutableArena"
    "IsArena (p OR type_bits ty) \<longleftrightarrow> ty = kMutableArena \<or> ty = kFixedSizeArena"
    "IsFixedSizeArena (p OR type_bits ty) \<longleftrightarrow> ty = kFixedSizeArena"
proof -
  let ?t = "p OR type_bits ty"
  have m: "?t AND kMutableBit = (?t AND kMask) AND kMutableBit" "?t AND kArenaBit = (?t AND kMask) AND kArenaBit"
    by (rule bit_word_eqI; auto simp: bit_and_iff tag_bit)+
  note tag_parts(2) [OF assms, of ty]
  then show "IsDefault ?t \<longleftrightarrow> ty = kDefault" "IsMutable ?t \<longleftrightarrow> ty = kAllocated \<or> ty = kMutableArena"
    "IsArena ?t \<longleftrightarrow> ty = kMutableArena \<or> ty = kFixedSizeArena" "IsFixedSizeArena ?t \<longleftrightarrow> ty = kFixedSizeArena"
    unfolding IsDefault_def IsMutable_def IsArena_def IsFixedSizeArena_def m
    by (cases ty; simp add: kArenaBit_def kMutableBit_def)+
qed

lemma aligned_tags:
  assumes "aligned p"
  shows "tagged_Get p = p" "IsDefault p" "SetAllocated p = Some (p OR type_bits kAllocated)"
    "SetMutableArena p = Some (p OR type_bits kMutableArena)" "SetDefault p = Some p"
  using assms tag_parts(1) [of p kDefault] tag_kinds(1) [of p kDefault]
  by (simp_all add: aligned_def SetAllocated_def SetMutableArena_def SetDefault_def TagAs_def)

subsection \<open>What the fields of a message own\<close>

text \<open>
  The type of a field: the shared empty string, tagged as a default; or an object of its own, tagged by whether the
  message is on an arena. \<open>h0\<close> is the store without the message: the fields own different objects that are not in
  it, and without an arena nothing else has changed.
\<close>

definition field_holds :: "string_pointer \<Rightarrow> nat option \<Rightarrow> string_heap \<Rightarrow> tagged_string \<Rightarrow> string \<Rightarrow> bool" where
  "field_holds e a h t v \<longleftrightarrow>
     (if IsDefault t then t = e \<and> v = []
      else IsMutable t \<and> (IsArena t \<longleftrightarrow> a \<noteq> None) \<and> tagged_Get t \<noteq> 0 \<and> h (tagged_Get t) = Some (v, a))"

definition owns_string :: "tagged_string list \<Rightarrow> string_pointer \<Rightarrow> bool" where
  "owns_string ts p \<longleftrightarrow> (\<exists>i < length ts. \<not> IsDefault (ts ! i) \<and> tagged_Get (ts ! i) = p)"

definition message_strings ::
  "string_pointer \<Rightarrow> nat option \<Rightarrow> string_heap \<Rightarrow> string_heap \<Rightarrow> tagged_string list \<Rightarrow> string list \<Rightarrow> bool" where
  "message_strings e a h0 h ts vs \<longleftrightarrow>
     length ts = length vs \<and> (\<forall>i < length ts. field_holds e a h (ts ! i) (vs ! i)) \<and>
     (\<forall>i < length ts. \<forall>j < length ts. i \<noteq> j \<and> \<not> IsDefault (ts ! i) \<and> \<not> IsDefault (ts ! j) \<longrightarrow>
        tagged_Get (ts ! i) \<noteq> tagged_Get (ts ! j)) \<and>
     h0 e = Some ([], None) \<and> (\<forall>p. h0 p \<noteq> None \<longrightarrow> h p = h0 p \<and> \<not> owns_string ts p) \<and>
     (a = None \<longrightarrow> (\<forall>p. \<not> owns_string ts p \<longrightarrow> h p = h0 p))"

text \<open>A field is exchanged for another: no other object is touched, a new one was free, an old one is gone.\<close>

definition replaces :: "nat option \<Rightarrow> string_heap \<Rightarrow> tagged_string \<Rightarrow> string_heap \<Rightarrow> tagged_string \<Rightarrow> bool" where
  "replaces a h t h' t' \<longleftrightarrow>
     (\<forall>p. (IsDefault t \<or> p \<noteq> tagged_Get t) \<and> (IsDefault t' \<or> p \<noteq> tagged_Get t') \<and> (h p \<noteq> None \<or> a = None) \<longrightarrow> h' p = h p) \<and>
     (\<not> IsDefault t' \<longrightarrow> (\<not> IsDefault t \<and> tagged_Get t' = tagged_Get t) \<or> h (tagged_Get t') = None) \<and>
     (a = None \<and> \<not> IsDefault t \<and> (IsDefault t' \<or> tagged_Get t' \<noteq> tagged_Get t) \<longrightarrow> h' (tagged_Get t) = None)"

lemma owns_string_set: "owns_string ts p \<longleftrightarrow> (\<exists>t \<in> set ts. \<not> IsDefault t \<and> tagged_Get t = p)"
  unfolding owns_string_def by (metis in_set_conv_nth)

lemma owns_string_update:
  "i < length ts \<Longrightarrow> owns_string (ts[i := t']) p \<longleftrightarrow>
     (\<not> IsDefault t' \<and> tagged_Get t' = p) \<or> (\<exists>j < length ts. j \<noteq> i \<and> \<not> IsDefault (ts ! j) \<and> tagged_Get (ts ! j) = p)"
  unfolding owns_string_def by (auto simp: nth_list_update)

lemma replaces_simps:
  assumes "replaces a h t h' t'"
  shows "IsDefault t \<or> p \<noteq> tagged_Get t \<Longrightarrow> IsDefault t' \<or> p \<noteq> tagged_Get t' \<Longrightarrow> h p \<noteq> None \<or> a = None \<Longrightarrow> h' p = h p"
    "\<not> IsDefault t' \<Longrightarrow> (\<not> IsDefault t \<and> tagged_Get t' = tagged_Get t) \<or> h (tagged_Get t') = None"
    "a = None \<Longrightarrow> \<not> IsDefault t \<Longrightarrow> IsDefault t' \<or> tagged_Get t' \<noteq> tagged_Get t \<Longrightarrow> h' (tagged_Get t) = None"
  using assms unfolding replaces_def by simp_all

text \<open>The other fields do not notice.\<close>

lemma replaces_others:
  assumes m: "message_strings e a h0 h ts vs" and i: "i < length ts" and r: "replaces a h (ts ! i) h' t'"
    and j: "j < length ts" "j \<noteq> i" "\<not> IsDefault (ts ! j)"
  shows "h' (tagged_Get (ts ! j)) = h (tagged_Get (ts ! j))" "IsDefault t' \<or> tagged_Get (ts ! j) \<noteq> tagged_Get t'"
proof -
  have o: "h (tagged_Get (ts ! j)) \<noteq> None" "IsDefault (ts ! i) \<or> tagged_Get (ts ! j) \<noteq> tagged_Get (ts ! i)"
    using m i j unfolding message_strings_def field_holds_def by (metis option.distinct(1))+
  then show n: "IsDefault t' \<or> tagged_Get (ts ! j) \<noteq> tagged_Get t'" using replaces_simps(2) [OF r] by auto
  show "h' (tagged_Get (ts ! j)) = h (tagged_Get (ts ! j))" by (rule replaces_simps(1) [OF r]) (use o n in simp_all)
qed

text \<open>Nor does the rest of the store.\<close>

lemma replaces_outside:
  assumes m: "message_strings e a h0 h ts vs" and i: "i < length ts" and r: "replaces a h (ts ! i) h' t'"
  shows "h0 p \<noteq> None \<Longrightarrow> h' p = h0 p \<and> \<not> owns_string (ts[i := t']) p"
    "a = None \<Longrightarrow> \<not> owns_string (ts[i := t']) p \<Longrightarrow> h' p = h0 p"
proof -
  have old: "h0 p \<noteq> None \<Longrightarrow> h p = h0 p \<and> \<not> owns_string ts p"
    and rest: "a = None \<Longrightarrow> \<not> owns_string ts p \<Longrightarrow> h p = h0 p"
    using m unfolding message_strings_def by simp_all
  have own: "\<not> IsDefault (ts ! i) \<Longrightarrow> p = tagged_Get (ts ! i) \<Longrightarrow> owns_string ts p" using i by (auto simp: owns_string_def)
  show "h' p = h0 p \<and> \<not> owns_string (ts[i := t']) p" if "h0 p \<noteq> None"
  proof -
    have p: "h p = h0 p" "\<not> owns_string ts p" using old [OF that] by simp_all
    then have t: "IsDefault (ts ! i) \<or> p \<noteq> tagged_Get (ts ! i)" using own by blast
    then have "IsDefault t' \<or> p \<noteq> tagged_Get t'" using replaces_simps(2) [OF r] p that by auto
    then show ?thesis
      using replaces_simps(1) [OF r, of p] t p that unfolding owns_string_update [OF i] by (auto simp: owns_string_def)
  qed
  show "h' p = h0 p" if n: "a = None" "\<not> owns_string (ts[i := t']) p"
  proof (cases "\<not> IsDefault (ts ! i) \<and> p = tagged_Get (ts ! i)")
    case True
    then have "h0 p = None" using own old by blast
    moreover have "h' p = None" using replaces_simps(3) [OF r] True n unfolding owns_string_update [OF i] by blast
    ultimately show ?thesis by simp
  next
    case False
    then have "\<not> owns_string ts p" using n(2) unfolding owns_string_update [OF i] by (auto simp: owns_string_def)
    then show ?thesis using replaces_simps(1) [OF r, of p] rest n False unfolding owns_string_update [OF i] by auto
  qed
qed

lemma message_strings_step:
  assumes m: "message_strings e a h0 h ts vs" and i: "i < length ts"
    and f: "field_holds e a h' t' v" and r: "replaces a h (ts ! i) h' t'"
  shows "message_strings e a h0 h' (ts[i := t']) (vs[i := v])"
proof -
  have len: "length ts = length vs" "h0 e = Some ([], None)" and holds: "\<And>j. j < length ts \<Longrightarrow> field_holds e a h (ts ! j) (vs ! j)"
    and dist: "\<And>j k. j < length ts \<Longrightarrow> k < length ts \<Longrightarrow> j \<noteq> k \<Longrightarrow> \<not> IsDefault (ts ! j) \<Longrightarrow> \<not> IsDefault (ts ! k) \<Longrightarrow>
      tagged_Get (ts ! j) \<noteq> tagged_Get (ts ! k)"
    using m unfolding message_strings_def by blast+
  have "field_holds e a h' (ts[i := t'] ! j) (vs[i := v] ! j)" if "j < length ts" for j
  proof (cases "j = i \<or> IsDefault (ts ! j)")
    case True
    then show ?thesis using f holds [OF that] len i that by (cases "j = i") (simp_all add: field_holds_def)
  next
    case False
    then show ?thesis using holds [OF that] replaces_others(1) [OF m i r that] by (simp add: field_holds_def)
  qed
  moreover have "tagged_Get (ts[i := t'] ! j) \<noteq> tagged_Get (ts[i := t'] ! k)"
    if "j < length ts" "k < length ts" "j \<noteq> k" "\<not> IsDefault (ts[i := t'] ! j)" "\<not> IsDefault (ts[i := t'] ! k)" for j k
    using that dist [of j k] replaces_others(2) [OF m i r, of j] replaces_others(2) [OF m i r, of k]
    by (cases "j = i"; cases "k = i") auto
  ultimately show ?thesis using len replaces_outside [OF m i r] by (simp add: message_strings_def)
qed

text \<open>A new field, which is the shared empty string, and an exchange of two fields.\<close>

lemma message_strings_append:
  assumes "message_strings e a h0 h ts vs" "IsDefault e"
  shows "message_strings e a h0 h (ts @ [e]) (vs @ [[]])"
  using assms by (auto simp: message_strings_def owns_string_def field_holds_def nth_append less_Suc_eq)

lemma message_strings_swap:
  assumes "message_strings e a h0 h ts vs" "i < length ts" "j < length ts"
  shows "message_strings e a h0 h (ts[i := ts ! j, j := ts ! i]) (vs[i := vs ! j, j := vs ! i])"
proof -
  have "owns_string (ts[i := ts ! j, j := ts ! i]) p \<longleftrightarrow> owns_string ts p" for p
    using mset_eq_setD [OF mset_swap [OF assms(3,2)]] by (simp add: owns_string_set)
  then show ?thesis using assms by (simp add: message_strings_def nth_list_update)
qed

text \<open>A field whose object is deleted, at the end of its message.\<close>

lemma message_strings_tail:
  assumes m: "message_strings e a h0 h (t # ts) (v # vs)" and a: "a = None"
  shows "message_strings e a h0 (if \<not> IsDefault t then h(tagged_Get t := None) else h) ts vs"
proof -
  let ?h = "if \<not> IsDefault t then h(tagged_Get t := None) else h"
  have len: "length ts = length vs" "h0 e = Some ([], None)"
    and F: "\<And>i. i < length (t # ts) \<Longrightarrow> field_holds e a h ((t # ts) ! i) ((v # vs) ! i)"
    and D: "\<And>i j. i < length (t # ts) \<Longrightarrow> j < length (t # ts) \<Longrightarrow> i \<noteq> j \<Longrightarrow> \<not> IsDefault ((t # ts) ! i) \<Longrightarrow>
      \<not> IsDefault ((t # ts) ! j) \<Longrightarrow> tagged_Get ((t # ts) ! i) \<noteq> tagged_Get ((t # ts) ! j)"
    and old: "\<And>p. h0 p \<noteq> None \<Longrightarrow> h p = h0 p \<and> \<not> owns_string (t # ts) p"
    and rest: "\<And>p. \<not> owns_string (t # ts) p \<Longrightarrow> h p = h0 p"
    using m a unfolding message_strings_def by (simp_all del: nth_Cons_Suc)
  have f: "field_holds e a h (ts ! i) (vs ! i)" if "i < length ts" for i using F [of "Suc i"] that by simp
  have d: "tagged_Get (ts ! i) \<noteq> tagged_Get t" if "i < length ts" "\<not> IsDefault t" "\<not> IsDefault (ts ! i)" for i
    using D [of "Suc i" 0] that by simp
  have dd: "tagged_Get (ts ! i) \<noteq> tagged_Get (ts ! j)"
    if "i < length ts" "j < length ts" "i \<noteq> j" "\<not> IsDefault (ts ! i)" "\<not> IsDefault (ts ! j)" for i j
    using D [of "Suc i" "Suc j"] that by simp
  have o: "owns_string (t # ts) p \<longleftrightarrow> (\<not> IsDefault t \<and> tagged_Get t = p) \<or> owns_string ts p" for p
    by (auto simp: owns_string_set)
  have "field_holds e a ?h (ts ! i) (vs ! i)" if "i < length ts" for i
    using f [OF that] d [OF that] by (auto simp: field_holds_def)
  moreover have "?h p = h0 p \<and> \<not> owns_string ts p" if "h0 p \<noteq> None" for p
    using old [OF that] o by auto
  moreover have "?h p = h0 p" if "\<not> owns_string ts p" for p
  proof (cases "\<not> IsDefault t \<and> tagged_Get t = p")
    case True
    then have "h0 p = None" using old o by blast
    then show ?thesis using True by simp
  next
    case False
    then show ?thesis using rest [of p] o that by auto
  qed
  ultimately show ?thesis using len dd by (simp add: message_strings_def)
qed

subsection \<open>Calls on the string fields of messages\<close>

text \<open>
  Fields are constructed, copied from another field, set, cleared, assigned through \<open>Mutable\<close>, and swapped; the
  fields may belong to several messages on one arena, or on none. A destructor destroys each.
\<close>

datatype string_call =
    ConstructField | CopyField nat | SetField nat string | ClearField nat | ClearNonDefault nat
  | AssignField nat string | SwapFields nat nat

fun perform_string ::
  "string_library \<Rightarrow> bool \<Rightarrow> string_pointer \<Rightarrow> nat option \<Rightarrow> string_call \<Rightarrow> tagged_string list \<Rightarrow> string_heap \<Rightarrow>
     (tagged_string list \<times> string_heap) alloc_result" where
  "perform_string L harden e a ConstructField ts h =
     on_return (new_string_field L harden e a h) (\<lambda>(t, h). Ret (ts @ [t], h))"
| "perform_string L harden e a (CopyField i) ts h =
     on_return (copy_string_field L harden a (ts ! i) h) (\<lambda>(t, h). Ret (ts @ [t], h))"
| "perform_string L harden e a (SetField i v) ts h =
     on_return (SetBytes L v a (ts ! i) h) (\<lambda>(t, h). Ret (ts[i := t], h))"
| "perform_string L harden e a (ClearField i) ts h =
     on_return (lib_ClearToEmpty L (ts ! i) h) (\<lambda>(t, h). Ret (ts[i := t], h))"
| "perform_string L harden e a (ClearNonDefault i) ts h =
     on_return (defined (ClearNonDefaultToEmpty (ts ! i) h)) (\<lambda>h. Ret (ts, h))"
| "perform_string L harden e a (AssignField i v) ts h =
     on_return (lib_Mutable L a (ts ! i) h) (\<lambda>(p, t, h).
     on_return (defined (UnsafeMutablePointer t)) (\<lambda>q.
     on_return (defined (h q)) (\<lambda>(_, b). Ret (ts[i := t], h(q \<mapsto> (v, b))))))"
| "perform_string L harden e a (SwapFields i j) ts h =
     on_return (string_InternalSwap L harden a (ts ! i) (ts ! j) h) (\<lambda>(s, t, h). Ret (ts[i := s, j := t], h))"

fun perform_strings ::
  "string_library \<Rightarrow> bool \<Rightarrow> string_pointer \<Rightarrow> nat option \<Rightarrow> string_call list \<Rightarrow> tagged_string list \<Rightarrow> string_heap \<Rightarrow>
     (tagged_string list \<times> string_heap) alloc_result" where
  "perform_strings L harden e a [] ts h = Ret (ts, h)"
| "perform_strings L harden e a (c # cs) ts h =
     on_return (perform_string L harden e a c ts h) (\<lambda>(ts, h). perform_strings L harden e a cs ts h)"

fun destroy_strings :: "string_library \<Rightarrow> tagged_string list \<Rightarrow> string_heap \<Rightarrow> string_heap option" where
  "destroy_strings L [] h = Some h"
| "destroy_strings L (t # ts) h = do { h \<leftarrow> lib_Destroy L t h; destroy_strings L ts h }"

text \<open>What a call does to the values of the fields.\<close>

fun string_effect :: "string_call \<Rightarrow> string list \<Rightarrow> string list" where
  "string_effect ConstructField vs = vs @ [[]]"
| "string_effect (CopyField i) vs = vs @ [vs ! i]"
| "string_effect (SetField i v) vs = vs[i := v]"
| "string_effect (ClearField i) vs = vs[i := []]"
| "string_effect (ClearNonDefault i) vs = vs[i := []]"
| "string_effect (AssignField i v) vs = vs[i := v]"
| "string_effect (SwapFields i j) vs = vs[i := vs ! j, j := vs ! i]"

text \<open>A call names fields that are there.\<close>

fun names_fields :: "string_call \<Rightarrow> nat \<Rightarrow> bool" where
  "names_fields ConstructField n \<longleftrightarrow> True"
| "names_fields (CopyField i) n \<longleftrightarrow> i < n"
| "names_fields (SetField i v) n \<longleftrightarrow> i < n"
| "names_fields (ClearField i) n \<longleftrightarrow> i < n"
| "names_fields (ClearNonDefault i) n \<longleftrightarrow> i < n"
| "names_fields (AssignField i v) n \<longleftrightarrow> i < n"
| "names_fields (SwapFields i j) n \<longleftrightarrow> i < n \<and> j < n \<and> i \<noteq> j"

fun calls_name_fields :: "string_call list \<Rightarrow> string list \<Rightarrow> bool" where
  "calls_name_fields [] vs \<longleftrightarrow> True"
| "calls_name_fields (c # cs) vs \<longleftrightarrow> names_fields c (length vs) \<and> calls_name_fields cs (string_effect c vs)"

text \<open>
  What is documented of the compiled routines, on a field that is well typed. None of them does anything undefined
  there; when an allocation does not fail, setting replaces the value, clearing may keep the object, \<open>Mutable\<close>
  makes a field mutable and keeps its value, a copy is a new object, and only a heap object is destroyed.
\<close>

locale string_fields =
  fixes L :: string_library and e :: string_pointer
  assumes default_aligned: "aligned e"
    and new: "operator_new L h = Some p \<Longrightarrow> aligned p \<and> h p = None"
    and set: "field_holds e a h t w \<Longrightarrow>
      unless_thrown (\<lambda>(t', h'). field_holds e a h' t' v \<and> replaces a h t h' t') (lib_Set L v a t h)"
    and clear: "field_holds e a h t w \<Longrightarrow>
      unless_thrown (\<lambda>(t', h'). field_holds e a h' t' [] \<and> replaces a h t h' t') (lib_ClearToEmpty L t h)"
    and mutable: "field_holds e a h t w \<Longrightarrow>
      unless_thrown (\<lambda>(p, t', h'). field_holds e a h' t' w \<and> replaces a h t h' t' \<and> \<not> IsDefault t' \<and> p = tagged_Get t')
        (lib_Mutable L a t h)"
    and copy: "field_holds e b h t w \<Longrightarrow>
      unless_thrown (\<lambda>(t', h'). field_holds e a h' t' w \<and> replaces a h e h' t') (lib_ForceCopy L a t h)"
    and destroy: "field_holds e a h t w \<Longrightarrow>
      lib_Destroy L t h = Some (if a = None \<and> \<not> IsDefault t then h(tagged_Get t := None) else h)"
begin

lemma default_tag: "IsDefault e" "tagged_Get e = e" "e \<noteq> 0" "field_holds e a h e []"
  using aligned_tags [OF default_aligned] default_aligned by (simp_all add: aligned_def field_holds_def)

text \<open>A field that is added.\<close>

lemma added_field:
  assumes m: "message_strings e a h0 h ts vs" and f: "field_holds e a h' t' v" and r: "replaces a h e h' t'"
  shows "message_strings e a h0 h' (ts @ [t']) (vs @ [v])"
proof -
  have l: "length vs = length ts" using m by (simp add: message_strings_def)
  have u: "(vs @ [[]])[length ts := v] = vs @ [v]" "(ts @ [e])[length ts := t'] = ts @ [t']"
    unfolding l [symmetric] by (rule list_update_length) (simp add: l)
  show ?thesis
    using message_strings_step [OF message_strings_append [OF m default_tag(1)], of "length ts" h' t' v] f r unfolding u by simp
qed

lemma replaces_same: "replaces a h t h t"
  by (simp add: replaces_def)

text \<open>A write to an object of the message's own.\<close>

lemma written_field:
  assumes m: "message_strings e a h0 h ts vs" and i: "i < length ts" "\<not> IsDefault (ts ! i)"
  shows "message_strings e a h0 (h(tagged_Get (ts ! i) \<mapsto> (v, a))) ts (vs[i := v])"
proof -
  have "field_holds e a h (ts ! i) (vs ! i)" using m i by (simp add: message_strings_def)
  then have "field_holds e a (h(tagged_Get (ts ! i) \<mapsto> (v, a))) (ts ! i) v" using i by (simp add: field_holds_def)
  moreover have "replaces a h (ts ! i) (h(tagged_Get (ts ! i) \<mapsto> (v, a))) (ts ! i)" using i by (simp add: replaces_def)
  ultimately show ?thesis using message_strings_step [OF m i(1)] by fastforce
qed

lemma harden_swapped_keeps:
  assumes f: "field_holds e a h t v"
  shows "unless_thrown (\<lambda>(t', h'). field_holds e a h' t' v \<and> replaces a h t h' t') (harden_swapped L a t h)"
proof (cases "IsDefault t \<or> operator_new L h = None")
  case True
  then show ?thesis using f replaces_same by (auto simp: harden_swapped_def field_holds_def Let_def)
next
  case False
  let ?o = "tagged_Get t"
  obtain p where n: "operator_new L h = Some p" using False by blast
  have o: "h ?o = Some (v, a)" using f False by (simp add: field_holds_def)
  have p: "p AND kMask = 0" "p \<noteq> 0" "h p = None" "aligned p" using new [OF n] by (simp_all add: aligned_def)
  then have "p \<noteq> ?o" using o by auto
  then have r: "harden_swapped L a t h = Ret (if a = None then (p OR type_bits kAllocated, h(p \<mapsto> (v, a), ?o := None))
      else (p OR type_bits kMutableArena, h(?o \<mapsto> (moved_from L v, a), p \<mapsto> (v, a))))"
    using n o False aligned_tags(3,4) [OF p(4)] by (cases a) (simp_all add: harden_swapped_def Let_def fun_upd_twist)
  show ?thesis
    unfolding r using False p \<open>p \<noteq> ?o\<close> tag_kinds [OF p(1)] tag_parts(1) [OF p(1)]
    by (auto simp: field_holds_def replaces_def simp del: type_bits.simps)
qed

lemma field_at: "message_strings e a h0 h ts vs \<Longrightarrow> i < length ts \<Longrightarrow> field_holds e a h (ts ! i) (vs ! i)"
  by (simp add: message_strings_def)

lemma field_object: "field_holds e a h t v \<Longrightarrow> h e = Some ([], None) \<Longrightarrow> h (tagged_Get t) = Some (v, if IsDefault t then None else a)"
  using default_tag(2) by (auto simp: field_holds_def split: if_splits)

lemma default_stays: "message_strings e a h0 h ts vs \<Longrightarrow> h e = Some ([], None)"
  unfolding message_strings_def by (metis option.distinct(1))

lemma fields_read:
  assumes "message_strings e a h0 h ts vs"
  shows "map (\<lambda>t. field_Get_string t h) ts = map Some vs"
proof (rule nth_equalityI)
  fix i assume "i < length (map (\<lambda>t. field_Get_string t h) ts)"
  then show "map (\<lambda>t. field_Get_string t h) ts ! i = map Some vs ! i"
    using field_object [OF field_at [OF assms] default_stays [OF assms], of i] assms
    by (simp add: field_Get_string_def message_strings_def)
qed (use assms in \<open>simp add: message_strings_def\<close>)

lemma constructed:
  assumes m: "message_strings e a h0 h ts vs"
  shows "unless_thrown (\<lambda>(t, h'). message_strings e a h0 h' (ts @ [t]) (vs @ [[]])) (new_string_field L harden e a h)"
proof (cases harden)
  case True
  then show ?thesis
    using set [OF default_tag(4), where v = "[]"] added_field [OF m] by (auto simp: new_string_field_def unless_thrown_def)
next
  case False
  then show ?thesis using message_strings_append [OF m default_tag(1)] by (simp add: new_string_field_def)
qed

lemma copied:
  assumes m: "message_strings e a h0 h ts vs" and i: "i < length ts"
  shows "unless_thrown (\<lambda>(t, h'). message_strings e a h0 h' (ts @ [t]) (vs @ [vs ! i])) (copy_string_field L harden a (ts ! i) h)"
proof -
  note f = field_at [OF m i]
  have "\<not> IsNull (ts ! i)"
  proof
    assume "IsNull (ts ! i)"
    then have "ts ! i = 0" "IsDefault (ts ! i)" by (simp_all add: IsNull_def IsDefault_def)
    then show False using f default_tag(3) by (simp add: field_holds_def)
  qed
  then consider "copy_string_field L harden a (ts ! i) h = lib_ForceCopy L a (ts ! i) h"
    | "IsDefault (ts ! i)" "copy_string_field L harden a (ts ! i) h = Ret (ts ! i, h)"
    unfolding copy_string_field_def tagged_Copy_def by (cases harden; cases "IsDefault (ts ! i)") simp_all
  then show ?thesis
  proof cases
    case 1
    then show ?thesis using copy [OF f, where a = a] added_field [OF m] by (auto simp: unless_thrown_def)
  next
    case 2
    then have "ts ! i = e" "vs ! i = []" using f by (simp_all add: field_holds_def)
    then show ?thesis using 2 message_strings_append [OF m default_tag(1)] by simp
  qed
qed

lemma cleared:
  assumes m: "message_strings e a h0 h ts vs" and i: "i < length ts"
  shows "\<exists>h'. ClearNonDefaultToEmpty (ts ! i) h = Some h' \<and> message_strings e a h0 h' ts (vs[i := []])"
proof (cases "IsDefault (ts ! i)")
  case True
  then have "ts ! i = e" "vs ! i = []" using field_at [OF m i] by (simp_all add: field_holds_def)
  moreover have "vs[i := vs ! i] = vs" by simp
  moreover have "ClearNonDefaultToEmpty e h = Some h"
    using default_stays [OF m] default_tag(2) by (auto simp: ClearNonDefaultToEmpty_def)
  ultimately show ?thesis using m by simp
next
  case False
  then show ?thesis
    using field_object [OF field_at [OF m i] default_stays [OF m]] written_field [OF m i False, of "[]"]
    by (simp add: ClearNonDefaultToEmpty_def)
qed

lemma assigned:
  assumes m: "message_strings e a h0 h ts vs" and i: "i < length ts"
  shows "unless_thrown (\<lambda>(ts', h'). message_strings e a h0 h' ts' (vs[i := v])) (perform_string L harden e a (AssignField i v) ts h)"
proof -
  have "unless_thrown (\<lambda>(ts', h'). message_strings e a h0 h' ts' (vs[i := v]))
      (on_return (defined (UnsafeMutablePointer t)) (\<lambda>q. on_return (defined (h1 q)) (\<lambda>(_, b). Ret (ts[i := t], h1(q \<mapsto> (v, b))))))"
    if t: "field_holds e a h1 t (vs ! i)" "replaces a h (ts ! i) h1 t" "\<not> IsDefault t" for t h1
  proof -
    have q: "UnsafeMutablePointer t = Some (tagged_Get t)" "h1 (tagged_Get t) = Some (vs ! i, a)"
      using t(1,3) by (simp_all add: UnsafeMutablePointer_def field_holds_def)
    have "message_strings e a h0 h1 (ts[i := t]) (vs[i := vs ! i])" by (rule message_strings_step [OF m i t(1,2)])
    from written_field [OF this, of i v] show ?thesis using i t(3) q by simp
  qed
  then show ?thesis
    unfolding perform_string.simps by (intro unless_thrown_on_return [OF mutable [OF field_at [OF m i]]]) (auto split: prod.splits)
qed

lemma swapped:
  assumes m: "message_strings e a h0 h ts vs" and i: "i < length ts" "j < length ts" "i \<noteq> j"
  shows "unless_thrown (\<lambda>(s, t, h'). message_strings e a h0 h' (ts[i := s, j := t]) (vs[i := vs ! j, j := vs ! i]))
    (string_InternalSwap L harden a (ts ! i) (ts ! j) h)"
proof -
  let ?ts = "ts[i := ts ! j, j := ts ! i]" and ?vs = "vs[i := vs ! j, j := vs ! i]"
  have w: "message_strings e a h0 h ?ts ?vs" by (rule message_strings_swap [OF m i(1,2)])
  have v: "vs ! i = ?vs ! j" "length vs = length ts" using m i by (simp_all add: message_strings_def)
  have second: "unless_thrown (\<lambda>(s, t, h'). message_strings e a h0 h' (ts[i := s, j := t]) ?vs)
      (on_return (harden_swapped L a (ts ! j) h1) (\<lambda>(s, h). Ret (s, t, h)))"
    if k1: "field_holds e a h1 t (vs ! i)" "replaces a h (ts ! i) h1 t" for t h1
  proof -
    have w1: "message_strings e a h0 h1 (?ts[j := t]) (?vs[j := vs ! i])"
      using message_strings_step [OF w, of j h1 t "vs ! i"] k1 i by simp
    have f: "field_holds e a h1 (ts ! j) (vs ! j)" using field_at [OF w1, of i] i v(2) by simp
    have "message_strings e a h0 h' (ts[i := s, j := t]) ?vs" if "field_holds e a h' s (vs ! j)" "replaces a h1 (ts ! j) h' s" for s h'
      using message_strings_step [OF w1, of i h' s "vs ! j"] that i by (simp add: list_update_swap [of i j])
    then show ?thesis by (intro unless_thrown_on_return [OF harden_swapped_keeps [OF f]]) (auto split: prod.splits)
  qed
  show ?thesis
  proof (cases harden)
    case True
    then show ?thesis
      using second unfolding string_InternalSwap_def Let_def prod.case if_P [OF True]
      by (intro unless_thrown_on_return [OF harden_swapped_keeps [OF field_at [OF m i(1)]]]) (auto split: prod.splits)
  qed (use w in \<open>simp add: string_InternalSwap_def\<close>)
qed

text \<open>So the fields stay well typed and hold what the calls say.\<close>

lemma unless_thrown_pair:
  "unless_thrown (\<lambda>(t, h'). R t h') r \<Longrightarrow> (\<And>t h'. R t h' \<Longrightarrow> P (g t, h')) \<Longrightarrow> unless_thrown P (on_return r (\<lambda>(t, h). Ret (g t, h)))"
  by (cases r) auto

lemma perform_string_keeps:
  assumes m: "message_strings e a h0 h ts vs" and c: "names_fields c (length ts)"
  shows "unless_thrown (\<lambda>(ts', h'). message_strings e a h0 h' ts' (string_effect c vs)) (perform_string L harden e a c ts h)"
proof (cases c)
  case ConstructField
  then show ?thesis by (auto intro: unless_thrown_pair [OF constructed [OF m]])
next
  case (CopyField i)
  then show ?thesis using c by (auto intro: unless_thrown_pair [OF copied [OF m]])
next
  case (SetField i v)
  then show ?thesis
    using c message_strings_step [OF m] by (auto simp: SetBytes_def intro!: unless_thrown_pair [OF set [OF field_at [OF m]]])
next
  case (ClearField i)
  then show ?thesis
    using c message_strings_step [OF m] by (auto intro!: unless_thrown_pair [OF clear [OF field_at [OF m]]])
next
  case (ClearNonDefault i)
  then show ?thesis using cleared [OF m, of i] c by auto
next
  case (AssignField i v)
  then show ?thesis using assigned [OF m] c by simp
next
  case (SwapFields i j)
  then have "unless_thrown (\<lambda>(s, t, h'). message_strings e a h0 h' (ts[i := s, j := t]) (string_effect c vs))
      (string_InternalSwap L harden a (ts ! i) (ts ! j) h)" using swapped [OF m] c by simp
  then show ?thesis unfolding SwapFields perform_string.simps by (rule unless_thrown_on_return) auto
qed

lemma perform_strings_keep:
  "message_strings e a h0 h ts vs \<Longrightarrow> calls_name_fields cs vs \<Longrightarrow>
     unless_thrown (\<lambda>(ts', h'). message_strings e a h0 h' ts' (fold string_effect cs vs)) (perform_strings L harden e a cs ts h)"
proof (induction cs arbitrary: ts h vs)
  case (Cons c cs)
  have "length ts = length vs" using Cons.prems(1) by (simp add: message_strings_def)
  then have "unless_thrown (\<lambda>(ts', h'). message_strings e a h0 h' ts' (string_effect c vs)) (perform_string L harden e a c ts h)"
    using perform_string_keeps [OF Cons.prems(1)] Cons.prems(2) by simp
  then show ?case unfolding perform_strings.simps
    by (rule unless_thrown_on_return) (use Cons.IH Cons.prems(2) in auto)
qed simp

lemma destroyed:
  "message_strings e None h0 h ts vs \<Longrightarrow> destroy_strings L ts h = Some h0"
proof (induction ts arbitrary: h vs)
  case Nil
  then have "h p = h0 p" for p by (simp add: message_strings_def owns_string_def)
  then show ?case by auto
next
  case (Cons t ts)
  obtain v us where v: "vs = v # us" using Cons.prems by (cases vs) (auto simp: message_strings_def)
  let ?h = "if \<not> IsDefault t then h(tagged_Get t := None) else h"
  have "lib_Destroy L t h = Some ?h"
    using destroy [OF field_at [OF Cons.prems, of 0]] by simp
  moreover have "message_strings e None h0 ?h ts us"
    using message_strings_tail [OF Cons.prems [unfolded v]] by simp
  ultimately show ?case using Cons.IH by simp
qed

end

subsection \<open>A store of a thousand places\<close>

text \<open>The plainest library: a set string is written in place if it can be, a new one takes the first free place.\<close>

definition first_free :: "string_heap \<Rightarrow> string_pointer option" where
  "first_free h = find (\<lambda>p. h p = None) (map (\<lambda>k. 8 * of_nat k) [2..<1000])"

definition fresh_string :: "nat option \<Rightarrow> string \<Rightarrow> string_heap \<Rightarrow> (tagged_string \<times> string_heap) alloc_result" where
  "fresh_string a v h =
     on_return (allocated (first_free h))
       (\<lambda>p. Ret (p OR type_bits (if a = None then kAllocated else kMutableArena), h(p \<mapsto> (v, a))))"

definition plain_strings :: string_library where
  "plain_strings =
     \<lparr>operator_new = first_free,
      lib_Set = \<lambda>v a t h. if IsDefault t then fresh_string a v h else Ret (t, h(tagged_Get t \<mapsto> (v, a))),
      lib_Mutable = \<lambda>a t h. if IsDefault t then on_return (fresh_string a [] h) (\<lambda>(t, h). Ret (tagged_Get t, t, h))
                            else Ret (tagged_Get t, t, h),
      lib_ClearToEmpty = \<lambda>t h. if IsDefault t then Ret (t, h)
                              else on_return (defined (h (tagged_Get t))) (\<lambda>(_, b). Ret (t, h(tagged_Get t \<mapsto> ([], b)))),
      lib_Destroy = \<lambda>t h. map_option (\<lambda>q. case q of None \<Rightarrow> h | Some p \<Rightarrow> h(p := None)) (GetIfAllocated t),
      lib_ForceCopy = \<lambda>a t h. if IsDefault t then fresh_string a [] h
                             else on_return (defined (h (tagged_Get t))) (\<lambda>(v, _). fresh_string a v h),
      moved_from = \<lambda>_. []\<rparr>"

lemma place_aligned: "0 < k \<Longrightarrow> k < 1000 \<Longrightarrow> aligned (8 * of_nat k)"
proof -
  assume k: "0 < k" "k < 1000"
  have w: "8 * of_nat k = (push_bit 3 (of_nat k) :: 64 word)" by (simp add: push_bit_eq_mult)
  have "8 * of_nat k AND kMask = (0 :: 64 word)"
    unfolding w by (rule bit_word_eqI) (auto simp: bit_and_iff tag_bit bit_push_bit_iff)
  moreover have "unat (8 * of_nat k :: 64 word) = 8 * k"
    using k by (simp add: unat_word_ariths unsigned_of_nat take_bit_nat_eq_self)
  ultimately show ?thesis using k by (auto simp: aligned_def)
qed

lemma first_free_aligned: "first_free h = Some p \<Longrightarrow> aligned p \<and> h p = None"
proof -
  assume "first_free h = Some p"
  then obtain i where "i < length (map (\<lambda>k. 8 * of_nat k :: 64 word) [2..<1000])" "p = map (\<lambda>k. 8 * of_nat k) [2..<1000] ! i" "h p = None"
    unfolding first_free_def find_Some_iff by blast
  moreover from this have "p \<in> (\<lambda>k. 8 * of_nat k) ` set [2..<1000]" by (metis nth_mem set_map)
  ultimately show ?thesis using place_aligned unfolding set_upt by auto
qed

lemma fresh_string_holds:
  assumes "fresh_string a v h = Ret (t', h')"
  shows "field_holds e a h' t' v" "\<not> IsDefault t'" "IsDefault t \<Longrightarrow> replaces a h t h' t'"
proof -
  let ?ty = "if a = None then kAllocated else kMutableArena"
  obtain p where p: "aligned p" "h p = None" "t' = p OR type_bits ?ty" "h' = h(p \<mapsto> (v, a))"
    using assms first_free_aligned by (cases "first_free h") (auto simp: fresh_string_def)
  then have m: "p AND kMask = 0" "p \<noteq> 0" by (simp_all add: aligned_def)
  note k = tag_kinds [OF m(1), of ?ty] tag_parts(1) [OF m(1), of ?ty]
  show "field_holds e a h' t' v" "\<not> IsDefault t'" "IsDefault t \<Longrightarrow> replaces a h t h' t'"
    unfolding field_holds_def replaces_def p(3) k p(4) using p(2) m(2) by auto
qed

lemma fresh_string_defined: "fresh_string a v h \<noteq> Undef"
  by (cases "first_free h") (simp_all add: fresh_string_def)

lemma fresh_string_unless: "(\<And>t' h'. fresh_string a v h = Ret (t', h') \<Longrightarrow> P (t', h')) \<Longrightarrow> unless_thrown P (fresh_string a v h)"
  using fresh_string_defined [of a v h] by (auto simp: unless_thrown_def)

lemma no_bits: "w = 0 \<longleftrightarrow> (\<forall>n. \<not> bit w n)" for w :: "64 word"
  by (auto intro!: bit_word_eqI)

lemma GetIfAllocated_owner:
  "IsMutable t \<Longrightarrow> \<not> IsArena t \<Longrightarrow> tagged_Get t \<noteq> 0 \<Longrightarrow> GetIfAllocated t = Some (Some (tagged_Get t))"
  "IsArena t \<or> IsDefault t \<Longrightarrow> GetIfAllocated t = Some None"
proof -
  have b: "IsMutable t \<longleftrightarrow> bit t 1" "IsArena t \<longleftrightarrow> bit t 0" "IsDefault t \<longleftrightarrow> \<not> bit t 0 \<and> \<not> bit t 1"
    unfolding IsMutable_def IsArena_def IsDefault_def type_bits.simps no_bits bit_and_iff tag_bit by blast+
  have m: "(t XOR kMutableBit) AND kMask = 0 \<longleftrightarrow> \<not> bit t 0 \<and> bit t 1"
    unfolding no_bits bit_and_iff bit_xor_iff tag_bit by auto
  show "GetIfAllocated t = Some (Some (tagged_Get t))" if "IsMutable t" "\<not> IsArena t" "tagged_Get t \<noteq> 0"
  proof -
    have "t XOR kMutableBit = tagged_Get t"
      using that(1,2) unfolding b tagged_Get_def
      by (intro bit_word_eqI) (auto simp: bit_and_iff bit_xor_iff bit_not_iff tag_bit intro: gr0I)
    then show ?thesis using that m b by (simp add: GetIfAllocated_def Let_def)
  qed
  show "GetIfAllocated t = Some None" if "IsArena t \<or> IsDefault t"
    using that m b by (auto simp: GetIfAllocated_def Let_def)
qed

lemma in_place_holds:
  assumes "field_holds e a h t w" "\<not> IsDefault t"
  shows "field_holds e a (h(tagged_Get t \<mapsto> (v, a))) t v" "replaces a h t (h(tagged_Get t \<mapsto> (v, a))) t" "replaces a h t h t"
    "h (tagged_Get t) = Some (w, a)"
  using assms by (auto simp: field_holds_def replaces_def)

lemma default_holds:
  "IsDefault t \<Longrightarrow> field_holds e a h t w \<Longrightarrow> t = e \<and> w = [] \<and> field_holds e a h' t []" "replaces a h t h t"
  by (simp_all add: field_holds_def replaces_def)

interpretation plain: string_fields plain_strings 8
proof
  show "aligned 8" using place_aligned [of 1] by simp
  then have d: "IsDefault 8" by (rule aligned_tags)
  show "aligned p \<and> h p = None" if "operator_new plain_strings h = Some p" for h p
    using that first_free_aligned by (simp add: plain_strings_def)
  fix a b :: "nat option" and h h' t t' v w p
  show "unless_thrown (\<lambda>(t', h'). field_holds 8 a h' t' v \<and> replaces a h t h' t') (lib_Set plain_strings v a t h)"
    if "field_holds 8 a h t w"
    using fresh_string_holds [of a v h] in_place_holds [OF that]
    by (cases "IsDefault t") (auto simp: plain_strings_def intro!: fresh_string_unless)
  show "unless_thrown (\<lambda>(t', h'). field_holds 8 a h' t' [] \<and> replaces a h t h' t') (lib_ClearToEmpty plain_strings t h)"
    if "field_holds 8 a h t w"
    using default_holds(1) [OF _ that] default_holds(2) in_place_holds [OF that]
    by (cases "IsDefault t") (auto simp: plain_strings_def)
  show "unless_thrown (\<lambda>(p, t', h'). field_holds 8 a h' t' w \<and> replaces a h t h' t' \<and> \<not> IsDefault t' \<and> p = tagged_Get t')
      (lib_Mutable plain_strings a t h)" if f: "field_holds 8 a h t w"
  proof (cases "IsDefault t")
    case True
    then have "unless_thrown (\<lambda>(t', h'). field_holds 8 a h' t' w \<and> replaces a h t h' t' \<and> \<not> IsDefault t') (fresh_string a [] h)"
      using fresh_string_holds [of a "[]" h] default_holds(1) [OF True f] by (auto intro: fresh_string_unless)
    then have "unless_thrown (\<lambda>(p, t', h'). field_holds 8 a h' t' w \<and> replaces a h t h' t' \<and> \<not> IsDefault t' \<and> p = tagged_Get t')
        (on_return (fresh_string a [] h) (\<lambda>(t, h). Ret (tagged_Get t, t, h)))"
      by (rule unless_thrown_on_return) auto
    then show ?thesis using True by (simp add: plain_strings_def)
  qed (use f in_place_holds(3) in \<open>auto simp: plain_strings_def\<close>)
  show "unless_thrown (\<lambda>(t', h'). field_holds 8 a h' t' w \<and> replaces a h 8 h' t') (lib_ForceCopy plain_strings a t h)"
    if f: "field_holds 8 b h t w"
    using d fresh_string_holds [of a w h] default_holds(1) [OF _ f] in_place_holds(4) [OF f]
    by (cases "IsDefault t") (auto simp: plain_strings_def intro!: fresh_string_unless)
  show "lib_Destroy plain_strings t h = Some (if a = None \<and> \<not> IsDefault t then h(tagged_Get t := None) else h)"
    if "field_holds 8 a h t w"
    using that GetIfAllocated_owner [of t] by (cases "IsDefault t"; cases a) (auto simp: plain_strings_def field_holds_def)
qed

end
