(* ===== verification/Spec2Isabelle.thy ===== *)
theory Spec2Isabelle
  imports WindowExamples Opening VarintShuffle PointerField CodedInput MemoryParse StringField
begin

text \<open>
  A model of \<open>notebook\<close>, a desktop question bank written in C++ (Qt, protobuf). A bank is a
  directory; its groups are subdirectories, each group keeps its questions in one file
  named after its id (\<open>.dat\<close>), and \<open>ids.dat\<close> at the top lists the ids and names of all groups. The files
  are protobuf messages that are loaded and stored as a whole.

  \<^bold>\<open>The parts and the theories that model them\<close>

  \<^item> \<open>Prelude\<close>: results (\<open>Ret\<close> returns, \<open>Throw\<close> is an exception of \<open>std::filesystem\<close>, \<open>Undef\<close> is
    undefined behaviour of C++), lists with keys, C strings.
  \<^item> \<open>FormatString\<close>: \<open>src/src/notebook_utils.cpp\<close>, the formatting of every error message.
  \<^item> \<open>FileSystem\<close>: what the program uses of \<open>std::filesystem\<close> and file streams, over a finite
    list of nodes with sets of read-only and of locked paths. \<open>Environment\<close>: what the outside
    decides: texts of exceptions, the order of directory entries and where reading them fails,
    how far a failed \<open>remove_all\<close> got, whether memory can be had, and the parser.
  \<^item> \<open>WireFormat\<close>, \<open>RepeatedField\<close>, \<open>XnMessages\<close>, \<open>MessageParser\<close>: the generated messages
    (\<open>src/src/xn.pb.cc\<close>, \<open>xn.pb.h\<close>) and what they use of the headers under
    \<open>src/dep/include\<close> (\<open>coded_stream.h\<close>, \<open>wire_format_lite.h\<close>, \<open>repeated_ptr_field.h\<close>,
    \<open>parse_context.h\<close>, \<open>absl/numeric/internal/bits.h\<close>). The table-driven parser is compiled into
    the protobuf library and not part of the sources: the locale \<open>protobuf_parser\<close> states
    what is documented of it, and \<open>table_decoder\<close> interprets it by a decoder over the parse tables
    of \<open>xn.pb.cc\<close>, so what is proved from the contract holds for a concrete parser.
  \<^item> \<open>IdStore\<close>: the contract of a store of values under ids (a locale whose operations refine a
    finite map). \<open>QuestionAnswerImpl\<close>: \<open>src/src/question_answer_impl.cpp\<close>, one open file;
    it meets the contract twice, for questions and for groups.
  \<^item> \<open>QuestionBank\<close>: \<open>src/src/notebook_impl.cpp\<close>, the bank: \<open>init\<close>, \<open>uninit\<close>, the
    operations on questions and on groups. \<open>GroupTree\<close> (positions in the tree), \<open>GroupControl\<close>
    (adding, deleting, renaming groups), \<open>QuestionControl\<close> (the bank as a store of the questions
    of one group, the third instance of \<open>IdStore\<close>), \<open>BankLifecycle\<close> (opening and closing) prove
    what the operations do. \<open>Session\<close>: sequences of calls as an inductive relation between a first state and
    those it reaches. \<open>Opening\<close>: what \<open>init\<close> opens is consistent (\<open>init_bank_ok\<close>) when no two of its directories have
    the same name and \<open>ids.dat\<close> lists no id twice. Without that it need not be: two directories of one name get the
    same id.
  \<^item> \<open>TreeNavigation\<close>: \<open>findTreeWidgetItem\<close> of \<open>src/ui/notebook.cpp\<close>, the search for the next
    or the previous question in the tree widget, over a locale of what Qt documents.
  \<^item> \<open>VarintParse\<close>, \<open>VarintShuffle\<close>: the routines of \<open>parse_context.h\<close> and \<open>varint_shuffle.h\<close> that read
    varints from memory, each against one description of the bytes, with the out-of-line routines
    of the library as a locale.
  \<^item> \<open>InputStream\<close>: \<open>EpsCopyInputStream\<close> and \<open>ParseContext\<close> of \<open>parse_context.h\<close>: the input of a parse in
    buffers, limits, the parse loop and what a field parser does with a tag. Changing the buffer is compiled into
    the library; the locale \<open>buffer_change\<close> states what is relied on, \<open>parse_library\<close> adds the readers of
    varints, and a flat view of memory (the example \<open>view_DoneFallback\<close>) with the modelled readers interprets it.
  \<^item> \<open>ScalarFields\<close>: tags, zig-zag and all writers, sizes and readers of numbers of \<open>wire_format_lite.h\<close>,
    \<open>coded_stream.h\<close> and \<open>parse_context.h\<close>, single and packed. Floating-point fields are left out.
  \<^item> \<open>MemoryParse\<close>: the parse loop of \<open>InputStream\<close> on a view of memory. \<open>DoneFallback\<close>, which is compiled, is a
    parameter under the locale \<open>buffer_crossing\<close> (it returns a pointer to the same place of the stream); the clients of
    the field parser, for which the program has the compiled table-driven parser, are parameters that store the
    strings they are given and parse items as nested messages. \<open>view_DoneFallback\<close>, \<open>example_message\<close> and \<open>example_client\<close>
    model no code: they are the instances that show that these contracts can hold.
  \<^item> \<open>OutputStream\<close>: \<open>EpsCopyOutputStream\<close> and \<open>CodedOutputStream\<close> of \<open>coded_stream.h\<close>: writing into buffers
    that end sixteen bytes before they are full. What is compiled into the library (changing the buffer, the long paths
    of strings and raw data) is the locale \<open>output_stream\<close>, interpreted by a sink of bounded buffers. \<open>MessageStream\<close>
    are the serializers of the messages and the calls of \<open>CodedOutputStream\<close> on such a stream.
  \<^item> \<open>CodedInput\<close>: the routines \<open>CodedInputStream\<close> inlines in \<open>coded_stream.h\<close>, with the readers behind
    them as the locale \<open>coded_input\<close>, interpreted by a flat array.
  \<^item> \<open>PointerField\<close>: \<open>RepeatedPtrFieldBase\<close> of \<open>repeated_ptr_field.h\<close> with its pointers, over an explicit
    store of objects; what is compiled into the library (growing the array, closing a gap) is a locale.
    \<open>RepeatedField\<close> is the same on lists, which is what the messages use; the two are related by a simulation.
  \<^item> \<open>StringField\<close>: \<open>arenastring.h\<close>, the tagged pointers the messages keep their strings in, over a store of string
    objects; the compiled routines are the locale \<open>string_fields\<close>, interpreted by a store of a thousand places. A failing
    allocation throws; a dangling pointer or a violated check is \<open>Undef\<close>, and is proved not to happen. The messages themselves hold strings as values.
  \<^item> \<open>Dialogs\<close> (\<open>src/ui/group_dashboard.cpp\<close>, \<open>question_dashboard.cpp\<close>) and \<open>QwenClient\<close>
    (\<open>src/ui/qwenclient.cpp\<close>): the dialogs as records of the texts they show and folds over what the
    user and the network do, and the request and the reply of the language model.
  \<^item> \<open>MainWindow\<close>: \<open>src/ui/notebook.cpp\<close>, every slot of the window and the construction of its tree, over
    a record of the members of \<open>QTreeWidget\<close> it calls. \<open>TreeView\<close>: what Qt documents of them, as the
    locale \<open>qt_widget\<close>. \<open>Catalog\<close> reads the bank and the shown tree as the same kind of value, and
    \<open>WindowMirror\<close> states that they agree. \<open>QuestionRows\<close>, \<open>QuestionSlots\<close>, \<open>GroupSlots\<close>,
    \<open>TreeBuilding\<close> prove it for what the slots do; \<open>WindowSession\<close> is an inductive relation of working
    with questions in any order.
  \<^item> \<open>Examples\<close>, \<open>WindowExamples\<close>: the disk, the bank and the window that the witnesses run on.

  \<^bold>\<open>How state and operations correspond\<close>

  A class is a record with its members in order; a member function takes the object (and the
  disk) and returns its result with the object (and the disk) afterwards. An output parameter
  is an argument, its value before, and a result. \<open>shared_ptr\<close> members are held by value, as
  the program never shares one, with \<open>None\<close> for null; \<open>findQustionAnswerContext\<close>, which returns
  a pointer into the tree, returns the position. \<open>std::unordered_map\<close> is an association list in
  iteration order: the program reads the order in one place (\<open>id_of_name\<close>), where it matters only
  when two groups have one name. Strings are lists of bytes; \<open>std::find_if\<close> with a predicate that
  changes its argument is a recursion that keeps the changes. Overloads have a suffix: \<open>addGroup\<close> is
  the public member, \<open>addGroup_in\<close> the private one on a parent.

  \<^bold>\<open>What the lemmas show\<close>

  \<^item> The questions of a group behave like a finite map from ids to question and answer, through
    the lazily opened file and the search of the tree, and operations on one group do not
    disturb another; files and the id list come back as they were written.
  \<^item> Adding, deleting and renaming of groups: what happens on the tree, the two id tables and
    the disk, on every branch, and that what is reached from an opened directory stays consistent; and where the code
    falls short of that: deleting a group with subgroups runs over a vector it erases from,
    renaming leaves table and paths behind, failed calls leave half of their effects.
  \<^item> The wire format: sizes agree with the bytes written, varints and lists round trip, merging is
    parsing one message after another.
  \<^item> The window mirrors the bank after it is opened and after every slot that changes questions, adds
    or deletes groups; after a rename only when no error was reported.
  \<^item> The ways of reading a tag, a 32-bit and a 64-bit varint are one function each, and read back what is written.
  \<^item> Limits do not overflow and nest: a length-delimited field is read exactly or fails, and leaves the
    limit and the depths as they were. Numbers of every kind come back as they were written.
  \<^item> A list that was written is read back by the parse loop from memory, through limits and a change of buffer, to its end.
  \<^item> What is written on a stream arrives in order and complete, whatever buffers the stream is given, and nothing
    is written behind them; the calls of the reader give back the numbers that were written.
  \<^item> A repeated field on pointers behaves like a list, whatever was cleared or handed in from outside,
    and its destructor frees what it owns once.
  \<^item> String fields keep their type, shared empty string or object of their own tagged by its owner, follow no dangling
    pointer, and free what they own.
  \<^item> Messages to the user are cut in one place; the search in the tree widget finds the
    neighbour in document order or hangs at an empty group.

  \<^bold>\<open>Bounds and fuel\<close>

  \<open>deleteGroup_in\<close> has a bound on its depth, and the height of the group, which \<open>ctrlGroup\<close> passes,
  is enough: more changes nothing (\<open>deleteGroup_fuel_enough\<close>). The decoder is bounded by the length
  of its input, since every round reads a byte. The search in the tree widget is a partial function,
  because it may indeed run forever. Varints and cached sizes are words of 32 or 64 bits, limits are
  integers whose overflow is \<open>None\<close>; other lengths are naturals, far from the limit of \<open>size_t\<close>. The sizes of a
  repeated field are naturals as well, where the code has \<open>int\<close>: growing is in the compiled \<open>InternalExtend\<close>, whose
  contract sets no bound. The parse loop is a
  partial function over the buffers of its stream; reading a packed array ends (\<open>packed_array_read_ends\<close>).

  \<^bold>\<open>Not modelled\<close>

  Cords and floating-point fields of the wire format, and aliasing of long strings by an output stream. Descriptors, reflection, arenas and the registration tables of the generated code, because they
  only feed the compiled protobuf library; the remaining headers under \<open>src/dep\<close>,
  which the program does not reach; the layout files, resources and \<open>main.cpp\<close>. Qt itself is a parameter:
  a \<open>QString\<close> is modelled by its UTF-8 form, \<open>uid\<close> and \<open>getString\<close> are calls to Qt, and icons, fonts and
  flags no code reads back are left out.
\<close>

section \<open>Questions\<close>

text \<open>C1. On a bank that is open, any sequence of adding, deleting and updating questions of one
  group is carried out like the same sequence on a finite map from question ids to question and
  answer: the results reported to the caller are those of the map, nothing is undefined, and
  afterwards the group holds what the map holds.\<close>

theorem bank_questions_refine_map:
  "context_ok E F gid b \<Longrightarrow>
   \<exists>b'. run_store (bank_question_step E F gid) xs b = Ret (fst (spec_run xs (bank_view E F gid b)), b') \<and>
     context_ok E F gid b' \<and> bank_view E F gid b' = snd (spec_run xs (bank_view E F gid b))"
  by (rule bank_questions.run_refines)

theorem bank_questions_refine_map_witness:
  "\<exists>b'. run_store (bank_question_step plain_env disk ''g1'') [Ins ''q1'' (''2+2'', ''4''), Ins ''q2'' (''2+2'', ''4''), Del ''q1''] bank =
      Ret ([False, True, True], b') \<and> bank_view plain_env disk ''g1'' b' = [''q2'' \<mapsto> (''2+2'', ''4'')]"
proof -
  have v: "bank_view plain_env disk ''g1'' bank = [''q1'' \<mapsto> (''1+1'', ''2'')]"
    by (auto simp: bank_view_def math_context math_file_def question_view_def questions_of_def a_question_def fun_eq_iff)
  from bank_questions_refine_map [OF math_context_ok, of disk "[Ins ''q1'' (''2+2'', ''4''), Ins ''q2'' (''2+2'', ''4''), Del ''q1'']"]
  show ?thesis by (auto simp: v)
qed

text \<open>C2. An operation on the questions of one group leaves the questions of every other group as
  they are, although it searches the whole tree and may open a file on the way.\<close>

theorem bank_questions_frame:
  assumes "context_ok E F gid b" "hid \<noteq> gid" "bank_question_step E F gid x b = Ret (ok, b')"
  shows "bank_view E F hid b' = bank_view E F hid b"
  using bank_question_step_frame [OF assms] by (simp add: bank_view_def fun_eq_iff)

theorem bank_questions_frame_witness:
  "\<exists>ok b'. bank_question_step plain_env disk ''g1'' (Del ''q1'') bank = Ret (ok, b') \<and>
     bank_view plain_env disk ''g2'' b' = bank_view plain_env disk ''g2'' bank"
proof -
  obtain ok b' where "bank_question_step plain_env disk ''g1'' (Del ''q1'') bank = Ret (ok, b')"
    using bank_question_step_spec [OF math_context_ok] by blast
  with bank_questions_frame [OF math_context_ok _ this, of "''g2''"] show ?thesis by auto
qed

text \<open>When the file of the group refuses an operation (the id is taken, or unknown), the bank
  reports failure but not why: the message of the file object is not copied, and \<open>err()\<close> of the
  bank still tells what it told before.\<close>

theorem refusal_keeps_old_message:
  assumes "context_ok E F gid b" "bank_question_step E F gid x b = Ret (ok, b')"
  shows "bank_err b' = bank_err b"
proof -
  from assms(1) obtain s where s: "context_of E F gid b = Some s" "impl_ok s" "has_key gid (bnk_mapIds b)"
    by (auto simp: context_ok_def split: option.splits)
  obtain r s' where "question_step E (as_content gid x) s = Ret (r, s')"
    using question_store.step_spec [OF s(2), of E "as_content gid x"] by blast
  from bank_question_step_context [OF s(1,3) this] assms(2) show ?thesis by (auto simp: bank_err_def)
qed

theorem refusal_keeps_old_message_witness:
  "\<exists>b'. bank_question_step plain_env disk ''g1'' (Ins ''q1'' (''a'', ''b'')) bank = Ret (False, b') \<and> bank_err b' = bank_err bank"
proof -
  have v: "bank_view plain_env disk ''g1'' bank ''q1'' \<noteq> None"
    by (simp add: bank_view_def math_context math_file_def question_view_def questions_of_def a_question_def)
  obtain b' where b': "bank_question_step plain_env disk ''g1'' (Ins ''q1'' (''a'', ''b'')) bank = Ret (False, b')"
    using bank_question_step_spec [OF math_context_ok, of disk "Ins ''q1'' (''a'', ''b'')"] v by auto
  with refusal_keeps_old_message [OF math_context_ok b'] show ?thesis by blast
qed

section \<open>Groups\<close>

text \<open>C8. Adding a group with a new id and a new name under an existing parent, where its directory
  exists or can be made: the call succeeds, the group is the last child of its parent and nothing
  else in the tree changes, both tables know it, its directory is there, the rest of the disk is
  untouched, and the bank stays consistent.\<close>

theorem addGroup_adds:
  assumes "bank_ok b" "\<not> has_key gid (bnk_mapIds b)" "name \<notin> snd ` set (bnk_mapIds b)" "gid \<noteq> []"
    and "parent_at b pid l c"
    and "fs_is_directory F (child_path c name) \<or> \<not> fs_exists F (child_path c name) \<and> can_create F (components (child_path c name))"
  shows "\<exists>b' F'. addGroup E pid name gid b F = (Ret True, b', F') \<and> bank_ok b' \<and> (names_agree b \<longrightarrow> names_agree b') \<and>
    bnk_root b' = put_group l (add_child gid name c) (bnk_root b) \<and>
    bnk_mapIds b' = bnk_mapIds b @ [(gid, name)] \<and>
    (\<exists>s. bnk_ptrIds b' = Some s \<and> group_view s gid = Some name) \<and>
    fs_is_directory F' (child_path c name) \<and>
    (\<forall>q. q \<noteq> components (child_path c name) \<longrightarrow> node_at F' q = node_at F q)"
proof -
  obtain b' r F' where a: "addGroup E pid name gid b F = (r, b', F')"
    "(r, F') = (if fs_exists F (child_path c name) then (Ret True, F) else fs_create_directory (child_path c name) F)"
    "bank_ok b'" "bnk_root b' = put_group l (add_child gid name c) (bnk_root b)"
    "bnk_mapIds b' = bnk_mapIds b @ [(gid, name)]" "names_agree b \<longrightarrow> names_agree b'"
    "\<exists>s'. bnk_ptrIds b' = Some s' \<and> group_view s' gid = Some name"
    using addGroup_fresh [OF assms(1-5)] by blast
  have "r = Ret True \<and> fs_is_directory F' (child_path c name) \<and>
      (\<forall>q. q \<noteq> components (child_path c name) \<longrightarrow> node_at F' q = node_at F q)"
    using a(2) assms(6)
    by (auto simp: fs_create_directory_def fs_exists_def fs_is_directory_def can_create_def node_at_put Let_def split: if_splits)
  with a show ?thesis by blast
qed

theorem addGroup_adds_witness:
  "\<exists>b' F'. addGroup plain_env ''g1'' ''sums'' ''g4'' bank disk = (Ret True, b', F') \<and> bank_ok b' \<and>
     fs_is_directory F' (math_path @ sep @ ''sums'')"
proof -
  have p: "child_path math_group ''sums'' = math_path @ sep @ ''sums''" by (simp add: child_path_def math_group_def)
  have c: "components (math_path @ sep @ ''sums'') = [''C:'', ''qb'', ''math'', ''sums'']" by (simp add: path_parts is_sep_def)
  have f: "\<not> fs_exists disk (child_path math_group ''sums'')" "can_create disk (components (child_path math_group ''sums''))"
    unfolding p fs_exists_def can_create_def c by (simp_all add: node_at_def disk_def)
  have k: "\<not> has_key ''g4'' (bnk_mapIds bank)" "''sums'' \<notin> snd ` set (bnk_mapIds bank)"
    by (simp_all add: has_key_def bank_def new_bank_def)
  from addGroup_adds [OF bank_ok_bank k _ parent_math, of disk plain_env] f p show ?thesis by auto
qed

text \<open>C9. When the directory cannot be made, the exception of \<open>create_directory\<close> leaves the group in
  the tree and in both tables, so that a second attempt is refused as a repeated id.\<close>

theorem addGroup_throws_half_done:
  assumes "bank_ok b" "\<not> has_key gid (bnk_mapIds b)" "name \<notin> snd ` set (bnk_mapIds b)" "gid \<noteq> []"
    and "parent_at b pid l c"
    and "\<not> fs_exists F (child_path c name)" "\<not> can_create F (components (child_path c name))"
  shows "\<exists>e b'. addGroup E pid name gid b F = (Throw e, b', F) \<and>
    bnk_root b' = put_group l (add_child gid name c) (bnk_root b) \<and>
    bnk_mapIds b' = bnk_mapIds b @ [(gid, name)] \<and> (\<exists>s'. bnk_ptrIds b' = Some s' \<and> group_view s' gid = Some name) \<and>
    fst (addGroup E pid name gid b' F) = Ret False"
proof -
  obtain b' r F' where a: "addGroup E pid name gid b F = (r, b', F')"
    "(r, F') = (if fs_exists F (child_path c name) then (Ret True, F) else fs_create_directory (child_path c name) F)"
    "bnk_root b' = put_group l (add_child gid name c) (bnk_root b)" "bnk_mapIds b' = bnk_mapIds b @ [(gid, name)]"
    "\<exists>s'. bnk_ptrIds b' = Some s' \<and> group_view s' gid = Some name"
    using addGroup_fresh [OF assms(1-5)] by blast
  have "r = Throw (FsError ''create_directory'' (child_path c name)) \<and> F' = F"
    using a(2) assms(6,7) by (auto simp: fs_create_directory_def fs_exists_def Let_def)
  moreover have k: "has_key gid (bnk_mapIds b')" using a(4) by (simp add: has_key_def)
  moreover have "fst (addGroup E pid name gid b' F) = Ret False" using k by (simp add: addGroup_def)
  ultimately show ?thesis using a(1,3-5) by blast
qed

theorem addGroup_throws_half_done_witness:
  "\<exists>e b'. addGroup plain_env ''g1'' ''sums'' ''g4'' bank (disk\<lparr>fs_nodes := []\<rparr>) = (Throw e, b', disk\<lparr>fs_nodes := []\<rparr>) \<and>
     has_key ''g4'' (bnk_mapIds b') \<and> (\<exists>s'. bnk_ptrIds b' = Some s' \<and> group_view s' ''g4'' = Some ''sums'')"
proof -
  have f: "\<not> fs_exists (disk\<lparr>fs_nodes := []\<rparr>) (child_path math_group ''sums'')"
    "\<not> can_create (disk\<lparr>fs_nodes := []\<rparr>) (components (child_path math_group ''sums''))"
    by (simp_all add: fs_exists_def can_create_def node_at_def)
  have k: "\<not> has_key ''g4'' (bnk_mapIds bank)" "''sums'' \<notin> snd ` set (bnk_mapIds bank)"
    by (simp_all add: has_key_def bank_def new_bank_def)
  from addGroup_throws_half_done [OF bank_ok_bank k _ parent_math f, of plain_env] show ?thesis
    by (fastforce simp: has_key_def)
qed

text \<open>C10. Deleting a group without subgroups whose contexts close normally and whose directory
  nothing holds: the call succeeds, exactly this group leaves the tree and the table, its directory
  and everything below it is removed, and the bank stays consistent.\<close>

theorem deleteGroup_removes_leaf:
  assumes "bank_ok b" "gid \<noteq> []" "parent_at b pid l c"
    and "i = find_index (\<lambda>grp. grp_id grp = gid) (grp_groups c)" "i < length (grp_groups c)"
    and "grp_groups (grp_groups c ! i) = []"
    and "close_contexts (grp_questions (grp_groups c ! i)) F = (Ret (), qs, F1)"
    and "\<not> locked_below F1 (components (grp_path (grp_groups c ! i)))"
    and "fs_is_directory F1 (grp_path (grp_groups c ! i))"
  shows "\<exists>b' F'. deleteGroup E pid gid b F = (Ret True, b', F') \<and> bank_ok b' \<and>
    bnk_root b' = put_group l (set_groups (erase_at i (grp_groups c)) c) (bnk_root b) \<and>
    set (named_ids (bnk_root b')) = set (named_ids (bnk_root b)) - {gid} \<and> \<not> has_key gid (bnk_mapIds b') \<and>
    (\<forall>q. node_at F' q = (if prefix (components (grp_path (grp_groups c ! i))) q then None else node_at F1 q))"
proof -
  obtain b' F' where d: "deleteGroup E pid gid b F = (Ret True, b', F')" "bank_ok b'"
    "bnk_root b' = put_group l (set_groups (erase_at i (grp_groups c)) c) (bnk_root b)"
    "bnk_mapIds b' = map_erase gid (bnk_mapIds b)"
    "set (named_ids (bnk_root b')) = set (named_ids (bnk_root b)) - {gid}"
    "F' = (let p = grp_path (grp_groups c ! i)
          in if fs_is_directory F1 p then drop_nodes (prefix (components p)) F1 else F1)"
    using deleteGroup_leaf [OF assms(1-8)] by blast
  have "\<not> has_key gid (bnk_mapIds b')" using d(4) by (auto simp: has_key_def map_erase_def)
  moreover have "\<forall>q. node_at F' q = (if prefix (components (grp_path (grp_groups c ! i))) q then None else node_at F1 q)"
    using d(6) assms(9) by (simp add: node_at_drop Let_def)
  ultimately show ?thesis using d by blast
qed

theorem deleteGroup_removes_leaf_witness:
  "\<exists>b' F'. deleteGroup plain_env ''g1'' ''g3'' bank disk = (Ret True, b', F') \<and> bank_ok b' \<and>
     \<not> has_key ''g3'' (bnk_mapIds b') \<and> node_at F' [''C:'', ''qb'', ''math'', ''sets''] = None"
proof -
  have g: "grp_groups math_group = [sets_group]" "grp_id sets_group = ''g3''" "grp_groups sets_group = []"
    "grp_questions sets_group = []" "grp_path sets_group = sets_path"
    by (simp_all add: math_group_def sets_group_def)
  have i: "(0 :: nat) = find_index (\<lambda>grp. grp_id grp = ''g3'') (grp_groups math_group)" by (simp add: g)
  have l: "\<not> locked_below disk (components (grp_path (grp_groups math_group ! 0)))" by (simp add: locked_below_def disk_def)
  have d: "fs_is_directory disk (grp_path (grp_groups math_group ! 0))"
    by (simp add: fs_is_directory_def g components_demo node_at_disk)
  from deleteGroup_removes_leaf [OF bank_ok_bank _ parent_math i _ _ _ l d, of _ _ plain_env]
  show ?thesis by (auto simp: g components_demo)
qed

text \<open>C11. On a disk that refuses nothing, a call that deletes a listed child group only returns when
  that group has no groups of its own. For a group with subgroups there is no result: the loop over
  the vector runs on after an element was erased from it (or an exception escapes).\<close>

theorem deleteGroup_returns_only_for_leaves:
  assumes "bank_ok b" "parent_at b pid l c" "gid \<in> grp_id ` set (grp_groups c)" "fs_locked F = []"
    and "deleteGroup E pid gid b F = (Ret r, b', F')"
  shows "r \<and> grp_groups (grp_groups c ! find_index (\<lambda>grp. grp_id grp = gid) (grp_groups c)) = []"
  using assms by (rule deleteGroup_returns)

theorem deleteGroup_returns_only_for_leaves_witness:
  "\<exists>b' F'. deleteGroup plain_env ''g1'' ''g3'' bank disk = (Ret True, b', F') \<and> grp_groups sets_group = []"
proof -
  have g: "grp_groups math_group = [sets_group]" "grp_id sets_group = ''g3''" "grp_groups sets_group = []"
    "grp_questions sets_group = []" "grp_path sets_group = sets_path"
    by (simp_all add: math_group_def sets_group_def)
  have i: "(0 :: nat) = find_index (\<lambda>grp. grp_id grp = ''g3'') (grp_groups math_group)" by (simp add: g)
  have l: "\<not> locked_below disk (components (grp_path (grp_groups math_group ! 0)))" by (simp add: locked_below_def disk_def)
  obtain b' F' where d: "deleteGroup plain_env ''g1'' ''g3'' bank disk = (Ret True, b', F')"
    using deleteGroup_leaf [OF bank_ok_bank _ parent_math i _ _ _ l, of _ _ plain_env] by (auto simp: g)
  have "''g3'' \<in> grp_id ` set (grp_groups math_group)" "fs_locked disk = []" by (simp_all add: g disk_def)
  from deleteGroup_returns_only_for_leaves [OF bank_ok_bank parent_math this d] d g show ?thesis by auto
qed

text \<open>C12. Deleting a group under another parent than its own is reported as a failure, but the id is
  gone from the table: the group is still in the tree and every operation on its questions is
  refused from then on.\<close>

theorem deleteGroup_wrong_parent_forgets:
  assumes "bank_ok b" "parent_at b pid l c" "gid \<notin> grp_id ` set (grp_groups c)"
  shows "\<exists>b'. deleteGroup E pid gid b F = (Ret False, b', F) \<and> bnk_root b' = bnk_root b \<and> \<not> has_key gid (bnk_mapIds b') \<and>
    (\<exists>s s'. bnk_ptrIds b = Some s \<and> bnk_ptrIds b' = Some s' \<and> group_view s' = (group_view s)(gid := None)) \<and>
    (\<forall>qid q a out F. (\<exists>b2. addQuestion E gid qid q a b' F = (Ret (False, ()), b2, F)) \<and>
       (\<exists>b2. deleteQuestion E gid qid b' F = (Ret (False, ()), b2, F)) \<and>
       (\<exists>b2. updateQuestion E gid qid q a b' F = (Ret (False, ()), b2, F)) \<and>
       (\<exists>b2. queryQuestion E gid qid out b' F = (Ret (False, out), b2, F)))"
proof -
  obtain b' where b': "deleteGroup E pid gid b F = (Ret False, b', F)" "bnk_root b' = bnk_root b"
    "bnk_mapIds b' = map_erase gid (bnk_mapIds b)"
    "\<exists>s s'. bnk_ptrIds b = Some s \<and> bnk_ptrIds b' = Some s' \<and> group_view s' = (group_view s)(gid := None)"
    using deleteGroup_wrong_parent [OF assms] by blast
  have "\<not> has_key gid (bnk_mapIds b')" using b'(3) by (auto simp: has_key_def map_erase_def)
  then show ?thesis
    using b' by - (rule exI [of _ b'], intro conjI allI;
      simp add: addQuestion_def deleteQuestion_def updateQuestion_def queryQuestion_def with_context_def)
qed

theorem deleteGroup_wrong_parent_forgets_witness:
  "\<exists>b'. deleteGroup plain_env ''g1'' ''g2'' bank disk = (Ret False, b', disk) \<and> bnk_root b' = bnk_root bank \<and>
     \<not> has_key ''g2'' (bnk_mapIds b') \<and> fst (queryQuestion plain_env ''g2'' ''q1'' [] b' disk) = Ret (False, []) \<and>
     fst (addQuestion plain_env ''g2'' ''q9'' ''a'' ''b'' b' disk) = Ret (False, ())"
proof -
  have "''g2'' \<notin> grp_id ` set (grp_groups math_group)" by (simp add: math_group_def sets_group_def)
  from deleteGroup_wrong_parent_forgets [OF bank_ok_bank parent_math this, of plain_env disk] show ?thesis
    by (metis fst_conv)
qed

text \<open>C13. Renaming a group onto a free name: the call succeeds, the group has the new name in the tree
  and in the list behind \<open>ids.dat\<close>, the bank stays consistent, and the directory is moved with
  everything below it.\<close>

theorem updateGroup_renames:
  assumes "bank_ok b" "gid \<noteq> []" "parent_at b pid l c"
    and "i = find_index (\<lambda>grp. grp_id grp = gid) (grp_groups c)" "i < length (grp_groups c)"
    and "fs_rename (grp_path (grp_groups c ! i)) (child_path c name) F = (Ret (), F')"
    and "node_at F (components (child_path c name)) = None" "wf_fs F"
  shows "\<exists>b'. updateGroup E pid gid name b F = (Ret True, b', F') \<and> bank_ok b' \<and>
    bnk_root b' = put_group l (put_child i (set_name name (grp_groups c ! i)) c) (bnk_root b) \<and>
    (\<exists>s. bnk_ptrIds b' = Some s \<and> group_view s gid = Some name) \<and> wf_fs F' \<and>
    (\<forall>x. node_at F' (components (child_path c name) @ x) = node_at F (components (grp_path (grp_groups c ! i)) @ x))"
proof -
  obtain s s' where s: "bnk_ptrIds b = Some s" "group_view s' = (group_view s)(gid \<mapsto> name)" "impl_ok s'"
    "updateGroup E pid gid name b F =
      (let g' = put_group l (put_child i (set_name name (grp_groups c ! i)) c) (bnk_root b);
           b' = b\<lparr>bnk_ptrIds := Some s', bnk_root := g'\<rparr>
       in case fs_rename (grp_path (grp_groups c ! i)) (child_path c name) F of
            (Ret _, F') \<Rightarrow> (Ret True, b', F')
          | (Throw e, F') \<Rightarrow> (Ret False, bank_message E ''%s'' [what E e] b', F')
          | (Undef, F') \<Rightarrow> (Undef, b', F'))"
    using updateGroup_found [OF assms(1-5), of name E F] by blast
  let ?b = "b\<lparr>bnk_ptrIds := Some s', bnk_root := put_group l (put_child i (set_name name (grp_groups c ! i)) c) (bnk_root b)\<rparr>"
  have "updateGroup E pid gid name b F = (Ret True, ?b, F')" using s(4) assms(6) by (simp add: Let_def)
  moreover have "bank_ok ?b" using updateGroup_bank_ok [OF assms(1-5) s(1-3)] .
  ultimately show ?thesis
    using s(2) renamed_moved [OF assms(8,6,7)] wf_fs_rename_onto_free [OF assms(8,6,7)] by auto
qed

theorem updateGroup_renames_witness:
  "\<exists>b'. updateGroup plain_env [] ''g2'' ''music'' bank disk =
      (Ret True, b', move_nodes [''C:'', ''qb'', ''art''] [''C:'', ''qb'', ''music''] disk) \<and> bank_ok b'"
  using updateGroup_renames [OF bank_ok_bank _ parent_root art_second(1,2), of "''music''" disk _ plain_env]
    art_renamed wf_disk by (auto simp: art_second(3))

text \<open>C14. After a rename the table in memory still has the old name and the group its old path: the two
  tables disagree, and no group can be given the name that has become free.\<close>

theorem updateGroup_leaves_table_stale:
  assumes "bank_ok b" "gid \<noteq> []" "parent_at b pid l c"
    and "i = find_index (\<lambda>grp. grp_id grp = gid) (grp_groups c)" "i < length (grp_groups c)"
    and "map_of (bnk_mapIds b) gid = Some old" "old \<noteq> name"
    and "updateGroup E pid gid name b F = (Ret True, b', F')"
  shows "\<not> names_agree b' \<and> bnk_mapIds b' = bnk_mapIds b \<and>
    (\<exists>g. group_at (l @ [i]) (bnk_root b') = Some g \<and> grp_name g = name \<and> grp_path g = grp_path (grp_groups c ! i)) \<and>
    (\<forall>pid' gid' F''. fst (addGroup E pid' old gid' b' F'') = Ret False)"
proof -
  obtain s s' where s: "bnk_ptrIds b = Some s" "group_view s' = (group_view s)(gid \<mapsto> name)" "impl_ok s'"
    "updateGroup E pid gid name b F =
      (let g' = put_group l (put_child i (set_name name (grp_groups c ! i)) c) (bnk_root b);
           b' = b\<lparr>bnk_ptrIds := Some s', bnk_root := g'\<rparr>
       in case fs_rename (grp_path (grp_groups c ! i)) (child_path c name) F of
            (Ret _, F') \<Rightarrow> (Ret True, b', F')
          | (Throw e, F') \<Rightarrow> (Ret False, bank_message E ''%s'' [what E e] b', F')
          | (Undef, F') \<Rightarrow> (Undef, b', F'))"
    using updateGroup_found [OF assms(1-5), of name E F] by blast
  then have b': "b' = b\<lparr>bnk_ptrIds := Some s', bnk_root := put_group l (put_child i (set_name name (grp_groups c ! i)) c) (bnk_root b)\<rparr>"
    using assms(8) by (auto simp: Let_def split: prod.splits outcome.splits)
  have g: "group_at l (bnk_root b) = Some c" using assms(3) by (simp add: parent_at_def)
  have "map_of (bnk_mapIds b) gid \<noteq> group_view s' gid" using s(2) assms(6,7) by simp
  then have "\<not> names_agree b'" using b' by (auto simp: names_agree_def)
  moreover have "old \<in> snd ` set (bnk_mapIds b')" using map_of_SomeD [OF assms(6)] b' by force
  then have "\<forall>pid' gid' F''. fst (addGroup E pid' old gid' b' F'') = Ret False" by (auto simp: addGroup_def)
  ultimately show ?thesis using b' assms(5) by (simp add: group_at_append group_at_put_same [OF g])
qed

theorem updateGroup_leaves_table_stale_witness:
  "\<exists>b' F'. updateGroup plain_env [] ''g2'' ''music'' bank disk = (Ret True, b', F') \<and>
     fst (addGroup plain_env [] ''art'' ''g9'' b' F') = Ret False"
proof -
  obtain b' F' where u: "updateGroup plain_env [] ''g2'' ''music'' bank disk = (Ret True, b', F')"
    using updateGroup_found [OF bank_ok_bank _ parent_root art_second(1,2), of "''music''" plain_env disk] art_renamed
    by (auto simp: art_second(3) Let_def)
  have "map_of (bnk_mapIds bank) ''g2'' = Some ''art''" by (simp add: bank_def new_bank_def)
  from updateGroup_leaves_table_stale [OF bank_ok_bank _ parent_root art_second(1,2) this _ u] u show ?thesis by auto
qed

text \<open>C15. The open question file of a renamed group still points below the old directory, which is
  gone: closing it reports nothing and writes nothing, so every question that was added, changed or
  loaded in the session and is not on the disk under the new name is lost.\<close>

theorem renamed_group_loses_questions:
  assumes "bank_ok b" "gid \<noteq> []" "parent_at b pid l c"
    and "i = find_index (\<lambda>grp. grp_id grp = gid) (grp_groups c)" "i < length (grp_groups c)"
    and "fs_rename (grp_path (grp_groups c ! i)) (child_path c name) F = (Ret (), F')"
    and "node_at F (components (child_path c name)) = None" "wf_fs F"
    and "Some s \<in> set (grp_questions (grp_groups c ! i))" "questions_of s \<noteq> []"
    and "components (qai_path s) = components (grp_path (grp_groups c ! i)) @ [file]"
  shows "\<exists>b' g. updateGroup E pid gid name b F = (Ret True, b', F') \<and>
    group_at (l @ [i]) (bnk_root b') = Some g \<and> grp_id g = gid \<and> Some s \<in> set (grp_questions g) \<and>
    fst (qai_close s F') = Ret () \<and> snd (snd (qai_close s F')) = F' \<and> \<not> fs_exists F' (qai_path s)"
proof -
  let ?g = "set_name name (grp_groups c ! i)"
  obtain s' where u: "updateGroup E pid gid name b F =
      (Ret True, b\<lparr>bnk_ptrIds := Some s', bnk_root := put_group l (put_child i ?g c) (bnk_root b)\<rparr>, F')"
    using updateGroup_found [OF assms(1-5), of name E F] assms(6) by (auto simp: Let_def)
  have "group_at l (bnk_root b) = Some c" using assms(3) by (simp add: parent_at_def)
  then have g: "group_at (l @ [i]) (put_group l (put_child i ?g c) (bnk_root b)) = Some ?g"
    using assms(5) by (simp add: group_at_append group_at_put_same)
  note gone = renamed_gone [OF assms(8,6,7,11)]
  have "fst (qai_close s F') = Ret ()" "snd (snd (qai_close s F')) = F'"
    using qai_close_swallowed [of F' s] gone(2) assms(10) by auto
  moreover have "grp_id ?g = gid" using find_index_nth assms(4,5) by fastforce
  ultimately show ?thesis using u g gone(1) assms(9) by auto
qed

theorem renamed_group_loses_questions_witness:
  "\<exists>F'. fs_rename math_path (child_path (bnk_root bank) ''algebra'') disk = (Ret (), F') \<and>
     snd (snd (qai_close math_file F')) = F' \<and> \<not> fs_exists F' file_path"
proof -
  have i: "0 = find_index (\<lambda>grp. grp_id grp = ''g1'') (grp_groups (bnk_root bank))" "0 < length (grp_groups (bnk_root bank))"
    and g: "grp_groups (bnk_root bank) ! 0 = math_group" by (simp_all add: bank_def new_bank_def math_group_def)
  have c: "components (child_path (bnk_root bank) ''algebra'') = [''C:'', ''qb'', ''algebra'']"
    by (simp add: child_path_def bank_def new_bank_def sep_def is_sep_def)
  have n: "node_at disk [''C:'', ''qb'', ''algebra''] = None" by (simp add: node_at_def disk_def)
  have w: "can_create disk [''C:'', ''qb'', ''algebra'']" by (simp add: can_create_def node_at_disk) (simp add: disk_def)
  have l: "\<not> locked_below disk p" for p by (simp add: locked_below_def disk_def)
  have p: "grp_path math_group = math_path" "Some math_file \<in> set (grp_questions math_group)" "qai_path math_file = file_path"
    "questions_of math_file \<noteq> []" by (simp_all add: math_group_def math_file_def questions_of_def)
  have r: "\<exists>F'. fs_rename math_path (child_path (bnk_root bank) ''algebra'') disk = (Ret (), F')"
    by (simp add: fs_rename_def c components_demo node_at_disk n w l Let_def strict_prefix_def)
  then obtain F' where r: "fs_rename (grp_path (grp_groups (bnk_root bank) ! 0)) (child_path (bnk_root bank) ''algebra'') disk = (Ret (), F')"
    by (auto simp: g p)
  have n': "node_at disk (components (child_path (bnk_root bank) ''algebra'')) = None" by (simp add: c n)
  show ?thesis
    using renamed_group_loses_questions [OF bank_ok_bank _ parent_root i r n' wf_disk, of math_file "''g1.dat''" plain_env] r
    by (auto simp: g p components_demo)
qed

section \<open>Opening a bank\<close>

text \<open>Opening a bank at a path that does not exist yet makes the directory and yields an empty,
  consistent bank named after it; nothing else on the disk changes.\<close>

theorem init_makes_empty_bank:
  assumes "\<not> fs_exists F path" "can_create F (components path)" "wf_fs F"
    and "entries E (put_node (components path) Dir F) (components path) = ([], None)"
  shows "\<exists>b F'. init E path new_bank F = (Ret True, b, F') \<and> bank_ok b \<and> names_agree b \<and> bnk_mapIds b = [] \<and>
    bnk_root b = Group (path_filename path) [] path [] [] \<and> fs_is_directory F' path \<and>
    (\<forall>q. q \<noteq> components path \<longrightarrow> node_at F' q = node_at F q)"
  using init_fresh [OF assms] assms(2) by (auto simp: fs_is_directory_def node_at_put can_create_def)

theorem init_makes_empty_bank_witness:
  "\<exists>b F'. init plain_env ''C:/new'' new_bank disk = (Ret True, b, F') \<and> bank_ok b \<and> bnk_root b = Group ''new'' [] ''C:/new'' [] []"
proof -
  have c: "components ''C:/new'' = [''C:'', ''new'']" by (simp add: is_sep_def)
  have "\<not> fs_exists disk ''C:/new''" unfolding fs_exists_def c by (simp add: node_at_def disk_def)
  moreover have "can_create disk (components ''C:/new'')" unfolding can_create_def c by (simp add: node_at_def disk_def)
  moreover have "entries plain_env (put_node (components ''C:/new'') Dir disk) (components ''C:/new'') = ([], None)"
    unfolding c by (simp add: plain_env_def fs_below_def put_node_def disk_def strict_prefix_def)
  moreover have "path_filename ''C:/new'' = ''new''" by (simp add: path_filename_def is_sep_def)
  ultimately show ?thesis using init_makes_empty_bank [of disk "''C:/new''" plain_env] wf_disk by auto
qed

text \<open>C16. While the directories are read, one that is not directly below the bank goes to the first
  group, the group before its children and the children in order, that has the NAME of its parent
  directory. It is added there as the last child with the id of its name, and when there is no such
  group the call fails and changes nothing.\<close>

theorem directory_goes_to_first_group_of_that_name:
  "initQuestionBank E F ids parent_name path name False g =
     (case first_named parent_name g of
        None \<Rightarrow> (False, g)
      | Some l \<Rightarrow> (True, put_group l (new_child ids path name (the (group_at l g))) g))"
  by (rule initQuestionBank_directory(1))

section \<open>Question files\<close>

text \<open>C17. A question file that is closed where it can be written and opened again holds the same
  questions in the same order, with all their texts, and the same holds for a file without
  questions, which is removed. The questions must be ones the parser accepts: valid texts, no
  unknown fields, and fewer bytes than a stream may hold.\<close>

theorem questions_survive_reopening:
  assumes "env_parses E u" "qai_path s \<noteq> []" "can_write F (qai_path s) \<or> questions_of s = []"
    and "groups_of s = []" "\<And>q. q \<in> set (questions_of s) \<Longrightarrow> qa_writable u q" "qal_unknown (qai_questions s) = []"
    and "length (fst (QuestionAnswerList_SerializeToOstream (qai_questions s))) \<le> max_size"
    and "qai_close s F = (Ret (), s', F')"
  shows "\<exists>t. qai_open E F' (qai_path s) True new_impl = (True, t) \<and>
    getQuestions t [] = (True, map param_of (questions_of s), t)"
  using assms by (rule reopen_questions)

theorem questions_survive_reopening_witness:
  "\<exists>F' t. snd (snd (qai_close math_file disk)) = F' \<and> qai_open plain_env F' file_path True new_impl = (True, t) \<and>
     fst (snd (getQuestions t [])) = [\<lparr>prm_id = ''q1'', prm_question = ''1+1'', prm_answer = ''2'', prm_group = ''g1''\<rparr>]"
proof -
  have q: "questions_of math_file = [a_question]" "groups_of math_file = []" "qai_path math_file = file_path"
    "qal_unknown (qai_questions math_file) = []"
    by (simp_all add: math_file_def questions_of_def groups_of_def new_impl_def QuestionAnswerGroupList_default_def
        QuestionAnswerList_default_def)
  have w: "can_write disk file_path"
  proof -
    have "node_at disk [''C:'', ''qb'', ''math'', ''g1.dat''] = None" by (simp add: node_at_def disk_def)
    then show ?thesis by (simp add: can_write_def components_demo can_create_def node_at_disk) (simp add: disk_def)
  qed
  have u: "qa_writable utf8_valid a_question"
    by (simp add: qa_writable_def a_question_def QuestionAnswer_default_def)
  have len: "length (fst (QuestionAnswerList_SerializeToOstream (qai_questions math_file))) \<le> max_size"
  proof -
    have "length (fst (QuestionAnswerList_SerializeToOstream (qai_questions math_file))) \<le> 100" by code_simp
    then show ?thesis by (simp add: max_size_def)
  qed
  obtain s' F' where cl: "qai_close math_file disk = (Ret (), s', F')"
    using qai_close_questions [of math_file disk] q by (metis list.discI prod.collapse)
  show ?thesis
    using questions_survive_reopening [OF plain_env_parses _ _ q(2) _ q(4) len cl] u w q cl
    by (auto simp: param_of_def a_question_def path_parts)
qed

text \<open>C18. A file that cannot be opened for writing swallows its contents: \<open>close\<close> returns normally and
  the disk is what it was before.\<close>

theorem close_reports_nothing:
  assumes "\<not> can_write F (qai_path s)" "groups_of s \<noteq> [] \<or> questions_of s \<noteq> []"
  shows "fst (qai_close s F) = Ret () \<and> snd (snd (qai_close s F)) = F"
  using qai_close_swallowed [OF assms] by blast

theorem close_reports_nothing_witness:
  "snd (snd (qai_close math_file (disk\<lparr>fs_nodes := []\<rparr>))) = disk\<lparr>fs_nodes := []\<rparr>"
proof -
  have "\<not> can_write (disk\<lparr>fs_nodes := []\<rparr>) (qai_path math_file)" by (simp add: can_write_def can_create_def node_at_def)
  moreover have "questions_of math_file \<noteq> []" by (simp add: math_file_def questions_of_def)
  ultimately show ?thesis using close_reports_nothing by blast
qed

text \<open>The list of group ids is a store as well: any sequence of \<open>addGroup\<close>, \<open>deleteGroup\<close> and
  \<open>updateGroup\<close> on an open file is carried out like the same sequence on a finite map from ids to
  names, and never leaves the range of the repeated field.\<close>

theorem group_ids_refine_map:
  "impl_ok s \<Longrightarrow>
   \<exists>s'. run_store (group_step E) xs s = Ret (fst (spec_run xs (group_view s)), s') \<and> impl_ok s' \<and>
     group_view s' = snd (spec_run xs (group_view s))"
  by (rule group_store.run_refines)

theorem group_ids_refine_map_witness:
  "\<exists>s'. run_store (group_step plain_env) [Del ''g1'', Upd ''g1'' ''x'', Ins ''g1'' ''y''] ids_file = Ret ([True, False, True], s') \<and>
     group_view s' ''g1'' = Some ''y''"
  using group_ids_refine_map [OF ids_file_ok(1), of plain_env "[Del ''g1'', Upd ''g1'' ''x'', Ins ''g1'' ''y'']"] ids_file_ok(2)
  by auto

text \<open>Deleting a question keeps all others but not their order: the last one takes the place of
  the one that was deleted.\<close>

theorem deleteQuestion_moves_last:
  assumes "qai_path s \<noteq> []" "questions_of s = xs @ q # ys @ [z]" "\<And>x. x \<in> set xs \<Longrightarrow> qa_id x \<noteq> qid" "qa_id q = qid"
  shows "\<exists>s'. qai_deleteQuestion E qid s = Ret (True, s') \<and> questions_of s' = xs @ z # ys"
proof -
  have i: "find_question qid (questions_of s) = length xs"
    unfolding find_question_def assms(2) using assms(3,4) by (induction xs) auto
  have "first_with qa_id qid (questions_of s) \<noteq> None" unfolding first_with_None_iff assms(2) using assms(4) by auto
  then have "qai_deleteQuestion E qid s = Ret (True, with_questions (swap_remove (length xs) (questions_of s)) s)"
    using deleteQuestion_eq [OF assms(1), of E qid] i by auto
  moreover have "swap_remove (length xs) (questions_of s) = xs @ z # ys"
    unfolding assms(2) using swap_remove_snoc [of "length xs" "xs @ q # ys" z] by simp
  ultimately show ?thesis by simp
qed

theorem deleteQuestion_moves_last_witness:
  "\<exists>s'. qai_deleteQuestion plain_env ''q1'' (with_questions [a_question, a_question\<lparr>qa_id := ''q2''\<rparr>, a_question\<lparr>qa_id := ''q3''\<rparr>] math_file) =
      Ret (True, s') \<and> map qa_id (questions_of s') = [''q3'', ''q2'']"
  using deleteQuestion_moves_last [of "with_questions [a_question, a_question\<lparr>qa_id := ''q2''\<rparr>, a_question\<lparr>qa_id := ''q3''\<rparr>] math_file"
      "[]" a_question "[a_question\<lparr>qa_id := ''q2''\<rparr>]" "a_question\<lparr>qa_id := ''q3''\<rparr>" "''q1''" plain_env]
  by (auto simp: a_question_def math_file_def path_parts)

section \<open>Bytes\<close>

text \<open>C19. The size that is computed for a list before it is written, and cached in every element, is
  the number of bytes that are then written.\<close>

theorem computed_size_is_written_size:
  "fst (QuestionAnswerList_ByteSizeLong m) = length (fst (QuestionAnswerList_SerializeToOstream m)) \<and>
   fst (QuestionAnswerGroupList_ByteSizeLong g) = length (fst (QuestionAnswerGroupList_SerializeToOstream g)) \<and>
   fst (QuestionAnswer_ByteSizeLong q) = length (QuestionAnswer_InternalSerialize q) \<and>
   fst (QuestionAnswerGroup_ByteSizeLong h) = length (QuestionAnswerGroup_InternalSerialize h)"
  by (simp add: qal_size_length gl_size_length QuestionAnswer_size_length QuestionAnswerGroup_size_length)

text \<open>Any parser that keeps the contract of the protobuf library reads two lists written one after
  the other as the merge of the two, which is why appending to a file adds questions.\<close>

theorem concatenation_merges:
  assumes "protobuf_parser pq pg u"
    and "\<And>q. q \<in> set (qal_items m @ qal_items m') \<Longrightarrow> qa_writable u q" "qal_unknown m = []" "qal_unknown m' = []"
    and "length (fst (QuestionAnswerList_SerializeToOstream m) @ fst (QuestionAnswerList_SerializeToOstream m')) \<le> max_size"
  shows "pq (Some (fst (QuestionAnswerList_SerializeToOstream m) @ fst (QuestionAnswerList_SerializeToOstream m'))) =
    (True, QuestionAnswerList_default\<lparr>qal_items := map (\<lambda>q. q\<lparr>qa_cached := 0\<rparr>) (qal_items (QuestionAnswerList_MergeFrom m m'))\<rparr>)"
proof -
  let ?m = "QuestionAnswerList_MergeFrom m m'"
  have i: "qal_items ?m = qal_items m @ qal_items m'" "qal_unknown ?m = []"
    using assms(3,4) by (simp_all add: QuestionAnswerList_MergeFrom_def Repeated_MergeFrom_def)
  have b: "fst (QuestionAnswerList_SerializeToOstream ?m) =
      fst (QuestionAnswerList_SerializeToOstream m) @ fst (QuestionAnswerList_SerializeToOstream m')"
    using assms(3,4) by (simp add: qal_SerializeToOstream_bytes i)
  show ?thesis
    using protobuf_parser.parse_serialized_questions [OF assms(1), of ?m] assms(2,5) by (simp add: i b)
qed

theorem concatenation_merges_witness:
  "map qa_id (qal_items (snd (decode_questions utf8_valid (Some (
      fst (QuestionAnswerList_SerializeToOstream (qai_questions math_file)) @
      fst (QuestionAnswerList_SerializeToOstream (qai_questions math_file))))))) = [''q1'', ''q1'']"
proof -
  let ?m = "qai_questions math_file"
  have i: "qal_items ?m = [a_question]" "qal_unknown ?m = []"
    by (simp_all add: math_file_def QuestionAnswerList_default_def)
  have w: "\<And>q. q \<in> set (qal_items ?m @ qal_items ?m) \<Longrightarrow> qa_writable utf8_valid q"
    by (simp add: i qa_writable_def a_question_def QuestionAnswer_default_def)
  have l: "length (fst (QuestionAnswerList_SerializeToOstream ?m) @ fst (QuestionAnswerList_SerializeToOstream ?m)) \<le> max_size"
  proof -
    have "length (fst (QuestionAnswerList_SerializeToOstream ?m)) \<le> 100" by code_simp
    then show ?thesis by (simp add: max_size_def)
  qed
  show ?thesis
    using concatenation_merges [OF table_decoder.protobuf_parser_axioms w i(2) i(2) l]
    by (simp add: QuestionAnswerList_MergeFrom_def Repeated_MergeFrom_def i a_question_def)
qed

text \<open>Both ways of computing the size of a varint, from the index of the highest bit and from the
  number of leading zeros, give the number of bytes that are written for it.\<close>

theorem varint_sizes_agree:
  "VarintSize32 v = length (UnsafeVarint v) \<and> VarintSize32_lzcnt v = length (UnsafeVarint v)"
  by (simp add: VarintSize32_length VarintSize32_lzcnt_length)

section \<open>Messages to the user\<close>

text \<open>C23. A longer message loses its last character, which becomes a zero byte inside the string, so
  that the C string the caller sees is one character short; without memory it is cut to 255.\<close>

theorem long_message_loses_last_character:
  assumes "256 \<le> length (format_s fmt args)" "NUL \<notin> set fmt"
  shows "notebook_format_string True fmt args = butlast (format_s fmt args) @ [NUL] \<and>
    c_str (notebook_format_string True fmt args) = butlast (format_s fmt args) \<and>
    c_str (notebook_format_string False fmt args) = take 255 (format_s fmt args)"
proof -
  have n: "NUL \<notin> set (butlast (format_s fmt args))" "NUL \<notin> set (take 255 (format_s fmt args))"
    using format_s_nul_free [OF assms(2), of args] by (auto dest: in_set_butlastD in_set_takeD)
  show ?thesis
    using format_out_long [OF assms(1)] format_out_no_memory [OF assms(1)] c_str_append_NUL [OF n(1), of "[]"]
      c_str_append_NUL [OF n(2), of "[]"]
    by (simp add: notebook_format_string_def)
qed

theorem long_message_loses_last_character_witness:
  "length (c_str (notebook_format_string True (replicate 300 CHR ''x'') [])) = 299"
proof -
  have f: "format_s (replicate 300 CHR ''x'') [] = replicate 300 CHR ''x''" by (rule format_s_no_percent) simp
  have l: "256 \<le> length (format_s (replicate 300 CHR ''x'') [])" unfolding f by simp
  have n: "NUL \<notin> set (replicate 300 CHR ''x'')" by (simp add: NUL_def)
  have e: "c_str (notebook_format_string True (replicate 300 CHR ''x'') []) = butlast (replicate 300 CHR ''x'')"
    using long_message_loses_last_character [OF l n] unfolding f by (elim conjE)
  show ?thesis unfolding e by simp
qed

section \<open>Walking the tree widget\<close>

text \<open>C24. In a tree without empty groups the search returns, and what it returns is the question next
  to the item in document order, before it or after it as the flag says, and nothing at the ends.\<close>

theorem next_question_found:
  assumes "tree_widget T pos root" "item_at root (pos i) \<noteq> None" "no_empty_group root"
  shows "\<exists>r. findTreeWidgetItem T (Some i) flag = Some r \<and> map_option pos r = next_question flag root (pos i)"
  using tree_widget.walk_next [OF assms(1-3)] next_in_question [OF assms(3,2)] by (simp add: findTreeWidgetItem_def)

theorem next_question_found_witness:
  "findTreeWidgetItem (position_widget (Item True [Item True [Item False []], Item True [Item True [Item False []]]])) (Some [0, 0]) False =
     Some (Some [1, 0, 0])"
proof -
  let ?r = "Item True [Item True [Item False []], Item True [Item True [Item False []]]]"
  have "next_question False ?r [0, 0] = Some [1, 0, 0]" by (simp add: next_question_def)
  with next_question_found [OF position_widget.tree_widget_axioms, of ?r "[0, 0]" False] show ?thesis
    by (auto simp: option.map_ident)
qed

text \<open>C25. Where the search goes down into a group that begins (or, backwards, ends) with an empty
  group, it does not return: at the empty group the step is 0 and nothing changes any more.\<close>

theorem search_hangs_at_empty_group:
  assumes "tree_widget T pos root" "pos i = l @ [k]" "item_at root l = Some y" "k < length (itm_children y)"
    and "sibling flag (length (itm_children y)) k = Some j" "itm_children y ! j = Item True ds" "ds \<noteq> []"
    and "end_of flag ds = Item True []"
  shows "findTreeWidgetItem T (Some i) flag = None"
  using tree_widget.walk_hangs [OF assms] by (simp add: findTreeWidgetItem_def)

theorem search_hangs_at_empty_group_witness:
  "findTreeWidgetItem (position_widget (Item True [Item False [], Item True [Item True [], Item False []]])) (Some [0]) False = None"
  by (rule search_hangs_at_empty_group [OF position_widget.tree_widget_axioms, where l = "[]" and k = 0 and j = 1
        and y = "Item True [Item False [], Item True [Item True [], Item False []]]" and ds = "[Item True [], Item False []]"]) (simp_all add: sibling_def end_of_def)

section \<open>The disk\<close>

section \<open>Depth and shutdown\<close>

section \<open>Sessions\<close>

text \<open>C26. Whatever directory is opened, new or old, on a disk that refuses nothing: when no two of its directories
  have the same name and \<open>ids.dat\<close> lists no id twice, then in every state that a session of proper calls reaches
  the bank is consistent: ids name one group each, every group is in the table, and the table and the list
  behind \<open>ids.dat\<close> know the same ids.\<close>

theorem sessions_stay_consistent:
  assumes "init E path new_bank F = (Ret True, b0, F0)" "well_kept E F0 path" "fs_locked F = []"
    and "session E b0 F0 b F'"
  shows "bank_ok b"
proof -
  from init_bank_ok [OF assms(1,2)] have "bank_ok b0" "fs_locked F0 = []" using assms(3) by simp_all
  with session_ok [OF assms(4)] show ?thesis by blast
qed

theorem sessions_stay_consistent_witness:
  "\<exists>b0 r b F'. init plain_env ''C:/new'' new_bank disk = (Ret True, b0, new_disk) \<and> well_kept plain_env new_disk ''C:/new'' \<and>
     addGroup plain_env [] ''math'' ''g1'' b0 new_disk = (Ret r, b, F') \<and> bank_ok b"
proof -
  obtain b0 where b0: "init plain_env ''C:/new'' new_bank disk = (Ret True, b0, new_disk)" "bnk_mapIds b0 = []" "bank_ok b0"
    "bnk_root b0 = Group ''new'' [] ''C:/new'' [] []" using new_bank_opened by blast
  have w: "well_kept plain_env new_disk ''C:/new''"
    using new_directory(2) qai_open_missing [OF path_append_nonempty new_directory(3), of plain_env False]
    unfolding well_kept_def directory_names_def new_directory(1) by (simp add: groups_of_def)
  have p: "parent_at b0 [] [] (bnk_root b0)" by (simp add: parent_at_def)
  let ?math = "child_path (bnk_root b0) ''math''"
  have m: "components ?math = [''C:'', ''new'', ''math'']" by (simp add: b0(4) child_path_def sep_def is_sep_def)
  have "can_create new_disk (components ?math)" "\<not> fs_exists new_disk ?math"
    unfolding can_create_def fs_exists_def m new_disk_def by (simp_all add: node_at_put) (simp_all add: node_at_def disk_def put_node_def)
  then obtain b F' where a: "addGroup plain_env [] ''math'' ''g1'' b0 new_disk = (Ret True, b, F')"
    using addGroup_fresh [OF b0(3) _ _ _ p, of "''g1''" "''math''" plain_env new_disk] m b0(2)
    by (auto simp: has_key_def fs_create_directory_def fs_exists_def Let_def simp del: components.simps)
  have "session plain_env b0 new_disk b F'"
    by (rule session.called [OF session.started, of "AddGroup [] ''math'' ''g1''"]) (use a in simp_all)
  from sessions_stay_consistent [OF b0(1) w _ this] a b0(1) w show ?thesis by (auto simp: disk_def)
qed

text \<open>C27. In such a session no call but the deletion of a group has undefined behaviour.\<close>

theorem only_deletion_is_undefined:
  assumes "bank_ok b0" "fs_locked F0 = []" "session E b0 F0 b F" "proper x b" "\<And>pid gid. x \<noteq> DeleteGroup pid gid"
  shows "fst (perform E x b F) \<noteq> Undef"
  using session_defined [OF assms(3,1,2,4)] assms(5) by blast

theorem only_deletion_is_undefined_witness:
  "\<exists>b. init plain_env ''C:/new'' new_bank disk = (Ret True, b, new_disk) \<and> session plain_env b new_disk b new_disk \<and>
     fst (perform plain_env (AddGroup [] ''math'' ''g1'') b new_disk) \<noteq> Undef"
proof -
  obtain b where b: "init plain_env ''C:/new'' new_bank disk = (Ret True, b, new_disk)" "bank_ok b"
    using new_bank_opened by blast
  from only_deletion_is_undefined [OF b(2) new_directory(4) session.started, of "AddGroup [] ''math'' ''g1''" plain_env] b(1)
    session.started [of plain_env b new_disk] show ?thesis by auto
qed

section \<open>The window\<close>

text \<open>C3. When the bank can be opened, the constructor of the window builds a tree that mirrors it: for
  any widget that behaves as Qt documents, the items show the groups of the bank in their order
  with their names and ids, and under each group exactly its questions with their answers.\<close>

theorem window_shows_the_bank:
  assumes "qt_widget Q tree pos unused" "unused w" "alloc_ok E"
    and "init E (dir @ ''/QuestionBank'') new_bank F = (Ret True, b, F')"
  shows "\<exists>nb. new_notebook E Q dir w F = (Ret True, nb, F') \<and> nb_bank nb = Some b \<and>
    wf_shown (tree (nb_tree nb)) \<and> shown_catalog (tree (nb_tree nb)) = bank_catalog (bnk_root b)"
  using qt_widget.window_opens_with_mirror [OF assms] by (auto simp: mirrors_def)

theorem window_shows_the_bank_witness:
  "\<exists>nb b F'. new_notebook plain_env shown_widget ''C:'' (blank, None) disk = (Ret True, nb, F') \<and> nb_bank nb = Some b \<and>
     shown_catalog (fst (nb_tree nb)) = bank_catalog (bnk_root b)"
proof -
  obtain b F' where "init plain_env (''C:'' @ ''/QuestionBank'') new_bank disk = (Ret True, b, F')"
    using new_bank_opens by auto
  from window_shows_the_bank [OF shown_widget.qt_widget_axioms _ _ this, of "(blank, None)"] show ?thesis
    by (auto simp: plain_env_def)
qed

text \<open>C4. Whatever is done with questions in the window, in any order - pressing items, walking to
  the next and the previous question, showing answers, adding, deleting and changing questions -
  the tree goes on mirroring the bank, with unique ids in every group, whatever the bank reports.\<close>

theorem question_work_mirrors:
  assumes "qt_widget Q tree pos unused" "window_ok tree F nb" "question_work E Q T tree pos F nb nb'"
  shows "\<exists>b. nb_bank nb' = Some b \<and> mirrors (tree (nb_tree nb')) b \<and> bank_settled F b"
  using qt_widget.question_work_keeps [OF assms(1,3,2)] by (simp add: window_ok_def)

theorem question_work_mirrors_witness:
  "\<exists>nb' b. question_work plain_env shown_widget plain_text fst (\<lambda>_ p. p) disk (window [0]) nb' \<and>
     nb_bank nb' = Some b \<and> mirrors (fst (nb_tree nb')) b \<and> bank_settled disk b"
proof -
  obtain nb' F' where "onBtnClickedAddQuestion plain_env shown_widget plain_text [TypeQuestion ''2+2'', ConfirmQuestion] ''q2''
      (window [0]) disk = (Ret (), nb', F')"
    using question_added by blast
  then have "question_work plain_env shown_widget plain_text fst (\<lambda>_ p. p) disk (window [0]) nb'"
    using bank_tree_at(2) by (intro question_work.add [OF question_work.start]) (auto simp: catalog_math)
  with question_work_mirrors [OF shown_widget.qt_widget_axioms window_ok_window this] show ?thesis by blast
qed

text \<open>C5. Adding a group in the window keeps the mirror, whether the bank accepts the group or
  refuses it, wherever the selected group has an id (the top of the tree needs none).\<close>

theorem group_added_in_window:
  assumes "qt_widget Q tree pos unused" "nb_bank nb = Some b" "mirrors (tree (nb_tree nb)) b" "bank_ok b" "uid \<noteq> []"
    and "tr_currentItem Q (nb_tree nb) = Some i" "shown_at (tree (nb_tree nb)) (pos (nb_tree nb) i) = Some y"
      "sh_group y" "pos (nb_tree nb) i \<noteq> [] \<longrightarrow> sh_id y \<noteq> []"
    and "onBtnClickedAddGroup E Q es uid nb F = (Ret (), nb', F')"
  shows "\<exists>b'. nb_bank nb' = Some b' \<and> mirrors (tree (nb_tree nb')) b' \<and> bank_ok b'"
  using qt_widget.add_group_keeps_mirror [OF assms(1-7) _ assms(9,10)] group_all [OF _ assms(7,8)] assms(3)
  by (simp add: mirrors_def)

theorem group_added_in_window_witness:
  "\<exists>nb' F' b'. onBtnClickedAddGroup plain_env shown_widget [TypeName ''sums'', ConfirmGroup] ''g4'' (window [0]) disk =
     (Ret (), nb', F') \<and> nb_bank nb' = Some b' \<and> mirrors (fst (nb_tree nb')) b' \<and> bank_ok b'"
proof -
  obtain nb' F' where a: "onBtnClickedAddGroup plain_env shown_widget [TypeName ''sums'', ConfirmGroup] ''g4'' (window [0]) disk =
     (Ret (), nb', F')"
    using group_added by blast
  have g: "sh_group (put_children [group_node ''sets'' ''g3'', question_node ''1+1'' ''q1'' ''2''] (group_node ''math'' ''g1''))"
    by simp
  from group_added_in_window [OF shown_widget.qt_widget_axioms _ _ bank_ok_bank _ _ _ g _ a, of "[0]"] mirrors_bank a
  show ?thesis by (simp add: bank_tree_at)
qed

text \<open>C6. When the deletion of a group in the window returns, on a disk that refuses nothing, the item has
  left the tree, and nothing else of the tree has changed; the group's id is in the table no more and
  exactly that id has left the bank's tree. The tree mirrors the bank, which is consistent.\<close>

theorem group_deleted_in_window:
  assumes "qt_widget Q tree pos unused" "nb_bank nb = Some b" "mirrors (tree (nb_tree nb)) b" "bank_ok b" "fs_locked F = []"
    and "tr_currentItem Q (nb_tree nb) = Some i" "shown_at (tree (nb_tree nb)) (pos (nb_tree nb) i) = Some z"
      "sh_group z" "pos (nb_tree nb) i = p @ [k]" "shown_at (tree (nb_tree nb)) p = Some y"
      "p \<noteq> [] \<longrightarrow> sh_id y \<noteq> []" "sh_id z \<noteq> []"
    and "onBtnClickedDeleteGroup E Q nb F = (Ret (), nb', F')"
  shows "tree (nb_tree nb') = change_at p (\<lambda>y. put_children (erase_at k (sh_children y)) y) (tree (nb_tree nb)) \<and>
    (\<exists>b'. nb_bank nb' = Some b' \<and> mirrors (tree (nb_tree nb')) b' \<and> bank_ok b' \<and> \<not> has_key (sh_id z) (bnk_mapIds b') \<and>
      set (named_ids (bnk_root b')) = set (named_ids (bnk_root b)) - {sh_id z})"
  by (rule qt_widget.delete_group_keeps_mirror [OF assms])

theorem group_deleted_in_window_witness:
  "\<exists>nb' F' b'. onBtnClickedDeleteGroup plain_env shown_widget (window [1]) disk = (Ret (), nb', F') \<and>
     length (sh_children (fst (nb_tree nb'))) = 1 \<and>
     nb_bank nb' = Some b' \<and> mirrors (fst (nb_tree nb')) b' \<and> bank_ok b' \<and> ''g2'' \<notin> set (named_ids (bnk_root b'))"
proof -
  obtain nb' F' where d: "onBtnClickedDeleteGroup plain_env shown_widget (window [1]) disk = (Ret (), nb', F')"
    using group_deleted by blast
  have "fs_locked disk = []" by (simp add: disk_def)
  from group_deleted_in_window [OF shown_widget.qt_widget_axioms _ _ bank_ok_bank this _ _ _ _ _ _ _ d,
      of "[1]" "group_node ''art'' ''g2''" "[]" 1 bank_tree] mirrors_bank d
  show ?thesis by (auto simp: bank_tree_at erase_at_def bank_tree_def)
qed

text \<open>C7. Renaming a group in the window: the tree mirrors the bank afterwards exactly when no error
  was reported, or the name was kept. The bank takes the new name into its tree before the
  directory is renamed and keeps it when that fails, while the item still shows the old name.\<close>

theorem group_renamed_in_window:
  assumes "qt_widget Q tree pos unused" "nb_bank nb = Some b" "mirrors (tree (nb_tree nb)) b" "bank_ok b"
    and "tr_currentItem Q (nb_tree nb) = Some i" "shown_at (tree (nb_tree nb)) (pos (nb_tree nb) i) = Some z"
      "sh_group z" "pos (nb_tree nb) i = p @ [k]" "shown_at (tree (nb_tree nb)) p = Some y"
      "p \<noteq> [] \<longrightarrow> sh_id y \<noteq> []" "sh_id z \<noteq> []"
    and "gd_exec es (setGroupName T (sh_text z) new_group_dashboard) = (True, gd)"
    and "onBtnClickedModifyGroup E Q T es nb F = (Ret (), nb', F')"
  shows "\<exists>b'. nb_bank nb' = Some b' \<and> bank_ok b' \<and>
    (mirrors (tree (nb_tree nb')) b' \<longleftrightarrow> nb_notices nb' = nb_notices nb \<or> getGroupName gd = sh_text z)"
  by (rule qt_widget.modify_group_mirrors [OF assms])

theorem group_renamed_in_window_witness:
  "\<exists>nb' F' b'. onBtnClickedModifyGroup plain_env shown_widget plain_text [TypeName ''math'', ConfirmGroup] (window [1]) disk =
     (Ret (), nb', F') \<and> nb_bank nb' = Some b' \<and> bank_ok b' \<and> \<not> mirrors (fst (nb_tree nb')) b'"
proof -
  obtain nb' F' where m: "onBtnClickedModifyGroup plain_env shown_widget plain_text [TypeName ''math'', ConfirmGroup] (window [1]) disk =
     (Ret (), nb', F')" "nb_notices nb' \<noteq> []"
    using rename_refused by blast
  obtain gd where gd: "gd_exec [TypeName ''math'', ConfirmGroup] (setGroupName plain_text ''art'' new_group_dashboard) = (True, gd)"
    "getGroupName gd = ''math''"
    by (simp add: Let_def gd_slots setGroupName_def new_group_dashboard_def getGroupName_def)
  from group_renamed_in_window [OF shown_widget.qt_widget_axioms _ _ bank_ok_bank _ _ _ _ _ _ _ _ m(1),
      of "[1]" "group_node ''art'' ''g2''" "[]" 1 bank_tree gd] mirrors_bank m gd
  show ?thesis by (simp add: bank_tree_at)
qed

text \<open>A window whose bank could not be opened stays open without a bank: the constructor does not
  look at the result of \<open>initQuestionBank\<close>, and confirming the name of a new group then follows
  the null pointer.\<close>

theorem window_without_bank_undefined:
  assumes "alloc_ok E" "init E (dir @ ''/QuestionBank'') new_bank F = (Ret False, b, F1)"
    and "new_notebook E Q dir w F = (r, nb, F2)"
    and "tr_currentItem Q (nb_tree nb) = Some i" "gd_exec es new_group_dashboard = (True, gd)"
  shows "r = Ret False \<and> nb_notices nb = [InitFailed] \<and> fst (onBtnClickedAddGroup E Q es uid nb F3) = Undef"
proof -
  obtain c w1 where "tr_newTop Q w = (c, w1)" by fastforce
  then have "r = Ret False" "nb_bank nb = None" "nb_notices nb = [InitFailed]"
    using assms(1-3) by (auto simp: new_notebook_def window_initQuestionBank_def notify_def Let_def)
  then show ?thesis using assms(4,5) by (simp add: onBtnClickedAddGroup_def on_item_def on_bank_def)
qed

theorem window_without_bank_undefined_witness:
  "\<exists>nb F2. new_notebook unreadable_env shown_widget ''C:'' (blank, Some []) unreadable_disk = (Ret False, nb, F2) \<and>
     fst (onBtnClickedAddGroup unreadable_env shown_widget [TypeName ''sums'', ConfirmGroup] ''g4'' nb F2) = Undef"
proof -
  obtain b F1 where i: "init unreadable_env (''C:'' @ ''/QuestionBank'') new_bank unreadable_disk = (Ret False, b, F1)"
    using unreadable_bank by auto
  obtain r nb F2 where n: "new_notebook unreadable_env shown_widget ''C:'' (blank, Some []) unreadable_disk = (r, nb, F2)"
    by (metis prod_cases3)
  obtain gd where g: "gd_exec [TypeName ''sums'', ConfirmGroup] new_group_dashboard = (True, gd)"
    by (simp add: Let_def gd_slots new_group_dashboard_def)
  have "snd (nb_tree nb) = Some []"
    using n i by (auto simp: new_notebook_def window_initQuestionBank_def notify_def Let_def shown_widget_def unreadable_env_def
        plain_env_def)
  then have "tr_currentItem shown_widget (nb_tree nb) = Some []" by simp
  from window_without_bank_undefined [OF _ i n this g, of "''g4''" F2] n show ?thesis
    by (auto simp: unreadable_env_def plain_env_def)
qed

section \<open>Dialogs and the language model\<close>

text \<open>In the dialog for a question at most one question waits for its reply at any time, and the
  button to ask is enabled exactly when none does, through any order of typing, clicking and
  replies.\<close>

theorem one_question_waits:
  assumes "dialog T d n"
  shows "length (qd_asked d) - n = (if qd_btnAnswer d then 0 else 1) \<and> n \<le> length (qd_asked d)"
  using dialog_asks_once [OF assms] by simp

theorem one_question_waits_witness:
  "\<exists>d. dialog plain_text d 1 \<and> qd_btnAnswer d \<and> qd_asked d = [''2+2''] \<and> getAnswer d = ''4''"
proof -
  let ?d = "qd_step plain_text ClickAnswer (qd_step plain_text (TypeQuestion ''2+2'') new_question_dashboard)"
  have d: "dialog plain_text ?d 0" by (intro dialog.user dialog.opened) simp_all
  have a: "qd_asked ?d = [''2+2'']" by (simp add: qd_slots plain_text_def new_question_dashboard_def Let_def)
  have r: "dialog plain_text (qd_step plain_text (Answered ''4'') ?d) (Suc 0)" using a by (intro dialog.reply [OF d]) simp_all
  from one_question_waits [OF r] a have "qd_btnAnswer (qd_step plain_text (Answered ''4'') ?d)"
    by (simp add: onRecvAnswer_def)
  with r a show ?thesis
    by (intro exI [of _ "qd_step plain_text (Answered ''4'') ?d"]) (simp add: onRecvAnswer_def getAnswer_def)
qed

text \<open>C21. A dialog that is confirmed while the reply is still awaited stores the placeholder: the
  text that says that the program is waiting becomes the answer of the new question in the bank.\<close>

theorem waiting_text_becomes_answer:
  assumes "nb_bank nb = Some b" "tr_currentItem Q (nb_tree nb) = Some i"
    and "context_ok E F (toString (tr_data Q (nb_tree nb) i NOTEBOOK_ROLE_ID)) b"
    and "bank_view E F (toString (tr_data Q (nb_tree nb) i NOTEBOOK_ROLE_ID)) b uid = None"
    and "question \<noteq> []" "trimmed T question \<noteq> []"
  shows "\<exists>nb' b' b''. onBtnClickedAddQuestion E Q T [TypeQuestion question, ClickAnswer, ConfirmQuestion] uid nb F =
      (Ret (), nb', F) \<and> nb_bank nb' = Some b' \<and>
    queryQuestion E (toString (tr_data Q (nb_tree nb) i NOTEBOOK_ROLE_ID)) uid out b' F =
      (Ret (True, shown_text T waiting_text), b'', F)"
proof -
  let ?gid = "toString (tr_data Q (nb_tree nb) i NOTEBOOK_ROLE_ID)" and ?text = "shown_text T waiting_text"
  obtain d where d: "qd_exec T [TypeQuestion question, ClickAnswer, ConfirmQuestion] new_question_dashboard = (True, d)"
    "getQuestion d = question" "getAnswer d = ?text"
    using assms(5,6) by (simp add: qd_slots new_question_dashboard_def getQuestion_def getAnswer_def Let_def)
  obtain b' where b': "bank_question_step E F ?gid (Ins uid (question, ?text)) b = Ret (True, b')"
    "context_ok E F ?gid b'" "bank_view E F ?gid b' uid = Some (question, ?text)"
    using bank_question_step_spec [OF assms(3), of "Ins uid (question, ?text)"] assms(4)
      bank_questions.ins_then_view [OF assms(3)] by auto
  then have a: "addQuestion E ?gid uid question ?text b F = (Ret (True, ()), b', F)"
    using addQuestion_run by fastforce
  obtain b'' where "queryQuestion E ?gid uid out b' F = (Ret (True, ?text), b'', F)"
    using queryQuestion_found [OF b'(2), of uid out] b'(3) by auto
  then show ?thesis
    using assms(1,2) d a
    by (simp add: onBtnClickedAddQuestion_def on_item_def on_bank_def Let_def del: qd_exec.simps split: prod.split)
qed

theorem waiting_text_becomes_answer_witness:
  "\<exists>nb' b' b''. onBtnClickedAddQuestion plain_env shown_widget plain_text
      [TypeQuestion ''2+2'', ClickAnswer, ConfirmQuestion] ''q2'' (window [0]) disk = (Ret (), nb', disk) \<and>
     nb_bank nb' = Some b' \<and> queryQuestion plain_env ''g1'' ''q2'' [] b' disk = (Ret (True, waiting_text), b'', disk)"
proof -
  have v: "bank_view plain_env disk ''g1'' bank ''q2'' = None"
    by (simp add: bank_view_def math_context math_file_def question_view_def questions_of_def a_question_def)
  have "toString (tr_data shown_widget (nb_tree (window [0])) [0] NOTEBOOK_ROLE_ID) = ''g1''" by (simp add: math_item)
  with waiting_text_becomes_answer [of "window [0]" bank shown_widget "[0]" plain_env disk "''q2''" "''2+2''" plain_text "[]"]
    math_context_ok v
  show ?thesis by (simp add: plain_text_def)
qed

text \<open>C22. An answer is reported to the dialog exactly when the reply came without a network error and
  its JSON has an object \<open>output\<close> with a non-empty array \<open>choices\<close> whose first element has a
  member \<open>message\<close>; everything else the reply may hold is reported as an error. The answer is
  the string \<open>content\<close> of that message, empty when there is none.\<close>

theorem answer_reported_iff:
  assumes "json_values J"
  shows "onReplyFinished T J r = answerReceived answer \<longleftrightarrow>
    (\<exists>data output_obj c cs v. r = Received data \<and>
       map_of (js_fromJson J data) ''output'' = Some (js_object J output_obj) \<and>
       map_of output_obj ''choices'' = Some (js_array J (c # cs)) \<and>
       map_of (js_toObject J c) ''message'' = Some v \<and>
       answer = js_toString J (js_value J (js_toObject J v) ''content''))"
proof -
  have "onReplyFinished T J r = answerReceived answer \<longleftrightarrow>
      (\<exists>data. r = Received data \<and> reply_answer J (js_fromJson J data) = Some answer)"
    by (cases r) (auto simp: onReplyFinished_def Let_def split: option.splits)
  then show ?thesis unfolding json_values.reply_answer_iff [OF assms] by blast
qed

theorem answer_reported_iff_witness:
  "onReplyFinished plain_text
     (json_tree (\<lambda>_. []) (\<lambda>_. [(''output'', JObject [(''choices'', JArray [JObject [(''message'', JObject [(''content'', JString ''4'')])]])])]))
     (Received ''reply'') = answerReceived ''4''"
  unfolding answer_reported_iff [OF json_tree.json_values_axioms]
  by (simp add: json_tree_def js_value_def)

section \<open>Reading varints\<close>

text \<open>C20. The routines that read tags agree with each other in every memory, and so do those that read 64-bit and
  those that read 32-bit varints: the short cuts together with the
  library behind them, the rotation of a register in \<open>ReadTagInlined\<close>, two bytes at a time, ten bytes
  at once on 64-bit ARM and the sign extension of \<open>ShiftMixParseVarint\<close> find the same length and
  the same value, or all report the null pointer.\<close>

theorem varint_readers_agree:
  assumes "varint_library tag_rest size_rest slow32 slow64"
  shows "ReadTag tag_rest p = ReadTagInlined p \<and>
    VarintParse slow64 p = ParseBigVarint p \<and>
    VarintParse_arm VarintParseSlowArm64 p = ParseBigVarint p \<and>
    VarintParse slow32 p = VarintParse_arm VarintParseSlowArm32 p \<and>
    ShiftMixParseVarint True 10 p =
      (case ParseBigVarint p of None \<Rightarrow> (None, scast (p 0)) | Some (n, v) \<Rightarrow> (Some n, v))"
  by (simp add: varint_library.ReadTag_read [OF assms] varint_library.VarintParse_read [OF assms] ReadTagInlined_read
      ParseBigVarint_read VarintParse_arm_read ShiftMix_wide read_tag_def read_narrow_def)

theorem varint_readers_agree_witness:
  "ReadTag (\<lambda>p _. ReadTagInlined p) (\<lambda>k. if k = 0 then 0xAC else 0x02) =
     ReadTagInlined (\<lambda>k. if k = 0 then 0xAC else 0x02)"
  using varint_readers_agree [OF inlined.varint_library_axioms] by simp

text \<open>What \<open>UnsafeVarint\<close> writes, one to five bytes, is what each of the readers finds in memory, whatever
  follows.\<close>

theorem written_varint_is_read:
  assumes "holds p (UnsafeVarint v @ rest)"
  shows "0 < length (UnsafeVarint v) \<and> length (UnsafeVarint v) \<le> 5 \<and>
    ReadTagInlined p = Some (length (UnsafeVarint v), v) \<and>
    ParseBigVarint p = Some (length (UnsafeVarint v), ucast v) \<and>
    VarintParse_arm VarintParseSlowArm32 p = Some (length (UnsafeVarint v), v) \<and>
    ShiftMixParseVarint True 10 p = (Some (length (UnsafeVarint v)), ucast v)"
proof -
  have l: "length (varint (unat v)) \<le> 5" using length_varint_32 [OF unat_32] .
  have n: "varint (unat v) \<noteq> []" by (subst varint.simps) simp
  have r: "varint_read m p = Some (length (varint (unat v)), of_nat (unat v))" if "5 \<le> m" for m
    using varint_read_take [OF assms, of m "unat v" rest] take_varint_varint [OF order_trans [OF l that], of rest]
    by (simp add: UnsafeVarint_varint)
  have u: "of_nat (unat v) = (ucast v :: 64 word)" "ucast (ucast v :: 64 word) = v"
    by (simp, rule bit_word_eqI, simp add: bit_unsigned_iff)
  show ?thesis
    using l n r [of 5] r [of 10]
    by (simp add: UnsafeVarint_varint ReadTagInlined_read ParseBigVarint_read VarintParse_arm_read ShiftMix_wide u)
qed

theorem written_varint_is_read_witness:
  "ReadTagInlined (\<lambda>k. of_nat (of_char (UnsafeVarint 300 ! k))) = Some (length (UnsafeVarint 300), 300)"
  using written_varint_is_read [of "\<lambda>k. of_nat (of_char (UnsafeVarint 300 ! k))" 300 "[]"] by (simp add: holds_def)

text \<open>The decoder that reads the files of the bank works on strings. It reads tags and sizes as the
  inline routines read them in memory.\<close>

theorem decoder_reads_as_in_memory:
  assumes "varint_library tag_rest size_rest slow32 slow64" "holds p s"
  shows "(\<forall>n r. take_tag s = Some (n, r) \<longrightarrow> ReadTag tag_rest p = Some (length s - length r, of_nat n)) \<and>
    (\<forall>n r. take_size s = Some (n, r) \<longrightarrow> ReadSize size_rest p = Some (length s - length r, of_nat n))"
proof (intro conjI allI impI)
  fix n r
  assume "take_tag s = Some (n, r)"
  then obtain v where v: "take_varint 5 s = Some (v, r)" "n = v mod 2 ^ 32" by (auto simp: take_tag_def)
  have "n = take_bit 32 v" using v(2) by (simp only: take_bit_eq_mod)
  then have "ucast (of_nat v :: 64 word) = (of_nat n :: 32 word)" by (intro bit_word_eqI) (simp add: bit_simps)
  then show "ReadTag tag_rest p = Some (length s - length r, of_nat n)"
    using varint_read_take [OF assms(2) v(1)]
    by (simp add: varint_library.ReadTag_read [OF assms(1)] read_tag_def)
next
  fix n r
  assume "take_size s = Some (n, r)"
  then have v: "take_varint 5 s = Some (n, r)" "n \<le> max_size" by (auto simp: take_size_def split: option.splits if_splits)
  have u: "unat (of_nat n :: 64 word) = n" using v(2) by (simp add: max_size_def unsigned_of_nat take_bit_nat_eq_self)
  moreover have "ucast (of_nat n :: 64 word) = (of_nat n :: 32 word)" by (rule bit_word_eqI) (simp add: bit_simps)
  ultimately show "ReadSize size_rest p = Some (length s - length r, of_nat n)"
    using varint_read_take [OF assms(2) v(1)] v(2)
    by (simp add: varint_library.ReadSize_read [OF assms(1)] read_size_def)
qed

theorem decoder_reads_as_in_memory_witness:
  "ReadTag (\<lambda>p _. ReadTagInlined p) (\<lambda>k. of_nat (of_char (''ab'' ! k))) = Some (1, 97)"
proof -
  have h: "holds (\<lambda>k. of_nat (of_char (''ab'' ! k))) ''ab''" by (simp add: holds_def)
  have five: "5 = Suc 4" by simp
  have "take_tag ''ab'' = Some (97, ''b'')" unfolding take_tag_def five take_varint.simps by simp
  with decoder_reads_as_in_memory [OF inlined.varint_library_axioms h] show ?thesis by auto
qed

text \<open>With a limit below ten \<open>ShiftMixParseVarint\<close> stops at the limit when no byte before it ends the varint,
  and what it then promises to the compiler, that the result is negative, is true.\<close>

theorem limited_parse_is_negative:
  assumes "0 < limit" "limit < 10" "varint_length limit p = None"
  shows "fst (ShiftMixParseVarint is64 limit p) = Some limit \<and> sint (snd (ShiftMixParseVarint is64 limit p)) < 0"
  using ShiftMix_limit [OF assms(1,2)] assms(3) by (simp add: varint_length_None not_le)

theorem limited_parse_is_negative_witness:
  "fst (ShiftMixParseVarint True 3 (\<lambda>_. 0xFF)) = Some 3"
proof -
  have "varint_length 3 (\<lambda>_. 0xFF) = None" by (simp add: varint_length_None continues_def)
  with limited_parse_is_negative [of 3 "\<lambda>_. 0xFF" True] show ?thesis by simp
qed

section \<open>Repeated fields\<close>

text \<open>C28. A repeated field with its pointers - one element in place, an array that grows, cleared objects
  kept for reuse - behaves like the list it stands for: a sequence of adding, writing, swapping,
  removing, clearing, deleting and handing over elements that is defined on lists runs without
  following a bad pointer, and leaves the field standing for the resulting list.\<close>

theorem repeated_field_refines_list:
  assumes "field_library grow close_gap" "represents C f h xs"
    and "run_steps (list_step (cls_blank C)) (map (map_field_op (cls_view C)) ops) xs = Some ys"
    and "\<And>m. cls_view C (cls_Clear C m) = cls_blank C"
  shows "\<exists>f' h'. run_steps (field_step grow close_gap C) ops (f, h) = Some (f', h') \<and> represents C f' h' ys"
  using assms by (rule field_library.field_refines_list)

text \<open>The class of questions, an empty field in an empty store.\<close>

definition question_class :: "QuestionAnswer message_class" where
  "question_class = \<lparr>cls_view = \<lambda>m. m\<lparr>qa_cached := 0\<rparr>, cls_default = QuestionAnswer_default, cls_Clear = QuestionAnswer_Clear, cls_MergeFrom = QuestionAnswer_MergeFrom\<rparr>"

theorem repeated_field_refines_list_witness:
  "\<exists>f' h'. run_steps (field_step grow_twice move_down question_class)
      [OpAdd, OpWrite 0 (QuestionAnswer_default\<lparr>qa_id := ''q1''\<rparr>), OpAdd, OpSwap 0 1, OpRemoveLast, OpAdd]
      (new_field None, \<lparr>hp_next = 0, hp_obj = \<lambda>_. None\<rparr>) = Some (f', h') \<and>
     represents question_class f' h' [QuestionAnswer_default, QuestionAnswer_default]"
proof -
  have c: "cls_view question_class (cls_Clear question_class m) = cls_blank question_class" for m
    by (simp add: question_class_def cls_blank_def QuestionAnswer_Clear_def QuestionAnswer_default_def)
  have e: "represents question_class (new_field None) \<lparr>hp_next = 0, hp_obj = \<lambda>_. None\<rparr> []"
    unfolding represents_def by (intro exI [of _ "[]"] owns_new_field) (simp add: wf_heap_def)
  show ?thesis
    by (rule repeated_field_refines_list [OF doubling.field_library_axioms e _ c])
      (simp add: Add_def Mutable_def SwapElements_def RemoveLast_def question_class_def cls_blank_def QuestionAnswer_default_def)
qed

text \<open>C29. The destructor of a field that is not on an arena frees every object of the field, in use or
  cleared, exactly once, and no other object.\<close>

theorem destructor_frees_exactly_its_objects:
  assumes "owns C f h ps xs" "NeedsDestroy f" "arena f = None"
  shows "\<exists>h'. Destroy f h = Some h' \<and> (\<forall>q. hp_obj h' q = (if q \<in> set ps then None else hp_obj h q))"
  using Destroy_owns [OF assms] by simp

theorem destructor_frees_exactly_its_objects_witness:
  "\<exists>f h h'. AddInternal grow_twice question_class (new_field None) \<lparr>hp_next = 0, hp_obj = \<lambda>_. None\<rparr> = Some (0, f, h) \<and>
     Destroy f h = Some h' \<and> hp_obj h' 0 = None"
proof -
  let ?h = "\<lparr>hp_next = 0, hp_obj = \<lambda>_. None :: (QuestionAnswer \<times> arena) option\<rparr>"
  have "owns question_class (new_field None) ?h [] []" by (rule owns_new_field) (simp add: wf_heap_def)
  from doubling.AddInternal_owns [OF this] obtain p f h ps where
    a: "AddInternal grow_twice question_class (new_field None) ?h = Some (p, f, h)" "arena f = None"
      "owns question_class f h ps [cls_blank question_class]" "ps ! 0 = p" by (auto simp: new_field_def)
  then have p: "p = 0" "NeedsDestroy f"
    by (auto simp: AddInternal_def new_field_def handler_New_def new_object_def ExchangeCurrentSize_def NeedsDestroy_def)
  have "ps \<noteq> []" using ownsD(5) [OF a(3)] by auto
  then have "0 \<in> set ps" using a(4) p(1) by (metis length_greater_0_conv nth_mem)
  with destructor_frees_exactly_its_objects [OF a(3) p(2) a(2)] a(1) p(1) show ?thesis by auto
qed

section \<open>The input of a parse\<close>

text \<open>C30. Pushing a limit does not overflow, wherever in the buffer or its slop the pointer is: a limit of \<open>n\<close> bytes
  ends \<open>n\<close> bytes behind the pointer, the invariant between limit and end of the buffer holds, and the token is negative
  exactly when the new limit lies behind the old one.\<close>

theorem push_limit_exact:
  assumes "in_buffer ptr s" "0 \<le> n" "n \<le> INT_MAX - kSlopBytes" "0 \<le> until_limit ptr s" "until_limit ptr s \<le> INT_MAX"
  shows "\<exists>token s'. PushLimit ptr n s = Some (token, s') \<and> limits_ok s' \<and> until_limit ptr s' = n \<and>
    BytesUntilLimit ptr s' = Some n \<and> (token < 0 \<longleftrightarrow> until_limit ptr s < n)"
proof -
  obtain token s' where p: "PushLimit ptr n s = Some (token, s')" "token = until_limit ptr s - n"
    "s' = s\<lparr>limit_end := buffer_end s + min 0 (n + (ptr - buffer_end s)), in_limit := n + (ptr - buffer_end s)\<rparr>"
    using PushLimit_exact [OF assms] by simp
  have u: "until_limit ptr s' = n" "in_buffer ptr s'" using assms(1) p(3) by (simp_all add: until_limit_def in_buffer_def)
  then have "BytesUntilLimit ptr s' = Some n"
    using BytesUntilLimit_exact [of ptr s'] assms(2,3) by (simp add: kSlopBytes_def INT_MAX_def)
  then show ?thesis using p(1,2) u PushLimit_SomeD(1) [OF p(1)] by auto
qed

definition example_context :: "string \<Rightarrow> unit ParseContext" where
  "example_context bytes =
     \<lparr>limit_end = int (length bytes), buffer_end = int (length bytes), next_chunk = None, in_size = 0, in_limit = 0, zcis = (),
      patch_buffer = 0, aliasing = 0, last_tag_minus_1 = 0, overall_limit = 0,
      in_memory = (\<lambda>k. if k < length bytes then of_nat (of_char (bytes ! k)) else 0), depth = 100, group_depth = 0\<rparr>"

theorem push_limit_exact_witness:
  "\<exists>token s'. PushLimit 1 2 (example_context [CHR 0x02, CHR 0x08, CHR 0x05]) = Some (token, s') \<and> until_limit 1 s' = 2"
proof -
  have "in_buffer 1 (example_context [CHR 0x02, CHR 0x08, CHR 0x05])" "until_limit 1 (example_context [CHR 0x02, CHR 0x08, CHR 0x05]) = 2"
    by (simp_all add: example_context_def in_buffer_def until_limit_def kSlopBytes_def INT_MAX_def)
  then show ?thesis
    using push_limit_exact [of 1 "example_context [CHR 0x02, CHR 0x08, CHR 0x05]" 2] by (auto simp: kSlopBytes_def INT_MAX_def)
qed

text \<open>C31. Messages nest: a parse loop whose fields leave the limits alone can be the parser of a length-delimited
  field or of a group, and the field then leaves the limits alone as well: the place of the limit in the stream, the
  depth and the depth of groups are what they were, no tag is left over, and the pointer has not left the slop.\<close>

theorem messages_nest:
  assumes "parse_library DoneFallback pos tag_rest size_rest slow32 slow64"
    and "\<forall>n. steady pos (delimited_parser P n)" "\<forall>n. steady pos (group_parser P n)"
  shows "steady pos (ParseLengthDelimitedInlined size_rest (WireFormatParser DoneFallback tag_rest (FieldParser slow64 P))) \<and>
    steady pos (ParseGroupInlined tag (WireFormatParser DoneFallback tag_rest (FieldParser slow64 P)))"
proof -
  have "exact pos (WireFormatParser DoneFallback tag_rest (FieldParser slow64 P))"
    by (rule parse_library.WireFormatParser_exact [OF assms(1)], rule allI)
      (rule parse_library.FieldParser_steady [OF assms])
  then show ?thesis
    using parse_library.ParseLengthDelimited_steady [OF assms(1)] parse_library.ParseGroup_steady [OF assms(1)] by blast
qed

text \<open>Fields that collect numbers and refuse anything else.\<close>

definition numbers :: "(64 word list, 'c) field_parser" where
  "numbers =
     \<lparr>AddVarint = \<lambda>n v m. m @ [v], AddFixed64 = \<lambda>n v m. m @ [v], AddFixed32 = \<lambda>n v m. m @ [v],
      delimited_parser = \<lambda>n ptr m c. Some (None, m, c), group_parser = \<lambda>n ptr m c. Some (None, m, c)\<rparr>"

theorem messages_nest_witness:
  "steady (view_pos 3) (ParseLengthDelimitedInlined inline_size (WireFormatParser view_DoneFallback (\<lambda>p _. ReadTagInlined p)
     (FieldParser (\<lambda>p _. ParseBigVarint p) (numbers :: (_, unit ParseContext) field_parser))))"
  using messages_nest [OF viewed.parse_library_axioms [of 3], where P = numbers] by (simp add: numbers_def steady_def) blast

text \<open>C32. A length-delimited field is read exactly: when its parser succeeds, the pointer is behind the prefix and as
  many bytes as it says, in whichever buffer they are; the limit is at the same place of the stream as before and well
  formed, the depth and the depth in groups are as before, no tag is left over and the pointer is in the slop.\<close>

theorem delimited_field_read_exactly:
  assumes "parse_library DoneFallback pos tag_rest size_rest slow32 slow64"
    and "\<forall>n. steady pos (delimited_parser P n)" "\<forall>n. steady pos (group_parser P n)"
    and "ParseLengthDelimitedInlined size_rest (WireFormatParser DoneFallback tag_rest (FieldParser slow64 P)) ptr m c =
      Some (Some p, m', c')"
    and "limits_ok c" "EndedAtLimit c" "in_slop 5 ptr c"
  shows "\<exists>k n. ReadSize size_rest (at_address (in_memory c) ptr) = Some (k, n) \<and>
    place pos p c' = place pos ptr c + int k + sint n \<and> 0 < depth c \<and>
    pos c' + in_limit c' = pos c + in_limit c \<and> depth c' = depth c \<and> group_depth c' = group_depth c \<and>
    limits_ok c' \<and> EndedAtLimit c' \<and> in_slop kSlopBytes p c'"
proof -
  have e: "exact pos (WireFormatParser DoneFallback tag_rest (FieldParser slow64 P))"
    by (rule parse_library.WireFormatParser_exact [OF assms(1)], rule allI)
      (rule parse_library.FieldParser_steady [OF assms(1-3)])
  show ?thesis
    by (rule parse_library.delimited_exact [OF assms(1) e assms(4-7)])
      (simp add: same_place_def varint_library.ReadSize_read [OF parse_library.axioms(2) [OF assms(1)]])
qed

theorem delimited_field_read_exactly_witness:
  "\<exists>m c'. ParseLengthDelimitedInlined inline_size (WireFormatParser view_DoneFallback (\<lambda>p _. ReadTagInlined p)
      (FieldParser (\<lambda>p _. ParseBigVarint p) numbers)) 0 [] (example_context [CHR 0x02, CHR 0x08, CHR 0x05]) = Some (Some 3, m, c') \<and>
     place (view_pos 3) 3 c' = 3 \<and> depth c' = 100 \<and> in_limit c' = in_limit (example_context [CHR 0x02, CHR 0x08, CHR 0x05])"
proof -
  let ?c = "example_context [CHR 0x02, CHR 0x08, CHR 0x05]"
  have M: "at_address (in_memory ?c) 0 0 = 2" "at_address (in_memory ?c) 1 0 = 8" "at_address (in_memory ?c) 2 0 = 5"
    by (simp_all add: at_address_def example_context_def)
  let ?d = "?c\<lparr>depth := 99\<rparr>"
  have d: "Done view_DoneFallback 1 ?d = Some (Some 1, False, ?d)" "Done view_DoneFallback 3 ?d = Some (Some 3, True, ?d)"
    by (simp_all add: Done_def DoneWithCheck_def example_context_def cast_int_def kSlopBytes_def)
  have t: "ReadTag (\<lambda>p _. ReadTagInlined p) (at_address (in_memory ?d) 1) = Some (1, 8)"
    using M(2) by (simp add: ReadTag_def)
  have f: "FieldParser (\<lambda>p _. ParseBigVarint p) numbers 8 2 [] ?d = Some (Some 3, [5], ?d)"
    using M(3) by (simp add: FieldParser_def VarintParse_def numbers_def Let_def)
  have w: "WireFormatParser view_DoneFallback (\<lambda>p _. ReadTagInlined p) (FieldParser (\<lambda>p _. ParseBigVarint p) numbers) 1 [] ?d =
      Some (Some 3, [5], ?d)"
    using WireFormatParser_stop [OF d(2)]
    by (subst WireFormatParser_round [where F = "FieldParser (\<lambda>p _. ParseBigVarint p) numbers", OF d(1) t _ _ _])
       (use f in simp_all)
  have "ReadSizeAndPushLimitAndDepthInlined inline_size 0 ?c = Some (Some (1, 0), ?d)"
    using M(1) by (simp add: ReadSizeAndPushLimitAndDepthInlined_def ReadSize_def)
      (simp add: PushLimit_def example_context_def cast_int_def int32_def kSlopBytes_def INT_MAX_def)
  then have r: "ParseLengthDelimitedInlined inline_size (WireFormatParser view_DoneFallback (\<lambda>p _. ReadTagInlined p)
      (FieldParser (\<lambda>p _. ParseBigVarint p) numbers)) 0 [] ?c = Some (Some 3, [5], ?c)"
    using w by (simp add: ParseLengthDelimitedInlined_def PopLimit_def EndedAtLimit_def)
      (simp add: example_context_def int32_def INT_MAX_def)
  have p: "\<forall>n. steady (view_pos 3) (delimited_parser numbers n)" "\<forall>n. steady (view_pos 3) (group_parser numbers n)"
    by (simp_all add: numbers_def steady_def)
  have c: "limits_ok ?c" "EndedAtLimit ?c" "in_slop 5 0 ?c"
    by (simp_all add: example_context_def limits_ok_def EndedAtLimit_def in_slop_def INT_MAX_def)
  have "ReadSize inline_size (at_address (in_memory ?c) 0) = Some (1, 2)" using M(1) by (simp add: ReadSize_def)
  moreover have "place (view_pos 3) 0 ?c = 0" by (simp add: place_def view_pos_def example_context_def)
  moreover have "depth ?c = 100" by (simp add: example_context_def)
  ultimately show ?thesis using delimited_field_read_exactly [OF viewed.parse_library_axioms p r c] r by auto
qed

section \<open>Fields of numbers\<close>

text \<open>C33. Every kind of number is read back: of the bytes that a writer makes of a field, wherever they lie in memory
  and whatever follows, \<open>ReadTag\<close> reads the tag and \<open>FieldParser\<close> hands over the field number and the bits that were
  written and stops behind them; the size that is computed before writing is the number of bytes of the value; and the
  conversion of the reader undoes that of the writer, sign extension and zig-zag included.\<close>

theorem scalar_field_read_back:
  assumes "varint_library tag_rest size_rest slow32 slow64"
    and "holds (at_address (in_memory c) ptr) (write_scalar n s @ rest)" "0 \<le> ptr" "n \<noteq> 0" "n < 2 ^ 29"
  shows "\<exists>k. ReadTag tag_rest (at_address (in_memory c) ptr) = Some (k, MakeTag n (scalar_type s)) \<and>
    FieldParser slow64 P (MakeTag n (scalar_type s)) (ptr + int k) m c =
      Some (Some (ptr + int (length (write_scalar n s))), add_scalar P n s m, c) \<and>
    length (write_scalar n s) = k + scalar_size s \<and> off_the_wire s (on_the_wire s) = s"
  using varint_library.scalar_field_read [OF assms]
  by (intro exI [of _ "length (WriteTagToArray n (scalar_type s))"])
    (simp add: off_on_the_wire scalar_size_payload write_scalar_payload)

theorem scalar_field_read_back_witness:
  "\<exists>k. ReadTag (\<lambda>p _. ReadTagInlined p) (at_address (in_memory (example_context (write_scalar 7 (SInt32 (- 300))))) 0) =
     Some (k, MakeTag 7 WIRETYPE_VARINT)"
proof -
  have "holds (at_address (in_memory (example_context (write_scalar 7 (SInt32 (- 300))))) 0) (write_scalar 7 (SInt32 (- 300)) @ [])"
    by (simp add: holds_def at_address_def example_context_def)
  from scalar_field_read_back [OF inlined.varint_library_axioms this, where P = numbers and m = "[]"] show ?thesis
    by (auto simp: scalar_type_def)
qed

text \<open>C34. A packed field of zig-zag encoded numbers is read back: behind its tag comes the size of its elements, and the
  elements between there and the end that the size tells are those that were written.\<close>

theorem packed_field_read_back:
  assumes "varint_library tag_rest size_rest slow32 slow64"
    and "WriteSInt32Packed n vs (of_nat (sum_list (map SInt32Size vs))) = Some bytes" "sum_list (map SInt32Size vs) \<le> max_size"
    and "holds (at_address M ptr) (bytes @ rest)" "0 \<le> ptr"
  shows "\<exists>k l. ReadTag tag_rest (at_address M ptr) = Some (k, MakeTag n WIRETYPE_DELIMITED) \<and>
    ReadSize size_rest (at_address M (ptr + int k)) = Some (l, of_nat (sum_list (map SInt32Size vs))) \<and>
    ReadPackedVarintArray slow64 M (ptr + int (k + l)) (ptr + int (k + l + sum_list (map SInt32Size vs))) [] =
      Some (Some (ptr + int (length bytes)), map (\<lambda>v. ucast (ZigZagEncode32 v)) vs) \<and>
    map (\<lambda>w. ZigZagDecode32 (ucast w)) (map (\<lambda>v. ucast (ZigZagEncode32 v)) vs :: 64 word list) = vs"
proof -
  let ?ws = "map (\<lambda>v. ucast (ZigZagEncode32 v)) vs :: 64 word list"
  let ?t = "WriteTagToArray n WIRETYPE_DELIMITED" and ?c = "concat (map (\<lambda>w. varint (unat w)) ?ws)"
  let ?n = "sum_list (map SInt32Size vs)"
  have e: "map (\<lambda>v. UnsafeVarint (ZigZagEncode32 v)) vs = map (\<lambda>w. varint (unat w)) ?ws"
    by (simp add: UnsafeVarint_varint unat_ucast_64)
  have b: "bytes = ?t @ UnsafeVarint (of_nat ?n) @ ?c"
    unfolding e [symmetric] using assms(2) by (auto simp: WriteSInt32Packed_def WriteVarintPacked_def put_each_concat WriteLengthDelim_def WriteTag_def
        WIRETYPE_LENGTH_DELIMITED_def WriteTagToArray_def WriteVarint32ToArray_def MakeTag_def wire_type_def split: if_splits)
  have l: "length ?c = ?n"
    by (induction vs) (simp_all add: SInt32Size_def VarintSize32_length UnsafeVarint_varint unat_ucast_64)
  have "?n < 2 ^ 32" using assms(3) by (simp add: max_size_def)
  then have s: "UnsafeVarint (of_nat ?n) = varint ?n" by (simp add: UnsafeVarint_varint unat_of_nat_32)
  have h: "holds (at_address M ptr) (?t @ varint ?n @ ?c @ rest)" using assms(4) by (simp add: b s)
  then have h2: "holds (at_address M (ptr + int (length ?t))) (varint ?n @ ?c @ rest)"
    using holds_append [of "at_address M ptr" ?t] by (simp add: at_address_add [OF assms(5)])
  have size: "ReadSize size_rest (at_address M (ptr + int (length ?t))) = Some (length (varint ?n), of_nat ?n)"
    using varint_library.size_written [OF assms(1) h2 assms(3)] .
  have h3: "holds (at_address M (ptr + int (length ?t + length (varint ?n)))) (?c @ rest)"
    using h2 holds_append [of "at_address M (ptr + int (length ?t))" "varint ?n"] assms(5)
    by (simp add: at_address_add ahead_ahead flip: of_nat_add)
  show ?thesis
    using varint_library.tag_written [OF assms(1) h] size
      varint_library.ReadPacked_written [OF assms(1) h3, of "[]"] assms(5) l
    by (intro exI [of _ "length ?t"] exI [of _ "length (varint ?n)"])
      (simp add: b s casts o_def add.assoc)
qed

theorem packed_field_read_back_witness:
  "\<exists>k. ReadTag (\<lambda>p _. ReadTagInlined p)
     (at_address (in_memory (example_context (the (WriteSInt32Packed 4 [- 1, 5] 2)))) 0) = Some (k, MakeTag 4 WIRETYPE_DELIMITED)"
proof -
  have n: "sum_list (map SInt32Size [- 1, 5]) = 2" by code_simp
  obtain bytes where b: "WriteSInt32Packed 4 [- 1, 5] (of_nat (sum_list (map SInt32Size [- 1, 5]))) = Some bytes"
    by (simp add: WriteSInt32Packed_def WriteVarintPacked_def)
  have "holds (at_address (in_memory (example_context bytes)) 0) (bytes @ [])"
    by (simp add: holds_def at_address_def example_context_def)
  from packed_field_read_back [OF inlined.varint_library_axioms b _ this] show ?thesis
    using b unfolding n by (auto simp: max_size_def)
qed

text \<open>C35. Reading a packed array ends, whatever lies in memory.\<close>

theorem packed_array_read_ends:
  assumes "varint_library tag_rest size_rest slow32 slow64"
  shows "\<exists>p vs. ReadPackedVarintArray slow64 M ptr stop out = Some (p, vs)"
  using varint_library.ReadPacked_returns [OF assms, of M ptr stop out] by simp

theorem packed_array_read_ends_witness:
  "\<exists>p vs. ReadPackedVarintArray (\<lambda>p _. ParseBigVarint p) (\<lambda>a. 0xFF) 0 100 [] = Some (p, vs)"
  by (rule packed_array_read_ends [OF inlined.varint_library_axioms])

section \<open>The output of a serialisation\<close>

text \<open>C36. Whatever buffers a stream has, a list of questions or of groups that is serialised into it arrives as the bytes
  of its serialisation behind what was written before, unless the stream reports an error; no byte is stored
  outside a buffer and its slop, and there is room to go on writing.\<close>

theorem stream_receives_lists:
  assumes "message_stream L V write_message write_unknown" "in_out_buffer V ptr s"
    and "\<forall>i \<in> set (qal_items m). qa_fits i" "fits_int (qal_unknown m)"
    and "\<forall>i \<in> set (gl_items g). qag_fits i" "fits_int (gl_unknown g)"
  shows "(\<exists>p s'. QuestionAnswerList_InternalSerialize_to L write_message write_unknown m ptr s = Some (p, s') \<and>
      in_out_buffer V p s' \<and>
      (\<not> had_error s' \<longrightarrow> written V p s' = written V ptr s @ QuestionAnswerList_InternalSerialize m)) \<and>
    (\<exists>p s'. QuestionAnswerGroupList_InternalSerialize_to L write_message write_unknown g ptr s = Some (p, s') \<and>
      in_out_buffer V p s' \<and>
      (\<not> had_error s' \<longrightarrow> written V p s' = written V ptr s @ QuestionAnswerGroupList_InternalSerialize g))"
  using message_stream.QuestionAnswerList_writes [OF assms(1,3,4)] message_stream.QuestionAnswerGroupList_writes [OF assms(1,5,6)]
    assms(2)
  by (fastforce simp: writes_def appends_def)

text \<open>Into a sink that takes a thousand bytes, with the patch buffer at address 64.\<close>

theorem stream_receives_lists_witness:
  "\<exists>p s'. QuestionAnswerList_InternalSerialize_to sink_library sink_message sink_write
      (QuestionAnswerList_default\<lparr>qal_items := [set_id ''a'' QuestionAnswer_default]\<rparr>) 64
      (snd (new_out_stream 64 (\<lambda>_. 0) ([], 1000) False)) = Some (p, s') \<and>
     (\<not> had_error s' \<longrightarrow> written sink_view p s' = [CHR 0x0A, CHR 0x00, CHR 0x22, CHR 0x01, CHR ''a''])"
proof -
  let ?s = "snd (new_out_stream 64 (\<lambda>_. 0) ([], 1000) False) :: sink EpsCopyOutputStream"
  let ?m = "QuestionAnswerList_default\<lparr>qal_items := [set_id ''a'' QuestionAnswer_default]\<rparr>"
  have s: "in_out_buffer sink_view 64 ?s"
    by (simp add: in_out_buffer_def sink_view_def new_out_stream_def kSlopBytes_def)
  have m: "\<forall>i \<in> set (qal_items ?m). qa_fits i" "fits_int (qal_unknown ?m)"
    by (simp_all add: QuestionAnswerList_default_def QuestionAnswer_default_def set_id_def qa_fits_def fits_int_def)
  have g: "\<forall>i \<in> set (gl_items QuestionAnswerGroupList_default). qag_fits i" "fits_int (gl_unknown QuestionAnswerGroupList_default)"
    by (simp_all add: QuestionAnswerGroupList_default_def fits_int_def)
  have w: "written sink_view 64 ?s = []"
    by (simp add: written_def sink_view_def new_out_stream_def bytes_at_def)
  have "QuestionAnswerList_InternalSerialize ?m = [CHR 0x0A, CHR 0x00, CHR 0x22, CHR 0x01, CHR ''a'']"
    by (simp add: QuestionAnswerList_InternalSerialize_def QuestionAnswerList_default_def QuestionAnswer_default_def set_id_def
        QuestionAnswer_InternalSerialize_def InternalWriteMessage_def string_field_def WriteString_def WriteLengthDelim_def
        WriteTag_def WIRETYPE_LENGTH_DELIMITED_def UnsafeVarint_varint varint.simps char_of_def bit_0)
  then show ?thesis
    using stream_receives_lists [OF sunk_messages.message_stream_axioms s m g, of] w by auto
qed

text \<open>Any sequence of calls of \<open>CodedOutputStream\<close> appends the bytes of the calls, in order, unless the stream
  reports an error, and never stores outside a buffer and its slop.\<close>

theorem coded_calls_arrive:
  assumes "output_stream L V" "in_out_buffer V (cur c) (impl c)" "\<forall>x \<in> set xs. length (coded_bytes x) < 2 ^ 31"
  shows "\<exists>c'. perform_all L xs c = Some c' \<and> in_out_buffer V (cur c') (impl c') \<and> start_count c' = start_count c \<and>
    (\<not> had_error (impl c') \<longrightarrow>
       written V (cur c') (impl c') = written V (cur c) (impl c) @ concat (map coded_bytes xs))"
  using output_stream.calls_append [OF assms(1,3)] assms(2) by (fastforce simp: coded_appends_def appends_def)

theorem coded_calls_arrive_witness:
  "\<exists>c'. perform_all sink_library [PutVarint32 300, PutString ''a'']
      \<lparr>impl = snd (new_out_stream 64 (\<lambda>_. 0) ([], 1000) False), cur = 64, start_count = 0\<rparr> = Some c' \<and>
     (\<not> had_error (impl c') \<longrightarrow> written sink_view (cur c') (impl c') = [CHR 0xAC, CHR 0x02, CHR ''a''])"
proof -
  let ?c = "\<lparr>impl = snd (new_out_stream 64 (\<lambda>_. 0) ([], 1000) False) :: sink EpsCopyOutputStream, cur = 64, start_count = 0\<rparr>"
  have s: "in_out_buffer sink_view (cur ?c) (impl ?c)"
    by (simp add: in_out_buffer_def sink_view_def new_out_stream_def kSlopBytes_def)
  have b: "concat (map coded_bytes [PutVarint32 300, PutString ''a'']) = [CHR 0xAC, CHR 0x02, CHR ''a'']"
    by (simp add: WriteVarint32ToArray_def UnsafeVarint_varint varint.simps char_of_def bit_0)
  then have "\<forall>x \<in> set [PutVarint32 300, PutString ''a'']. length (coded_bytes x) < 2 ^ 31"
    by (simp add: WriteVarint32ToArray_def UnsafeVarint_varint varint.simps)
  moreover have "written sink_view 64 (impl ?c) = []"
    by (simp add: written_def sink_view_def new_out_stream_def bytes_at_def)
  ultimately show ?thesis
    using coded_calls_arrive [OF sunk.output_stream_axioms s, of "[PutVarint32 300, PutString ''a'']"] b by auto
qed

text \<open>C37. Numbers and tags that were written to a \<open>CodedOutputStream\<close>, through whatever buffers, are read back by a
  \<open>CodedInputStream\<close> over what arrived, through whatever buffers, and nothing is left over.\<close>

theorem coded_numbers_read_back:
  assumes "output_stream L V" "coded_input R later usable" "\<forall>x \<in> set xs. is_number x"
    and "in_out_buffer V (cur c) (impl c)" "perform_all L xs c = Some c'" "\<not> had_error (impl c')"
    and "readable usable d" "written V (cur c') (impl c') = written V (cur c) (impl c) @ unread later d"
  shows "\<exists>d'. read_all R xs d = Some (xs, d') \<and> readable usable d' \<and> unread later d' = []"
proof -
  have "\<forall>x \<in> set xs. length (coded_bytes x) < 2 ^ 31" using assms(3) short_call by (fastforce intro: le_less_trans)
  from output_stream.calls_append [OF assms(1) this] have "unread later d = concat (map coded_bytes xs) @ []"
    using assms(4-6,8) by (auto simp: coded_appends_def appends_def)
  then show ?thesis using coded_input.read_all_back [OF assms(2,3,7)] by blast
qed

theorem coded_numbers_read_back_witness:
  "\<exists>d. read_all flat_library [PutVarint32 300, PutFixed16 7]
      (flat_of [CHR 0xAC, CHR 0x02, CHR 0x07, CHR 0x00] :: unit CodedInputStream) =
    Some ([PutVarint32 300, PutFixed16 7], d)"
proof -
  let ?xs = "[PutVarint32 300, PutFixed16 7]"
  let ?c = "\<lparr>impl = snd (new_out_stream 64 (\<lambda>_. 0) ([], 1000) False) :: sink EpsCopyOutputStream, cur = 64, start_count = 0\<rparr>"
  let ?d = "flat_of [CHR 0xAC, CHR 0x02, CHR 0x07, CHR 0x00] :: unit CodedInputStream"
  have n: "\<forall>x \<in> set ?xs. is_number x" by simp
  have b: "in_out_buffer sink_view (cur ?c) (impl ?c)"
    by (simp add: in_out_buffer_def sink_view_def new_out_stream_def kSlopBytes_def)
  have w: "UnsafeVarint 300 = [CHR 0xAC, CHR 0x02]" by (simp add: UnsafeVarint_varint varint.simps char_of_def bit_0)
  have s: "WriteLittleEndian16ToArray 7 = [CHR 0x07, CHR 0x00]" by (simp add: WriteLittleEndian16ToArray_def char_of_def bit_0)
  obtain c' where c: "perform_all sink_library ?xs ?c = Some c'" "\<not> had_error (impl c')"
    "written sink_view (cur c') (impl c') = [CHR 0xAC, CHR 0x02, CHR 0x07, CHR 0x00]"
    by (simp add: WriteVarint32_def WriteLittleEndian16_def on_impl_def EnsureSpace_def sink_library_def sink_write_def
        new_out_stream_def bytes_at_def UnsafeVarint_to_put w s put_byte_def kSlopBytes_def written_def sink_view_def Let_def
        upt_rec char_of_def bit_0)
  have u: "unread (\<lambda>_. []) ?d = [CHR 0xAC, CHR 0x02, CHR 0x07, CHR 0x00]" by (rule flat_of(2))
  have r: "readable IsFlat ?d" by (rule flat_of(1)) (simp add: INT_MAX_def)
  have "written sink_view (cur ?c) (impl ?c) = []"
    by (simp add: written_def sink_view_def new_out_stream_def bytes_at_def)
  then show ?thesis
    using coded_numbers_read_back [OF sunk.output_stream_axioms flat.coded_input_axioms n b c(1,2) r] c(3) u by auto
qed

text \<open>C38. The ways of reading a tag agree: with a cutoff, the tag and what is left are the same, and the flag of a tag other
  than zero tells whether it is at most the cutoff; and an expected tag that is consumed is the tag that would have
  been read, with the same left over.\<close>

theorem tag_readers_agree:
  assumes "coded_input R later usable" "readable usable c"
    and "take_varint 5 (unread later c) = Some (n, rest)" "n < 2 ^ 32"
  shows "(\<exists>c1 c2 below. ReadTagNoLastTag R c = (of_nat n, c1) \<and>
      ReadTagWithCutoffNoLastTag R cutoff c = ((of_nat n, below), c2) \<and>
      unread later c1 = rest \<and> unread later c2 = rest \<and> (n \<noteq> 0 \<longrightarrow> below = (of_nat n \<le> cutoff))) \<and>
    (\<forall>e c'. ExpectTag e c = (True, c') \<longrightarrow>
      (\<exists>c1. ReadTagNoLastTag R c = (e, c1) \<and> unread later c1 = unread later c'))"
  using coded_input.ReadTagNoLastTag_reads [OF assms] coded_input.cutoff_agrees [OF assms, of cutoff]
    coded_input.ExpectTag_agrees [OF assms(1,2)]
  by (metis (no_types, lifting))

theorem tag_readers_agree_witness:
  "\<exists>c1 c2 below. ReadTagNoLastTag flat_library (flat_of [CHR 0xAC, CHR 0x02] :: unit CodedInputStream) =
      (300, c1) \<and>
    ReadTagWithCutoffNoLastTag flat_library 200 (flat_of [CHR 0xAC, CHR 0x02] :: unit CodedInputStream) =
      ((300, below), c2) \<and> unread (\<lambda>_. []) c2 = [] \<and> \<not> below"
proof -
  let ?d = "flat_of [CHR 0xAC, CHR 0x02] :: unit CodedInputStream"
  have "unread (\<lambda>_. []) ?d = [CHR 0xAC, CHR 0x02]" by (rule flat_of(2))
  then have t: "take_varint 5 (unread (\<lambda>_. []) ?d) = Some (300, [])" by (simp add: numeral_eq_Suc Let_def)
  have r: "readable IsFlat ?d" by (rule flat_of(1)) (simp add: INT_MAX_def)
  show ?thesis using tag_readers_agree [OF flat.coded_input_axioms r t, of 200] by auto
qed

text \<open>C39. A list of questions that was written is read back from memory by the parse loop of the headers, with the limits of
  its items pushed and popped and the buffer changed in between, whatever address it lies at; the parse ends exactly
  at its end, with the depth as before. That holds for every library that crosses buffers as documented, and for all
  clients of the field parser that store the strings they are given and parse the items as nested messages.\<close>

theorem questions_read_back_in_memory:
  assumes "memory_library DoneFallback ReadTagFallback ReadSizeFallback VarintParseSlow32 VarintParseSlow64"
    and "reads_records Q QuestionAnswer_table u"
    and "delimited_parser P 1 = nested_field ReadSizeFallback
      (WireFormatParser DoneFallback ReadTagFallback (FieldParser VarintParseSlow64 Q)) QuestionAnswer_default
      (\<lambda>q n. n\<lparr>qal_items := qal_items n @ [q]\<rparr>)"
    and "\<forall>q \<in> set (qal_items m). qa_writable u q" "qal_unknown m = []"
    and "length (fst (QuestionAnswerList_SerializeToOstream m)) \<le> max_size"
    and "s = fst (QuestionAnswerList_SerializeToOstream m)"
    and "holds (at_address M data) s" "0 \<le> data" "0 \<le> buffer" "1 \<le> recursion"
    and "InitFrom data (int (length s)) (new_context recursion alias buffer z M) = (p, c)"
  shows "\<exists>q c'. WireFormatParser DoneFallback ReadTagFallback (FieldParser VarintParseSlow64 P) p QuestionAnswerList_default c =
      Some (Some q, QuestionAnswerList_default\<lparr>qal_items := map (\<lambda>q. q\<lparr>qa_cached := 0\<rparr>) (qal_items m)\<rparr>, c') \<and>
    EndedAtLimit c' \<and> until_limit q c' = 0 \<and> depth c' = recursion"
proof -
  have "stands c p (fst (QuestionAnswerList_SerializeToOstream m)) []" "depth c = recursion"
    using InitFrom_stands [OF assms(12,8-10)] assms(6,7) by simp_all
  with memory_library.questions_read_in_memory [OF assms(1-6)] assms(11) show ?thesis by fastforce
qed

text \<open>A list of one question of three bytes, read by the inlined routines and the example clients from address 32.\<close>

theorem questions_read_back_in_memory_witness:
  "\<exists>p c q c'. InitFrom 32 5 (new_context 1 False 0 () (stored 32 [CHR 0x0A, CHR 0x03, CHR 0x22, CHR 0x01, CHR ''a''])) = (p, c) \<and>
     WireFormatParser view_DoneFallback (\<lambda>p _. ReadTagInlined p) (FieldParser (\<lambda>p _. ParseBigVarint p)
       (example_client (\<lambda>_. nested_field inline_size
         (WireFormatParser view_DoneFallback (\<lambda>p _. ReadTagInlined p) (FieldParser (\<lambda>p _. ParseBigVarint p)
           (example_message inline_size utf8_valid QuestionAnswer_table)))
         QuestionAnswer_default (\<lambda>q n. n\<lparr>qal_items := qal_items n @ [q]\<rparr>)))) p QuestionAnswerList_default c =
     Some (Some q, QuestionAnswerList_default\<lparr>qal_items := [set_id ''a'' QuestionAnswer_default]\<rparr>, c')"
proof -
  let ?m = "QuestionAnswerList_default\<lparr>qal_items := [set_id ''a'' QuestionAnswer_default]\<rparr>"
  let ?s = "[CHR 0x0A, CHR 0x03, CHR 0x22, CHR 0x01, CHR ''a'']"
  let ?c = "new_context 1 False 0 () (stored 32 ?s)"
  have w: "\<forall>q \<in> set (qal_items ?m). qa_writable utf8_valid q" "qal_unknown ?m = []"
    by (simp_all add: QuestionAnswerList_default_def QuestionAnswer_default_def set_id_def qa_writable_def Let_def)
  have s: "fst (QuestionAnswerList_SerializeToOstream ?m) = ?s"
    by (simp add: qal_SerializeToOstream_bytes QuestionAnswerList_default_def QuestionAnswer_default_def set_id_def
        QuestionAnswer_InternalSerialize_def framed_def InternalWriteMessage_def string_field_def WriteString_def
        WriteLengthDelim_def WriteTag_def WIRETYPE_LENGTH_DELIMITED_def UnsafeVarint_varint varint.simps char_of_def bit_0)
  obtain p c where i: "InitFrom 32 (int (length ?s)) ?c = (p, c)" by fastforce
  have l: "length (fst (QuestionAnswerList_SerializeToOstream ?m)) \<le> max_size" unfolding s by (simp add: max_size_def)
  have h: "holds (at_address (stored 32 ?s) 32) ?s" using stored_holds [of 32 ?s] by simp
  show ?thesis
    using questions_read_back_in_memory [OF crossed.memory_library_axioms
        inlined.example_message_reads [OF delimited_tables(1), of utf8_valid] _ w l s [symmetric] h _ _ _ i,
      of "example_client (\<lambda>_. nested_field inline_size (WireFormatParser view_DoneFallback (\<lambda>p _. ReadTagInlined p)
        (FieldParser (\<lambda>p _. ParseBigVarint p) (example_message inline_size utf8_valid QuestionAnswer_table)))
        QuestionAnswer_default (\<lambda>q n. n\<lparr>qal_items := qal_items n @ [q]\<rparr>))"] i
    by (fastforce simp: example_client_def QuestionAnswerList_default_def QuestionAnswer_default_def set_id_def)
qed

text \<open>C40. The string fields of messages are well typed: whatever fields are constructed, copied, set, cleared, assigned
  through \<open>Mutable\<close> and swapped, nothing undefined happens, no dangling pointer is followed and no \<open>ABSL_DCHECK\<close> is
  violated; unless an allocation fails, every field is the shared empty string tagged as a default or an object of its
  own tagged by whether there is an arena, and it holds the value the calls gave it, and nothing else in the store is
  touched. Without an arena the destructors then free exactly what the fields own.\<close>

theorem string_fields_stay_well_typed:
  assumes "string_fields L e" "h0 e = Some ([], None)" "calls_name_fields calls []"
  shows "perform_strings L harden e a calls [] h0 \<noteq> Undef \<and>
    (\<forall>ts h. perform_strings L harden e a calls [] h0 = Ret (ts, h) \<longrightarrow>
       message_strings e a h0 h ts (fold string_effect calls []) \<and>
       map (\<lambda>t. field_Get_string t h) ts = map Some (fold string_effect calls []) \<and>
       (a = None \<longrightarrow> destroy_strings L ts h = Some h0))"
proof -
  have "message_strings e a h0 h0 [] []" using assms(2) by (simp add: message_strings_def owns_string_def)
  from string_fields.perform_strings_keep [OF assms(1) this assms(3), of harden]
  have r: "perform_strings L harden e a calls [] h0 \<noteq> Undef"
    "\<And>ts h. perform_strings L harden e a calls [] h0 = Ret (ts, h) \<Longrightarrow> message_strings e a h0 h ts (fold string_effect calls [])"
    by (auto simp: unless_thrown_def)
  then show ?thesis
    using string_fields.destroyed [OF assms(1)] string_fields.fields_read [OF assms(1) r(2)] by blast
qed

theorem string_fields_stay_well_typed_witness:
  "\<exists>ts h. perform_strings plain_strings True 8 None [ConstructField, SetField 0 ''a'', CopyField 0, ClearField 0, SwapFields 0 1]
       [] ((\<lambda>_. None)(8 \<mapsto> ([], None))) = Ret (ts, h) \<and>
     map (\<lambda>t. field_Get_string t h) ts = [Some ''a'', Some []] \<and>
     destroy_strings plain_strings ts h = Some ((\<lambda>_. None)(8 \<mapsto> ([], None)))"
proof -
  let ?h = "(\<lambda>_. None)(8 \<mapsto> ([], None)) :: string_heap"
  let ?cs = "[ConstructField, SetField 0 ''a'', CopyField 0, ClearField 0, SwapFields 0 1]"
  have "perform_strings plain_strings True 8 None ?cs [] ?h \<noteq> Throw bad_alloc"
    by (simp add: new_string_field_def SetBytes_def plain_strings_def fresh_string_def first_free_def upt_rec IsDefault_def IsNull_def
        tagged_Get_def kMask_def kMutableBit_def copy_string_field_def tagged_Copy_def string_InternalSwap_def harden_swapped_def
        SetAllocated_def TagAs_def Let_def)
  moreover have c: "calls_name_fields ?cs []" by simp
  note t = string_fields_stay_well_typed [OF plain.string_fields_axioms _ c, of ?h True None]
  ultimately obtain ts h where "perform_strings plain_strings True 8 None ?cs [] ?h = Ret (ts, h)"
    using t by (cases "perform_strings plain_strings True 8 None ?cs [] ?h") (auto, metis alloc_error.exhaust)
  then show ?thesis using t by fastforce
qed

end
